(* ===== verification/Prelude.thy ===== *)
theory Prelude
  imports Main "HOL-Library.Word"
begin

text \<open>
  Shared vocabulary of the development: the outcomes of C++ code that may not return
  normally, byte and string conversions, the memory primitives of the buffers, and the
  rule collections the component theories feed and use.
\<close>

unbundle bit_operations_syntax

named_theorems inv_intros \<open>preservation of component invariants\<close>
named_theorems codec_simps \<open>laws of the wire encodings\<close>

section \<open>Outcomes\<close>

text \<open>
  Ways in which the C++ code stops without returning: a failed assert, an uncaught
  \<open>std::out_of_range\<close>, a null dereference, an access outside a buffer, a read of memory
  that was never initialised, and \<open>exit\<close>.
\<close>

datatype abort =
    AssertFail
  | OutOfRange
  | NullDeref
  | OutOfBounds
  | Exit

type_synonym 'a res = "abort + 'a"

definition rbind :: "'e + 'a \<Rightarrow> ('a \<Rightarrow> 'e + 'b) \<Rightarrow> 'e + 'b" where
  "rbind r k = (case r of Inl e \<Rightarrow> Inl e | Inr x \<Rightarrow> k x)"

lemma rbind_simps [simp]:
  "rbind (Inl e) k = Inl e"
  "rbind (Inr x) k = k x"
  by (simp_all add: rbind_def)

lemma rbind_eq_Inr_iff: "rbind r k = Inr y \<longleftrightarrow> (\<exists>x. r = Inr x \<and> k x = Inr y)"
  by (cases r) auto

lemma rbind_assoc: "rbind (rbind r f) g = rbind r (\<lambda>x. rbind (f x) g)"
  by (cases r) auto

section \<open>Bytes, characters and machine integers\<close>

type_synonym byte = "8 word"
type_synonym u16 = "16 word"
type_synonym u32 = "32 word"
type_synonym u64 = "64 word"

lemma less_succ_u32: "x \<noteq> - 1 \<Longrightarrow> (y :: u32) \<le> x \<Longrightarrow> y < x + 1"
proof -
  assume x: "x \<noteq> - 1" and y: "y \<le> x"
  have "x + 1 \<noteq> 0" using x by (simp add: add_eq_0_iff2)
  then have "unat (x + 1) = unat x + 1" by (metis unatSuc Suc_eq_plus1 add.commute)
  then show ?thesis using y by (simp add: word_less_nat_alt word_le_nat_alt)
qed

lemma room_u32: "unat (x :: u32) + Suc n < 2 ^ 32 \<Longrightarrow> x \<noteq> - 1 \<and> unat (x + 1) = Suc (unat x)"
proof -
  assume lt: "unat x + Suc n < 2 ^ 32"
  then have "x \<noteq> - 1" by (auto simp: unsigned_minus_1_eq_mask mask_eq_exp_minus_1)
  then have "x + 1 \<noteq> 0" by (simp add: add_eq_0_iff2)
  then show ?thesis using \<open>x \<noteq> - 1\<close> by (simp add: unatSuc add.commute)
qed

definition byte_of_char :: "char \<Rightarrow> byte" where
  "byte_of_char c = of_char c"

definition char_of_byte :: "byte \<Rightarrow> char" where
  "char_of_byte b = char_of (unat b)"

lemma char_of_byte_of_char [simp]: "char_of_byte (byte_of_char c) = c"
proof -
  have "(of_char c :: byte) = word_of_nat (of_char c)"
    by (simp add: of_nat_of_char)
  moreover have "(of_char c :: nat) < 256"
    using nat_of_char_less_256 by auto
  ultimately have "unat (of_char c :: byte) = of_char c"
    by (simp add: unat_of_nat take_bit_nat_eq_self)
  then show ?thesis
    by (simp add: char_of_byte_def byte_of_char_def)
qed

lemma char_of_byte_comp [simp]: "char_of_byte \<circ> byte_of_char = id"
  by (simp add: fun_eq_iff)

lemma map_char_of_byte_of_char: "map char_of_byte (map byte_of_char s) = s"
  by simp

section \<open>Memory\<close>

text \<open>
  A heap buffer is the list of its bytes. \<open>realloc\<close> keeps the old contents; the bytes it
  adds are indeterminate in C and are never read before they are written, so any fixed
  value stands for them.
\<close>

definition realloc :: "byte list \<Rightarrow> nat \<Rightarrow> byte list" where
  "realloc b n = take n b @ replicate (n - length b) 0"

definition memcpy :: "byte list \<Rightarrow> nat \<Rightarrow> byte list \<Rightarrow> byte list" where
  "memcpy b i p = take i b @ p @ drop (i + length p) b"

lemma length_realloc [simp]: "length (realloc b n) = n"
  by (simp add: realloc_def)

lemma take_realloc: "i \<le> n \<Longrightarrow> i \<le> length b \<Longrightarrow> take i (realloc b n) = take i b"
  by (simp add: realloc_def min_def)

lemma length_memcpy [simp]: "i + length p \<le> length b \<Longrightarrow> length (memcpy b i p) = length b"
  by (simp add: memcpy_def)

lemma take_memcpy: "i \<le> length b \<Longrightarrow> take (i + length p) (memcpy b i p) = take i b @ p"
  by (simp add: memcpy_def)

lemma list_update_memcpy: "i < length b \<Longrightarrow> b[i := x] = memcpy b i [x]"
  by (simp add: memcpy_def upd_conv_take_nth_drop)

text \<open>\<open>slice i j b\<close>: the bytes from position \<open>i\<close> up to but not including \<open>j\<close>.\<close>

definition slice :: "nat \<Rightarrow> nat \<Rightarrow> 'a list \<Rightarrow> 'a list" where
  "slice i j b = drop i (take j b)"

lemma length_slice [simp]: "length (slice i j b) = min j (length b) - i"
  by (simp add: slice_def min_def)

end
