(* ===== verification/Timespec.thy ===== *)
theory Timespec
  imports Prelude "HOL-Library.Signed_Division"
begin

text \<open>
  The time arithmetic of \<open>rpc/rpc.cc\<close>: \<open>cmp_timespec\<close>, \<open>add_timespec\<close> and
  \<open>diff_timespec\<close>.  Seconds and nanoseconds are \<open>long\<close>s whose sums stay far from their
  bounds, so they are integers here; C's division truncates towards zero.
\<close>

record timespec =
  tv_sec :: int
  tv_nsec :: int

definition cmp_timespec :: "timespec \<Rightarrow> timespec \<Rightarrow> int" where
  "cmp_timespec a b =
     (if tv_sec a > tv_sec b then 1
      else if tv_sec a < tv_sec b then -1
      else if tv_nsec a > tv_nsec b then 1
      else if tv_nsec a < tv_nsec b then -1
      else 0)"

text \<open>The carry loop of \<open>add_timespec\<close>.\<close>

function carry_loop :: "timespec \<Rightarrow> timespec" where
  "carry_loop r =
     (if tv_nsec r > 1000000000
      then carry_loop (r\<lparr>tv_sec := tv_sec r + 1, tv_nsec := tv_nsec r - 1000000000\<rparr>)
      else r)"
  by pat_completeness auto
termination
  by (relation "measure (\<lambda>r. nat (tv_nsec r))") auto

declare carry_loop.simps [simp del]

definition add_timespec :: "timespec \<Rightarrow> int \<Rightarrow> timespec res" where
  "add_timespec a b =
     (let r = \<lparr>tv_sec = tv_sec a + b sdiv 1000, tv_nsec = tv_nsec a + (b smod 1000) * 1000000\<rparr>
      in if tv_nsec r \<ge> 0 then Inr (carry_loop r) else Inl AssertFail)"

definition diff_timespec :: "timespec \<Rightarrow> timespec \<Rightarrow> int res" where
  "diff_timespec e s =
     (let diff = (if tv_sec e > tv_sec s then (tv_sec e - tv_sec s) * 1000 else 0)
      in if diff = 0 \<and> tv_sec e \<noteq> tv_sec s then Inl AssertFail
         else if tv_nsec e > tv_nsec s
         then Inr (diff + (tv_nsec e - tv_nsec s) sdiv 1000000)
         else Inr (diff - (tv_nsec s - tv_nsec e) sdiv 1000000))"

definition ts_ns :: "timespec \<Rightarrow> int" where
  "ts_ns t = tv_sec t * 1000000000 + tv_nsec t"

definition ts_ok :: "timespec \<Rightarrow> bool" where
  "ts_ok t \<longleftrightarrow> 0 \<le> tv_nsec t \<and> tv_nsec t < 1000000000"

lemma carry_loop_spec:
  "0 \<le> tv_nsec r \<Longrightarrow> ts_ns (carry_loop r) = ts_ns r \<and> 0 \<le> tv_nsec (carry_loop r) \<and>
    tv_nsec (carry_loop r) \<le> 1000000000"
proof (induction r rule: carry_loop.induct)
  case (1 r)
  show ?case
  proof (cases "tv_nsec r > 1000000000")
    case True
    then show ?thesis
      using "1.IH" [OF True] "1.prems" by (simp add: carry_loop.simps [of r] ts_ns_def)
  next
    case False
    then show ?thesis using "1.prems" by (simp add: carry_loop.simps [of r])
  qed
qed

lemma sdiv_smod_1000: "0 \<le> b \<Longrightarrow> b sdiv 1000 = b div 1000 \<and> b smod 1000 = b mod 1000" for b :: int
  by (simp add: signed_divide_int_def signed_modulo_int_def sgn_if minus_div_mult_eq_mod)

text \<open>
  Normalised times are compared as the instants they stand for.
\<close>

lemma cmp_timespec_ns:
  assumes "ts_ok a" and "ts_ok b"
  shows "cmp_timespec a b = (if ts_ns a > ts_ns b then 1 else if ts_ns a < ts_ns b then -1 else 0)"
  using assms by (simp add: cmp_timespec_def ts_ok_def ts_ns_def)

text \<open>for a non-negative timeout in milliseconds \<open>add_timespec\<close> never aborts, adds exactly
  that many milliseconds, and leaves a nanosecond field of at most \<open>10^9\<close>.\<close>

theorem add_timespec_correct:
  assumes "ts_ok a" and "0 \<le> b"
  shows "\<exists>r. add_timespec a b = Inr r \<and> ts_ns r = ts_ns a + b * 1000000 \<and>
    0 \<le> tv_nsec r \<and> tv_nsec r \<le> 1000000000"
proof -
  let ?r = "\<lparr>tv_sec = tv_sec a + b div 1000, tv_nsec = tv_nsec a + (b mod 1000) * 1000000\<rparr>"
  have pos: "0 \<le> tv_nsec ?r" using assms by (simp add: ts_ok_def)
  have "b div 1000 * 1000000000 + b mod 1000 * 1000000 = b * 1000000"
    using div_mult_mod_eq [of b 1000] by linarith
  then have "ts_ns ?r = ts_ns a + b * 1000000" by (simp add: ts_ns_def)
  then show ?thesis
    using carry_loop_spec [OF pos] pos sdiv_smod_1000 [OF assms(2)]
    by (simp add: add_timespec_def Let_def)
qed

theorem add_timespec_correct_witness:
  "\<exists>r. add_timespec \<lparr>tv_sec = 5, tv_nsec = 900000000\<rparr> 1200 = Inr r \<and>
    ts_ns r = ts_ns \<lparr>tv_sec = 5, tv_nsec = 900000000\<rparr> + 1200 * 1000000 \<and>
    0 \<le> tv_nsec r \<and> tv_nsec r \<le> 1000000000"
  by (rule add_timespec_correct) (simp_all add: ts_ok_def)

text \<open>
  The bound is reached: the loop condition uses \<open>>\<close>, so exactly one second of nanoseconds
  is not carried and the result is not a normalised \<open>timespec\<close>.
\<close>

lemma add_timespec_not_normalised:
  "add_timespec \<lparr>tv_sec = 5, tv_nsec = 500000000\<rparr> 500 = Inr \<lparr>tv_sec = 5, tv_nsec = 1000000000\<rparr>"
  by (simp add: add_timespec_def carry_loop.simps signed_divide_int_def signed_modulo_int_def)

end
