(* ===== verification/Marshal.thy ===== *)
theory Marshal
  imports Prelude
begin

text \<open>
  The marshalling layer of the RPC library: classes \<open>marshall\<close> and \<open>unmarshall\<close> of
  \<open>rpc/marshall.h\<close> with their operators in \<open>rpc/rpc.cc\<close>.  A \<open>marshall\<close> object is a
  growing buffer with a write head, an \<open>unmarshall\<close> object a received buffer with a read
  head and a sticky error flag.  The buffer contract (every write lands inside the
  allocated block, the content grows by exactly the encoding) and the round trip of each
  scalar operator are proved here; the interface the rest of the library uses is the
  locale \<open>codec\<close> at the end.
\<close>

section \<open>Headers\<close>

text \<open>
  \<open>RPC_CHECKSUMMING\<close> is not defined by the build, so the reserved header is the larger of
  the two header structs (five 4-byte fields) plus the 4-byte PDU size.
\<close>

record req_header =
  h_xid :: u32
  h_proc :: u32
  h_clt_nonce :: u32
  h_srv_nonce :: u32
  h_xid_rep :: u32

record reply_header =
  rh_xid :: u32
  rh_ret :: u32

definition DEFAULT_RPC_SZ :: nat where "DEFAULT_RPC_SZ = 1024"
definition RPC_HEADER_SZ :: nat where "RPC_HEADER_SZ = max (5 * 4) (2 * 4) + 4"
definition rpc_sz_t_size :: nat where "rpc_sz_t_size = 4"

lemma RPC_HEADER_SZ_eq [simp]: "RPC_HEADER_SZ = 24"
  by (simp add: RPC_HEADER_SZ_def)

lemma rpc_sz_t_size_eq [simp]: "rpc_sz_t_size = 4"
  by (simp add: rpc_sz_t_size_def)

section \<open>Writing\<close>

record marshall =
  m_buf :: "byte list"
  m_capa :: nat
  m_ind :: nat

definition marshall_new :: marshall where
  "marshall_new = \<lparr>m_buf = realloc [] DEFAULT_RPC_SZ, m_capa = DEFAULT_RPC_SZ,
     m_ind = RPC_HEADER_SZ\<rparr>"

definition m_rawbyte :: "marshall \<Rightarrow> byte \<Rightarrow> marshall" where
  "m_rawbyte m x =
     (let m1 = (if m_ind m \<ge> m_capa m
                then m\<lparr>m_capa := m_capa m * 2, m_buf := realloc (m_buf m) (m_capa m * 2)\<rparr>
                else m)
      in m1\<lparr>m_buf := (m_buf m1)[m_ind m1 := x], m_ind := m_ind m1 + 1\<rparr>)"

definition m_rawbytes :: "marshall \<Rightarrow> byte list \<Rightarrow> marshall" where
  "m_rawbytes m p =
     (let n = length p;
          m1 = (if m_ind m + n > m_capa m
                then let c = (if m_capa m > n then 2 * m_capa m else m_capa m + n)
                     in m\<lparr>m_capa := c, m_buf := realloc (m_buf m) c\<rparr>
                else m)
      in m1\<lparr>m_buf := memcpy (m_buf m1) (m_ind m1) p, m_ind := m_ind m1 + n\<rparr>)"

definition m_content :: "marshall \<Rightarrow> byte list" where
  "m_content m = slice RPC_HEADER_SZ (m_ind m) (m_buf m)"

definition put_u8 :: "marshall \<Rightarrow> byte \<Rightarrow> marshall" where
  "put_u8 m x = m_rawbyte m x"

definition put_u16 :: "marshall \<Rightarrow> u16 \<Rightarrow> marshall" where
  "put_u16 m x =
     (let m = m_rawbyte m (ucast (drop_bit 8 x AND 0xff))
      in m_rawbyte m (ucast (x AND 0xff)))"

definition put_u32 :: "marshall \<Rightarrow> u32 \<Rightarrow> marshall" where
  "put_u32 m x =
     (let m = m_rawbyte m (ucast (drop_bit 24 x AND 0xff));
          m = m_rawbyte m (ucast (drop_bit 16 x AND 0xff));
          m = m_rawbyte m (ucast (drop_bit 8 x AND 0xff))
      in m_rawbyte m (ucast (x AND 0xff)))"

text \<open>The signed and \<open>char\<close> variants convert to the unsigned type of the same width.\<close>

definition put_char :: "marshall \<Rightarrow> byte \<Rightarrow> marshall" where
  "put_char m x = put_u8 m x"

definition put_short :: "marshall \<Rightarrow> u16 \<Rightarrow> marshall" where
  "put_short m x = put_u16 m x"

definition put_int :: "marshall \<Rightarrow> u32 \<Rightarrow> marshall" where
  "put_int m x = put_u32 m x"

definition put_u64 :: "marshall \<Rightarrow> u64 \<Rightarrow> marshall" where
  "put_u64 m x = put_u32 (put_u32 m (ucast (drop_bit 32 x))) (ucast x)"

definition put_string :: "marshall \<Rightarrow> string \<Rightarrow> marshall" where
  "put_string m s = m_rawbytes (put_u32 m (of_nat (length s))) (map byte_of_char s)"

text \<open>\<open>pack\<close> is the operator for \<open>int\<close> under another name.\<close>

definition m_pack :: "marshall \<Rightarrow> u32 \<Rightarrow> marshall" where
  "m_pack m x =
     (let m = m_rawbyte m (ucast (drop_bit 24 x AND 0xff));
          m = m_rawbyte m (ucast (drop_bit 16 x AND 0xff));
          m = m_rawbyte m (ucast (drop_bit 8 x AND 0xff))
      in m_rawbyte m (ucast (x AND 0xff)))"

definition pack_req_header :: "marshall \<Rightarrow> req_header \<Rightarrow> marshall" where
  "pack_req_header m h =
     (let saved_sz = m_ind m;
          m = m\<lparr>m_ind := rpc_sz_t_size\<rparr>;
          m = m_pack m (h_xid h);
          m = m_pack m (h_proc h);
          m = m_pack m (h_clt_nonce h);
          m = m_pack m (h_srv_nonce h);
          m = m_pack m (h_xid_rep h)
      in m\<lparr>m_ind := saved_sz\<rparr>)"

definition pack_reply_header :: "marshall \<Rightarrow> reply_header \<Rightarrow> marshall" where
  "pack_reply_header m h =
     (let saved_sz = m_ind m;
          m = m\<lparr>m_ind := rpc_sz_t_size\<rparr>;
          m = m_pack m (rh_xid h);
          m = m_pack m (rh_ret h)
      in m\<lparr>m_ind := saved_sz\<rparr>)"

text \<open>The PDU handed to the channel: \<open>cstr()\<close> with \<open>size()\<close>, or \<open>take_buf\<close>.\<close>

definition m_pdu :: "marshall \<Rightarrow> byte list" where
  "m_pdu m = take (m_ind m) (m_buf m)"

section \<open>Reading\<close>

record unmarshall =
  u_buf :: "byte list"
  u_sz :: nat
  u_ind :: nat
  u_ok :: bool

definition unmarshall_empty :: unmarshall where
  "unmarshall_empty = \<lparr>u_buf = [], u_sz = 0, u_ind = 0, u_ok = False\<rparr>"

definition unmarshall_buf :: "byte list \<Rightarrow> unmarshall" where
  "unmarshall_buf b = \<lparr>u_buf = b, u_sz = length b, u_ind = 0, u_ok = True\<rparr>"

text \<open>The constructor from a string: \<open>take_content\<close> leaves room for a header.\<close>

definition unmarshall_content :: "byte list \<Rightarrow> unmarshall" where
  "unmarshall_content s =
     \<lparr>u_buf = memcpy (realloc [] (length s + RPC_HEADER_SZ)) RPC_HEADER_SZ s,
      u_sz = length s + RPC_HEADER_SZ, u_ind = RPC_HEADER_SZ, u_ok = True\<rparr>"

text \<open>\<open>rawbyte\<close> reads through a signed \<open>char\<close> and returns it converted to \<open>unsigned int\<close>.\<close>

definition u_rawbyte :: "unmarshall \<Rightarrow> u32 \<times> unmarshall" where
  "u_rawbyte u =
     (if u_ind u \<ge> u_sz u then (0, u\<lparr>u_ok := False\<rparr>)
      else (scast (u_buf u ! u_ind u), u\<lparr>u_ind := u_ind u + 1\<rparr>))"

text \<open>
  \<open>rawbytes\<close>: the bound check adds an \<open>int\<close> and an \<open>unsigned\<close>, hence in 32-bit unsigned
  arithmetic; the copy then reads \<open>n\<close> bytes whatever the sum wrapped to.
\<close>

definition u_rawbytes :: "unmarshall \<Rightarrow> string \<Rightarrow> u32 \<Rightarrow> (string \<times> unmarshall) res" where
  "u_rawbytes u ss n =
     (if (of_nat (u_ind u) :: u32) + n > of_nat (u_sz u) then Inr (ss, u\<lparr>u_ok := False\<rparr>)
      else if u_ind u + unat n > u_sz u then Inl OutOfBounds
      else Inr (map char_of_byte (slice (u_ind u) (u_ind u + unat n) (u_buf u)),
                u\<lparr>u_ind := u_ind u + unat n\<rparr>))"

definition u_okdone :: "unmarshall \<Rightarrow> bool" where
  "u_okdone u \<longleftrightarrow> u_ok u \<and> u_ind u = u_sz u"

definition get_u8 :: "unmarshall \<Rightarrow> (byte \<times> unmarshall) res" where
  "get_u8 u = (case u_rawbyte u of (c, u) \<Rightarrow> Inr (ucast c, u))"

definition get_u16 :: "unmarshall \<Rightarrow> (u16 \<times> unmarshall) res" where
  "get_u16 u =
     (let (a, u) = u_rawbyte u; (b, u) = u_rawbyte u
      in Inr (ucast (push_bit 8 (a AND 0xff)) OR ucast (b AND 0xff), u))"

definition u_unpack :: "unmarshall \<Rightarrow> u32 \<times> unmarshall" where
  "u_unpack u =
     (let (a, u) = u_rawbyte u; (b, u) = u_rawbyte u;
          (c, u) = u_rawbyte u; (d, u) = u_rawbyte u
      in (push_bit 24 (a AND 0xff) OR push_bit 16 (b AND 0xff) OR
          push_bit 8 (c AND 0xff) OR (d AND 0xff), u))"

definition get_u32 :: "unmarshall \<Rightarrow> (u32 \<times> unmarshall) res" where
  "get_u32 u =
     (let (a, u) = u_rawbyte u; (b, u) = u_rawbyte u;
          (c, u) = u_rawbyte u; (d, u) = u_rawbyte u
      in Inr (push_bit 24 (a AND 0xff) OR push_bit 16 (b AND 0xff) OR
              push_bit 8 (c AND 0xff) OR (d AND 0xff), u))"

definition get_char :: "unmarshall \<Rightarrow> (byte \<times> unmarshall) res" where
  "get_char u = (case u_rawbyte u of (c, u) \<Rightarrow> Inr (ucast c, u))"

definition get_short :: "unmarshall \<Rightarrow> (u16 \<times> unmarshall) res" where
  "get_short u =
     (let (a, u) = u_rawbyte u; (b, u) = u_rawbyte u
      in Inr (ucast (push_bit 8 (a AND 0xff)) OR ucast (b AND 0xff), u))"

definition get_int :: "unmarshall \<Rightarrow> (u32 \<times> unmarshall) res" where
  "get_int u =
     (let (a, u) = u_rawbyte u; (b, u) = u_rawbyte u;
          (c, u) = u_rawbyte u; (d, u) = u_rawbyte u
      in Inr (push_bit 24 (a AND 0xff) OR push_bit 16 (b AND 0xff) OR
              push_bit 8 (c AND 0xff) OR (d AND 0xff), u))"

definition get_u64 :: "unmarshall \<Rightarrow> (u64 \<times> unmarshall) res" where
  "get_u64 u =
     rbind (get_u32 u) (\<lambda>(h, u).
     rbind (get_u32 u) (\<lambda>(l, u).
     Inr (ucast l OR push_bit 32 (ucast h), u)))"

definition get_string :: "string \<Rightarrow> unmarshall \<Rightarrow> (string \<times> unmarshall) res" where
  "get_string s u =
     rbind (get_u32 u) (\<lambda>(sz, u).
     if u_ok u then u_rawbytes u s sz else Inr (s, u))"

definition unpack_req_header :: "unmarshall \<Rightarrow> req_header \<times> unmarshall" where
  "unpack_req_header u =
     (let u = u\<lparr>u_ind := rpc_sz_t_size\<rparr>;
          (x, u) = u_unpack u; (p, u) = u_unpack u; (c, u) = u_unpack u;
          (s, u) = u_unpack u; (r, u) = u_unpack u
      in (\<lparr>h_xid = x, h_proc = p, h_clt_nonce = c, h_srv_nonce = s, h_xid_rep = r\<rparr>,
          u\<lparr>u_ind := RPC_HEADER_SZ\<rparr>))"

definition unpack_reply_header :: "unmarshall \<Rightarrow> reply_header \<times> unmarshall" where
  "unpack_reply_header u =
     (let u = u\<lparr>u_ind := rpc_sz_t_size\<rparr>;
          (x, u) = u_unpack u; (r, u) = u_unpack u
      in (\<lparr>rh_xid = x, rh_ret = r\<rparr>, u\<lparr>u_ind := RPC_HEADER_SZ\<rparr>))"

text \<open>\<open>take_in\<close>: the other object's buffer moves over, the read head past the header.\<close>

definition u_take_in :: "unmarshall \<Rightarrow> unmarshall \<Rightarrow> unmarshall \<times> unmarshall" where
  "u_take_in u another =
     (\<lparr>u_buf = u_buf another, u_sz = u_sz another, u_ind = RPC_HEADER_SZ,
       u_ok = (u_sz another \<ge> RPC_HEADER_SZ)\<rparr>,
      another\<lparr>u_buf := [], u_sz := 0, u_ind := 0\<rparr>)"


section \<open>Byte-level lemmas\<close>

lemma ff_mask: "(0xff :: 'a::len word) = mask 8"
  by (simp add: mask_eq_exp_minus_1)

lemma min_7_less_8: "n < 8 \<Longrightarrow> min 7 n = n" for n :: nat
  by simp

lemma byte_scast: "(scast (ucast (w AND 0xff) :: byte) :: u32) AND 0xff = (w :: u32) AND 0xff"
  unfolding ff_mask
  by (rule bit_word_eqI) (auto simp: bit_simps min_7_less_8 simp del: min_less_iff_conj)

lemma byte_scast16:
  "(scast (ucast (w AND 0xff) :: byte) :: u32) AND 0xff = ucast ((w :: u16) AND 0xff)"
  unfolding ff_mask
  by (rule bit_word_eqI) (auto simp: bit_simps min_7_less_8 simp del: min_less_iff_conj)

lemma byte_scast8: "ucast (scast (b :: byte) :: u32) = b"
  by (rule bit_word_eqI) (auto simp: bit_simps min_7_less_8 simp del: min_less_iff_conj)

lemma bit_byte_field:
  "bit (push_bit k (drop_bit k x AND mask 8)) n \<longleftrightarrow> k \<le> n \<and> n < k + 8 \<and> bit (x :: 'a::len word) n"
proof (cases "n < LENGTH('a)")
  case True
  then show ?thesis by (auto simp: bit_push_bit_iff bit_and_iff bit_drop_bit_eq bit_mask_iff)
next
  case False
  then show ?thesis by (auto dest: bit_imp_le_length)
qed

lemma u32_bytes_join:
  "push_bit 24 (drop_bit 24 x AND 0xff) OR push_bit 16 (drop_bit 16 x AND 0xff) OR
   push_bit 8 (drop_bit 8 x AND 0xff) OR (x AND 0xff) = (x :: u32)"
proof (rule bit_word_eqI)
  fix n :: nat assume n: "n < LENGTH(32)"
  then have "24 \<le> n \<and> n < 32 \<or> 16 \<le> n \<and> n < 24 \<or> 8 \<le> n \<and> n < 16 \<or> n < 8"
    by auto
  then show "bit (push_bit 24 (drop_bit 24 x AND 0xff) OR
      push_bit 16 (drop_bit 16 x AND 0xff) OR push_bit 8 (drop_bit 8 x AND 0xff) OR
      x AND 0xff) n = bit x n"
    unfolding ff_mask bit_or_iff bit_byte_field bit_and_iff bit_mask_iff by auto
qed

lemma u16_bytes_join:
  "ucast (push_bit 8 (ucast (drop_bit 8 x AND 0xff) :: u32)) OR
   ucast (ucast (x AND 0xff) :: u32) = (x :: u16)"
  unfolding ff_mask by (rule bit_word_eqI) (auto simp: bit_simps)

lemma u64_words_join:
  "(ucast (ucast (x :: u64) :: u32) :: u64) OR push_bit 32 (ucast (ucast (drop_bit 32 x) :: u32)) = x"
  by (rule bit_word_eqI) (auto simp: bit_simps)

definition be32 :: "u32 \<Rightarrow> byte list" where
  "be32 x = [ucast (drop_bit 24 x AND 0xff), ucast (drop_bit 16 x AND 0xff),
             ucast (drop_bit 8 x AND 0xff), ucast (x AND 0xff)]"

lemma length_be32 [simp]: "length (be32 x) = 4"
  by (simp add: be32_def)

section \<open>The write buffer\<close>

definition m_wf :: "marshall \<Rightarrow> bool" where
  "m_wf m \<longleftrightarrow> length (m_buf m) = m_capa m \<and> m_ind m \<le> m_capa m \<and> 0 < m_capa m"

lemma m_wf_new: "m_wf marshall_new"
  by (simp add: m_wf_def marshall_new_def DEFAULT_RPC_SZ_def)

text \<open>
  Effect of the two primitives: every write lands inside the allocated block, and the PDU
  grows by exactly the bytes given.
\<close>

lemma m_rawbyte_effect:
  assumes "m_wf m"
  shows "m_wf (m_rawbyte m x)" and "m_pdu (m_rawbyte m x) = m_pdu m @ [x]"
    and "m_ind (m_rawbyte m x) = m_ind m + 1"
proof -
  define m1 where "m1 = (if m_ind m \<ge> m_capa m
                then m\<lparr>m_capa := m_capa m * 2, m_buf := realloc (m_buf m) (m_capa m * 2)\<rparr>
                else m)"
  have m1: "length (m_buf m1) = m_capa m1" "m_ind m1 < m_capa m1" "m_ind m1 = m_ind m"
    "take (m_ind m) (m_buf m1) = m_pdu m"
    using assms by (auto simp: m1_def m_wf_def m_pdu_def take_realloc)
  have eq: "m_rawbyte m x = m1\<lparr>m_buf := (m_buf m1)[m_ind m1 := x], m_ind := m_ind m1 + 1\<rparr>"
    by (simp add: m_rawbyte_def m1_def Let_def)
  show "m_wf (m_rawbyte m x)" "m_ind (m_rawbyte m x) = m_ind m + 1"
    using m1 by (auto simp: eq m_wf_def)
  show "m_pdu (m_rawbyte m x) = m_pdu m @ [x]"
    using m1 take_memcpy [of "m_ind m1" "m_buf m1" "[x]"]
    by (simp add: eq m_pdu_def list_update_memcpy)
qed

lemma m_rawbytes_effect:
  assumes "m_wf m"
  shows "m_wf (m_rawbytes m p)" and "m_pdu (m_rawbytes m p) = m_pdu m @ p"
    and "m_ind (m_rawbytes m p) = m_ind m + length p"
proof -
  define c where "c = (if m_capa m > length p then 2 * m_capa m else m_capa m + length p)"
  define m1 where "m1 = (if m_ind m + length p > m_capa m
                then m\<lparr>m_capa := c, m_buf := realloc (m_buf m) c\<rparr> else m)"
  have m1: "length (m_buf m1) = m_capa m1" "m_ind m1 + length p \<le> m_capa m1"
    "m_ind m1 = m_ind m" "take (m_ind m) (m_buf m1) = m_pdu m" "0 < m_capa m1"
    using assms by (auto simp: m1_def c_def m_wf_def m_pdu_def take_realloc)
  have eq: "m_rawbytes m p =
      m1\<lparr>m_buf := memcpy (m_buf m1) (m_ind m1) p, m_ind := m_ind m1 + length p\<rparr>"
    by (simp add: m_rawbytes_def m1_def c_def Let_def)
  show "m_wf (m_rawbytes m p)" "m_ind (m_rawbytes m p) = m_ind m + length p"
    using m1 by (auto simp: eq m_wf_def)
  show "m_pdu (m_rawbytes m p) = m_pdu m @ p"
    using m1 take_memcpy [of "m_ind m1" "m_buf m1" p] by (simp add: eq m_pdu_def)
qed

lemmas m_effects [simp] = m_rawbyte_effect m_rawbytes_effect

section \<open>The read buffer\<close>

text \<open>
  \<open>_sz\<close> and \<open>_ind\<close> are \<open>int\<close>s, so a buffer is shorter than \<open>2^31\<close> bytes; PDUs are limited
  to ten megabytes by the connection layer.
\<close>

definition u_wf :: "unmarshall \<Rightarrow> bool" where
  "u_wf u \<longleftrightarrow> length (u_buf u) = u_sz u \<and> u_ind u \<le> u_sz u \<and> u_sz u < 2 ^ 31"

definition u_rest :: "unmarshall \<Rightarrow> byte list" where
  "u_rest u = drop (u_ind u) (u_buf u)"

definition u_adv :: "nat \<Rightarrow> unmarshall \<Rightarrow> unmarshall" where
  "u_adv n u = u\<lparr>u_ind := u_ind u + n\<rparr>"

lemma u_adv_simps [simp]:
  "u_buf (u_adv n u) = u_buf u" "u_sz (u_adv n u) = u_sz u" "u_ok (u_adv n u) = u_ok u"
  "u_ind (u_adv n u) = u_ind u + n" "u_adv a (u_adv b u) = u_adv (b + a) u" "u_adv 0 u = u"
  by (simp_all add: u_adv_def add.assoc)

lemma u_rest_adv [simp]: "u_rest (u_adv n u) = drop n (u_rest u)"
  by (simp add: u_rest_def add.commute)

lemma length_u_rest: "u_wf u \<Longrightarrow> length (u_rest u) = u_sz u - u_ind u"
  by (simp add: u_rest_def u_wf_def)

lemma u_wf_adv [simp]: "u_wf u \<Longrightarrow> n \<le> length (u_rest u) \<Longrightarrow> u_wf (u_adv n u)"
  by (auto simp: u_wf_def u_rest_def)

lemma u_wf_content:
  "length s < 2 ^ 31 - 24 \<Longrightarrow> u_wf (unmarshall_content s) \<and> u_rest (unmarshall_content s) = s"
  by (simp add: unmarshall_content_def u_wf_def u_rest_def memcpy_def)

lemma u_rawbyte_step:
  assumes "u_wf u" and "u_rest u = b # bs"
  shows "u_rawbyte u = (scast b, u_adv 1 u)"
proof -
  have "u_ind u < length (u_buf u)" "u_buf u ! u_ind u = b"
    using assms(2) by (auto simp: u_rest_def nth_via_drop intro: ccontr)
  then show ?thesis using assms(1) by (simp add: u_rawbyte_def u_adv_def u_wf_def)
qed

lemma u_unpack_step:
  assumes "u_wf u" and "u_rest u = be32 x @ rest"
  shows "u_unpack u = (x, u_adv 4 u)" and "get_u32 u = Inr (x, u_adv 4 u)"
proof -
  define b0 :: byte where "b0 = ucast (drop_bit 24 x AND 0xff)"
  define b1 :: byte where "b1 = ucast (drop_bit 16 x AND 0xff)"
  define b2 :: byte where "b2 = ucast (drop_bit 8 x AND 0xff)"
  define b3 :: byte where "b3 = ucast (x AND 0xff)"
  have rest: "u_rest u = b0 # b1 # b2 # b3 # rest"
    using assms(2) by (simp add: be32_def b0_def b1_def b2_def b3_def)
  have s1: "u_rawbyte u = (scast b0, u_adv 1 u)"
    by (rule u_rawbyte_step [OF assms(1) rest])
  have s2: "u_rawbyte (u_adv 1 u) = (scast b1, u_adv 2 u)"
    using u_rawbyte_step [of "u_adv 1 u" b1 "b2 # b3 # rest"] assms(1) rest by simp
  have s3: "u_rawbyte (u_adv 2 u) = (scast b2, u_adv 3 u)"
    using u_rawbyte_step [of "u_adv 2 u" b2 "b3 # rest"] assms(1) rest by simp
  have s4: "u_rawbyte (u_adv 3 u) = (scast b3, u_adv 4 u)"
    using u_rawbyte_step [of "u_adv 3 u" b3 rest] assms(1) rest by simp
  have join: "push_bit 24 (scast b0 AND 0xff) OR push_bit 16 (scast b1 AND 0xff) OR
      push_bit 8 (scast b2 AND 0xff) OR (scast b3 AND 0xff) = x"
    unfolding b0_def b1_def b2_def b3_def byte_scast by (rule u32_bytes_join)
  show "u_unpack u = (x, u_adv 4 u)" "get_u32 u = Inr (x, u_adv 4 u)"
    unfolding u_unpack_def get_u32_def s1 s2 s3 s4 Let_def prod.case join by (rule refl)+
qed


section \<open>The codec interface\<close>

text \<open>
  What the RPC stubs rely on for every type they send: \<open>put\<close> appends an encoding to the
  PDU and \<open>get\<close>, run where that encoding starts, returns the value and moves the read head
  exactly past it, with no abort.
\<close>

locale codec =
  fixes put :: "marshall \<Rightarrow> 'a \<Rightarrow> marshall"
    and get :: "unmarshall \<Rightarrow> ('a \<times> unmarshall) res"
    and enc :: "'a \<Rightarrow> byte list"
  assumes put_wf: "m_wf m \<Longrightarrow> m_wf (put m x)"
    and put_pdu: "m_wf m \<Longrightarrow> m_pdu (put m x) = m_pdu m @ enc x"
    and put_ind: "m_wf m \<Longrightarrow> m_ind (put m x) = m_ind m + length (enc x)"
    and get_enc: "u_wf u \<Longrightarrow> u_ok u \<Longrightarrow> u_rest u = enc x @ rest \<Longrightarrow>
      get u = Inr (x, u_adv (length (enc x)) u)"
begin

lemma m_content_put:
  assumes "m_wf m" and "24 \<le> m_ind m"
  shows "m_content (put m x) = m_content m @ enc x"
proof -
  have "m_content m = drop 24 (m_pdu m)" "m_content (put m x) = drop 24 (m_pdu (put m x))"
    by (simp_all add: m_content_def m_pdu_def slice_def)
  moreover have "24 \<le> length (m_pdu m)"
    using assms by (simp add: m_pdu_def m_wf_def)
  ultimately show ?thesis using put_pdu [OF assms(1)] by simp
qed

text \<open>A value written alone and read back from the content string is the value, and the
  reader consumes everything.\<close>

lemma content_roundtrip:
  assumes "length (enc x) < 2 ^ 31 - 24"
  shows "\<exists>u. get (unmarshall_content (m_content (put marshall_new x))) = Inr (x, u) \<and> u_okdone u"
proof -
  let ?u = "unmarshall_content (enc x)"
  have c: "m_content (put marshall_new x) = enc x"
    using m_content_put [OF m_wf_new, of x]
    by (simp add: marshall_new_def m_content_def slice_def DEFAULT_RPC_SZ_def)
  have wf: "u_wf ?u" "u_rest ?u = enc x @ []" "u_ok ?u"
    using u_wf_content [OF assms] by (simp_all add: unmarshall_content_def)
  have "get ?u = Inr (x, u_adv (length (enc x)) ?u)"
    by (rule get_enc [OF wf(1,3,2)])
  moreover have "u_okdone (u_adv (length (enc x)) ?u)"
    by (simp add: u_okdone_def unmarshall_content_def)
  ultimately show ?thesis by (simp add: c)
qed

end

text \<open>Two operators in a row, as every stub and every struct operator chains them.\<close>

definition put_pair ::
  "(marshall \<Rightarrow> 'a \<Rightarrow> marshall) \<Rightarrow> (marshall \<Rightarrow> 'b \<Rightarrow> marshall) \<Rightarrow> marshall \<Rightarrow> 'a \<times> 'b \<Rightarrow> marshall"
where
  "put_pair pa pb m p = pb (pa m (fst p)) (snd p)"

definition get_pair ::
  "(unmarshall \<Rightarrow> ('a \<times> unmarshall) res) \<Rightarrow> (unmarshall \<Rightarrow> ('b \<times> unmarshall) res) \<Rightarrow>
   unmarshall \<Rightarrow> (('a \<times> 'b) \<times> unmarshall) res"
where
  "get_pair ga gb u = rbind (ga u) (\<lambda>(a, u). rbind (gb u) (\<lambda>(b, u). Inr ((a, b), u)))"

definition enc_pair :: "('a \<Rightarrow> byte list) \<Rightarrow> ('b \<Rightarrow> byte list) \<Rightarrow> 'a \<times> 'b \<Rightarrow> byte list" where
  "enc_pair ea eb p = ea (fst p) @ eb (snd p)"

locale codec2 = a: codec puta geta enca + b: codec putb getb encb
  for puta :: "marshall \<Rightarrow> 'a \<Rightarrow> marshall" and geta enca
    and putb :: "marshall \<Rightarrow> 'b \<Rightarrow> marshall" and getb encb
begin

lemma get_pair_enc:
  assumes "u_wf u" and "u_ok u" and "u_rest u = enc_pair enca encb p @ rest"
  shows "get_pair geta getb u = Inr (p, u_adv (length (enc_pair enca encb p)) u)"
proof -
  let ?v = "u_adv (length (enca (fst p))) u"
  have r: "u_rest u = enca (fst p) @ encb (snd p) @ rest"
    using assms(3) by (simp add: enc_pair_def)
  have ga: "geta u = Inr (fst p, ?v)"
    by (rule a.get_enc [OF assms(1,2) r])
  have "getb ?v = Inr (snd p, u_adv (length (encb (snd p))) ?v)"
    by (rule b.get_enc [where rest = rest]) (use assms(1,2) r in simp_all)
  then show ?thesis by (simp add: get_pair_def ga enc_pair_def)
qed

end

sublocale codec2 \<subseteq> pair: codec "put_pair puta putb" "get_pair geta getb" "enc_pair enca encb"
  by unfold_locales
    (simp_all add: put_pair_def enc_pair_def a.put_wf a.put_pdu a.put_ind b.put_wf b.put_pdu
      b.put_ind get_pair_enc [unfolded enc_pair_def])

text \<open>A struct whose operators send its fields one after the other is its tuple of fields.\<close>

locale codec_struct = codec put get enc
  for put :: "marshall \<Rightarrow> 'a \<Rightarrow> marshall" and get enc +
  fixes flds :: "'s \<Rightarrow> 'a" and mk :: "'a \<Rightarrow> 's"
    and sput :: "marshall \<Rightarrow> 's \<Rightarrow> marshall" and sget :: "unmarshall \<Rightarrow> ('s \<times> unmarshall) res"
  assumes mk_flds: "mk (flds s) = s"
    and sput_def': "sput m s = put m (flds s)"
    and sget_def': "sget u = rbind (get u) (\<lambda>(x, u). Inr (mk x, u))"

sublocale codec_struct \<subseteq> struct: codec sput sget "\<lambda>s. enc (flds s)"
proof
  fix u s rest
  assume u: "u_wf u" "u_ok u" "u_rest u = enc (flds s) @ rest"
  have "get u = Inr (flds s, u_adv (length (enc (flds s))) u)"
    by (rule get_enc [OF u])
  then show "sget u = Inr (s, u_adv (length (enc (flds s))) u)"
    by (simp add: sget_def' mk_flds)
qed (simp_all add: sput_def' put_wf put_pdu put_ind)

section \<open>The scalar operators are codecs\<close>

definition enc_u8 :: "byte \<Rightarrow> byte list" where
  "enc_u8 x = [x]"

definition enc_u16 :: "u16 \<Rightarrow> byte list" where
  "enc_u16 x = [ucast (drop_bit 8 x AND 0xff), ucast (x AND 0xff)]"

definition enc_u64 :: "u64 \<Rightarrow> byte list" where
  "enc_u64 x = be32 (ucast (drop_bit 32 x)) @ be32 (ucast x)"

definition enc_string :: "string \<Rightarrow> byte list" where
  "enc_string s = be32 (of_nat (length s)) @ map byte_of_char s"

interpretation u8: codec put_u8 get_u8 enc_u8
  by unfold_locales
    (auto simp: put_u8_def get_u8_def enc_u8_def u_rawbyte_step byte_scast8 split: prod.splits)

interpretation u16: codec put_u16 get_u16 enc_u16
proof
  fix u :: unmarshall and x rest
  assume u: "u_wf u" "u_ok u" "u_rest u = enc_u16 x @ rest"
  define b0 :: byte where "b0 = ucast (drop_bit 8 x AND 0xff)"
  define b1 :: byte where "b1 = ucast (x AND 0xff)"
  have r: "u_rest u = b0 # b1 # rest" using u(3) by (simp add: enc_u16_def b0_def b1_def)
  have s1: "u_rawbyte u = (scast b0, u_adv 1 u)" by (rule u_rawbyte_step [OF u(1) r])
  have s2: "u_rawbyte (u_adv 1 u) = (scast b1, u_adv 2 u)"
    using u_rawbyte_step [of "u_adv 1 u" b1 rest] u(1) r by simp
  have join: "ucast (push_bit 8 (scast b0 AND (0xff :: u32))) OR ucast (scast b1 AND (0xff :: u32)) = x"
    unfolding b0_def b1_def byte_scast16 by (rule u16_bytes_join)
  have len: "length (enc_u16 x) = 2" by (simp add: enc_u16_def)
  show "get_u16 u = Inr (x, u_adv (length (enc_u16 x)) u)"
    unfolding get_u16_def s1 s2 Let_def prod.case join len by (rule refl)
qed (simp_all add: put_u16_def enc_u16_def Let_def)

interpretation u32: codec put_u32 get_u32 be32
proof
  fix u :: unmarshall and x rest
  assume u: "u_wf u" "u_rest u = be32 x @ rest"
  show "get_u32 u = Inr (x, u_adv (length (be32 x)) u)"
    using u_unpack_step(2) [OF u] by simp
qed (simp_all add: put_u32_def be32_def Let_def)

lemma signed_operators_eq:
  "put_char = put_u8" "put_short = put_u16" "put_int = put_u32"
  "get_char = get_u8" "get_short = get_u16" "get_int = get_u32"
  by (simp_all add: fun_eq_iff put_char_def put_short_def put_int_def get_char_def get_u8_def
      get_short_def get_u16_def get_int_def get_u32_def)

interpretation char: codec put_char get_char enc_u8
  unfolding signed_operators_eq by unfold_locales

interpretation short: codec put_short get_short enc_u16
  unfolding signed_operators_eq by unfold_locales

interpretation int: codec put_int get_int be32
  unfolding signed_operators_eq by unfold_locales

interpretation u64: codec put_u64 get_u64 enc_u64
proof
  fix u :: unmarshall and x rest
  assume u: "u_wf u" "u_ok u" "u_rest u = enc_u64 x @ rest"
  have "get_u32 u = Inr (ucast (drop_bit 32 x), u_adv 4 u)"
    using u_unpack_step(2) [of u "ucast (drop_bit 32 x)" "be32 (ucast x) @ rest"] u
    by (simp add: enc_u64_def)
  moreover have "get_u32 (u_adv 4 u) = Inr (ucast x, u_adv 8 u)"
    using u_unpack_step(2) [of "u_adv 4 u" "ucast x" rest] u by (simp add: enc_u64_def)
  ultimately show "get_u64 u = Inr (x, u_adv (length (enc_u64 x)) u)"
    by (simp add: get_u64_def enc_u64_def u64_words_join)
qed (simp_all add: put_u64_def enc_u64_def u32.put_wf u32.put_pdu u32.put_ind)

text \<open>
  The string reader: when the received buffer really holds the announced bytes, the
  32-bit sum in the bound check does not wrap.
\<close>

lemma u_rawbytes_step:
  assumes wf: "u_wf u" and r: "u_rest u = map byte_of_char s @ rest"
  shows "u_rawbytes u old (of_nat (length s)) = Inr (s, u_adv (length s) u)"
proof -
  have fits: "u_ind u + length s \<le> u_sz u" and sz: "u_sz u < 2 ^ 31"
    using wf length_u_rest [OF wf] r by (auto simp: u_wf_def)
  have n: "unat (of_nat (length s) :: u32) = length s"
    using fits sz by (simp add: unat_of_nat)
  have "unat (of_nat (u_ind u + length s) :: u32) = u_ind u + length s"
    using fits sz by (simp only: unat_of_nat) simp
  then have "unat ((of_nat (u_ind u) :: u32) + of_nat (length s)) = u_ind u + length s"
    by simp
  moreover have "unat (of_nat (u_sz u) :: u32) = u_sz u"
    using sz by (simp add: unat_of_nat)
  ultimately have "\<not> (of_nat (u_ind u) :: u32) + of_nat (length s) > of_nat (u_sz u)"
    using fits by (simp only: word_less_nat_alt)
  moreover have "slice (u_ind u) (u_ind u + length s) (u_buf u) = take (length s) (u_rest u)"
    by (simp add: slice_def u_rest_def drop_take)
  ultimately show ?thesis
    using fits r by (simp add: u_rawbytes_def n u_adv_def)
qed

interpretation str: codec put_string "get_string old" enc_string for old
proof
  fix u :: unmarshall and x rest
  assume u: "u_wf u" "u_ok u" "u_rest u = enc_string x @ rest"
  have "get_u32 u = Inr (of_nat (length x), u_adv 4 u)"
    using u_unpack_step(2) [of u "of_nat (length x)" "map byte_of_char x @ rest"] u
    by (simp add: enc_string_def)
  moreover have "u_rawbytes (u_adv 4 u) old (of_nat (length x)) = Inr (x, u_adv (length x) (u_adv 4 u))"
    by (rule u_rawbytes_step [where rest = rest]) (use u in \<open>simp_all add: enc_string_def\<close>)
  ultimately show "get_string old u = Inr (x, u_adv (length (enc_string x)) u)"
    using u(2) by (simp add: get_string_def enc_string_def)
qed (simp_all add: put_string_def enc_string_def u32.put_wf u32.put_pdu u32.put_ind)


context codec2
begin

lemma pair_codec: "codec (put_pair puta putb) (get_pair geta getb) (enc_pair enca encb)"
  by (rule pair.codec_axioms)

end

section \<open>Containers\<close>

definition put_vector :: "(marshall \<Rightarrow> 'a \<Rightarrow> marshall) \<Rightarrow> marshall \<Rightarrow> 'a list \<Rightarrow> marshall" where
  "put_vector put m v = foldl put (put_u32 m (of_nat (length v))) v"

text \<open>
  The vector reader appends to the vector it is given: it does not clear it first.  The
  loop runs \<open>n\<close> times even after the error flag is set.
\<close>

fun get_vector_loop ::
  "(unmarshall \<Rightarrow> ('a \<times> unmarshall) res) \<Rightarrow> nat \<Rightarrow> 'a list \<Rightarrow> unmarshall \<Rightarrow> ('a list \<times> unmarshall) res"
where
  "get_vector_loop get 0 v u = Inr (v, u)"
| "get_vector_loop get (Suc n) v u =
     rbind (get u) (\<lambda>(z, u). get_vector_loop get n (v @ [z]) u)"

definition get_vector ::
  "(unmarshall \<Rightarrow> ('a \<times> unmarshall) res) \<Rightarrow> 'a list \<Rightarrow> unmarshall \<Rightarrow> ('a list \<times> unmarshall) res"
where
  "get_vector get v u = rbind (get_u32 u) (\<lambda>(n, u). get_vector_loop get (unat n) v u)"

definition enc_vector :: "('a \<Rightarrow> byte list) \<Rightarrow> 'a list \<Rightarrow> byte list" where
  "enc_vector enc v = be32 (of_nat (length v)) @ concat (map enc v)"

text \<open>
  \<open>std::map\<close> iterates in key order: its content is the association list sorted by key.
  The map reader clears its target first.
\<close>

definition put_map ::
  "(marshall \<Rightarrow> 'a \<Rightarrow> marshall) \<Rightarrow> (marshall \<Rightarrow> 'b \<Rightarrow> marshall) \<Rightarrow> marshall \<Rightarrow> ('a \<times> 'b) list \<Rightarrow> marshall"
where
  "put_map pa pb m d = foldl (put_pair pa pb) (put_u32 m (of_nat (length d))) d"

fun smap_update :: "'a::linorder \<Rightarrow> 'b \<Rightarrow> ('a \<times> 'b) list \<Rightarrow> ('a \<times> 'b) list" where
  "smap_update k v [] = [(k, v)]"
| "smap_update k v ((a, b) # d) =
     (if k < a then (k, v) # (a, b) # d
      else if k = a then (k, v) # d
      else (a, b) # smap_update k v d)"

definition get_map ::
  "(unmarshall \<Rightarrow> ('a::linorder \<times> unmarshall) res) \<Rightarrow> (unmarshall \<Rightarrow> ('b \<times> unmarshall) res) \<Rightarrow>
   unmarshall \<Rightarrow> (('a \<times> 'b) list \<times> unmarshall) res"
where
  "get_map ga gb u =
     rbind (get_u32 u) (\<lambda>(n, u).
     rbind (get_vector_loop (get_pair ga gb) (unat n) [] u) (\<lambda>(es, u).
     Inr (foldl (\<lambda>d (a, b). smap_update a b d) [] es, u)))"

context codec
begin

lemma foldl_put:
  "m_wf m \<Longrightarrow> m_wf (foldl put m v) \<and> m_pdu (foldl put m v) = m_pdu m @ concat (map enc v) \<and>
    m_ind (foldl put m v) = m_ind m + length (concat (map enc v))"
  by (induction v arbitrary: m) (simp_all add: put_wf put_pdu put_ind)

lemma get_vector_loop_enc:
  assumes "u_wf u" and "u_ok u" and "u_rest u = concat (map enc v) @ rest"
  shows "get_vector_loop get (length v) old u =
    Inr (old @ v, u_adv (length (concat (map enc v))) u)"
  using assms
proof (induction v arbitrary: old u)
  case Nil
  then show ?case by simp
next
  case (Cons x v)
  have "get u = Inr (x, u_adv (length (enc x)) u)"
    by (rule get_enc [where rest = "concat (map enc v) @ rest"]) (use Cons.prems in simp_all)
  then show ?case
    using Cons.IH [of "u_adv (length (enc x)) u" "old @ [x]"] Cons.prems by simp
qed

text \<open>Reading an encoded vector appends it to what the target held.\<close>

lemma get_vector_enc:
  assumes u: "u_wf u" "u_ok u" and r: "u_rest u = enc_vector enc v @ rest"
    and len: "length v < 2 ^ 32"
  shows "get_vector get old u = Inr (old @ v, u_adv (length (enc_vector enc v)) u)"
proof -
  have n: "unat (of_nat (length v) :: u32) = length v"
    using len by (simp add: unat_of_nat)
  have g: "get_u32 u = Inr (of_nat (length v), u_adv 4 u)"
    using u_unpack_step(2) [of u "of_nat (length v)" "concat (map enc v) @ rest"] u r
    by (simp add: enc_vector_def)
  have "get_vector_loop get (length v) old (u_adv 4 u) =
      Inr (old @ v, u_adv (length (concat (map enc v))) (u_adv 4 u))"
    by (rule get_vector_loop_enc [where rest = rest]) (use u r in \<open>simp_all add: enc_vector_def\<close>)
  then show ?thesis by (simp add: get_vector_def g n enc_vector_def)
qed

end

lemma put_vector_pdu:
  assumes "codec put get enc" and "m_wf m"
  shows "m_wf (put_vector put m v) \<and> m_pdu (put_vector put m v) = m_pdu m @ enc_vector enc v \<and>
    m_ind (put_vector put m v) = m_ind m + length (enc_vector enc v)"
  using codec.foldl_put [OF assms(1), of "put_u32 m (of_nat (length v))" v] assms(2)
  by (simp add: put_vector_def enc_vector_def u32.put_wf u32.put_pdu u32.put_ind)

lemma smap_update_last:
  "sorted_wrt (<) (map fst d) \<Longrightarrow> \<forall>k \<in> fst ` set d. k < a \<Longrightarrow> smap_update a b d = d @ [(a, b)]"
  by (induction d) auto

lemma foldl_smap_update_sorted:
  "sorted_wrt (<) (map fst (d @ es)) \<Longrightarrow> foldl (\<lambda>d (a, b). smap_update a b d) d es = d @ es"
proof (induction es arbitrary: d)
  case Nil
  then show ?case by simp
next
  case (Cons e es)
  obtain a b where e: "e = (a, b)" by force
  have "smap_update a b d = d @ [(a, b)]"
    by (rule smap_update_last) (use Cons.prems e in \<open>auto simp: sorted_wrt_append\<close>)
  then show ?case using Cons.IH [of "d @ [e]"] Cons.prems by (simp add: e)
qed

context codec2
begin

lemma get_pairs_enc:
  assumes "u_wf u" and "u_ok u" and "u_rest u = concat (map (enc_pair enca encb) d) @ rest"
  shows "get_vector_loop (get_pair geta getb) (length d) [] u =
    Inr (d, u_adv (length (concat (map (enc_pair enca encb) d))) u)"
  using pair.get_vector_loop_enc [OF assms, of "[]"] by simp

end

lemma get_map_enc:
  fixes d :: "('a::linorder \<times> 'b) list"
  assumes c: "codec2 puta geta enca putb getb encb"
    and u: "u_wf u" "u_ok u" and r: "u_rest u = enc_vector (enc_pair enca encb) d @ rest"
    and len: "length d < 2 ^ 32" and d: "sorted_wrt (<) (map fst d)"
  shows "get_map geta getb u = Inr (d, u_adv (length (enc_vector (enc_pair enca encb) d)) u)"
proof -
  have n: "unat (of_nat (length d) :: u32) = length d"
    using len by (simp add: unat_of_nat)
  have g: "get_u32 u = Inr (of_nat (length d), u_adv 4 u)"
    using u_unpack_step(2) [of u "of_nat (length d)" "concat (map (enc_pair enca encb) d) @ rest"] u r
    by (simp add: enc_vector_def)
  have "get_vector_loop (get_pair geta getb) (length d) [] (u_adv 4 u) =
      Inr (d, u_adv (length (concat (map (enc_pair enca encb) d))) (u_adv 4 u))"
    using codec2.get_pairs_enc [OF c, of "u_adv 4 u" d rest] u r by (simp add: enc_vector_def)
  then show ?thesis
    using foldl_smap_update_sorted [of "[]" d] d by (simp add: get_map_def g n enc_vector_def)
qed

section \<open>Headers in a PDU\<close>

definition enc_req_header :: "req_header \<Rightarrow> byte list" where
  "enc_req_header h = be32 (h_xid h) @ be32 (h_proc h) @ be32 (h_clt_nonce h) @
     be32 (h_srv_nonce h) @ be32 (h_xid_rep h)"

lemma memcpy_memcpy:
  "i + length p + length q \<le> length b \<Longrightarrow>
    memcpy (memcpy b i p) (i + length p) q = memcpy b i (p @ q)"
  by (simp add: memcpy_def ac_simps)

lemma memcpy_memcpy_be:
  assumes "k = i + length p" and "i + length p + 4 \<le> length b"
  shows "memcpy (memcpy b i p) k (be32 x) = memcpy b i (p @ be32 x)"
  using assms memcpy_memcpy [of i p "be32 x" b] by simp

lemma m_rawbyte_inplace:
  assumes "length (m_buf m) = m_capa m" and "m_ind m < m_capa m"
  shows "m_rawbyte m x = m\<lparr>m_buf := memcpy (m_buf m) (m_ind m) [x], m_ind := m_ind m + 1\<rparr>"
  using assms by (simp add: m_rawbyte_def list_update_memcpy)

lemma m_rawbyte_four:
  assumes "length (m_buf m) = m_capa m" and "m_ind m + 4 \<le> m_capa m"
  shows "m_rawbyte (m_rawbyte (m_rawbyte (m_rawbyte m a) b) c) d =
    m\<lparr>m_buf := memcpy (m_buf m) (m_ind m) [a, b, c, d], m_ind := m_ind m + 4\<rparr>"
proof -
  have two: "memcpy (memcpy b i [p]) (Suc i) q = memcpy b i (p # q)"
    if "i + 1 + length q \<le> length b" for b i q and p :: byte
    using memcpy_memcpy [of i "[p]" q b] that by simp
  have three: "memcpy (memcpy b i [p, r]) (Suc (Suc i)) q = memcpy b i (p # r # q)"
    if "i + 2 + length q \<le> length b" for b i q and p r :: byte
    using memcpy_memcpy [of i "[p, r]" q b] that by simp
  have four: "memcpy (memcpy b i [p, r, s]) (Suc (Suc (Suc i))) q = memcpy b i (p # r # s # q)"
    if "i + 3 + length q \<le> length b" for b i q and p r s :: byte
    using memcpy_memcpy [of i "[p, r, s]" q b] that by simp
  show ?thesis
    using assms by (simp add: m_rawbyte_inplace two three four numeral_eq_Suc)
qed

lemma m_pack_inplace:
  assumes "length (m_buf m) = m_capa m" and "m_ind m + 4 \<le> m_capa m"
  shows "m_pack m x = m\<lparr>m_buf := memcpy (m_buf m) (m_ind m) (be32 x), m_ind := m_ind m + 4\<rparr>"
  using m_rawbyte_four [OF assms] by (simp add: m_pack_def be32_def Let_def)

lemma pack_req_header_effect:
  assumes "m_wf m" and "24 \<le> m_ind m"
  shows "pack_req_header m h = m\<lparr>m_buf := memcpy (m_buf m) 4 (enc_req_header h)\<rparr>"
  using assms
  by (simp add: pack_req_header_def m_wf_def Let_def m_pack_inplace memcpy_memcpy_be
      enc_req_header_def)


lemma m_pdu_pack_req_header:
  assumes "m_wf m" and "24 \<le> m_ind m"
  shows "m_pdu (pack_req_header m h) =
    take 4 (m_pdu m) @ enc_req_header h @ m_content m"
proof -
  have "length (m_buf m) = m_capa m" "24 \<le> m_capa m" "m_ind m \<le> m_capa m"
    using assms by (auto simp: m_wf_def)
  moreover have len: "length (enc_req_header h) = 20"
    by (simp add: enc_req_header_def)
  ultimately show ?thesis
    using assms(2)
    by (simp add: pack_req_header_effect [OF assms] m_pdu_def m_content_def memcpy_def slice_def
        min_def take_drop)
qed

lemma u_unpack_five:
  assumes wf: "u_wf w" and r: "u_rest w = be32 a @ be32 b @ be32 c @ be32 d @ be32 e @ rest"
  shows "u_unpack w = (a, u_adv 4 w)" and "u_unpack (u_adv 4 w) = (b, u_adv 8 w)"
    and "u_unpack (u_adv 8 w) = (c, u_adv 12 w)" and "u_unpack (u_adv 12 w) = (d, u_adv 16 w)"
    and "u_unpack (u_adv 16 w) = (e, u_adv 20 w)"
proof -
  show "u_unpack w = (a, u_adv 4 w)"
    by (rule u_unpack_step(1) [OF wf r])
  show "u_unpack (u_adv 4 w) = (b, u_adv 8 w)"
    using u_unpack_step(1) [of "u_adv 4 w" b "be32 c @ be32 d @ be32 e @ rest"] wf r by simp
  show "u_unpack (u_adv 8 w) = (c, u_adv 12 w)"
    using u_unpack_step(1) [of "u_adv 8 w" c "be32 d @ be32 e @ rest"] wf r by simp
  show "u_unpack (u_adv 12 w) = (d, u_adv 16 w)"
    using u_unpack_step(1) [of "u_adv 12 w" d "be32 e @ rest"] wf r by simp
  show "u_unpack (u_adv 16 w) = (e, u_adv 20 w)"
    using u_unpack_step(1) [of "u_adv 16 w" e rest] wf r by simp
qed

lemma unpack_req_header_pdu:
  assumes b: "b = sz @ enc_req_header h @ body" and "length sz = 4" and "length b < 2 ^ 31"
  shows "\<exists>u. unpack_req_header (unmarshall_buf b) = (h, u) \<and> u_ok u \<and> u_wf u \<and> u_rest u = body \<and>
    u_ind u = 24 \<and> u_sz u = length b"
proof -
  define w where "w = u_adv 4 (unmarshall_buf b)"
  have wf: "u_wf w" and r: "u_rest w = be32 (h_xid h) @ be32 (h_proc h) @ be32 (h_clt_nonce h) @
      be32 (h_srv_nonce h) @ be32 (h_xid_rep h) @ body"
    using assms by (auto simp: w_def unmarshall_buf_def u_wf_def u_rest_def enc_req_header_def)
  have start: "(unmarshall_buf b)\<lparr>u_ind := 4\<rparr> = w"
    by (simp add: w_def u_adv_def unmarshall_buf_def)
  have w: "u_ind w = 4" "u_ok w" "u_sz w = length b"
    by (simp_all add: w_def unmarshall_buf_def)
  have "unpack_req_header (unmarshall_buf b) = (h, (u_adv 20 w)\<lparr>u_ind := 24\<rparr>)"
    unfolding unpack_req_header_def rpc_sz_t_size_eq start Let_def u_unpack_five [OF wf r] prod.case
    by simp
  moreover have "(u_adv 20 w)\<lparr>u_ind := 24\<rparr> = u_adv 20 w"
    using w by (simp add: u_adv_def)
  moreover have "u_wf (u_adv 20 w)" "u_rest (u_adv 20 w) = body"
    using wf r by simp_all
  ultimately show ?thesis using w by auto
qed

section \<open>Properties\<close>

text \<open>C25: whatever a stub writes and in whatever order the header is packed, the receiver of the PDU
  unpacks the same request header and then reads back the same arguments, consuming the PDU
  exactly (\<open>okdone\<close>).\<close>

theorem request_pdu_roundtrip:
  assumes c: "codec put get enc" and len: "length (enc x) < 2 ^ 31 - 24"
  shows "\<exists>u u'. unpack_req_header (unmarshall_buf (m_pdu (pack_req_header (put marshall_new x) h)))
      = (h, u) \<and> u_ok u \<and> get u = Inr (x, u') \<and> u_okdone u'"
proof -
  let ?m = "put marshall_new x"
  have m: "m_wf ?m" "m_ind ?m = 24 + length (enc x)"
    using codec.put_wf [OF c m_wf_new] codec.put_ind [OF c m_wf_new]
    by (simp_all add: marshall_new_def)
  have "m_content marshall_new = []"
    by (simp add: m_content_def marshall_new_def slice_def)
  then have content: "m_content ?m = enc x"
    using codec.m_content_put [OF c m_wf_new, of x] by (simp add: marshall_new_def)
  define b where "b = m_pdu (pack_req_header ?m h)"
  have b: "b = take 4 (m_pdu ?m) @ enc_req_header h @ enc x" "length (take 4 (m_pdu ?m)) = 4"
    using m m_pdu_pack_req_header [of ?m h] content
    by (simp_all add: b_def m_pdu_def m_wf_def)
  then have "length b < 2 ^ 31"
    using len by (simp add: enc_req_header_def)
  from unpack_req_header_pdu [OF b this] obtain u where
    u: "unpack_req_header (unmarshall_buf b) = (h, u)" "u_ok u" "u_wf u" "u_rest u = enc x"
      "u_ind u = 24" "u_sz u = length b" by blast
  have "get u = Inr (x, u_adv (length (enc x)) u)"
    by (rule codec.get_enc [OF c u(3,2), where rest = "[]"]) (simp add: u(4))
  moreover have "u_okdone (u_adv (length (enc x)) u)"
    using u(2,5,6) b by (simp add: u_okdone_def enc_req_header_def)
  ultimately show ?thesis using u(1,2) unfolding b_def by blast
qed

theorem request_pdu_roundtrip_witness:
  "\<exists>u u'. unpack_req_header (unmarshall_buf (m_pdu (pack_req_header
        (put_pair put_u32 put_string marshall_new (7, ''ab''))
        \<lparr>h_xid = 1, h_proc = 0x7001, h_clt_nonce = 9, h_srv_nonce = 3, h_xid_rep = 0\<rparr>)))
      = (\<lparr>h_xid = 1, h_proc = 0x7001, h_clt_nonce = 9, h_srv_nonce = 3, h_xid_rep = 0\<rparr>, u) \<and>
      u_ok u \<and> get_pair get_u32 (get_string []) u = Inr ((7, ''ab''), u') \<and> u_okdone u'"
proof -
  have "codec2 put_u32 get_u32 be32 put_string (get_string []) enc_string"
    by (rule codec2.intro [OF u32.codec_axioms str.codec_axioms])
  then have c: "codec (put_pair put_u32 put_string) (get_pair get_u32 (get_string []))
      (enc_pair be32 enc_string)"
    by (rule codec2.pair_codec)
  show ?thesis
    by (rule request_pdu_roundtrip [OF c]) (simp add: enc_pair_def enc_string_def)
qed


text \<open>the string reader's bound check adds the read head and the announced length in 32-bit
  unsigned arithmetic, so for a well-formed buffer it reads outside the buffer exactly when the
  sum reaches \<open>2^32\<close>; otherwise it either returns the announced bytes or sets the error
  flag.\<close>

theorem u_rawbytes_out_of_bounds_iff:
  assumes "u_wf u"
  shows "u_rawbytes u ss n = Inl OutOfBounds \<longleftrightarrow> 2 ^ 32 \<le> u_ind u + unat n"
proof -
  have ind: "u_ind u \<le> u_sz u" and sz: "u_sz u < 2 ^ 31"
    using assms by (auto simp: u_wf_def)
  have "unat (of_nat (u_ind u) :: u32) = u_ind u" "unat (of_nat (u_sz u) :: u32) = u_sz u"
    using ind sz by (simp_all add: unat_of_nat)
  then have sum: "unat ((of_nat (u_ind u) :: u32) + n) = (u_ind u + unat n) mod 2 ^ 32"
    and lt: "(of_nat (u_ind u) :: u32) + n > of_nat (u_sz u) \<longleftrightarrow>
      u_sz u < (u_ind u + unat n) mod 2 ^ 32"
    by (simp_all add: unat_word_ariths word_less_nat_alt)
  have n: "unat n < 2 ^ 32" using unsigned_less [of n, where ?'a = nat] by simp
  show ?thesis
  proof (cases "2 ^ 32 \<le> u_ind u + unat n")
    case True
    then have "(u_ind u + unat n) mod 2 ^ 32 = u_ind u + unat n - 2 ^ 32"
      using n ind sz by (simp add: mod_if)
    then have "\<not> u_sz u < (u_ind u + unat n) mod 2 ^ 32" using n ind by linarith
    then show ?thesis using True ind sz lt by (simp add: u_rawbytes_def)
  next
    case False
    then have "(u_ind u + unat n) mod 2 ^ 32 = u_ind u + unat n" by simp
    then show ?thesis using False lt by (simp add: u_rawbytes_def)
  qed
qed

theorem u_rawbytes_out_of_bounds_iff_witness:
  "u_rawbytes (unmarshall_content [1, 2]) [] (- 24) = Inl OutOfBounds"
proof -
  have "u_wf (unmarshall_content [1, 2])" by (simp add: u_wf_content)
  from u_rawbytes_out_of_bounds_iff [OF this, of "[]" "- 24"] show ?thesis
    by (simp add: unmarshall_content_def)
qed

text \<open>both write primitives keep the write head inside the allocated block, however often the
  buffer has to grow, and the PDU grows by exactly the bytes written.\<close>

theorem marshall_write_in_bounds:
  assumes "m_wf m"
  shows "m_wf (m_rawbyte m x) \<and> m_pdu (m_rawbyte m x) = m_pdu m @ [x] \<and>
    m_wf (m_rawbytes m p) \<and> m_pdu (m_rawbytes m p) = m_pdu m @ p"
  using assms by simp

theorem marshall_write_in_bounds_witness:
  "m_pdu (m_rawbytes marshall_new (replicate 2000 7)) = m_pdu marshall_new @ replicate 2000 7"
  using marshall_write_in_bounds [OF m_wf_new, of _ "replicate 2000 7"] by blast

end
