(* ===== verification/Protocols.thy ===== *)
theory Protocols
  imports Marshal "HOL-Library.Char_ord" "HOL-Library.List_Lexorder"
begin

text \<open>
  The wire structs and status codes of the services: \<open>rpc/rpc.h\<close> (\<open>rpc_const\<close>),
  \<open>lock_protocol.h\<close>, \<open>extent_protocol.h\<close>, \<open>paxos_protocol.h\<close> and \<open>rsm_protocol.h\<close>,
  with their comparison operators and their marshalling operators.  Every struct is shown
  to be a codec, so the round-trip theorems of theory \<open>Marshal\<close> apply to it.
\<close>

section \<open>Status codes\<close>

type_synonym status = int

definition rpc_timeout_failure :: status where "rpc_timeout_failure = -1"
definition rpc_unmarshal_args_failure :: status where "rpc_unmarshal_args_failure = -2"
definition rpc_unmarshal_reply_failure :: status where "rpc_unmarshal_reply_failure = -3"
definition rpc_atmostonce_failure :: status where "rpc_atmostonce_failure = -4"
definition rpc_oldsrv_failure :: status where "rpc_oldsrv_failure = -5"
definition rpc_bind_failure :: status where "rpc_bind_failure = -6"
definition rpc_cancel_failure :: status where "rpc_cancel_failure = -7"

lemmas rpc_const_defs =
  rpc_timeout_failure_def rpc_unmarshal_args_failure_def rpc_unmarshal_reply_failure_def
  rpc_atmostonce_failure_def rpc_oldsrv_failure_def rpc_bind_failure_def rpc_cancel_failure_def

text \<open>\<open>bind\<close> is procedure 1; the other numbers are those of the protocol enums.\<close>

definition proc_bind :: u32 where "proc_bind = 1"

datatype lock_status = LOK | LRETRY | LRPCERR | LNOENT | LIOERR
datatype extent_status = XOK | XRPCERR | XNOENT | XIOERR | XFBIG
datatype paxos_status = POK | PERR
datatype rsm_status = ROK | RERR | RBUSY
datatype rsm_client_status = COK | CERR | CNOTPRIMARY | CBUSY | CDELAY
datatype rsm_test_status = TOK | TERR

section \<open>Paxos proposal numbers\<close>

datatype prop_t = Prop (pt_n: u32) (pt_m: string)

definition prop_gt :: "prop_t \<Rightarrow> prop_t \<Rightarrow> bool" where
  "prop_gt a b \<longleftrightarrow> pt_n a > pt_n b \<or> (pt_n a = pt_n b \<and> pt_m a > pt_m b)"

definition prop_ge :: "prop_t \<Rightarrow> prop_t \<Rightarrow> bool" where
  "prop_ge a b \<longleftrightarrow> pt_n a > pt_n b \<or> (pt_n a = pt_n b \<and> pt_m a \<ge> pt_m b)"

instantiation prop_t :: linorder
begin

definition less_prop_t :: "prop_t \<Rightarrow> prop_t \<Rightarrow> bool" where
  "a < b \<longleftrightarrow> prop_gt b a"

definition less_eq_prop_t :: "prop_t \<Rightarrow> prop_t \<Rightarrow> bool" where
  "a \<le> b \<longleftrightarrow> prop_ge b a"

instance
proof
  fix x y z :: prop_t
  show "(x < y) = (x \<le> y \<and> \<not> y \<le> x)"
    by (auto simp: less_prop_t_def less_eq_prop_t_def prop_gt_def prop_ge_def)
  show "x \<le> x" by (simp add: less_eq_prop_t_def prop_ge_def)
  show "x \<le> y \<Longrightarrow> y \<le> z \<Longrightarrow> x \<le> z"
    by (auto simp: less_eq_prop_t_def prop_ge_def)
  show "x \<le> y \<Longrightarrow> y \<le> x \<Longrightarrow> x = y"
    by (cases x; cases y) (auto simp: less_eq_prop_t_def prop_ge_def)
  show "x \<le> y \<or> y \<le> x"
    by (auto simp: less_eq_prop_t_def prop_ge_def)
qed

end

lemma prop_gt_iff [simp]: "prop_gt a b \<longleftrightarrow> b < a"
  by (simp add: less_prop_t_def)

lemma prop_ge_iff [simp]: "prop_ge a b \<longleftrightarrow> b \<le> a"
  by (simp add: less_eq_prop_t_def)

section \<open>View stamps\<close>

datatype viewstamp = Viewstamp (vs_vid: u32) (vs_seqno: u32)

definition viewstamp_eq :: "viewstamp \<Rightarrow> viewstamp \<Rightarrow> bool" where
  "viewstamp_eq a b \<longleftrightarrow> vs_vid a = vs_vid b \<and> vs_seqno a = vs_seqno b"

definition viewstamp_gt :: "viewstamp \<Rightarrow> viewstamp \<Rightarrow> bool" where
  "viewstamp_gt a b \<longleftrightarrow> vs_vid a > vs_vid b \<or> (vs_vid a = vs_vid b \<and> vs_seqno a > vs_seqno b)"

definition viewstamp_ne :: "viewstamp \<Rightarrow> viewstamp \<Rightarrow> bool" where
  "viewstamp_ne a b \<longleftrightarrow> vs_vid a \<noteq> vs_vid b \<or> vs_seqno a \<noteq> vs_seqno b"

instantiation viewstamp :: linorder
begin

definition less_viewstamp :: "viewstamp \<Rightarrow> viewstamp \<Rightarrow> bool" where
  "a < b \<longleftrightarrow> viewstamp_gt b a"

definition less_eq_viewstamp :: "viewstamp \<Rightarrow> viewstamp \<Rightarrow> bool" where
  "a \<le> b \<longleftrightarrow> viewstamp_gt b a \<or> viewstamp_eq b a"

instance
proof
  fix x y z :: viewstamp
  show "(x < y) = (x \<le> y \<and> \<not> y \<le> x)"
    by (auto simp: less_viewstamp_def less_eq_viewstamp_def viewstamp_gt_def viewstamp_eq_def)
  show "x \<le> x" by (simp add: less_eq_viewstamp_def viewstamp_eq_def)
  show "x \<le> y \<Longrightarrow> y \<le> z \<Longrightarrow> x \<le> z"
    by (auto simp: less_eq_viewstamp_def viewstamp_gt_def viewstamp_eq_def)
  show "x \<le> y \<Longrightarrow> y \<le> x \<Longrightarrow> x = y"
    by (cases x; cases y) (auto simp: less_eq_viewstamp_def viewstamp_gt_def viewstamp_eq_def)
  show "x \<le> y \<or> y \<le> x"
    by (auto simp: less_eq_viewstamp_def viewstamp_gt_def viewstamp_eq_def)
qed

end

section \<open>Extent attributes\<close>

datatype attr = Attr (a_atime: u32) (a_mtime: u32) (a_ctime: u32) (a_size: u32)

definition maxextent :: nat where "maxextent = 8192 * 1000"

definition put_attr :: "marshall \<Rightarrow> attr \<Rightarrow> marshall" where
  "put_attr m a =
     (let m = put_u32 m (a_atime a); m = put_u32 m (a_mtime a); m = put_u32 m (a_ctime a)
      in put_u32 m (a_size a))"

definition get_attr :: "unmarshall \<Rightarrow> (attr \<times> unmarshall) res" where
  "get_attr u =
     rbind (get_u32 u) (\<lambda>(at, u). rbind (get_u32 u) (\<lambda>(mt, u).
     rbind (get_u32 u) (\<lambda>(ct, u). rbind (get_u32 u) (\<lambda>(sz, u).
     Inr (Attr at mt ct sz, u)))))"

section \<open>Operators of the Paxos and RSM structs\<close>

definition put_prop :: "marshall \<Rightarrow> prop_t \<Rightarrow> marshall" where
  "put_prop m a = put_string (put_u32 m (pt_n a)) (pt_m a)"

definition get_prop :: "prop_t \<Rightarrow> unmarshall \<Rightarrow> (prop_t \<times> unmarshall) res" where
  "get_prop a u =
     rbind (get_u32 u) (\<lambda>(n, u). rbind (get_string (pt_m a) u) (\<lambda>(s, u). Inr (Prop n s, u)))"

datatype preparearg = Preparearg (pa_instance: u32) (pa_n: prop_t) (pa_v: string)

definition put_preparearg :: "marshall \<Rightarrow> preparearg \<Rightarrow> marshall" where
  "put_preparearg m a =
     put_string (put_prop (put_u32 m (pa_instance a)) (pa_n a)) (pa_v a)"

definition get_preparearg :: "preparearg \<Rightarrow> unmarshall \<Rightarrow> (preparearg \<times> unmarshall) res" where
  "get_preparearg a u =
     rbind (get_u32 u) (\<lambda>(i, u). rbind (get_prop (pa_n a) u) (\<lambda>(n, u).
     rbind (get_string (pa_v a) u) (\<lambda>(v, u). Inr (Preparearg i n v, u))))"

datatype prepareres =
  Prepareres (pr_oldinstance: u32) (pr_accept: u32) (pr_n_a: prop_t) (pr_v_a: string)

definition put_prepareres :: "marshall \<Rightarrow> prepareres \<Rightarrow> marshall" where
  "put_prepareres m r =
     put_string (put_prop (put_u32 (put_u32 m (pr_oldinstance r)) (pr_accept r)) (pr_n_a r))
       (pr_v_a r)"

definition get_prepareres :: "prepareres \<Rightarrow> unmarshall \<Rightarrow> (prepareres \<times> unmarshall) res" where
  "get_prepareres r u =
     rbind (get_u32 u) (\<lambda>(old, u). rbind (get_u32 u) (\<lambda>(acc, u).
     rbind (get_prop (pr_n_a r) u) (\<lambda>(n, u). rbind (get_string (pr_v_a r) u) (\<lambda>(v, u).
     Inr (Prepareres old acc n v, u)))))"

datatype acceptarg = Acceptarg (aa_instance: u32) (aa_n: prop_t) (aa_v: string)

definition put_acceptarg :: "marshall \<Rightarrow> acceptarg \<Rightarrow> marshall" where
  "put_acceptarg m a =
     put_string (put_prop (put_u32 m (aa_instance a)) (aa_n a)) (aa_v a)"

definition get_acceptarg :: "acceptarg \<Rightarrow> unmarshall \<Rightarrow> (acceptarg \<times> unmarshall) res" where
  "get_acceptarg a u =
     rbind (get_u32 u) (\<lambda>(i, u). rbind (get_prop (aa_n a) u) (\<lambda>(n, u).
     rbind (get_string (aa_v a) u) (\<lambda>(v, u). Inr (Acceptarg i n v, u))))"

datatype decidearg = Decidearg (da_instance: u32) (da_v: string)

definition put_decidearg :: "marshall \<Rightarrow> decidearg \<Rightarrow> marshall" where
  "put_decidearg m a = put_string (put_u32 m (da_instance a)) (da_v a)"

definition get_decidearg :: "decidearg \<Rightarrow> unmarshall \<Rightarrow> (decidearg \<times> unmarshall) res" where
  "get_decidearg a u =
     rbind (get_u32 u) (\<lambda>(i, u). rbind (get_string (da_v a) u) (\<lambda>(v, u).
     Inr (Decidearg i v, u)))"

definition put_viewstamp :: "marshall \<Rightarrow> viewstamp \<Rightarrow> marshall" where
  "put_viewstamp m v = put_u32 (put_u32 m (vs_vid v)) (vs_seqno v)"

definition get_viewstamp :: "unmarshall \<Rightarrow> (viewstamp \<times> unmarshall) res" where
  "get_viewstamp u =
     rbind (get_u32 u) (\<lambda>(i, u). rbind (get_u32 u) (\<lambda>(s, u). Inr (Viewstamp i s, u)))"

datatype transferres = Transferres (tr_state: string) (tr_last: viewstamp)

definition put_transferres :: "marshall \<Rightarrow> transferres \<Rightarrow> marshall" where
  "put_transferres m r = put_viewstamp (put_string m (tr_state r)) (tr_last r)"

definition get_transferres :: "transferres \<Rightarrow> unmarshall \<Rightarrow> (transferres \<times> unmarshall) res" where
  "get_transferres r u =
     rbind (get_string (tr_state r) u) (\<lambda>(s, u). rbind (get_viewstamp u) (\<lambda>(l, u).
     Inr (Transferres s l, u)))"

datatype joinres = Joinres (jr_log: string)

definition put_joinres :: "marshall \<Rightarrow> joinres \<Rightarrow> marshall" where
  "put_joinres m r = put_string m (jr_log r)"

definition get_joinres :: "joinres \<Rightarrow> unmarshall \<Rightarrow> (joinres \<times> unmarshall) res" where
  "get_joinres r u = rbind (get_string (jr_log r) u) (\<lambda>(s, u). Inr (Joinres s, u))"

section \<open>Every struct is a codec\<close>

interpretation p_u32_string: codec2 put_u32 get_u32 be32 put_string "get_string old" enc_string
  for old
  by unfold_locales

interpretation p_u32_u32: codec2 put_u32 get_u32 be32 put_u32 get_u32 be32
  by unfold_locales

interpretation prop_c: codec_struct
  "put_pair put_u32 put_string" "get_pair get_u32 (get_string (pt_m old))"
  "enc_pair be32 enc_string" "\<lambda>p. (pt_n p, pt_m p)" "\<lambda>(n, s). Prop n s"
  put_prop "get_prop old" for old
  by unfold_locales
    (auto simp: put_prop_def put_pair_def get_prop_def get_pair_def rbind_assoc split_def)

interpretation viewstamp_c: codec_struct
  "put_pair put_u32 put_u32" "get_pair get_u32 get_u32"
  "enc_pair be32 be32" "\<lambda>v. (vs_vid v, vs_seqno v)" "\<lambda>(i, s). Viewstamp i s"
  put_viewstamp get_viewstamp
  by unfold_locales
    (auto simp: put_viewstamp_def put_pair_def get_viewstamp_def get_pair_def rbind_assoc split_def)

interpretation decidearg_c: codec_struct
  "put_pair put_u32 put_string" "get_pair get_u32 (get_string (da_v old))"
  "enc_pair be32 enc_string" "\<lambda>a. (da_instance a, da_v a)" "\<lambda>(i, v). Decidearg i v"
  put_decidearg "get_decidearg old" for old
  by unfold_locales
    (auto simp: put_decidearg_def put_pair_def get_decidearg_def get_pair_def rbind_assoc split_def)

interpretation p_prop_string: codec2 put_prop "get_prop p" "\<lambda>s. enc_pair be32 enc_string (pt_n s, pt_m s)"
  put_string "get_string old" enc_string for p old
  by unfold_locales

abbreviation enc_prop :: "prop_t \<Rightarrow> byte list" where
  "enc_prop s \<equiv> enc_pair be32 enc_string (pt_n s, pt_m s)"

abbreviation enc_prop_string :: "prop_t \<times> string \<Rightarrow> byte list" where
  "enc_prop_string \<equiv> enc_pair enc_prop enc_string"

interpretation p_u32_prop_string: codec2 put_u32 get_u32 be32
  "put_pair put_prop put_string" "get_pair (get_prop p) (get_string old)" enc_prop_string for p old
  by unfold_locales

interpretation p_u32_u32_prop_string: codec2 put_u32 get_u32 be32
  "put_pair put_u32 (put_pair put_prop put_string)"
  "get_pair get_u32 (get_pair (get_prop p) (get_string old))"
  "enc_pair be32 enc_prop_string" for p old
  by unfold_locales

interpretation p_string_viewstamp: codec2 put_string "get_string old" enc_string
  put_viewstamp get_viewstamp "\<lambda>v. enc_pair be32 be32 (vs_vid v, vs_seqno v)" for old
  by unfold_locales

interpretation p_u32_3: codec2 put_u32 get_u32 be32
  "put_pair put_u32 put_u32" "get_pair get_u32 get_u32" "enc_pair be32 be32"
  by unfold_locales

interpretation p_u32_4: codec2 put_u32 get_u32 be32
  "put_pair put_u32 (put_pair put_u32 put_u32)" "get_pair get_u32 (get_pair get_u32 get_u32)"
  "enc_pair be32 (enc_pair be32 be32)"
  by unfold_locales

interpretation preparearg_c: codec_struct
  "put_pair put_u32 (put_pair put_prop put_string)"
  "get_pair get_u32 (get_pair (get_prop (pa_n old)) (get_string (pa_v old)))"
  "enc_pair be32 enc_prop_string"
  "\<lambda>a. (pa_instance a, pa_n a, pa_v a)" "\<lambda>(i, n, v). Preparearg i n v"
  put_preparearg "get_preparearg old" for old
  by unfold_locales
    (auto simp: put_preparearg_def put_pair_def get_preparearg_def get_pair_def rbind_assoc split_def)

interpretation acceptarg_c: codec_struct
  "put_pair put_u32 (put_pair put_prop put_string)"
  "get_pair get_u32 (get_pair (get_prop (aa_n old)) (get_string (aa_v old)))"
  "enc_pair be32 enc_prop_string"
  "\<lambda>a. (aa_instance a, aa_n a, aa_v a)" "\<lambda>(i, n, v). Acceptarg i n v"
  put_acceptarg "get_acceptarg old" for old
  by unfold_locales
    (auto simp: put_acceptarg_def put_pair_def get_acceptarg_def get_pair_def rbind_assoc split_def)

interpretation prepareres_c: codec_struct
  "put_pair put_u32 (put_pair put_u32 (put_pair put_prop put_string))"
  "get_pair get_u32 (get_pair get_u32 (get_pair (get_prop (pr_n_a old)) (get_string (pr_v_a old))))"
  "enc_pair be32 (enc_pair be32 enc_prop_string)"
  "\<lambda>r. (pr_oldinstance r, pr_accept r, pr_n_a r, pr_v_a r)" "\<lambda>(i, c, n, v). Prepareres i c n v"
  put_prepareres "get_prepareres old" for old
  by unfold_locales
    (auto simp: put_prepareres_def put_pair_def get_prepareres_def get_pair_def rbind_assoc split_def)

interpretation transferres_c: codec_struct
  "put_pair put_string put_viewstamp" "get_pair (get_string (tr_state old)) get_viewstamp"
  "enc_pair enc_string (\<lambda>v. enc_pair be32 be32 (vs_vid v, vs_seqno v))"
  "\<lambda>r. (tr_state r, tr_last r)" "\<lambda>(s, l). Transferres s l"
  put_transferres "get_transferres old" for old
  by unfold_locales
    (auto simp: put_transferres_def put_pair_def get_transferres_def get_pair_def rbind_assoc split_def)

interpretation joinres_c: codec_struct
  put_string "get_string (jr_log old)" enc_string jr_log Joinres
  put_joinres "get_joinres old" for old
  by unfold_locales (auto simp: put_joinres_def get_joinres_def)

interpretation attr_c: codec_struct
  "put_pair put_u32 (put_pair put_u32 (put_pair put_u32 put_u32))"
  "get_pair get_u32 (get_pair get_u32 (get_pair get_u32 get_u32))"
  "enc_pair be32 (enc_pair be32 (enc_pair be32 be32))"
  "\<lambda>a. (a_atime a, a_mtime a, a_ctime a, a_size a)" "\<lambda>(a, m, c, s). Attr a m c s"
  put_attr get_attr
  by unfold_locales
    (auto simp: put_attr_def put_pair_def get_attr_def get_pair_def rbind_assoc split_def Let_def)

text \<open>a prepare reply marshalled into a reply string and unmarshalled again, whatever
  the target object held before, is the same reply (old-instance flag, accept flag, the accepted
  proposal and its value).\<close>

theorem prepareres_roundtrip:
  assumes "length (pt_m (pr_n_a r)) + length (pr_v_a r) < 2 ^ 30"
  shows "\<exists>u. get_prepareres old (unmarshall_content (m_content (put_prepareres marshall_new r)))
    = Inr (r, u) \<and> u_okdone u"
  by (rule prepareres_c.struct.content_roundtrip)
    (use assms in \<open>simp add: enc_pair_def enc_string_def\<close>)

theorem prepareres_roundtrip_witness:
  "\<exists>u. get_prepareres (Prepareres 0 0 (Prop 0 []) ''old'')
      (unmarshall_content (m_content (put_prepareres marshall_new
        (Prepareres 0 1 (Prop 3 ''3001'') ''3001 3002 ''))))
    = Inr (Prepareres 0 1 (Prop 3 ''3001'') ''3001 3002 '', u) \<and> u_okdone u"
  by (rule prepareres_roundtrip) simp

text \<open>reading an encoded member list into a vector appends it to the vector's old
  content; the operator does not clear its target, unlike the one for maps.\<close>

theorem get_vector_string_appends:
  assumes "u_wf u" and "u_ok u" and "u_rest u = enc_vector enc_string v @ rest"
    and "length v < 2 ^ 32"
  shows "get_vector (get_string []) old u = Inr (old @ v, u_adv (length (enc_vector enc_string v)) u)"
  using str.get_vector_enc [OF assms] .

theorem get_vector_string_appends_witness:
  "get_vector (get_string []) [''a''] (unmarshall_content (enc_vector enc_string [''b'', ''c''])) =
    Inr ([''a'', ''b'', ''c''],
      u_adv 14 (unmarshall_content (enc_vector enc_string [''b'', ''c''])))"
proof -
  let ?e = "enc_vector enc_string [''b'', ''c'']"
  have len: "length ?e = 14" by (simp add: enc_vector_def enc_string_def)
  have "u_wf (unmarshall_content ?e)" "u_rest (unmarshall_content ?e) = ?e @ []"
    using u_wf_content [of ?e] len by auto
  moreover have "u_ok (unmarshall_content ?e)" by (simp add: unmarshall_content_def)
  ultimately show ?thesis
    using get_vector_string_appends [of "unmarshall_content ?e" "[''b'', ''c'']" "[]" "[''a'']"] len
    by simp
qed

end
