(* ===== verification/ThreadPool.thy ===== *)
theory ThreadPool
  imports Prelude "HOL-Library.Multiset"
begin

text \<open>
  The bounded queue of \<open>rpc/fifo.h\<close> and the thread pool of \<open>rpc/thr_pool.h\<close> and
  \<open>rpc/thr_pool.cc\<close> that runs the request handlers: the queue's two operations as turns of their
  wait loops, the pool's operations, its worker threads and its destructor as steps of a system,
  and what the pool promises: jobs start in the order they were added, the queue never exceeds
  its capacity, and the destructor returns only after every job has run.
\<close>

section \<open>The queue\<close>

record 'a fifo =
  ff_q :: "'a list"
  ff_max :: u32

definition fifo_new :: "u32 \<Rightarrow> 'a fifo" where
  "fifo_new limit = \<lparr>ff_q = [], ff_max = limit\<rparr>"

text \<open>\<open>size\<close> is declared to return a \<open>bool\<close>: it only tells whether the queue is non-empty.\<close>

definition fifo_size :: "'a fifo \<Rightarrow> bool" where
  "fifo_size f \<longleftrightarrow> length (ff_q f) \<noteq> 0"

text \<open>
  One turn of the loop of \<open>enq\<close>: the element is added, or the caller waits for space, or (not
  blocking) it is refused.  \<open>deq\<close> gives \<open>None\<close> while it waits; the boolean tells whether it
  signals a waiting producer.
\<close>

datatype enq_out = EnqOk | EnqWait | EnqFull

definition fifo_enq :: "'a \<Rightarrow> bool \<Rightarrow> 'a fifo \<Rightarrow> 'a fifo \<times> enq_out" where
  "fifo_enq e blocking f =
     (if ff_max f = 0 \<or> length (ff_q f) < unat (ff_max f) then (f\<lparr>ff_q := ff_q f @ [e]\<rparr>, EnqOk)
      else if blocking then (f, EnqWait) else (f, EnqFull))"

definition fifo_deq :: "'a fifo \<Rightarrow> ('a \<times> 'a fifo \<times> bool) option" where
  "fifo_deq f = (case ff_q f of
     [] \<Rightarrow> None
   | x # q \<Rightarrow> Some (x, f\<lparr>ff_q := q\<rparr>, ff_max f \<noteq> 0 \<and> length q < unat (ff_max f)))"

text \<open>What the users of a queue rely on.\<close>

locale bounded_queue =
  fixes enq :: "'a \<Rightarrow> bool \<Rightarrow> 'q \<Rightarrow> 'q \<times> enq_out"
    and deq :: "'q \<Rightarrow> ('a \<times> 'q \<times> bool) option"
    and items :: "'q \<Rightarrow> 'a list"
    and limit :: "'q \<Rightarrow> nat"
  assumes enq_ok: "enq x b q = (q', EnqOk) \<Longrightarrow>
      items q' = items q @ [x] \<and> limit q' = limit q \<and> (limit q = 0 \<or> length (items q) < limit q)"
    and enq_full: "enq x b q = (q', r) \<Longrightarrow> r \<noteq> EnqOk \<Longrightarrow> q' = q \<and> 0 < limit q \<and> limit q \<le> length (items q)"
    and deq_none: "deq q = None \<longleftrightarrow> items q = []"
    and deq_some: "deq q = Some (x, q', sig) \<Longrightarrow> items q = x # items q' \<and> limit q' = limit q"
begin

lemma enq_history:
  assumes "added = taken @ items q" and "enq x b q = (q', EnqOk)"
  shows "added @ [x] = taken @ items q'"
  using assms(1) enq_ok [OF assms(2)] by simp

lemma deq_history:
  assumes "added = taken @ items q" and "deq q = Some (x, q', sig)"
  shows "added = (taken @ [x]) @ items q'"
  using assms(1) deq_some [OF assms(2)] by simp

lemma enq_bound:
  assumes "limit q = 0 \<or> length (items q) \<le> limit q" and "enq x b q = (q', EnqOk)"
  shows "limit q' = 0 \<or> length (items q') \<le> limit q'"
  using enq_ok [OF assms(2)] by auto

lemma deq_bound:
  assumes "limit q = 0 \<or> length (items q) \<le> limit q" and "deq q = Some (x, q', sig)"
  shows "limit q' = 0 \<or> length (items q') \<le> limit q'"
  using assms(1) deq_some [OF assms(2)] by auto

lemma producer_or_consumer:
  "(\<exists>q'. enq x b q = (q', EnqOk)) \<or> (\<exists>y q' sig. deq q = Some (y, q', sig))"
proof (cases "deq q")
  case None
  obtain q' r where r: "enq x b q = (q', r)" by force
  have "items q = []" using None deq_none by blast
  then have "r = EnqOk" using enq_full [OF r] by fastforce
  then show ?thesis using r by blast
qed auto

end

interpretation fq: bounded_queue fifo_enq fifo_deq ff_q "\<lambda>f. unat (ff_max f)"
  by unfold_locales
    (auto simp: fifo_enq_def fifo_deq_def unat_eq_zero not_less word_neq_0_conv unat_gt_0
      split: if_splits list.splits)

section \<open>The pool\<close>

text \<open>A job is a function pointer and its argument; the null pointer tells a worker to exit.\<close>

record ('f, 'a) job_t =
  jb_f :: "'f option"
  jb_a :: 'a

record ('f, 'a) thr_pool =
  tp_nthreads :: nat
  tp_blockadd :: bool
  tp_jobq :: "('f, 'a) job_t fifo"

definition thr_pool_new :: "nat \<Rightarrow> bool \<Rightarrow> ('f, 'a) thr_pool" where
  "thr_pool_new sz blocking =
     \<lparr>tp_nthreads = sz, tp_blockadd = blocking, tp_jobq = fifo_new (100 * word_of_nat sz)\<rparr>"

definition addJob :: "'f \<Rightarrow> 'a \<Rightarrow> ('f, 'a) thr_pool \<Rightarrow> ('f, 'a) thr_pool \<times> enq_out" where
  "addJob f a p =
     (let (q, r) = fifo_enq \<lparr>jb_f = Some f, jb_a = a\<rparr> (tp_blockadd p) (tp_jobq p)
      in (p\<lparr>tp_jobq := q\<rparr>, r))"

definition takeJob :: "('f, 'a) thr_pool \<Rightarrow> (('f, 'a) job_t \<times> bool \<times> ('f, 'a) thr_pool) option" where
  "takeJob p =
     map_option (\<lambda>(j, q, sig). (j, jb_f j \<noteq> None, p\<lparr>tp_jobq := q\<rparr>)) (fifo_deq (tp_jobq p))"

text \<open>The destructor adds one null job per thread; \<open>junk\<close> is the uninitialised argument.\<close>

definition addPill :: "'a \<Rightarrow> ('f, 'a) thr_pool \<Rightarrow> ('f, 'a) thr_pool \<times> enq_out" where
  "addPill junk p =
     (let (q, r) = fifo_enq \<lparr>jb_f = None, jb_a = junk\<rparr> True (tp_jobq p) in (p\<lparr>tp_jobq := q\<rparr>, r))"

text \<open>A worker is between jobs, in a job, or has left its loop.\<close>

datatype ('f, 'a) worker = Idle | Running "('f, 'a) job_t" | Exited

definition worker_take ::
  "('f, 'a) thr_pool \<Rightarrow> (('f, 'a) worker \<times> ('f, 'a) job_t \<times> ('f, 'a) thr_pool) option" where
  "worker_take p =
     map_option (\<lambda>(j, alive, p). (if alive then Running j else Exited, j, p)) (takeJob p)"

section \<open>The running pool\<close>

text \<open>
  \<open>added\<close> and \<open>taken\<close> record the jobs the queue accepted (without the pills) and handed out (with
  them), \<open>finished\<close> those whose function has returned; \<open>pills\<close> is \<open>None\<close> until the destructor is
  called and then counts the pills it has added.
\<close>

record ('f, 'a) pool_sys =
  ps_pool :: "('f, 'a) thr_pool"
  ps_workers :: "('f, 'a) worker list"
  ps_added :: "('f, 'a) job_t list"
  ps_taken :: "('f, 'a) job_t list"
  ps_finished :: "('f, 'a) job_t list"
  ps_pills :: "nat option"

definition pool_init :: "nat \<Rightarrow> bool \<Rightarrow> ('f, 'a) pool_sys" where
  "pool_init n blocking =
     \<lparr>ps_pool = thr_pool_new n blocking, ps_workers = replicate n Idle, ps_added = [], ps_taken = [],
      ps_finished = [], ps_pills = None\<rparr>"

inductive pool_step :: "('f, 'a) pool_sys \<Rightarrow> ('f, 'a) pool_sys \<Rightarrow> bool" where
  add: "ps_pills s = None \<Longrightarrow> addJob f a (ps_pool s) = (p, EnqOk) \<Longrightarrow>
    pool_step s (s\<lparr>ps_pool := p, ps_added := ps_added s @ [\<lparr>jb_f = Some f, jb_a = a\<rparr>]\<rparr>)"
| close: "ps_pills s = None \<Longrightarrow> pool_step s (s\<lparr>ps_pills := Some 0\<rparr>)"
| pill: "ps_pills s = Some k \<Longrightarrow> k < tp_nthreads (ps_pool s) \<Longrightarrow>
    addPill junk (ps_pool s) = (p, EnqOk) \<Longrightarrow> pool_step s (s\<lparr>ps_pool := p, ps_pills := Some (k + 1)\<rparr>)"
| takes: "i < length (ps_workers s) \<Longrightarrow> ps_workers s ! i = Idle \<Longrightarrow>
    worker_take (ps_pool s) = Some (w, j, p) \<Longrightarrow>
    pool_step s (s\<lparr>ps_pool := p, ps_workers := (ps_workers s)[i := w], ps_taken := ps_taken s @ [j]\<rparr>)"
| finish: "i < length (ps_workers s) \<Longrightarrow> ps_workers s ! i = Running j \<Longrightarrow>
    pool_step s (s\<lparr>ps_workers := (ps_workers s)[i := Idle], ps_finished := ps_finished s @ [j]\<rparr>)"

inductive pool_reach :: "nat \<Rightarrow> bool \<Rightarrow> ('f, 'a) pool_sys \<Rightarrow> bool" for n blocking where
  start: "pool_reach n blocking (pool_init n blocking)"
| more: "pool_reach n blocking s \<Longrightarrow> pool_step s t \<Longrightarrow> pool_reach n blocking t"

text \<open>The destructor's joins return when it has added its pills and every worker has exited.\<close>

definition joined :: "('f, 'a) pool_sys \<Rightarrow> bool" where
  "joined s \<longleftrightarrow> ps_pills s = Some (tp_nthreads (ps_pool s)) \<and> (\<forall>w \<in> set (ps_workers s). w = Exited)"


section \<open>The invariant\<close>

lemma sum_list_upd:
  fixes f :: "'w \<Rightarrow> 'm::comm_monoid_add"
  assumes "i < length ws"
  shows "sum_list (map f (ws[i := w])) + f (ws ! i) = sum_list (map f ws) + f w"
  using assms
proof (induction ws arbitrary: i)
  case (Cons v ws)
  then show ?case by (cases i) (simp_all add: ac_simps)
qed simp

definition exited :: "('f, 'a) worker list \<Rightarrow> nat" where
  "exited ws = sum_list (map (\<lambda>w. if w = Exited then 1 else 0) ws)"

fun in_job :: "('f, 'a) worker \<Rightarrow> ('f, 'a) job_t multiset" where
  "in_job (Running j) = {#j#}"
| "in_job w = {#}"

definition running :: "('f, 'a) worker list \<Rightarrow> ('f, 'a) job_t multiset" where
  "running ws = sum_list (map in_job ws)"

lemmas running_upd = sum_list_upd [where f = in_job, folded running_def]
lemmas exited_upd = sum_list_upd [where f = "\<lambda>w. if w = Exited then 1 else 0 :: nat", folded exited_def]

lemma exited_le: "exited ws \<le> length ws"
  by (induction ws) (auto simp: exited_def)

lemma exited_all: "exited ws = length ws \<longleftrightarrow> (\<forall>w \<in> set ws. w = Exited)"
proof (induction ws)
  case (Cons w ws)
  then show ?case using exited_le [of ws] by (auto simp: exited_def)
qed (simp add: exited_def)

lemma running_exited: "\<forall>w \<in> set ws. w = Exited \<Longrightarrow> running ws = {#}"
  by (induction ws) (auto simp: running_def)

lemma init_workers [simp]: "exited (replicate n Idle) = 0" "running (replicate n Idle) = {#}"
  by (induction n) (simp_all add: exited_def running_def)

definition is_pill :: "('f, 'a) job_t \<Rightarrow> bool" where
  "is_pill j \<longleftrightarrow> jb_f j = None"

lemma is_pill_simps [simp]: "is_pill \<lparr>jb_f = None, jb_a = a\<rparr>" "\<not> is_pill \<lparr>jb_f = Some f, jb_a = a\<rparr>"
  by (simp_all add: is_pill_def)

definition q_bounded :: "'a fifo \<Rightarrow> bool" where
  "q_bounded q \<longleftrightarrow> ff_max q = 0 \<or> length (ff_q q) \<le> unat (ff_max q)"

definition queue_hist :: "('f, 'a) job_t list \<Rightarrow> ('f, 'a) job_t list \<Rightarrow> ('f, 'a) job_t list \<Rightarrow> nat \<Rightarrow> bool" where
  "queue_hist added taken q k \<longleftrightarrow>
     (\<exists>ps. added @ ps = taken @ q \<and> length ps = k \<and> (\<forall>j \<in> set ps. is_pill j))"

definition pills_sent :: "('f, 'a) pool_sys \<Rightarrow> nat" where
  "pills_sent s = (case ps_pills s of None \<Rightarrow> 0 | Some k \<Rightarrow> k)"

definition pool_inv :: "nat \<Rightarrow> ('f, 'a) pool_sys \<Rightarrow> bool" where
  "pool_inv n s \<longleftrightarrow>
     queue_hist (ps_added s) (ps_taken s) (ff_q (tp_jobq (ps_pool s))) (pills_sent s) \<and>
     (\<forall>j \<in> set (ps_added s). \<not> is_pill j) \<and>
     exited (ps_workers s) = length (filter is_pill (ps_taken s)) \<and>
     mset (filter (\<lambda>j. \<not> is_pill j) (ps_taken s)) = mset (ps_finished s) + running (ps_workers s) \<and>
     length (ps_workers s) = n \<and> tp_nthreads (ps_pool s) = n \<and> pills_sent s \<le> n \<and>
     ff_max (tp_jobq (ps_pool s)) = 100 * word_of_nat n \<and>
     q_bounded (tp_jobq (ps_pool s))"

lemma pool_ops:
  "addJob f a p = (p', EnqOk) \<Longrightarrow> \<exists>q. fifo_enq \<lparr>jb_f = Some f, jb_a = a\<rparr> (tp_blockadd p) (tp_jobq p) = (q, EnqOk) \<and>
     p' = p\<lparr>tp_jobq := q\<rparr>"
  "addPill x p = (p', EnqOk) \<Longrightarrow> \<exists>q. fifo_enq \<lparr>jb_f = None, jb_a = x\<rparr> True (tp_jobq p) = (q, EnqOk) \<and>
     p' = p\<lparr>tp_jobq := q\<rparr>"
  "worker_take p = Some (w, j, p') \<Longrightarrow> \<exists>q sig. fifo_deq (tp_jobq p) = Some (j, q, sig) \<and>
     p' = p\<lparr>tp_jobq := q\<rparr> \<and> w = (if is_pill j then Exited else Running j)"
  by (auto simp: is_pill_def addJob_def addPill_def worker_take_def takeJob_def Let_def split: prod.splits)

lemma fifo_max:
  "fifo_enq x b q = (q', r) \<Longrightarrow> ff_max q' = ff_max q"
  "fifo_deq q = Some (x, q', sig) \<Longrightarrow> ff_max q' = ff_max q"
  by (auto simp: fifo_enq_def fifo_deq_def split: if_splits list.splits)

lemma pool_bound:
  assumes "q_bounded q"
  shows "fifo_enq x b q = (q', EnqOk) \<Longrightarrow> q_bounded q'"
    and "fifo_deq q = Some (x, q', sig) \<Longrightarrow> q_bounded q'"
  using fq.enq_bound [of q x b q'] fq.deq_bound [of q x q' sig] assms
  by (auto simp: q_bounded_def unat_eq_zero)

lemma inv_add:
  assumes "pool_inv n s" and "ps_pills s = None" and "addJob f a (ps_pool s) = (p, EnqOk)"
  shows "pool_inv n (s\<lparr>ps_pool := p, ps_added := ps_added s @ [\<lparr>jb_f = Some f, jb_a = a\<rparr>]\<rparr>)"
proof -
  obtain q where q: "fifo_enq \<lparr>jb_f = Some f, jb_a = a\<rparr> (tp_blockadd (ps_pool s)) (tp_jobq (ps_pool s)) = (q, EnqOk)"
    "p = (ps_pool s)\<lparr>tp_jobq := q\<rparr>" using pool_ops(1) [OF assms(3)] by blast
  have "queue_hist (ps_added s @ [\<lparr>jb_f = Some f, jb_a = a\<rparr>]) (ps_taken s) (ff_q q) 0"
    using assms(1,2) fq.enq_history [OF _ q(1)] by (auto simp: pool_inv_def pills_sent_def queue_hist_def)
  then show ?thesis
    using assms(1,2) q(2) fifo_max(1) [OF q(1)] pool_bound(1) [OF _ q(1)]
    by (auto simp: pool_inv_def pills_sent_def)
qed

lemma inv_pill:
  assumes "pool_inv n s" and "ps_pills s = Some k" and "k < tp_nthreads (ps_pool s)"
    and "addPill junk (ps_pool s) = (p, EnqOk)"
  shows "pool_inv n (s\<lparr>ps_pool := p, ps_pills := Some (k + 1)\<rparr>)"
proof -
  let ?j = "\<lparr>jb_f = None, jb_a = junk\<rparr>"
  obtain q where q: "fifo_enq ?j True (tp_jobq (ps_pool s)) = (q, EnqOk)"
    "p = (ps_pool s)\<lparr>tp_jobq := q\<rparr>" using pool_ops(2) [OF assms(4)] by blast
  obtain ps where ps: "ps_added s @ ps = ps_taken s @ ff_q (tp_jobq (ps_pool s))" "length ps = k" "\<forall>j \<in> set ps. is_pill j"
    using assms(1,2) by (auto simp: pool_inv_def pills_sent_def queue_hist_def)
  have "ps_added s @ (ps @ [?j]) = ps_taken s @ ff_q q"
    using fq.enq_history [OF ps(1) q(1)] by simp
  moreover have "length (ps @ [?j]) = k + 1" "\<forall>j \<in> set (ps @ [?j]). is_pill j" using ps by auto
  ultimately have "queue_hist (ps_added s) (ps_taken s) (ff_q q) (k + 1)" unfolding queue_hist_def by blast
  then show ?thesis
    using assms q(2) fifo_max(1) [OF q(1)] pool_bound(1) [OF _ q(1)]
    by (auto simp: pool_inv_def pills_sent_def)
qed

lemma inv_take:
  assumes "pool_inv n s" and i: "i < length (ps_workers s)" "ps_workers s ! i = Idle"
    and "worker_take (ps_pool s) = Some (w, j, p)"
  shows "pool_inv n (s\<lparr>ps_pool := p, ps_workers := (ps_workers s)[i := w], ps_taken := ps_taken s @ [j]\<rparr>)"
proof -
  obtain q sig where q: "fifo_deq (tp_jobq (ps_pool s)) = Some (j, q, sig)"
    "p = (ps_pool s)\<lparr>tp_jobq := q\<rparr>" "w = (if is_pill j then Exited else Running j)"
    using pool_ops(3) [OF assms(4)] by blast
  have "queue_hist (ps_added s) (ps_taken s @ [j]) (ff_q q) (pills_sent s)"
    using assms(1) fq.deq_history [OF _ q(1)] unfolding pool_inv_def queue_hist_def by metis
  moreover have "exited ((ps_workers s)[i := w]) = exited (ps_workers s) + (if is_pill j then 1 else 0)"
    using exited_upd [OF i(1), of w] by (simp add: i(2) q(3))
  moreover have "running ((ps_workers s)[i := w]) = running (ps_workers s) + (if is_pill j then {#} else {#j#})"
    using running_upd [OF i(1), of w] by (simp add: i(2) q(3))
  ultimately show ?thesis
    using assms(1) q(2) fifo_max(2) [OF q(1)] pool_bound(2) [OF _ q(1)]
    by (simp add: pool_inv_def pills_sent_def)
qed

lemma inv_finish:
  assumes "pool_inv n s" and i: "i < length (ps_workers s)" "ps_workers s ! i = Running j"
  shows "pool_inv n (s\<lparr>ps_workers := (ps_workers s)[i := Idle], ps_finished := ps_finished s @ [j]\<rparr>)"
proof -
  have "exited ((ps_workers s)[i := Idle]) = exited (ps_workers s)"
    using exited_upd [OF i(1), of Idle] by (simp add: i(2))
  moreover have "running (ps_workers s) = running ((ps_workers s)[i := Idle]) + {#j#}"
    using running_upd [OF i(1), of Idle] by (simp add: i(2))
  ultimately show ?thesis using assms(1) by (simp add: pool_inv_def pills_sent_def)
qed

lemma inv_step: "pool_step s t \<Longrightarrow> pool_inv n s \<Longrightarrow> pool_inv n t"
proof (induction rule: pool_step.induct)
  case (add s f a p)
  from add.prems add.hyps show ?case by (rule inv_add)
next
  case (close s)
  then show ?case by (simp add: pool_inv_def pills_sent_def)
next
  case (pill s k junk p)
  from pill.prems pill.hyps show ?case by (rule inv_pill)
next
  case (takes i s w j p)
  from takes.prems takes.hyps show ?case by (rule inv_take)
next
  case (finish i s j)
  from finish.prems finish.hyps show ?case by (rule inv_finish)
qed

lemma pool_reach_inv: "pool_reach n b s \<Longrightarrow> pool_inv n s"
proof (induction rule: pool_reach.induct)
  case start
  show ?case
    by (simp add: pool_inv_def pool_init_def thr_pool_new_def fifo_new_def pills_sent_def queue_hist_def q_bounded_def)
next
  case (more s t)
  then show ?case using inv_step by blast
qed

section \<open>What the pool promises\<close>

lemma hist_jobs:
  assumes "queue_hist added taken q k" and "\<forall>j \<in> set added. \<not> is_pill j"
  shows "added = filter (\<lambda>j. \<not> is_pill j) taken @ filter (\<lambda>j. \<not> is_pill j) q"
    and "length (filter is_pill taken) + length (filter is_pill q) = k"
proof -
  obtain ps where ps: "added @ ps = taken @ q" "length ps = k" "\<forall>j \<in> set ps. is_pill j"
    using assms(1) by (auto simp: queue_hist_def)
  have f: "filter (\<lambda>j. \<not> is_pill j) added = added" "filter (\<lambda>j. \<not> is_pill j) ps = []"
    "filter is_pill added = []" "filter is_pill ps = ps"
    using assms(2) ps(3) by (auto simp: filter_empty_conv)
  show "added = filter (\<lambda>j. \<not> is_pill j) taken @ filter (\<lambda>j. \<not> is_pill j) q"
    using arg_cong [OF ps(1), of "filter (\<lambda>j. \<not> is_pill j)"] f by simp
  show "length (filter is_pill taken) + length (filter is_pill q) = k"
    using arg_cong [OF ps(1), of "\<lambda>l. length (filter is_pill l)"] f ps(2) by simp
qed

text \<open>C35: Order and capacity.  In every state the jobs that workers have taken are the first ones
  added, in the order they were added and each once; those not yet finished are being run; and the
  queue holds at most a hundred entries per thread.\<close>

theorem pool_runs_in_order:
  assumes "pool_reach n b s" and "100 * n < 2 ^ 32" and "0 < n"
  shows "(\<exists>waiting. ps_added s = filter (\<lambda>j. jb_f j \<noteq> None) (ps_taken s) @ waiting) \<and>
    mset (filter (\<lambda>j. jb_f j \<noteq> None) (ps_taken s)) = mset (ps_finished s) + running (ps_workers s) \<and>
    length (ff_q (tp_jobq (ps_pool s))) \<le> 100 * n"
proof -
  note i = pool_reach_inv [OF assms(1), unfolded pool_inv_def]
  have "unat (100 * word_of_nat n :: u32) = 100 * n"
    using assms(2) by (simp add: unat_word_ariths unat_of_nat take_bit_nat_eq_self_iff)
  moreover from this have "(100 * word_of_nat n :: u32) \<noteq> 0" using assms(3) by auto
  ultimately have "length (ff_q (tp_jobq (ps_pool s))) \<le> 100 * n"
    using i unfolding q_bounded_def by metis
  then show ?thesis
    using i hist_jobs(1) [of "ps_added s" "ps_taken s"] unfolding is_pill_def by blast
qed

text \<open>Nothing is lost at shutdown.  When the destructor's joins return, the queue is empty and
  every job that was ever accepted has run to its end exactly once.  (A pool without threads, which
  the constructor allows, accepts jobs and never runs them.)\<close>

theorem pool_shutdown_complete:
  assumes "pool_reach n b s" and "0 < n" and "joined s"
  shows "ff_q (tp_jobq (ps_pool s)) = [] \<and> mset (ps_finished s) = mset (ps_added s)"
proof -
  note i = pool_reach_inv [OF assms(1), unfolded pool_inv_def]
  let ?q = "ff_q (tp_jobq (ps_pool s))"
  have h: "queue_hist (ps_added s) (ps_taken s) ?q n" "\<forall>j \<in> set (ps_added s). \<not> is_pill j"
    using i assms(3) by (auto simp: joined_def pills_sent_def)
  have w: "\<forall>w \<in> set (ps_workers s). w = Exited" using assms(3) by (simp add: joined_def)
  have "exited (ps_workers s) = n" using w exited_all i by metis
  then have nil: "filter is_pill ?q = []" using hist_jobs(2) [OF h] i by simp
  obtain ps where ps: "ps_added s @ ps = ps_taken s @ ?q" "length ps = n" "\<forall>j \<in> set ps. is_pill j"
    using h(1) by (auto simp: queue_hist_def)
  have q: "?q = []"
  proof (rule ccontr)
    assume ne: "?q \<noteq> []"
    have ps0: "ps \<noteq> []" using ps(2) assms(2) by auto
    have "List.last ?q = List.last ps" using arg_cong [OF ps(1), of List.last] ps0 ne by simp
    then have "is_pill (List.last ?q)" using ps(3) ps0 by simp
    then show False using nil ne by (auto simp: filter_empty_conv)
  qed
  moreover have "mset (ps_added s) = mset (ps_finished s)"
    using hist_jobs(1) [OF h] q i running_exited [OF w] by simp
  ultimately show ?thesis by simp
qed

text \<open>How far a pool that is being destroyed is from its end.\<close>

definition pool_left :: "('f, 'a) pool_sys \<Rightarrow> nat" where
  "pool_left s = 4 * (tp_nthreads (ps_pool s) - pills_sent s) + 3 * length (ff_q (tp_jobq (ps_pool s))) +
     size (running (ps_workers s))"

lemma pool_left_step:
  assumes "pool_step s t" and "pool_inv n s" and "ps_pills s \<noteq> None"
  shows "pool_left t < pool_left s \<and> ps_pills t \<noteq> None"
  using assms
proof (cases rule: pool_step.cases)
  case (pill k junk p)
  then obtain q where "fifo_enq \<lparr>jb_f = None, jb_a = junk\<rparr> True (tp_jobq (ps_pool s)) = (q, EnqOk)"
    "p = (ps_pool s)\<lparr>tp_jobq := q\<rparr>" using pool_ops(2) [OF pill(4)] by blast
  then show ?thesis using pill(1-3) fq.enq_ok [of "\<lparr>jb_f = None, jb_a = junk\<rparr>" True "tp_jobq (ps_pool s)" q]
    by (simp add: pool_left_def pills_sent_def)
next
  case (takes i w j p)
  then obtain q sig where q: "fifo_deq (tp_jobq (ps_pool s)) = Some (j, q, sig)"
    "p = (ps_pool s)\<lparr>tp_jobq := q\<rparr>" "w = (if is_pill j then Exited else Running j)"
    using pool_ops(3) [OF takes(4)] by blast
  have "size (running ((ps_workers s)[i := w])) \<le> size (running (ps_workers s)) + 1"
    using running_upd [OF takes(2), of w] by (simp add: takes(3) q(3))
  then show ?thesis using takes(1) q(2) fq.deq_some [OF q(1)] assms(3)
    by (simp add: pool_left_def pills_sent_def)
next
  case (finish i j)
  have "running (ps_workers s) = running ((ps_workers s)[i := Idle]) + {#j#}"
    using running_upd [OF finish(2), of Idle] by (simp add: finish(3))
  then show ?thesis using finish(1) assms(3) by (simp add: pool_left_def pills_sent_def)
qed simp_all

lemma pool_can_step:
  assumes "pool_inv n s" and "ps_pills s = Some k" and "\<not> joined s"
  shows "\<exists>t. pool_step s t"
proof (cases "\<exists>i < length (ps_workers s). \<exists>j. ps_workers s ! i = Running j")
  case True
  then show ?thesis using pool_step.finish by blast
next
  case False
  note i = assms(1) [unfolded pool_inv_def]
  have out: "(\<forall>w \<in> set (ps_workers s). w = Exited) \<or> (\<exists>i < length (ps_workers s). ps_workers s ! i = Idle)"
    using False by (metis in_set_conv_nth worker.exhaust)
  show ?thesis
  proof (cases "ff_q (tp_jobq (ps_pool s)) = []")
    case True
    have "length (filter is_pill (ps_taken s)) = k"
      using hist_jobs(2) [of "ps_added s" "ps_taken s" "[]"] i assms(2) True by (simp add: pills_sent_def)
    then have "exited (ps_workers s) = k" using i by simp
    moreover have "k \<le> n" using i assms(2) by (simp add: pills_sent_def)
    ultimately have kn: "k < tp_nthreads (ps_pool s)"
      using i assms(2,3) exited_all [of "ps_workers s"] by (auto simp: joined_def)
    have "fifo_enq x True (tp_jobq (ps_pool s)) = ((tp_jobq (ps_pool s))\<lparr>ff_q := [x]\<rparr>, EnqOk)" for x
      using True by (simp add: fifo_enq_def unat_gt_0)
    then have "\<exists>p. addPill junk (ps_pool s) = (p, EnqOk)" for junk by (simp add: addPill_def)
    then show ?thesis using pool_step.pill [OF assms(2) kn] by blast
  next
    case ne: False
    have "exited (ps_workers s) < n \<or> k = n"
      using i hist_jobs(2) [of "ps_added s" "ps_taken s"] assms(2) by (fastforce simp: pills_sent_def)
    then obtain j where j: "j < length (ps_workers s)" "ps_workers s ! j = Idle"
      using out i exited_all [of "ps_workers s"] assms(2,3) by (auto simp: joined_def)
    obtain x q where "ff_q (tp_jobq (ps_pool s)) = x # q" using ne by (meson neq_Nil_conv)
    then have "\<exists>w x p. worker_take (ps_pool s) = Some (w, x, p)"
      by (simp add: worker_take_def takeJob_def fifo_deq_def)
    then show ?thesis using pool_step.takes [OF j] by blast
  qed
qed

text \<open>C36: Shutdown always gets there.  Once the destructor is called, with whatever jobs still queued
  or running and however full the queue is, the pool never gets stuck, and every sequence of steps
  leads (in at most \<open>pool_left\<close> steps) to the state where the joins return.\<close>

theorem pool_shutdown_terminates:
  assumes "pool_reach n b s" and "ps_pills s \<noteq> None"
  shows "(\<exists>t. pool_step\<^sup>*\<^sup>* s t \<and> joined t) \<and>
    (\<forall>t. pool_step s t \<longrightarrow> pool_left t < pool_left s) \<and> (\<not> joined s \<longrightarrow> (\<exists>t. pool_step s t))"
proof -
  have i: "pool_inv n s" using pool_reach_inv [OF assms(1)] .
  have "pool_inv n s \<Longrightarrow> ps_pills s \<noteq> None \<Longrightarrow> \<exists>t. pool_step\<^sup>*\<^sup>* s t \<and> joined t" for s :: "('a, 'b) pool_sys"
  proof (induction "pool_left s" arbitrary: s rule: less_induct)
    case less
    show ?case
    proof (cases "joined s")
      case True
      then show ?thesis by blast
    next
      case False
      obtain t where t: "pool_step s t" using pool_can_step less.prems False by blast
      then have "pool_inv n t" "pool_left t < pool_left s" "ps_pills t \<noteq> None"
        using pool_left_step less.prems inv_step by blast+
      then obtain u where "pool_step\<^sup>*\<^sup>* t u" "joined u" using less.hyps by blast
      then show ?thesis using t converse_rtranclp_into_rtranclp by metis
    qed
  qed
  then show ?thesis using i assms(2) pool_left_step [OF _ i] pool_can_step [OF i] by blast
qed

section \<open>One run of a pool\<close>

text \<open>One thread; two jobs are added, the first is running when the destructor adds its pill.\<close>

definition ex_pool :: "(nat, nat) job_t list \<Rightarrow> (nat, nat) worker \<Rightarrow> (nat, nat) job_t list \<Rightarrow>
    (nat, nat) job_t list \<Rightarrow> (nat, nat) job_t list \<Rightarrow> nat option \<Rightarrow> (nat, nat) pool_sys" where
  "ex_pool q w added taken fin pills =
     \<lparr>ps_pool = \<lparr>tp_nthreads = 1, tp_blockadd = True, tp_jobq = \<lparr>ff_q = q, ff_max = 100\<rparr>\<rparr>,
      ps_workers = [w], ps_added = added, ps_taken = taken, ps_finished = fin, ps_pills = pills\<rparr>"

definition ex_j :: "nat \<Rightarrow> (nat, nat) job_t" where
  "ex_j k = \<lparr>jb_f = Some k, jb_a = 0\<rparr>"

definition ex_pill :: "(nat, nat) job_t" where
  "ex_pill = \<lparr>jb_f = None, jb_a = 7\<rparr>"

lemma ex_step_add: "length q < 100 \<Longrightarrow>
    pool_step (ex_pool q w ad tk fin None) (ex_pool (q @ [ex_j k]) w (ad @ [ex_j k]) tk fin None)"
  using pool_step.add [of "ex_pool q w ad tk fin None" k 0 "\<lparr>tp_nthreads = 1, tp_blockadd = True, tp_jobq = \<lparr>ff_q = q @ [ex_j k], ff_max = 100\<rparr>\<rparr>"]
  by (simp add: ex_pool_def ex_j_def addJob_def fifo_enq_def)

lemma ex_step_close: "pool_step (ex_pool q w ad tk fin None) (ex_pool q w ad tk fin (Some 0))"
  using pool_step.close [of "ex_pool q w ad tk fin None"] by (simp add: ex_pool_def)

lemma ex_step_pill: "length q < 100 \<Longrightarrow>
    pool_step (ex_pool q w ad tk fin (Some 0)) (ex_pool (q @ [ex_pill]) w ad tk fin (Some 1))"
  using pool_step.pill [of "ex_pool q w ad tk fin (Some 0)" 0 7 "\<lparr>tp_nthreads = 1, tp_blockadd = True, tp_jobq = \<lparr>ff_q = q @ [ex_pill], ff_max = 100\<rparr>\<rparr>"]
  by (simp add: ex_pool_def ex_pill_def addPill_def fifo_enq_def)

lemma ex_step_take: "pool_step (ex_pool (j # q) Idle ad tk fin p)
    (ex_pool q (if jb_f j = None then Exited else Running j) ad (tk @ [j]) fin p)"
  using pool_step.takes [of 0 "ex_pool (j # q) Idle ad tk fin p" "if jb_f j = None then Exited else Running j" j
      "\<lparr>tp_nthreads = 1, tp_blockadd = True, tp_jobq = \<lparr>ff_q = q, ff_max = 100\<rparr>\<rparr>"]
  by (simp add: ex_pool_def worker_take_def takeJob_def fifo_deq_def)

lemma ex_step_finish: "pool_step (ex_pool q (Running j) ad tk fin p) (ex_pool q Idle ad tk (fin @ [j]) p)"
  using pool_step.finish [of 0 "ex_pool q (Running j) ad tk fin p" j] by (simp add: ex_pool_def)

lemma ex_pool_runs:
  "pool_reach 1 True (ex_pool [ex_j 2, ex_pill] (Running (ex_j 1)) [ex_j 1, ex_j 2] [ex_j 1] [] (Some 1))" (is "?mid")
  "pool_reach 1 True (ex_pool [] Exited [ex_j 1, ex_j 2] [ex_j 1, ex_j 2, ex_pill] [ex_j 1, ex_j 2] (Some 1))"
proof -
  have a: "pool_reach 1 True (ex_pool [] Idle [] [] [] None)"
    using pool_reach.start [where n = 1 and blocking = True]
    by (simp add: pool_init_def thr_pool_new_def fifo_new_def ex_pool_def)
  have b: "pool_reach 1 True (ex_pool [ex_j 1] Idle [ex_j 1] [] [] None)"
    using pool_reach.more [OF a ex_step_add, of 1] by simp
  have c: "pool_reach 1 True (ex_pool [ex_j 1, ex_j 2] Idle [ex_j 1, ex_j 2] [] [] None)"
    using pool_reach.more [OF b ex_step_add, of 2] by simp
  have d: "pool_reach 1 True (ex_pool [ex_j 2] (Running (ex_j 1)) [ex_j 1, ex_j 2] [ex_j 1] [] None)"
    using pool_reach.more [OF c ex_step_take] by (simp add: ex_j_def)
  show e: ?mid using pool_reach.more [OF pool_reach.more [OF d ex_step_close] ex_step_pill] by simp
  have f: "pool_reach 1 True (ex_pool [ex_pill] (Running (ex_j 2)) [ex_j 1, ex_j 2] [ex_j 1, ex_j 2] [ex_j 1] (Some 1))"
    using pool_reach.more [OF pool_reach.more [OF e ex_step_finish] ex_step_take] by (simp add: ex_j_def)
  show "pool_reach 1 True (ex_pool [] Exited [ex_j 1, ex_j 2] [ex_j 1, ex_j 2, ex_pill] [ex_j 1, ex_j 2] (Some 1))"
    using pool_reach.more [OF pool_reach.more [OF f ex_step_finish] ex_step_take] by (simp add: ex_pill_def)
qed

theorem pool_runs_in_order_witness:
  "\<exists>waiting. [ex_j 1, ex_j 2] = filter (\<lambda>j. jb_f j \<noteq> None) [ex_j 1] @ waiting"
  using pool_runs_in_order [OF ex_pool_runs(1)] by (simp add: ex_pool_def)

theorem pool_shutdown_complete_witness:
  "mset (ps_finished (ex_pool [] Exited [ex_j 1, ex_j 2] [ex_j 1, ex_j 2, ex_pill] [ex_j 1, ex_j 2] (Some 1))) =
   mset [ex_j 1, ex_j 2]"
proof -
  have "joined (ex_pool [] Exited [ex_j 1, ex_j 2] [ex_j 1, ex_j 2, ex_pill] [ex_j 1, ex_j 2] (Some 1))"
    by (simp add: joined_def ex_pool_def)
  from pool_shutdown_complete [OF ex_pool_runs(2) _ this] show ?thesis by (simp add: ex_pool_def)
qed

theorem pool_shutdown_terminates_witness:
  "\<exists>t. pool_step\<^sup>*\<^sup>* (ex_pool [ex_j 2, ex_pill] (Running (ex_j 1)) [ex_j 1, ex_j 2] [ex_j 1] [] (Some 1)) t \<and> joined t"
  using pool_shutdown_terminates [OF ex_pool_runs(1)] by (simp add: ex_pool_def)

end
