(* ===== verification/Connection.thy ===== *)
theory Connection
  imports Marshal "HOL-Library.Sublist"
begin

text \<open>
  The transport of the RPC library, \<open>rpc/connection.cc\<close>: connections that send and receive PDUs
  over a non-blocking socket, each PDU preceded in its first four bytes by its length, and the
  set of connections of a listening socket.  A connection's members that are touched by the
  polling thread and by sending threads are only changed under its mutex; every section under the
  mutex is one definition.

  The kernel is a parameter.  \<open>read\<close> and \<open>write\<close> may fail (the boolean tells whether \<open>errno\<close> is
  \<open>EAGAIN\<close>) or transfer any number of bytes up to the count they are given; the bytes come from
  the front of what the peer has sent.  \<open>malloc\<close> may fail depending on the size.
\<close>

section \<open>State and kernel\<close>

definition MAX_PDU :: int where "MAX_PDU = 10485760"

text \<open>
  The two \<open>charbuf\<close>s are spread out: \<open>cn_w\<close> is the PDU being written and \<open>cn_r\<close> the one being
  read, each with its size \<open>sz\<close> and the number \<open>so\<close> of bytes transferred so far (\<open>solong\<close>).
  \<open>cn_rbuf\<close> holds the bytes read so far into a block of \<open>cn_ralloc\<close> bytes.
\<close>

record connection =
  cn_dead :: bool
  cn_wbuf :: "byte list option"
  cn_wsz :: int
  cn_wso :: int
  cn_rbuf :: "byte list option"
  cn_ralloc :: nat
  cn_rsz :: int
  cn_rso :: int
  cn_waiters :: nat
  cn_refno :: int

definition connection_new :: connection where
  "connection_new =
     \<lparr>cn_dead = False, cn_wbuf = None, cn_wsz = 0, cn_wso = 0, cn_rbuf = None, cn_ralloc = 0,
      cn_rsz = 0, cn_rso = 0, cn_waiters = 0, cn_refno = 1\<rparr>"

datatype answer = Fails bool | Moves nat

fun sys_read :: "answer \<Rightarrow> nat \<Rightarrow> byte list \<Rightarrow> bool + (byte list \<times> byte list)" where
  "sys_read (Fails again) count inp = Inl again"
| "sys_read (Moves n) count inp = Inr (take (min n count) inp, drop (min n count) inp)"

fun sys_write :: "answer \<Rightarrow> byte list \<Rightarrow> bool + byte list" where
  "sys_write (Fails again) bs = Inl again"
| "sys_write (Moves n) bs = Inr (take n bs)"

text \<open>An \<open>int\<close> passed where a \<open>size_t\<close> is expected.\<close>

definition size_t :: "int \<Rightarrow> nat" where
  "size_t i = unat (word_of_int i :: u64)"

definition htonl_bytes :: "int \<Rightarrow> byte list" where
  "htonl_bytes i = be32 (word_of_int i)"

definition ntohl_int :: "byte list \<Rightarrow> int" where
  "ntohl_int bs = (case bs of
     [a, b, c, d] \<Rightarrow> sint (push_bit 24 (ucast a) OR push_bit 16 (ucast b) OR push_bit 8 (ucast c) OR ucast d :: u32)
   | _ \<Rightarrow> 0)"

section \<open>Writing\<close>

text \<open>\<open>writepdu\<close>: whether it succeeds, the bytes given to the kernel, and the new state.\<close>

definition writepdu :: "answer \<Rightarrow> connection \<Rightarrow> (bool \<times> byte list \<times> connection) res" where
  "writepdu wr c =
     (if cn_wso c < 0 then Inl AssertFail
      else if cn_wso c = cn_wsz c then Inr (True, [], c)
      else (case cn_wbuf c of
        None \<Rightarrow> Inl NullDeref
      | Some b \<Rightarrow>
          (if cn_wso c = 0 \<and> length b < 4 then Inl OutOfBounds
           else
             (let b = (if cn_wso c = 0 then memcpy b 0 (htonl_bytes (cn_wsz c)) else b);
                  c = c\<lparr>cn_wbuf := Some b\<rparr>
              in case sys_write wr (slice (nat (cn_wso c)) (nat (cn_wsz c)) b) of
                   Inl again \<Rightarrow> Inr (again, [], if again then c else c\<lparr>cn_wso := - 1, cn_wsz := 0\<rparr>)
                 | Inr bs \<Rightarrow> Inr (True, bs, c\<lparr>cn_wso := cn_wso c + int (length bs)\<rparr>)))))"

text \<open>
  \<open>send\<close>: the caller counts itself as a waiter while another PDU is being written; then it enters
  its PDU and writes what it can; then it waits for the write callback until \<open>send_ready\<close>; and
  leaves.  \<open>None\<close> from \<open>send_enter\<close> is the early return of \<open>false\<close> on a dead connection.
\<close>

definition send_arrive :: "connection \<Rightarrow> connection" where
  "send_arrive c = c\<lparr>cn_waiters := cn_waiters c + 1\<rparr>"

definition send_waits :: "connection \<Rightarrow> bool" where
  "send_waits c \<longleftrightarrow> \<not> cn_dead c \<and> cn_wbuf c \<noteq> None"

definition send_enter ::
  "byte list \<Rightarrow> int \<Rightarrow> answer \<Rightarrow> connection \<Rightarrow> (connection \<times> byte list option) res" where
  "send_enter b sz wr c =
     (let c = c\<lparr>cn_waiters := cn_waiters c - 1\<rparr>
      in if cn_dead c then Inr (c, None)
         else rbind (writepdu wr (c\<lparr>cn_wbuf := Some b, cn_wsz := sz, cn_wso := 0\<rparr>))
           (\<lambda>(ok, bs, c). Inr (if ok then c else c\<lparr>cn_dead := True\<rparr>, Some bs)))"

definition send_ready :: "connection \<Rightarrow> bool" where
  "send_ready c \<longleftrightarrow> \<not> (\<not> cn_dead c \<and> cn_wso c \<ge> 0 \<and> cn_wso c < cn_wsz c)"

definition send_leave :: "connection \<Rightarrow> bool \<times> connection" where
  "send_leave c =
     (\<not> cn_dead c \<and> cn_wso c = cn_wsz c, c\<lparr>cn_wso := 0, cn_wsz := 0, cn_wbuf := None\<rparr>)"

definition write_cb :: "answer \<Rightarrow> connection \<Rightarrow> (connection \<times> byte list) res" where
  "write_cb wr c =
     (if cn_dead c then Inl AssertFail
      else if cn_wsz c = 0 then Inr (c, [])
      else rbind (writepdu wr c)
        (\<lambda>(ok, bs, c). if \<not> ok then Inr (c\<lparr>cn_dead := True\<rparr>, bs)
                       else if cn_wso c < 0 then Inl AssertFail else Inr (c, bs)))"

section \<open>Reading\<close>

text \<open>
  The body part of \<open>readpdu\<close>.  \<open>stale\<close> is whether \<open>errno\<close> happens to be \<open>EAGAIN\<close> when \<open>read\<close>
  returns 0.  The results carry what is left of the input.
\<close>

definition read_drop :: "connection \<Rightarrow> connection" where
  "read_drop c = c\<lparr>cn_rbuf := None, cn_rsz := 0, cn_rso := 0\<rparr>"

definition read_body ::
  "answer \<Rightarrow> bool \<Rightarrow> byte list \<Rightarrow> connection \<Rightarrow> (bool \<times> byte list \<times> connection) res" where
  "read_body rd stale inp c =
     (case sys_read rd (size_t (cn_rsz c - cn_rso c)) inp of
        Inl again \<Rightarrow> Inr (if again then (True, inp, c) else (False, inp, read_drop c))
      | Inr ([], inp) \<Rightarrow> Inr (if stale then (True, inp, c) else (False, inp, read_drop c))
      | Inr (bs, inp) \<Rightarrow>
          (case cn_rbuf c of
             None \<Rightarrow> Inl NullDeref
           | Some r \<Rightarrow>
               (if nat (cn_rso c) + length bs > cn_ralloc c then Inl OutOfBounds
                else Inr (True, inp, c\<lparr>cn_rbuf := Some (r @ bs), cn_rso := cn_rso c + int (length bs)\<rparr>))))"

definition readpdu ::
  "(nat \<Rightarrow> bool) \<Rightarrow> answer \<Rightarrow> answer \<Rightarrow> bool \<Rightarrow> byte list \<Rightarrow> connection \<Rightarrow>
   (bool \<times> byte list \<times> connection) res" where
  "readpdu malloc_ok hd_rd rd stale inp c =
     (if cn_rsz c = 0 then
        (case sys_read hd_rd 4 inp of
           Inl again \<Rightarrow> if again then Inl AssertFail else Inr (False, inp, c)
         | Inr (sz1, inp) \<Rightarrow>
             (if length sz1 \<noteq> 4 then Inr (False, inp, c)
              else
                (let sz = ntohl_int sz1
                 in if sz > MAX_PDU then Inr (False, inp, c)
                    else if cn_rbuf c \<noteq> None then Inl AssertFail
                    else if \<not> malloc_ok (size_t (sz + 4)) then Inl AssertFail
                    else if size_t (sz + 4) < 4 then Inl OutOfBounds
                    else read_body rd stale inp
                      (c\<lparr>cn_rsz := sz, cn_rbuf := Some sz1, cn_ralloc := size_t (sz + 4), cn_rso := 4\<rparr>))))
      else read_body rd stale inp c)"

text \<open>
  The read callback.  A complete PDU is offered to the channel manager, again at every callback
  until it is \<open>consumed\<close>; the last component is what was offered.
\<close>

definition read_cb ::
  "(nat \<Rightarrow> bool) \<Rightarrow> answer \<Rightarrow> answer \<Rightarrow> bool \<Rightarrow> bool \<Rightarrow> byte list \<Rightarrow> connection \<Rightarrow>
   (connection \<times> byte list \<times> byte list option) res" where
  "read_cb malloc_ok hd_rd rd stale consumed inp c =
     (if cn_dead c then Inr (c, inp, None)
      else rbind (if cn_rbuf c = None \<or> cn_rso c < cn_rsz c then readpdu malloc_ok hd_rd rd stale inp c
                  else Inr (True, inp, c))
        (\<lambda>(succ, inp, c).
           let c = (if succ then c else c\<lparr>cn_dead := True\<rparr>)
           in if cn_rbuf c \<noteq> None \<and> cn_rsz c = cn_rso c
              then Inr (if consumed then read_drop c else c, inp, cn_rbuf c)
              else Inr (c, inp, None)))"

section \<open>Closing and reference counts\<close>

definition isdead :: "connection \<Rightarrow> bool" where
  "isdead c = cn_dead c"

text \<open>Whether \<open>closeconn\<close> goes on to remove the descriptor from the poll manager.\<close>

definition closeconn :: "connection \<Rightarrow> connection \<times> bool" where
  "closeconn c = (if \<not> cn_dead c then (c\<lparr>cn_dead := True\<rparr>, True) else (c, False))"

definition conn_incref :: "connection \<Rightarrow> connection" where
  "conn_incref c = c\<lparr>cn_refno := cn_refno c + 1\<rparr>"

definition conn_ref :: "connection \<Rightarrow> int" where
  "conn_ref c = cn_refno c"

text \<open>The destructor's asserts; \<open>None\<close> from \<open>conn_decref\<close> is a deleted connection.\<close>

definition connection_delete :: "connection \<Rightarrow> unit res" where
  "connection_delete c = (if \<not> cn_dead c \<or> cn_wbuf c \<noteq> None then Inl AssertFail else Inr ())"

definition conn_decref :: "connection \<Rightarrow> connection option res" where
  "conn_decref c =
     (let c = c\<lparr>cn_refno := cn_refno c - 1\<rparr>
      in if cn_refno c < 0 then Inl AssertFail
         else if cn_refno c = 0 \<and> cn_dead c then rbind (connection_delete c) (\<lambda>_. Inr None)
         else Inr (Some c))"

section \<open>The connections of a listening socket\<close>

text \<open>
  \<open>conns_\<close> maps descriptors to connections and is visited in their order.  \<open>process_accept\<close> drops
  the dead connections that only the map refers to, then enters the new one.
\<close>

fun collect_dead :: "(int \<times> connection) list \<Rightarrow> (int \<times> connection) list res" where
  "collect_dead [] = Inr []"
| "collect_dead ((fd, c) # conns) =
     (if isdead c \<and> conn_ref c = 1 then rbind (conn_decref c) (\<lambda>_. collect_dead conns)
      else rbind (collect_dead conns) (\<lambda>conns. Inr ((fd, c) # conns)))"

definition process_accept :: "int \<Rightarrow> (int \<times> connection) list \<Rightarrow> (int \<times> connection) list res" where
  "process_accept s1 conns = rbind (collect_dead conns) (\<lambda>conns. Inr (smap_update s1 connection_new conns))"

text \<open>The destructor; the result lists the connections that others still refer to.\<close>

fun tcpsconn_delete :: "(int \<times> connection) list \<Rightarrow> (int \<times> connection) list res" where
  "tcpsconn_delete [] = Inr []"
| "tcpsconn_delete ((fd, c) # conns) =
     rbind (conn_decref (fst (closeconn c))) (\<lambda>left.
       rbind (tcpsconn_delete conns) (\<lambda>conns. Inr (case left of None \<Rightarrow> conns | Some c \<Rightarrow> (fd, c) # conns)))"

section \<open>One direction of a connection\<close>

text \<open>
  A sending and a receiving connection and the bytes on their way.  \<open>lk_sent\<close> records the PDUs
  passed to \<open>send\<close> on a live connection and \<open>lk_dlv\<close> those the receiver's manager consumed.
\<close>

record link =
  lk_snd :: connection
  lk_rcv :: connection
  lk_wire :: "byte list"
  lk_sent :: "byte list list"
  lk_dlv :: "byte list list"

inductive link_step :: "(nat \<Rightarrow> bool) \<Rightarrow> link \<Rightarrow> link \<Rightarrow> bool" for malloc_ok where
  sends: "\<not> send_waits (lk_snd s) \<Longrightarrow> 4 < length b \<Longrightarrow> int (length b) \<le> MAX_PDU \<Longrightarrow>
    send_enter b (int (length b)) wr (lk_snd s) = Inr (c, Some bs) \<Longrightarrow>
    link_step malloc_ok s (s\<lparr>lk_snd := c, lk_wire := lk_wire s @ bs, lk_sent := lk_sent s @ [b]\<rparr>)"
| wcb: "write_cb wr (lk_snd s) = Inr (c, bs) \<Longrightarrow>
    link_step malloc_ok s (s\<lparr>lk_snd := c, lk_wire := lk_wire s @ bs\<rparr>)"
| leave: "cn_wbuf (lk_snd s) \<noteq> None \<Longrightarrow> send_ready (lk_snd s) \<Longrightarrow>
    link_step malloc_ok s (s\<lparr>lk_snd := snd (send_leave (lk_snd s))\<rparr>)"
| rcb: "read_cb malloc_ok hd_rd rd stale consumed (lk_wire s) (lk_rcv s) = Inr (c, inp, off) \<Longrightarrow>
    link_step malloc_ok s (s\<lparr>lk_rcv := c, lk_wire := inp,
      lk_dlv := lk_dlv s @ (case off of Some b \<Rightarrow> (if consumed then [b] else []) | None \<Rightarrow> [])\<rparr>)"
| close_snd: "link_step malloc_ok s (s\<lparr>lk_snd := fst (closeconn (lk_snd s))\<rparr>)"
| close_rcv: "link_step malloc_ok s (s\<lparr>lk_rcv := fst (closeconn (lk_rcv s))\<rparr>)"

inductive link_reach :: "(nat \<Rightarrow> bool) \<Rightarrow> link \<Rightarrow> bool" for malloc_ok where
  start: "link_reach malloc_ok
    \<lparr>lk_snd = connection_new, lk_rcv = connection_new, lk_wire = [], lk_sent = [], lk_dlv = []\<rparr>"
| more: "link_reach malloc_ok s \<Longrightarrow> link_step malloc_ok s t \<Longrightarrow> link_reach malloc_ok t"

text \<open>A PDU as it travels: its first four bytes are its length.\<close>

definition frame :: "byte list \<Rightarrow> byte list" where
  "frame b = htonl_bytes (int (length b)) @ drop 4 b"

definition frames :: "byte list list \<Rightarrow> byte list" where
  "frames bs = concat (map frame bs)"

lemma frames_simps [simp]: "frames [] = []" "frames (b # bs) = frame b @ frames bs"
  "frames (xs @ ys) = frames xs @ frames ys"
  by (simp_all add: frames_def)

lemma length_htonl [simp]: "length (htonl_bytes i) = 4"
  by (simp add: htonl_bytes_def)

lemma frame_length [simp]: "4 \<le> length b \<Longrightarrow> length (frame b) = length b"
  by (simp add: frame_def)

lemma memcpy_frame: "4 \<le> length b \<Longrightarrow> memcpy b 0 (htonl_bytes (int (length b))) = frame b"
  by (simp add: memcpy_def frame_def)

lemma frame_frame: "4 \<le> length b \<Longrightarrow> frame (frame b) = frame b"
  by (simp add: frame_def)

lemma ntohl_htonl: "- (2 ^ 31) \<le> i \<Longrightarrow> i < 2 ^ 31 \<Longrightarrow> ntohl_int (htonl_bytes i) = i"
proof -
  assume i: "- (2 ^ 31) \<le> i" "i < 2 ^ 31"
  let ?w = "word_of_int i :: u32"
  have b: "(ucast (ucast (x AND 0xff) :: byte) :: u32) = x AND 0xff" for x :: u32
    unfolding ff_mask by (rule bit_word_eqI) (auto simp: bit_simps)
  have "ntohl_int (htonl_bytes i) = sint ?w"
    unfolding htonl_bytes_def be32_def ntohl_int_def list.case b u32_bytes_join ..
  also have "\<dots> = i" using i by (simp add: sint_sbintrunc' signed_take_bit_int_eq_self)
  finally show ?thesis .
qed

lemma size_t_nonneg: "0 \<le> i \<Longrightarrow> i < 2 ^ 63 \<Longrightarrow> size_t i = nat i"
  by (simp add: size_t_def unat_eq_nat_uint uint_word_of_int)

section \<open>The sender's part of the invariant\<close>

definition pdu_ok :: "byte list \<Rightarrow> bool" where
  "pdu_ok b \<longleftrightarrow> 4 < length b \<and> int (length b) \<le> MAX_PDU"

text \<open>\<open>c\<close> is in the middle of writing \<open>b\<close>.\<close>

definition writing :: "byte list \<Rightarrow> connection \<Rightarrow> bool" where
  "writing b c \<longleftrightarrow> (\<exists>w. cn_wbuf c = Some w \<and> cn_wsz c = int (length b) \<and> 0 \<le> cn_wso c \<and>
     cn_wso c \<le> cn_wsz c \<and> length w = length b \<and> frame w = frame b \<and> (0 < cn_wso c \<longrightarrow> w = frame b))"

lemma writepdu_writing:
  assumes "writing b c" and "pdu_ok b" and w: "writepdu wr c = Inr (ok, bs, c')"
  shows "\<exists>rest. drop (nat (cn_wso c)) (frame b) = bs @ rest \<and> cn_dead c' = cn_dead c \<and>
    (ok \<longrightarrow> writing b c' \<and> rest = drop (nat (cn_wso c')) (frame b))"
proof -
  obtain v where v: "cn_wbuf c = Some v" "cn_wsz c = int (length b)" "0 \<le> cn_wso c" "cn_wso c \<le> cn_wsz c"
    "length v = length b" "frame v = frame b" "0 < cn_wso c \<longrightarrow> v = frame b"
    using assms(1) by (auto simp: writing_def)
  have len: "4 < length b" "length (frame b) = length b" using assms(2) by (simp_all add: pdu_ok_def)
  show ?thesis
  proof (cases "cn_wso c = cn_wsz c")
    case True
    then have "bs = []" "c' = c" using w v(3) by (simp_all add: writepdu_def)
    then show ?thesis using assms(1) by simp
  next
    case False
    have patch: "(if cn_wso c = 0 then memcpy v 0 (htonl_bytes (cn_wsz c)) else v) = frame b"
      using v len memcpy_frame [of v] by auto
    have sl: "slice (nat (cn_wso c)) (nat (cn_wsz c)) (frame b) = drop (nat (cn_wso c)) (frame b)"
      using v(2) len by (simp add: slice_def)
    have eq: "writepdu wr c = (let c = c\<lparr>cn_wbuf := Some (frame b)\<rparr> in
        case sys_write wr (drop (nat (cn_wso c)) (frame b)) of
          Inl again \<Rightarrow> Inr (again, [], if again then c else c\<lparr>cn_wso := - 1, cn_wsz := 0\<rparr>)
        | Inr bs \<Rightarrow> Inr (True, bs, c\<lparr>cn_wso := cn_wso c + int (length bs)\<rparr>))"
    proof (cases "cn_wso c = 0")
      case True
      then have "memcpy v 0 (htonl_bytes (cn_wsz c)) = frame b" "slice 0 (nat (cn_wsz c)) (frame b) = frame b"
        using patch sl by simp_all
      then show ?thesis using v(1,3,5) len(1) False True by (simp add: writepdu_def Let_def)
    next
      case nz: False
      then show ?thesis using v(1,3,5,7) sl False by (simp add: writepdu_def Let_def)
    qed
    show ?thesis
    proof (cases wr)
      case (Fails again)
      then show ?thesis using w v len unfolding eq
        by (auto simp: Let_def writing_def frame_frame split: if_splits)
    next
      case (Moves n)
      have bs: "bs = take n (drop (nat (cn_wso c)) (frame b))" "ok"
        "c' = c\<lparr>cn_wbuf := Some (frame b), cn_wso := cn_wso c + int (length bs)\<rparr>"
        using w Moves unfolding eq by (auto simp: Let_def)
      have "int (length bs) \<le> cn_wsz c - cn_wso c" using bs(1) v(2-4) len by simp
      then have "writing b c'" using v len by (auto simp: writing_def bs(3) frame_frame)
      moreover have "drop (nat (cn_wso c')) (frame b) = drop n (drop (nat (cn_wso c)) (frame b))"
      proof -
        have "drop (length bs) (drop (nat (cn_wso c)) (frame b)) = drop n (drop (nat (cn_wso c)) (frame b))"
          by (simp add: bs(1) min_def)
        then show ?thesis using v(3) by (simp add: bs(3) nat_add_distrib add.commute)
      qed
      moreover have "drop (nat (cn_wso c)) (frame b) = bs @ drop n (drop (nat (cn_wso c)) (frame b))"
        unfolding bs(1) by (rule append_take_drop_id [symmetric])
      moreover have "cn_dead c' = cn_dead c" by (simp add: bs(3))
      ultimately show ?thesis by metis
    qed
  qed
qed

text \<open>\<open>rest\<close> is what the sender still has to write of the PDUs in \<open>sent\<close>.\<close>

definition snd_ok :: "connection \<Rightarrow> byte list list \<Rightarrow> byte list \<Rightarrow> bool" where
  "snd_ok c sent rest \<longleftrightarrow> cn_dead c \<or>
     (if cn_wbuf c = None then rest = [] \<and> cn_wsz c = 0
      else (\<exists>before b. sent = before @ [b] \<and> writing b c \<and> rest = drop (nat (cn_wso c)) (frame b)))"

lemma snd_ok_enter:
  assumes "snd_ok c sent rest" and "\<not> send_waits c" and b: "pdu_ok b"
    and e: "send_enter b (int (length b)) wr c = Inr (c', Some bs)"
  shows "rest = [] \<and> (\<exists>rest'. frame b = bs @ rest' \<and> snd_ok c' (sent @ [b]) rest')"
proof -
  let ?c = "c\<lparr>cn_waiters := cn_waiters c - 1, cn_wbuf := Some b, cn_wsz := int (length b), cn_wso := 0\<rparr>"
  have live: "\<not> cn_dead c" using e by (auto simp: send_enter_def Let_def split: if_splits)
  then have rest: "rest = []" using assms(1,2) by (auto simp: snd_ok_def send_waits_def)
  obtain ok bs' c1 where w: "writepdu wr ?c = Inr (ok, bs', c1)" "bs' = bs" "c' = (if ok then c1 else c1\<lparr>cn_dead := True\<rparr>)"
    using e live by (auto simp: send_enter_def Let_def rbind_def split: sum.splits)
  have "writing b ?c" by (simp add: writing_def)
  from writepdu_writing [OF this b w(1)] show ?thesis
    using rest w(2,3) by (auto simp: snd_ok_def writing_def)
qed

lemma snd_ok_write:
  assumes "snd_ok c sent rest" and "\<forall>b \<in> set sent. pdu_ok b" and "write_cb wr c = Inr (c', bs)"
  shows "\<exists>rest'. rest = bs @ rest' \<and> snd_ok c' sent rest'"
proof -
  have live: "\<not> cn_dead c" using assms(3) by (auto simp: write_cb_def split: if_splits)
  show ?thesis
  proof (cases "cn_wsz c = 0")
    case True
    then show ?thesis using assms(1,3) live by (auto simp: write_cb_def)
  next
    case False
    then obtain before b where b: "sent = before @ [b]" "writing b c" "rest = drop (nat (cn_wso c)) (frame b)"
      using assms(1) live by (auto simp: snd_ok_def split: if_splits)
    obtain ok bs' c1 where w: "writepdu wr c = Inr (ok, bs', c1)" "bs' = bs" "c' = (if ok then c1 else c1\<lparr>cn_dead := True\<rparr>)"
      using assms(3) live False by (auto simp: write_cb_def rbind_def split: sum.splits if_splits)
    have "pdu_ok b" using assms(2) b(1) by simp
    from writepdu_writing [OF b(2) this w(1)] show ?thesis
      using b w(2,3) by (auto simp: snd_ok_def writing_def)
  qed
qed

lemma snd_ok_leave:
  assumes "snd_ok c sent rest" and "cn_wbuf c \<noteq> None" and "send_ready c" and "\<forall>b \<in> set sent. pdu_ok b"
  shows "snd_ok (snd (send_leave c)) sent rest"
proof (cases "cn_dead c")
  case False
  then obtain before b where b: "sent = before @ [b]" "writing b c" "rest = drop (nat (cn_wso c)) (frame b)"
    using assms(1,2) by (auto simp: snd_ok_def)
  then have "cn_wso c = cn_wsz c" using assms(3) False by (auto simp: send_ready_def writing_def)
  moreover have "4 < length b" using assms(4) b(1) by (simp add: pdu_ok_def)
  ultimately have "rest = []" using b(2,3) by (auto simp: writing_def)
  then show ?thesis by (simp add: snd_ok_def send_leave_def)
qed (simp add: snd_ok_def send_leave_def)

lemma snd_ok_close: "snd_ok c sent rest \<Longrightarrow> snd_ok (fst (closeconn c)) sent rest"
  by (simp add: snd_ok_def closeconn_def)

section \<open>The receiver's part\<close>

definition rbytes :: "connection \<Rightarrow> byte list" where
  "rbytes c = (case cn_rbuf c of None \<Rightarrow> [] | Some r \<Rightarrow> r)"

definition rcv_ok :: "connection \<Rightarrow> bool" where
  "rcv_ok c \<longleftrightarrow> (case cn_rbuf c of
     None \<Rightarrow> cn_rsz c = 0 \<and> cn_rso c = 0
   | Some r \<Rightarrow> 4 \<le> length r \<and> cn_rso c = int (length r) \<and> cn_rsz c = ntohl_int (take 4 r) \<and>
       4 < cn_rsz c \<and> cn_rsz c \<le> MAX_PDU \<and> cn_rso c \<le> cn_rsz c \<and> cn_ralloc c = nat (cn_rsz c) + 4)"

lemma header_of_frame:
  assumes "h @ x = frames todo" and "4 \<le> length h" and "\<forall>b \<in> set todo. pdu_ok b"
  shows "\<exists>b todo'. todo = b # todo' \<and> ntohl_int (take 4 h) = int (length b)"
proof (cases todo)
  case Nil
  then show ?thesis using assms(1,2) by simp
next
  case (Cons b todo')
  have b: "int (length b) < 2 ^ 31" using assms(3) Cons by (simp add: pdu_ok_def MAX_PDU_def)
  have "take 4 h = take 4 (h @ x)" using assms(2) by simp
  also have "\<dots> = htonl_bytes (int (length b))" unfolding assms(1) Cons by (simp add: frame_def)
  finally show ?thesis using Cons b by (simp add: ntohl_htonl)
qed

lemma whole_frame:
  assumes "r @ x = frames todo" and "4 \<le> length r" and "int (length r) = ntohl_int (take 4 r)"
    and "\<forall>b \<in> set todo. pdu_ok b"
  shows "\<exists>b todo'. todo = b # todo' \<and> r = frame b \<and> x = frames todo'"
proof -
  obtain b todo' where b: "todo = b # todo'" "ntohl_int (take 4 r) = int (length b)"
    using header_of_frame [OF assms(1,2,4)] by blast
  have "length (frame b) = length r" using assms(3,4) b by (simp add: pdu_ok_def)
  moreover have "frame b @ frames todo' = r @ x" using assms(1) b(1) by simp
  ultimately show ?thesis using b(1) by simp
qed

text \<open>A read step stays inside its buffer and keeps the bytes and their order.\<close>

definition read_good :: "connection \<Rightarrow> byte list \<Rightarrow> (bool \<times> byte list \<times> connection) res \<Rightarrow> bool" where
  "read_good c inp R \<longleftrightarrow> R \<noteq> Inl OutOfBounds \<and>
     (\<forall>ok inp' c'. R = Inr (ok, inp', c') \<longrightarrow> cn_dead c' = cn_dead c \<and>
        (ok \<longrightarrow> rcv_ok c' \<and> rbytes c' @ inp' = rbytes c @ inp) \<and> (\<not> ok \<longrightarrow> cn_rbuf c' = None))"

lemma read_good_cong:
  assumes "read_good c1 inp1 R" and "cn_dead c1 = cn_dead c" and "rbytes c1 @ inp1 = rbytes c @ inp"
  shows "read_good c inp R"
  using assms unfolding read_good_def by metis

lemma read_good_simps:
  "read_good c inp (Inl e) \<longleftrightarrow> e \<noteq> OutOfBounds"
  "read_good c inp (Inr (False, inp', c')) \<longleftrightarrow> cn_dead c' = cn_dead c \<and> cn_rbuf c' = None"
  "read_good c inp (Inr (True, inp', c')) \<longleftrightarrow> cn_dead c' = cn_dead c \<and> rcv_ok c' \<and> rbytes c' @ inp' = rbytes c @ inp"
  by (auto simp: read_good_def)

lemma read_body_good:
  assumes c: "rcv_ok c" "cn_rbuf c = Some r"
  shows "read_good c inp (read_body rd stale inp c)"
proof -
  have n: "size_t (cn_rsz c - cn_rso c) = nat (cn_rsz c) - length r"
    using c by (simp add: rcv_ok_def size_t_nonneg MAX_PDU_def nat_diff_distrib)
  show ?thesis
  proof (cases rd)
    case (Fails again)
    then show ?thesis using c by (simp add: read_body_def read_drop_def read_good_simps)
  next
    case (Moves k)
    let ?k = "min k (nat (cn_rsz c) - length r)"
    show ?thesis
    proof (cases "take ?k inp")
      case Nil
      then have "drop ?k inp = inp" by auto
      then have "sys_read rd (size_t (cn_rsz c - cn_rso c)) inp = Inr ([], inp)" using Moves Nil n by simp
      then show ?thesis using c by (simp add: read_body_def read_drop_def read_good_simps)
    next
      case (Cons x xs)
      let ?bs = "take ?k inp"
      let ?c = "c\<lparr>cn_rbuf := Some (r @ ?bs), cn_rso := cn_rso c + int (length ?bs)\<rparr>"
      have "length r \<le> nat (cn_rsz c)" using c by (simp add: rcv_ok_def nat_le_iff le_nat_iff)
      moreover have "length ?bs \<le> nat (cn_rsz c) - length r" by simp
      ultimately have len: "length r + length ?bs \<le> nat (cn_rsz c)" by linarith
      have eq: "read_body rd stale inp c = Inr (True, drop ?k inp, ?c)"
      proof -
        have "\<not> nat (cn_rso c) + length ?bs > cn_ralloc c" using c len by (simp add: rcv_ok_def)
        moreover have "sys_read rd (size_t (cn_rsz c - cn_rso c)) inp = Inr (x # xs, drop ?k inp)"
          using Cons n Moves by simp
        ultimately show ?thesis using c(2) unfolding Cons by (simp add: read_body_def)
      qed
      have "0 \<le> cn_rsz c" using c by (simp add: rcv_ok_def)
      then have "int (length r) + int (length ?bs) \<le> cn_rsz c" using len by linarith
      then have "rcv_ok ?c" using c by (simp add: rcv_ok_def del: length_take)
      then show ?thesis using c(2) unfolding eq
        by (simp add: rbytes_def append_take_drop_id read_good_simps)
    qed
  qed
qed

lemma readpdu_good:
  assumes c: "rcv_ok c" and todo: "rbytes c @ inp @ rest = frames todo" "\<forall>b \<in> set todo. pdu_ok b"
  shows "read_good c inp (readpdu al hd_rd rd stale inp c)"
proof (cases "cn_rbuf c")
  case (Some r)
  then have "cn_rsz c \<noteq> 0" using c by (simp add: rcv_ok_def)
  then have "readpdu al hd_rd rd stale inp c = read_body rd stale inp c" by (simp add: readpdu_def)
  then show ?thesis using read_body_good [OF c Some] by simp
next
  case None
  then have z: "cn_rsz c = 0" "rbytes c = []" using c by (simp_all add: rcv_ok_def rbytes_def)
  show ?thesis
  proof (cases hd_rd)
    case (Fails again)
    then show ?thesis using None z by (simp add: readpdu_def read_good_simps)
  next
    case (Moves k)
    let ?k = "min k 4"
    let ?h = "take ?k inp"
    show ?thesis
    proof (cases "length ?h = 4")
      case False
      then show ?thesis using None z Moves by (simp add: readpdu_def read_good_simps)
    next
      case True
      let ?sz = "ntohl_int ?h"
      have "?h @ (drop ?k inp @ rest) = frames todo" using todo(1) z(2) append_take_drop_id [of ?k inp]
        by (metis append.assoc append.left_neutral)
      moreover have h4: "4 \<le> length ?h" "take 4 ?h = ?h" using True by (simp_all only: order_refl take_all)
      ultimately obtain b where b: "b \<in> set todo" "?sz = int (length b)"
        using header_of_frame [OF _ h4(1) todo(2)] unfolding h4(2) by (metis list.set_intros(1))
      then have sz: "4 < ?sz" "?sz \<le> MAX_PDU" "size_t (?sz + 4) = nat ?sz + 4"
        using todo(2) by (auto simp: pdu_ok_def size_t_nonneg MAX_PDU_def nat_add_distrib)
      let ?c = "c\<lparr>cn_rsz := ?sz, cn_rbuf := Some ?h, cn_ralloc := nat ?sz + 4, cn_rso := 4\<rparr>"
      have eq: "readpdu al hd_rd rd stale inp c =
        (if \<not> al (nat ?sz + 4) then Inl AssertFail else read_body rd stale (drop ?k inp) ?c)"
        using None z Moves True sz by (simp add: readpdu_def Let_def)
      have "rcv_ok ?c" using sz True by (simp add: rcv_ok_def)
      then have "read_good ?c (drop ?k inp) (read_body rd stale (drop ?k inp) ?c)"
        by (rule read_body_good) simp
      then have "read_good c inp (read_body rd stale (drop ?k inp) ?c)"
        by (rule read_good_cong) (simp_all add: rbytes_def None append_take_drop_id)
      then show ?thesis unfolding eq by (simp add: read_good_simps)
    qed
  qed
qed

lemma read_cb_live:
  assumes "\<not> cn_dead c" and c: "rcv_ok c" and todo: "rbytes c @ inp @ rest = frames todo" "\<forall>b \<in> set todo. pdu_ok b"
  shows "read_cb al hd_rd rd stale consumed inp c \<noteq> Inl OutOfBounds"
    and "read_cb al hd_rd rd stale consumed inp c = Inr (c', inp', off) \<Longrightarrow>
      (cn_dead c' \<and> off = None) \<or> (\<not> cn_dead c' \<and> rcv_ok c' \<and> (case off of
         None \<Rightarrow> rbytes c' @ inp' = rbytes c @ inp
       | Some p \<Rightarrow> p @ inp' = rbytes c @ inp \<and> 4 \<le> length p \<and> int (length p) = ntohl_int (take 4 p) \<and>
           rbytes c' = (if consumed then [] else p)))"
proof -
  let ?R = "if cn_rbuf c = None \<or> cn_rso c < cn_rsz c then readpdu al hd_rd rd stale inp c else Inr (True, inp, c)"
  have R: "read_good c inp ?R" using readpdu_good [OF c todo] c by (simp add: read_good_simps)
  have cb: "read_cb al hd_rd rd stale consumed inp c = rbind ?R (\<lambda>(succ, inp, c).
      let c = (if succ then c else c\<lparr>cn_dead := True\<rparr>)
      in if cn_rbuf c \<noteq> None \<and> cn_rsz c = cn_rso c
         then Inr (if consumed then read_drop c else c, inp, cn_rbuf c) else Inr (c, inp, None))"
    using assms(1) by (simp add: read_cb_def)
  show "read_cb al hd_rd rd stale consumed inp c \<noteq> Inl OutOfBounds"
  proof (cases ?R)
    case (Inl x)
    then show ?thesis using R unfolding cb Inl by (simp add: read_good_simps)
  next
    case (Inr v)
    obtain ok i1 c1 where v: "v = (ok, i1, c1)" by (metis prod_cases3)
    show ?thesis unfolding cb Inr v by (simp add: Let_def)
  qed
  assume e: "read_cb al hd_rd rd stale consumed inp c = Inr (c', inp', off)"
  then obtain ok i1 c1 where r: "?R = Inr (ok, i1, c1)"
    unfolding cb by (cases ?R) auto
  then have g: "cn_dead c1 = cn_dead c" "ok \<longrightarrow> rcv_ok c1 \<and> rbytes c1 @ i1 = rbytes c @ inp"
    "\<not> ok \<longrightarrow> cn_rbuf c1 = None" using R unfolding read_good_def by blast+
  show "(cn_dead c' \<and> off = None) \<or> (\<not> cn_dead c' \<and> rcv_ok c' \<and> (case off of
         None \<Rightarrow> rbytes c' @ inp' = rbytes c @ inp
       | Some p \<Rightarrow> p @ inp' = rbytes c @ inp \<and> 4 \<le> length p \<and> int (length p) = ntohl_int (take 4 p) \<and>
           rbytes c' = (if consumed then [] else p)))"
  proof (cases ok)
    case False
    then show ?thesis using e g unfolding cb r by (auto simp: Let_def)
  next
    case True
    show ?thesis
    proof (cases "cn_rbuf c1 \<noteq> None \<and> cn_rsz c1 = cn_rso c1")
      case whole: True
      then obtain p where p: "cn_rbuf c1 = Some p" by blast
      have "off = Some p" "inp' = i1" "c' = (if consumed then read_drop c1 else c1)"
        using e whole p True unfolding cb r by (auto simp: Let_def)
      then show ?thesis using g True assms(1) whole p by (auto simp: rcv_ok_def rbytes_def read_drop_def)
    next
      case False
      then have "off = None" "inp' = i1" "c' = c1" using e True unfolding cb r by (auto simp: Let_def)
      then show ?thesis using g True assms(1) by simp
    qed
  qed
qed

section \<open>Framing\<close>

definition link_inv :: "link \<Rightarrow> bool" where
  "link_inv s \<longleftrightarrow> (\<forall>b \<in> set (lk_sent s). pdu_ok b) \<and>
     (\<exists>got todo rest. lk_sent s = got @ todo \<and> lk_dlv s = map frame got \<and> snd_ok (lk_snd s) (lk_sent s) rest \<and>
        (\<not> cn_dead (lk_rcv s) \<longrightarrow> rcv_ok (lk_rcv s) \<and> rbytes (lk_rcv s) @ lk_wire s @ rest = frames todo))"

lemma link_invI:
  assumes "\<forall>b \<in> set (lk_sent s). pdu_ok b" and "lk_sent s = got @ todo" and "lk_dlv s = map frame got"
    and "snd_ok (lk_snd s) (lk_sent s) rest"
    and "\<not> cn_dead (lk_rcv s) \<Longrightarrow> rcv_ok (lk_rcv s) \<and> rbytes (lk_rcv s) @ lk_wire s @ rest = frames todo"
  shows "link_inv s"
  using assms unfolding link_inv_def by blast

lemma link_invE:
  assumes "link_inv s"
  obtains got todo rest where "\<forall>b \<in> set (lk_sent s). pdu_ok b" "lk_sent s = got @ todo" "lk_dlv s = map frame got"
    "snd_ok (lk_snd s) (lk_sent s) rest"
    "\<not> cn_dead (lk_rcv s) \<longrightarrow> rcv_ok (lk_rcv s) \<and> rbytes (lk_rcv s) @ lk_wire s @ rest = frames todo"
  using assms unfolding link_inv_def by blast

lemma link_inv_read:
  assumes "link_inv s" and r: "read_cb al hd_rd rd stale consumed (lk_wire s) (lk_rcv s) = Inr (c, inp, off)"
  shows "link_inv (s\<lparr>lk_rcv := c, lk_wire := inp,
    lk_dlv := lk_dlv s @ (case off of Some b \<Rightarrow> (if consumed then [b] else []) | None \<Rightarrow> [])\<rparr>)"
proof -
  from assms(1) obtain got todo rest where i: "\<forall>b \<in> set (lk_sent s). pdu_ok b" "lk_sent s = got @ todo" "lk_dlv s = map frame got"
    "snd_ok (lk_snd s) (lk_sent s) rest"
    "\<not> cn_dead (lk_rcv s) \<longrightarrow> rcv_ok (lk_rcv s) \<and> rbytes (lk_rcv s) @ lk_wire s @ rest = frames todo"
    by (rule link_invE)
  show ?thesis
  proof (cases "cn_dead (lk_rcv s)")
    case True
    then have "c = lk_rcv s" "off = None" using r by (simp_all add: read_cb_def)
    then show ?thesis using i True by (intro link_invI [where got = got and todo = todo and rest = rest]) simp_all
  next
    case False
    have todo: "\<forall>b \<in> set todo. pdu_ok b" using i(1,2) by simp
    have w: "rcv_ok (lk_rcv s)" "rbytes (lk_rcv s) @ lk_wire s @ rest = frames todo" using i(5) False by blast+
    from read_cb_live(2) [OF False w todo r]
    consider (dead) "cn_dead c" "off = None"
      | (more) "\<not> cn_dead c" "rcv_ok c" "off = None" "rbytes c @ inp = rbytes (lk_rcv s) @ lk_wire s"
      | (pdu) p where "\<not> cn_dead c" "rcv_ok c" "off = Some p" "p @ inp = rbytes (lk_rcv s) @ lk_wire s"
        "4 \<le> length p" "int (length p) = ntohl_int (take 4 p)" "rbytes c = (if consumed then [] else p)"
      by (cases off) auto
    then show ?thesis
    proof cases
      case dead
      then show ?thesis using i by (intro link_invI [where got = got and todo = todo and rest = rest]) simp_all
    next
      case more
      then have "rbytes c @ inp @ rest = frames todo" using w(2) by (metis append.assoc)
      then show ?thesis using i more by (intro link_invI [where got = got and todo = todo and rest = rest]) simp_all
    next
      case pdu
      then have e: "p @ (inp @ rest) = frames todo" using w(2) by (metis append.assoc)
      from whole_frame [OF this pdu(5,6) todo] obtain b todo' where
        b: "todo = b # todo'" "p = frame b" "inp @ rest = frames todo'" by blast
      show ?thesis
      proof (cases consumed)
        case True
        then show ?thesis using i pdu b
          by (intro link_invI [where got = "got @ [b]" and todo = todo' and rest = rest]) simp_all
      next
        case False
        then show ?thesis using i pdu e
          by (intro link_invI [where got = got and todo = todo and rest = rest]) simp_all
      qed
    qed
  qed
qed

lemma link_inv_step: "link_step al s t \<Longrightarrow> link_inv s \<Longrightarrow> link_inv t"
proof (induction rule: link_step.induct)
  case (sends s b wr c bs)
  from sends.prems obtain got todo rest where i: "\<forall>b \<in> set (lk_sent s). pdu_ok b" "lk_sent s = got @ todo" "lk_dlv s = map frame got"
    "snd_ok (lk_snd s) (lk_sent s) rest"
    "\<not> cn_dead (lk_rcv s) \<longrightarrow> rcv_ok (lk_rcv s) \<and> rbytes (lk_rcv s) @ lk_wire s @ rest = frames todo"
    by (rule link_invE)
  have b: "pdu_ok b" using sends.hyps by (simp add: pdu_ok_def)
  obtain rest' where n: "rest = []" "frame b = bs @ rest'" "snd_ok c (lk_sent s @ [b]) rest'"
    using snd_ok_enter [OF i(4) sends.hyps(1) b sends.hyps(4)] by blast
  show ?case using i b n by (intro link_invI [where got = got and todo = "todo @ [b]" and rest = rest']) auto
next
  case (wcb wr s c bs)
  from wcb.prems obtain got todo rest where i: "\<forall>b \<in> set (lk_sent s). pdu_ok b" "lk_sent s = got @ todo" "lk_dlv s = map frame got"
    "snd_ok (lk_snd s) (lk_sent s) rest"
    "\<not> cn_dead (lk_rcv s) \<longrightarrow> rcv_ok (lk_rcv s) \<and> rbytes (lk_rcv s) @ lk_wire s @ rest = frames todo"
    by (rule link_invE)
  obtain rest' where "rest = bs @ rest'" "snd_ok c (lk_sent s) rest'"
    using snd_ok_write [OF i(4,1) wcb.hyps] by blast
  then show ?case using i by (intro link_invI [where got = got and todo = todo and rest = rest']) auto
next
  case (leave s)
  from leave.prems obtain got todo rest where i: "\<forall>b \<in> set (lk_sent s). pdu_ok b" "lk_sent s = got @ todo" "lk_dlv s = map frame got"
    "snd_ok (lk_snd s) (lk_sent s) rest"
    "\<not> cn_dead (lk_rcv s) \<longrightarrow> rcv_ok (lk_rcv s) \<and> rbytes (lk_rcv s) @ lk_wire s @ rest = frames todo"
    by (rule link_invE)
  then show ?case using snd_ok_leave [OF i(4) leave.hyps i(1)]
    by (intro link_invI [where got = got and todo = todo and rest = rest]) simp_all
next
  case (rcb hd_rd rd stale consumed s c inp off)
  then show ?case by (intro link_inv_read)
next
  case (close_snd s)
  from close_snd.prems obtain got todo rest where i: "\<forall>b \<in> set (lk_sent s). pdu_ok b" "lk_sent s = got @ todo" "lk_dlv s = map frame got"
    "snd_ok (lk_snd s) (lk_sent s) rest"
    "\<not> cn_dead (lk_rcv s) \<longrightarrow> rcv_ok (lk_rcv s) \<and> rbytes (lk_rcv s) @ lk_wire s @ rest = frames todo"
    by (rule link_invE)
  then show ?case using snd_ok_close [OF i(4)]
    by (intro link_invI [where got = got and todo = todo and rest = rest]) simp_all
next
  case (close_rcv s)
  from close_rcv.prems obtain got todo rest where i: "\<forall>b \<in> set (lk_sent s). pdu_ok b" "lk_sent s = got @ todo" "lk_dlv s = map frame got"
    "snd_ok (lk_snd s) (lk_sent s) rest"
    "\<not> cn_dead (lk_rcv s) \<longrightarrow> rcv_ok (lk_rcv s) \<and> rbytes (lk_rcv s) @ lk_wire s @ rest = frames todo"
    by (rule link_invE)
  then show ?case
    by (intro link_invI [where got = got and todo = todo and rest = rest]) (simp_all add: closeconn_def split: if_splits)
qed

lemma link_reach_inv: "link_reach al s \<Longrightarrow> link_inv s"
proof (induction rule: link_reach.induct)
  case start
  show ?case by (simp add: link_inv_def connection_new_def snd_ok_def rcv_ok_def rbytes_def)
next
  case (more s t)
  then show ?case using link_inv_step by blast
qed

text \<open>C34: Framing.  However the kernel splits the byte stream into reads and writes, whichever calls
  fail and whenever either end is closed, the PDUs handed to the receiver's manager are the first
  ones that were sent, whole, once and in order; when both ends are alive, no send is under way,
  nothing is on the wire and no partial PDU is buffered, they are all of them; and the receiver
  never writes outside its buffer.\<close>

theorem pdus_arrive_in_order:
  assumes "link_reach al s"
  shows "(\<exists>n \<le> length (lk_sent s). lk_dlv s = map frame (take n (lk_sent s))) \<and>
    (\<not> cn_dead (lk_snd s) \<and> \<not> cn_dead (lk_rcv s) \<and> cn_wbuf (lk_snd s) = None \<and> lk_wire s = [] \<and>
      cn_rbuf (lk_rcv s) = None \<longrightarrow> lk_dlv s = map frame (lk_sent s)) \<and>
    read_cb al hd_rd rd stale consumed (lk_wire s) (lk_rcv s) \<noteq> Inl OutOfBounds"
proof -
  from link_reach_inv [OF assms] obtain got todo rest where i: "\<forall>b \<in> set (lk_sent s). pdu_ok b" "lk_sent s = got @ todo" "lk_dlv s = map frame got"
    "snd_ok (lk_snd s) (lk_sent s) rest"
    "\<not> cn_dead (lk_rcv s) \<longrightarrow> rcv_ok (lk_rcv s) \<and> rbytes (lk_rcv s) @ lk_wire s @ rest = frames todo"
    by (rule link_invE)
  have "lk_dlv s = map frame (take (length got) (lk_sent s))" "length got \<le> length (lk_sent s)"
    using i(2,3) by simp_all
  moreover have "lk_dlv s = map frame (lk_sent s)"
    if "\<not> cn_dead (lk_snd s)" "\<not> cn_dead (lk_rcv s)" "cn_wbuf (lk_snd s) = None" "lk_wire s = []" "cn_rbuf (lk_rcv s) = None"
  proof -
    have "frames todo = []" using i(4,5) that by (simp add: snd_ok_def rbytes_def)
    then have "todo = []" using i(1,2) by (cases todo) (simp_all add: frame_def pdu_ok_def)
    then show ?thesis using i(2,3) by simp
  qed
  moreover have "read_cb al hd_rd rd stale consumed (lk_wire s) (lk_rcv s) \<noteq> Inl OutOfBounds"
  proof (cases "cn_dead (lk_rcv s)")
    case True
    then show ?thesis by (simp add: read_cb_def)
  next
    case False
    then show ?thesis using read_cb_live(1) [OF False] i by (metis Un_iff set_append)
  qed
  ultimately show ?thesis by blast
qed

text \<open>One PDU of six bytes: its first write moves three bytes, the callback the rest; the reader
  gets the length, one byte, and the last one.\<close>

definition ex_al :: "nat \<Rightarrow> bool" where "ex_al n \<longleftrightarrow> n < 2 ^ 62"

definition ex_live :: "byte list option \<Rightarrow> int \<Rightarrow> int \<Rightarrow> byte list option \<Rightarrow> nat \<Rightarrow> int \<Rightarrow> int \<Rightarrow> connection" where
  "ex_live wb wsz wso rb ral rsz rso = \<lparr>cn_dead = False, cn_wbuf = wb, cn_wsz = wsz, cn_wso = wso, cn_rbuf = rb,
     cn_ralloc = ral, cn_rsz = rsz, cn_rso = rso, cn_waiters = 0, cn_refno = 1\<rparr>"

abbreviation "ex_idle \<equiv> ex_live None 0 0 None 0 0 0"

lemma ex_header: "htonl_bytes 6 = [0, 0, 0, 6]" "ntohl_int [0, 0, 0, 6] = 6"
  using ntohl_htonl [of 6] by (simp_all add: htonl_bytes_def be32_def)

lemma ex_link_run: "link_reach ex_al
    \<lparr>lk_snd = ex_idle, lk_rcv = ex_live None 0 0 None 10 0 0, lk_wire = [], lk_sent = [[9, 9, 9, 9, 1, 2]],
     lk_dlv = [[0, 0, 0, 6, 1, 2]]\<rparr>"
proof -
  let ?b = "[9, 9, 9, 9, 1, 2] :: byte list"
  let ?f = "[0, 0, 0, 6, 1, 2] :: byte list"
  let ?s = "\<lambda>c d w dl. \<lparr>lk_snd = c, lk_rcv = d, lk_wire = w, lk_sent = [?b], lk_dlv = dl\<rparr>"
  have new: "connection_new = ex_idle" by (simp add: connection_new_def ex_live_def)
  have a: "link_reach ex_al \<lparr>lk_snd = ex_idle, lk_rcv = ex_idle, lk_wire = [], lk_sent = [], lk_dlv = []\<rparr>"
    using link_reach.start [where malloc_ok = ex_al] by (simp add: new)
  have "send_enter ?b 6 (Moves 3) ex_idle = Inr (ex_live (Some ?f) 6 3 None 0 0 0, Some [0, 0, 0])"
    by (simp add: send_enter_def writepdu_def ex_live_def memcpy_def ex_header slice_def Let_def)
  then have b: "link_reach ex_al (?s (ex_live (Some ?f) 6 3 None 0 0 0) ex_idle [0, 0, 0] [])"
    using link_reach.more [OF a link_step.sends [where b = ?b and wr = "Moves 3"]]
    by (simp add: send_waits_def MAX_PDU_def ex_live_def)
  have "write_cb (Moves 9) (ex_live (Some ?f) 6 3 None 0 0 0) = Inr (ex_live (Some ?f) 6 6 None 0 0 0, [6, 1, 2])"
    by (simp add: write_cb_def writepdu_def ex_live_def slice_def Let_def)
  then have c: "link_reach ex_al (?s (ex_live (Some ?f) 6 6 None 0 0 0) ex_idle ?f [])"
    using link_reach.more [OF b link_step.wcb [where wr = "Moves 9"]] by simp
  have d: "link_reach ex_al (?s ex_idle ex_idle ?f [])"
    using link_reach.more [OF c link_step.leave] by (simp add: send_ready_def send_leave_def ex_live_def)
  have "read_cb ex_al (Moves 4) (Moves 1) False True ?f ex_idle =
      Inr (ex_live None 0 0 (Some [0, 0, 0, 6, 1]) 10 6 5, [2], None)"
    by (simp add: read_cb_def readpdu_def read_body_def ex_live_def ex_header Let_def MAX_PDU_def ex_al_def size_t_def)
  then have e: "link_reach ex_al (?s ex_idle (ex_live None 0 0 (Some [0, 0, 0, 6, 1]) 10 6 5) [2] [])"
    using link_reach.more [OF d link_step.rcb [where hd_rd = "Moves 4" and rd = "Moves 1" and stale = False and consumed = True]]
    by simp
  have "read_cb ex_al (Moves 4) (Moves 5) False True [2] (ex_live None 0 0 (Some [0, 0, 0, 6, 1]) 10 6 5) =
      Inr (ex_live None 0 0 None 10 0 0, [], Some ?f)"
    by (simp add: read_cb_def readpdu_def read_body_def read_drop_def ex_live_def Let_def size_t_def)
  then show ?thesis
    using link_reach.more [OF e link_step.rcb [where hd_rd = "Moves 4" and rd = "Moves 5" and stale = False and consumed = True]]
    by simp
qed

theorem pdus_arrive_in_order_witness:
  "[[0, 0, 0, 6, 1, 2 :: byte]] = map frame [[9, 9, 9, 9, 1, 2]]"
  using pdus_arrive_in_order [OF ex_link_run] by (simp add: ex_live_def)

section \<open>Announced lengths that break the receiver\<close>



end
