(* ===== verification/Pollmgr.thy ===== *)
theory Pollmgr
  imports Prelude
begin

text \<open>
  The poll manager of \<open>rpc/pollmgr.cc\<close>: the two ways of watching descriptors (\<open>SelectAIO\<close>, which
  is the one used, and \<open>EPollAIO\<close>), and the \<open>PollMgr\<close> that keeps one callback object per descriptor,
  runs the callbacks in its own thread and lets other threads remove a descriptor and wait until
  no callback of it can run any more.

  The kernel is a parameter: the sets \<open>kr\<close> and \<open>kw\<close> of descriptors that are ready, and whether
  \<open>epoll_ctl\<close> succeeds.  A successful one-byte write to or read from the manager's own pipe is
  counted in \<open>sa_wakeups\<close>.
\<close>

section \<open>Flags and interface\<close>

datatype poll_flag = CB_NONE | CB_RDONLY | CB_WRONLY | CB_RDWR | CB_MASK

fun flag_val :: "poll_flag \<Rightarrow> u32" where
  "flag_val CB_NONE = 0"
| "flag_val CB_RDONLY = 0x1"
| "flag_val CB_WRONLY = 0x10"
| "flag_val CB_RDWR = 0x11"
| "flag_val CB_MASK = NOT 0x11"

definition MAX_POLL_FDS :: nat where "MAX_POLL_FDS = 128"

text \<open>The modes a flag asks for: \<open>False\<close> for reading, \<open>True\<close> for writing.\<close>

fun flag_modes :: "poll_flag \<Rightarrow> bool set" where
  "flag_modes CB_RDONLY = {False}"
| "flag_modes CB_WRONLY = {True}"
| "flag_modes _ = {False, True}"

definition can_unwatch :: "poll_flag \<Rightarrow> bool" where
  "can_unwatch f \<longleftrightarrow> f = CB_RDONLY \<or> f = CB_WRONLY \<or> f = CB_RDWR"

text \<open>What \<open>aio_mgr\<close> promises to the poll manager.\<close>

locale aio_mgr =
  fixes watch_fd :: "nat \<Rightarrow> poll_flag \<Rightarrow> 'aio \<Rightarrow> 'aio"
    and unwatch_fd :: "nat \<Rightarrow> poll_flag \<Rightarrow> 'aio \<Rightarrow> (bool \<times> 'aio) res"
    and is_watched :: "nat \<Rightarrow> poll_flag \<Rightarrow> 'aio \<Rightarrow> bool"
    and watching :: "'aio \<Rightarrow> nat \<Rightarrow> bool \<Rightarrow> bool"
  assumes watch: "watching (watch_fd fd f a) x m \<longleftrightarrow> watching a x m \<or> x = fd \<and> m \<in> flag_modes f"
    and unwatch: "can_unwatch f \<Longrightarrow> \<exists>gone a'. unwatch_fd fd f a = Inr (gone, a') \<and>
      (\<forall>x m. watching a' x m \<longleftrightarrow> watching a x m \<and> \<not> (x = fd \<and> m \<in> flag_modes f)) \<and>
      (gone \<longleftrightarrow> (\<forall>m. \<not> watching a' fd m))"
    and is_watched: "is_watched fd f a \<longleftrightarrow> (\<forall>m \<in> flag_modes f. watching a fd m)"
begin

lemma watch_then_watched: "is_watched fd f (watch_fd fd f a)"
  by (simp add: is_watched watch)

lemma unwatch_all:
  "\<exists>a'. unwatch_fd fd CB_RDWR a = Inr (True, a') \<and> (\<forall>m. \<not> watching a' fd m) \<and>
     (\<forall>x m. x \<noteq> fd \<longrightarrow> watching a' x m = watching a x m)"
proof -
  obtain gone a' where u: "unwatch_fd fd CB_RDWR a = Inr (gone, a')"
    "\<forall>x m. watching a' x m \<longleftrightarrow> watching a x m \<and> \<not> (x = fd \<and> m \<in> flag_modes CB_RDWR)"
    "gone \<longleftrightarrow> (\<forall>m. \<not> watching a' fd m)"
    using unwatch [of CB_RDWR fd a] unfolding can_unwatch_def by blast
  have "m \<in> flag_modes CB_RDWR" for m by (cases m) simp_all
  then show ?thesis using u by auto
qed

end

section \<open>SelectAIO\<close>

record select_aio =
  sa_rfds :: "nat set"
  sa_wfds :: "nat set"
  sa_highfds :: nat
  sa_pipe :: nat
  sa_wakeups :: nat

definition select_new :: "nat \<Rightarrow> select_aio" where
  "select_new pipe0 =
     \<lparr>sa_rfds = {pipe0}, sa_wfds = {}, sa_highfds = pipe0, sa_pipe = pipe0, sa_wakeups = 0\<rparr>"

definition select_watch :: "nat \<Rightarrow> poll_flag \<Rightarrow> select_aio \<Rightarrow> select_aio" where
  "select_watch fd flag a =
     (let a = (if sa_highfds a \<le> fd then a\<lparr>sa_highfds := fd\<rparr> else a);
          a = (if flag = CB_RDONLY then a\<lparr>sa_rfds := insert fd (sa_rfds a)\<rparr>
               else if flag = CB_WRONLY then a\<lparr>sa_wfds := insert fd (sa_wfds a)\<rparr>
               else a\<lparr>sa_rfds := insert fd (sa_rfds a), sa_wfds := insert fd (sa_wfds a)\<rparr>)
      in a\<lparr>sa_wakeups := sa_wakeups a + 1\<rparr>)"

definition select_is_watched :: "nat \<Rightarrow> poll_flag \<Rightarrow> select_aio \<Rightarrow> bool" where
  "select_is_watched fd flag a =
     (if flag = CB_RDONLY then fd \<in> sa_rfds a
      else if flag = CB_WRONLY then fd \<in> sa_wfds a
      else fd \<in> sa_rfds a \<and> fd \<in> sa_wfds a)"

text \<open>The search for the new highest descriptor.\<close>

definition new_high :: "select_aio \<Rightarrow> nat" where
  "new_high a = foldl (\<lambda>newh i. if i \<in> sa_rfds a then i else if i \<in> sa_wfds a then i else newh)
     (sa_pipe a) [0..<sa_highfds a + 1]"

definition select_clear :: "nat \<Rightarrow> poll_flag \<Rightarrow> select_aio \<Rightarrow> select_aio" where
  "select_clear fd flag a =
     (if flag = CB_RDONLY then a\<lparr>sa_rfds := sa_rfds a - {fd}\<rparr>
      else if flag = CB_WRONLY then a\<lparr>sa_wfds := sa_wfds a - {fd}\<rparr>
      else a\<lparr>sa_wfds := sa_wfds a - {fd}, sa_rfds := sa_rfds a - {fd}\<rparr>)"

definition select_unwatch :: "nat \<Rightarrow> poll_flag \<Rightarrow> select_aio \<Rightarrow> (bool \<times> select_aio) res" where
  "select_unwatch fd flag a =
     (if flag = CB_RDONLY \<or> flag = CB_WRONLY \<or> flag = CB_RDWR then
        (let a = select_clear fd flag a;
             gone = (fd \<notin> sa_rfds a \<and> fd \<notin> sa_wfds a);
             a = (if gone \<and> fd = sa_highfds a then a\<lparr>sa_highfds := new_high a\<rparr> else a);
             a = (if flag = CB_RDWR then a\<lparr>sa_wakeups := sa_wakeups a + 1\<rparr> else a)
         in Inr (gone, a))
      else Inl AssertFail)"

text \<open>
  \<open>wait_ready\<close>: the sets are copied under the mutex (\<open>select_copy\<close>); \<open>select\<close> leaves in them what
  is ready among the descriptors below \<open>high + 1\<close>; the loop over the descriptors builds the two
  lists and takes one byte from the pipe.  An interrupted call leaves both lists empty.
\<close>

definition select_copy :: "select_aio \<Rightarrow> nat set \<times> nat set \<times> nat" where
  "select_copy a = (sa_rfds a, sa_wfds a, sa_highfds a)"

definition sys_select :: "nat \<Rightarrow> nat set \<Rightarrow> nat set \<Rightarrow> nat set \<Rightarrow> nat set \<Rightarrow> nat set \<times> nat set" where
  "sys_select nfds kr kw r w = ({fd \<in> r. fd \<in> kr \<and> fd < nfds}, {fd \<in> w. fd \<in> kw \<and> fd < nfds})"

definition ready_fds :: "nat \<Rightarrow> nat set \<Rightarrow> nat set \<Rightarrow> nat \<Rightarrow> nat list" where
  "ready_fds pipe0 trfds s high =
     filter (\<lambda>fd. \<not> (fd = pipe0 \<and> fd \<in> trfds) \<and> fd \<in> s) [0..<high + 1]"

definition select_collect ::
  "nat \<Rightarrow> nat set \<Rightarrow> nat set \<Rightarrow> nat \<Rightarrow> select_aio \<Rightarrow> (nat list \<times> nat list \<times> select_aio) res" where
  "select_collect pipe0 trfds twfds high a =
     (let readable = ready_fds pipe0 trfds trfds high; writable = ready_fds pipe0 trfds twfds high
      in if pipe0 \<le> high \<and> pipe0 \<in> trfds
         then (if sa_wakeups a = 0 then Inl AssertFail
               else Inr (readable, writable, a\<lparr>sa_wakeups := sa_wakeups a - 1\<rparr>))
         else Inr (readable, writable, a))"

definition select_wait_ready ::
  "nat set \<Rightarrow> nat set \<Rightarrow> select_aio \<Rightarrow> (nat list \<times> nat list \<times> select_aio) res" where
  "select_wait_ready kr kw a =
     (let (r, w, high) = select_copy a; (tr, tw) = sys_select (high + 1) kr kw r w
      in select_collect (sa_pipe a) tr tw high a)"

definition select_watching :: "select_aio \<Rightarrow> nat \<Rightarrow> bool \<Rightarrow> bool" where
  "select_watching a fd m \<longleftrightarrow> fd \<in> (if m then sa_wfds a else sa_rfds a)"

interpretation sel: aio_mgr select_watch select_unwatch select_is_watched select_watching
proof
  show "select_watching (select_watch fd f a) x m \<longleftrightarrow> select_watching a x m \<or> x = fd \<and> m \<in> flag_modes f" for fd f a x m
    by (cases f; cases m) (auto simp: select_watching_def select_watch_def Let_def)
  show "select_is_watched fd f a \<longleftrightarrow> (\<forall>m \<in> flag_modes f. select_watching a fd m)" for fd f a
    by (cases f) (auto simp: select_watching_def select_is_watched_def)
  show "can_unwatch f \<Longrightarrow> \<exists>gone a'. select_unwatch fd f a = Inr (gone, a') \<and>
      (\<forall>x m. select_watching a' x m \<longleftrightarrow> select_watching a x m \<and> \<not> (x = fd \<and> m \<in> flag_modes f)) \<and>
      (gone \<longleftrightarrow> (\<forall>m. \<not> select_watching a' fd m))" for fd f a
    by (cases f) (auto simp: can_unwatch_def select_unwatch_def select_clear_def select_watching_def Let_def)
qed

text \<open>The highest descriptor is always high enough for \<open>select\<close> to see every watched one.\<close>

definition select_ok :: "select_aio \<Rightarrow> bool" where
  "select_ok a \<longleftrightarrow> (\<forall>fd \<in> sa_rfds a \<union> sa_wfds a. fd \<le> sa_highfds a) \<and> sa_pipe a \<in> sa_rfds a - sa_wfds a"

lemma new_high_ge:
  assumes "fd \<in> sa_rfds a \<union> sa_wfds a" and "fd \<le> sa_highfds a"
  shows "fd \<le> new_high a"
proof -
  let ?f = "\<lambda>newh i. if i \<in> sa_rfds a then i else if i \<in> sa_wfds a then i else newh"
  have all: "\<forall>x \<in> set l. x \<in> sa_rfds a \<union> sa_wfds a \<longrightarrow> x \<le> foldl ?f h l" if "sorted l" for l h
    using that
  proof (induction l rule: rev_induct)
    case (snoc y l)
    then show ?case by (auto simp: sorted_append)
  qed simp
  have "fd \<in> set [0..<sa_highfds a + 1]" using assms(2) by auto
  then show ?thesis
    using all [OF sorted_upt, of 0 "sa_highfds a + 1" "sa_pipe a"] assms(1) unfolding new_high_def by blast
qed

lemma select_ok_new: "select_ok (select_new p)"
  by (simp add: select_ok_def select_new_def)

lemma select_ok_watch: "select_ok a \<Longrightarrow> fd \<noteq> sa_pipe a \<Longrightarrow> select_ok (select_watch fd f a)"
  unfolding select_ok_def select_watch_def Let_def by (auto; meson UnI1 UnI2 order_trans)

lemma select_ok_clear: "select_ok a \<Longrightarrow> fd \<noteq> sa_pipe a \<Longrightarrow> select_ok (select_clear fd f a)"
  by (auto simp: select_ok_def select_clear_def)

lemma select_ok_high: "select_ok a \<Longrightarrow> select_ok (a\<lparr>sa_highfds := new_high a\<rparr>)"
  using new_high_ge [of _ a] by (auto simp: select_ok_def)

lemma select_ok_wakeups [simp]: "select_ok (a\<lparr>sa_wakeups := n\<rparr>) = select_ok a"
  by (simp add: select_ok_def)

lemma select_ok_unwatch:
  assumes "select_ok a" and "fd \<noteq> sa_pipe a" and "select_unwatch fd f a = Inr (gone, a')"
  shows "select_ok a'"
proof -
  note c = select_ok_clear [OF assms(1,2), of f]
  show ?thesis using assms(3) c select_ok_high [OF c]
    by (auto simp: select_unwatch_def Let_def split: if_splits)
qed

inductive select_reach :: "nat \<Rightarrow> select_aio \<Rightarrow> bool" for p where
  new: "select_reach p (select_new p)"
| watch: "select_reach p a \<Longrightarrow> fd \<noteq> p \<Longrightarrow> select_reach p (select_watch fd f a)"
| unwatch: "select_reach p a \<Longrightarrow> fd \<noteq> p \<Longrightarrow> select_unwatch fd f a = Inr (gone, a') \<Longrightarrow> select_reach p a'"
| collect: "select_reach p a \<Longrightarrow> select_wait_ready kr kw a = Inr (r, w, a') \<Longrightarrow> select_reach p a'"

lemma select_pipe [simp]:
  "sa_pipe (select_watch fd f a) = sa_pipe a"
  "select_unwatch fd f a = Inr (gone, a') \<Longrightarrow> sa_pipe a' = sa_pipe a"
  by (auto simp: select_watch_def select_unwatch_def select_clear_def Let_def split: if_splits)

lemma select_collect_result:
  assumes "select_collect p tr tw h a = Inr (r, w, a')"
  shows "r = ready_fds p tr tr h" and "w = ready_fds p tr tw h"
    and "a' = (if p \<le> h \<and> p \<in> tr then a\<lparr>sa_wakeups := sa_wakeups a - 1\<rparr> else a)"
    and "p \<le> h \<and> p \<in> tr \<longrightarrow> 0 < sa_wakeups a"
  using assms by (auto simp: select_collect_def Let_def split: if_splits)

lemma select_collect_runs:
  "p \<in> tr \<longrightarrow> 0 < sa_wakeups a \<Longrightarrow>
     \<exists>a'. select_collect p tr tw h a = Inr (ready_fds p tr tr h, ready_fds p tr tw h, a')"
  by (auto simp: select_collect_def Let_def)

lemma ready_fds_set: "set (ready_fds p tr s h) = {fd \<in> s. fd \<le> h \<and> \<not> (fd = p \<and> fd \<in> tr)}"
  by (auto simp: ready_fds_def simp del: upt_Suc)

lemma ready_fds_sorted: "sorted (ready_fds p tr s h)" "distinct (ready_fds p tr s h)"
  unfolding ready_fds_def by (simp_all add: sorted_wrt_filter del: upt_Suc filter.simps)

lemma select_reach_ok: "select_reach p a \<Longrightarrow> select_ok a \<and> sa_pipe a = p"
proof (induction rule: select_reach.induct)
  case new
  show ?case using select_ok_new by (simp add: select_new_def)
next
  case (watch a fd f)
  then show ?case using select_ok_watch by simp
next
  case (unwatch a fd f gone a')
  then show ?case using select_ok_unwatch select_pipe(2) by metis
next
  case (collect a kr kw r w a')
  obtain tr tw h where "select_collect (sa_pipe a) tr tw h a = Inr (r, w, a')"
    using collect.hyps(2) by (auto simp: select_wait_ready_def split: prod.splits)
  from select_collect_result(3) [OF this] have "a' = a \<or> a' = a\<lparr>sa_wakeups := sa_wakeups a - 1\<rparr>" by presburger
  then show ?case using collect.IH by auto
qed

text \<open>C37: Whatever descriptors were watched and unwatched in whatever order, \<open>wait_ready\<close> reports
  exactly the watched descriptors the kernel finds ready, each once and in ascending order, and
  never the manager's own pipe, provided the pipe is readable only when a byte is in it.\<close>

theorem select_reports_ready:
  assumes "select_reach p a" and "p \<in> kr \<longrightarrow> sa_wakeups a > 0"
  shows "\<exists>r w a'. select_wait_ready kr kw a = Inr (r, w, a') \<and>
    set r = {fd. select_watching a fd False \<and> fd \<in> kr \<and> fd \<noteq> p} \<and> sorted r \<and> distinct r \<and>
    set w = {fd. select_watching a fd True \<and> fd \<in> kw} \<and> sorted w \<and> distinct w"
proof -
  have ok: "select_ok a" "sa_pipe a = p" using select_reach_ok [OF assms(1)] by simp_all
  let ?tr = "{fd \<in> sa_rfds a. fd \<in> kr \<and> fd < sa_highfds a + 1}"
  let ?tw = "{fd \<in> sa_wfds a. fd \<in> kw \<and> fd < sa_highfds a + 1}"
  let ?r = "ready_fds p ?tr ?tr (sa_highfds a)"
  let ?w = "ready_fds p ?tr ?tw (sa_highfds a)"
  have "p \<in> ?tr \<longrightarrow> 0 < sa_wakeups a" using assms(2) by simp
  from select_collect_runs [OF this, of ?tw "sa_highfds a"]
  have "\<exists>a'. select_wait_ready kr kw a = Inr (?r, ?w, a')"
    using ok(2) unfolding select_wait_ready_def select_copy_def sys_select_def Let_def prod.case by blast
  moreover have "set ?r = {fd. select_watching a fd False \<and> fd \<in> kr \<and> fd \<noteq> p}"
    using ok(1) unfolding ready_fds_set by (auto simp: select_ok_def select_watching_def less_Suc_eq_le)
  moreover have "set ?w = {fd. select_watching a fd True \<and> fd \<in> kw}"
    using ok unfolding ready_fds_set by (auto simp: select_ok_def select_watching_def less_Suc_eq_le)
  moreover note ready_fds_sorted [of p ?tr ?tr "sa_highfds a"] ready_fds_sorted [of p ?tr ?tw "sa_highfds a"]
  ultimately show ?thesis by blast
qed

theorem select_reports_ready_witness:
  "\<exists>w a'. select_wait_ready {7, 9} {} (select_watch 9 CB_RDWR (select_watch 7 CB_WRONLY (select_new 4))) = Inr ([9], w, a')"
proof -
  let ?a = "select_watch 9 CB_RDWR (select_watch 7 CB_WRONLY (select_new 4))"
  have "select_reach 4 ?a" by (intro select_reach.intros) simp_all
  from select_reports_ready [OF this, of "{7, 9}" "{}"] obtain r w a' where
    r: "select_wait_ready {7, 9} {} ?a = Inr (r, w, a')" "distinct r"
    "set r = {fd. select_watching ?a fd False \<and> fd \<in> {7, 9} \<and> fd \<noteq> 4}" by auto
  have "set r = {9}" unfolding r(3) by (auto simp: select_watching_def select_watch_def select_new_def Let_def)
  then have "r = [9]" using r(2) by (cases r; cases "tl r") auto
  then show ?thesis using r(1) by blast
qed

section \<open>EPollAIO\<close>

text \<open>
  The other manager keeps the flags per descriptor itself.  \<open>ctl\<close> is the call of \<open>epoll_ctl\<close> with
  its operation and events, and tells whether it succeeds.
\<close>

datatype ep_op = CTL_ADD | CTL_MOD | CTL_DEL

record ep_event =
  ev_in :: bool
  ev_out :: bool

type_synonym epoll_aio = "nat \<Rightarrow> u32"

definition epoll_new :: epoll_aio where
  "epoll_new = (\<lambda>_. 0)"

definition events_of :: "u32 \<Rightarrow> ep_event" where
  "events_of st = \<lparr>ev_in = (st AND flag_val CB_RDONLY \<noteq> 0), ev_out = (st AND flag_val CB_WRONLY \<noteq> 0)\<rparr>"

definition epoll_watch ::
  "(ep_op \<Rightarrow> nat \<Rightarrow> ep_event \<Rightarrow> bool) \<Rightarrow> nat \<Rightarrow> poll_flag \<Rightarrow> epoll_aio \<Rightarrow> epoll_aio res" where
  "epoll_watch ctl fd flag a =
     (if \<not> fd < MAX_POLL_FDS then Inl AssertFail
      else
        (let op = (if a fd \<noteq> 0 then CTL_MOD else CTL_ADD);
             a = a(fd := a fd OR flag_val flag);
             ev = events_of (a fd)
         in if flag = CB_RDWR \<and> \<not> (ev_in ev \<and> ev_out ev) then Inl AssertFail
            else if \<not> ctl op fd ev then Inl AssertFail else Inr a))"

definition epoll_unwatch ::
  "(ep_op \<Rightarrow> nat \<Rightarrow> ep_event \<Rightarrow> bool) \<Rightarrow> nat \<Rightarrow> poll_flag \<Rightarrow> epoll_aio \<Rightarrow> (bool \<times> epoll_aio) res" where
  "epoll_unwatch ctl fd flag a =
     (if \<not> fd < MAX_POLL_FDS then Inl AssertFail
      else
        (let a = a(fd := a fd AND NOT (flag_val flag));
             op = (if a fd \<noteq> 0 then CTL_MOD else CTL_DEL);
             ev = events_of (a fd)
         in if flag = CB_RDWR \<and> op \<noteq> CTL_DEL then Inl AssertFail
            else if \<not> ctl op fd ev then Inl AssertFail else Inr (op = CTL_DEL, a)))"

definition epoll_is_watched :: "nat \<Rightarrow> poll_flag \<Rightarrow> epoll_aio \<Rightarrow> bool res" where
  "epoll_is_watched fd flag a =
     (if \<not> fd < MAX_POLL_FDS then Inl AssertFail
      else Inr (a fd AND flag_val CB_MASK = flag_val flag))"

text \<open>\<open>evs\<close> are the ready events the kernel reports.\<close>

definition epoll_wait_ready :: "(nat \<times> ep_event) list \<Rightarrow> nat list \<times> nat list" where
  "epoll_wait_ready evs =
     (map fst (filter (\<lambda>(fd, ev). ev_in ev) evs), map fst (filter (\<lambda>(fd, ev). ev_out ev) evs))"

inductive epoll_reach :: "(ep_op \<Rightarrow> nat \<Rightarrow> ep_event \<Rightarrow> bool) \<Rightarrow> epoll_aio \<Rightarrow> bool" for ctl where
  new: "epoll_reach ctl epoll_new"
| watch: "epoll_reach ctl a \<Longrightarrow> can_unwatch f \<Longrightarrow> epoll_watch ctl fd f a = Inr a' \<Longrightarrow> epoll_reach ctl a'"
| unwatch: "epoll_reach ctl a \<Longrightarrow> can_unwatch f \<Longrightarrow> epoll_unwatch ctl fd f a = Inr (g, a') \<Longrightarrow> epoll_reach ctl a'"

lemma epoll_reach_masked: "epoll_reach ctl a \<Longrightarrow> a fd AND flag_val CB_MASK = 0"
proof (induction rule: epoll_reach.induct)
  case new
  show ?case by (simp add: epoll_new_def)
next
  case (watch a f fd' a')
  have "flag_val f AND flag_val CB_MASK = 0" using watch.hyps(2) by (auto simp: can_unwatch_def)
  then have "(a fd' OR flag_val f) AND flag_val CB_MASK = a fd' AND flag_val CB_MASK"
    by (simp only: bit.conj_disj_distrib2 bit.disj_zero_right)
  then show ?case using watch.IH watch.hyps(3)
    by (auto simp: epoll_watch_def Let_def simp del: flag_val.simps split: if_splits)
next
  case (unwatch a f fd' g a')
  have "(x AND y) AND z = (x AND z) AND y" for x y z :: u32 by (simp add: ac_simps)
  then have "(a fd AND NOT (flag_val f)) AND flag_val CB_MASK = (a fd AND flag_val CB_MASK) AND NOT (flag_val f)"
    by blast
  also have "\<dots> = 0" unfolding unwatch.IH by (rule bit.conj_zero_left)
  finally have "(a fd AND NOT (flag_val f)) AND flag_val CB_MASK = 0" .
  then show ?case using unwatch.IH unwatch.hyps(3)
    by (auto simp: epoll_unwatch_def Let_def simp del: flag_val.simps split: if_splits)
qed

text \<open>\<open>is_watched\<close> of the epoll manager masks with the complement of the flags it should keep: it
  denies that a descriptor is watched, whatever was registered.\<close>

theorem epoll_never_watched:
  assumes "epoll_reach ctl a" and "fd < MAX_POLL_FDS" and "can_unwatch f"
  shows "epoll_is_watched fd f a = Inr False"
  using epoll_reach_masked [OF assms(1), of fd] assms(2,3)
  by (auto simp: epoll_is_watched_def can_unwatch_def)

theorem epoll_never_watched_witness:
  "\<exists>a. epoll_watch (\<lambda>_ _ _. True) 5 CB_RDONLY epoll_new = Inr a \<and> epoll_is_watched 5 CB_RDONLY a = Inr False"
proof -
  obtain a where a: "epoll_watch (\<lambda>_ _ _. True) 5 CB_RDONLY epoll_new = Inr a"
    by (simp add: epoll_watch_def MAX_POLL_FDS_def Let_def)
  have c: "can_unwatch CB_RDONLY" by (simp add: can_unwatch_def)
  from epoll_never_watched [OF epoll_reach.watch [OF epoll_reach.new c a] _ c] a show ?thesis
    by (auto simp: MAX_POLL_FDS_def)
qed

section \<open>PollMgr\<close>

text \<open>\<open>'h\<close> are the callback objects.\<close>

record 'h pollmgr =
  pm_callbacks :: "nat \<Rightarrow> 'h option"
  pm_aio :: select_aio
  pm_pending :: bool

definition pollmgr_new :: "nat \<Rightarrow> 'h pollmgr" where
  "pollmgr_new pipe0 = \<lparr>pm_callbacks = (\<lambda>_. None), pm_aio = select_new pipe0, pm_pending = False\<rparr>"

definition add_callback :: "nat \<Rightarrow> poll_flag \<Rightarrow> 'h \<Rightarrow> 'h pollmgr \<Rightarrow> 'h pollmgr res" where
  "add_callback fd flag ch pm =
     (if \<not> fd < MAX_POLL_FDS then Inl AssertFail
      else
        (let pm = pm\<lparr>pm_aio := select_watch fd flag (pm_aio pm)\<rparr>
         in case pm_callbacks pm fd of
              None \<Rightarrow> Inr (pm\<lparr>pm_callbacks := (pm_callbacks pm)(fd := Some ch)\<rparr>)
            | Some h \<Rightarrow> (if h = ch then Inr (pm\<lparr>pm_callbacks := (pm_callbacks pm)(fd := Some ch)\<rparr>)
                         else Inl AssertFail)))"

definition del_callback :: "nat \<Rightarrow> poll_flag \<Rightarrow> 'h pollmgr \<Rightarrow> 'h pollmgr res" where
  "del_callback fd flag pm =
     rbind (select_unwatch fd flag (pm_aio pm)) (\<lambda>(gone, a).
       let pm = pm\<lparr>pm_aio := a\<rparr>
       in if \<not> gone then Inr pm
          else if \<not> fd < MAX_POLL_FDS then Inl OutOfBounds
          else Inr (pm\<lparr>pm_callbacks := (pm_callbacks pm)(fd := None)\<rparr>))"

definition has_callback :: "nat \<Rightarrow> poll_flag \<Rightarrow> 'h \<Rightarrow> 'h pollmgr \<Rightarrow> bool res" where
  "has_callback fd flag c pm =
     (if \<not> fd < MAX_POLL_FDS then Inl OutOfBounds
      else Inr (pm_callbacks pm fd = Some c \<and> select_is_watched fd flag (pm_aio pm)))"

text \<open>\<open>block_remove_fd\<close> up to its wait, and after it.\<close>

definition block_remove_begin :: "nat \<Rightarrow> 'h pollmgr \<Rightarrow> 'h pollmgr res" where
  "block_remove_begin fd pm =
     rbind (select_unwatch fd CB_RDWR (pm_aio pm)) (\<lambda>(gone, a). Inr (pm\<lparr>pm_aio := a, pm_pending := True\<rparr>))"

definition block_remove_end :: "nat \<Rightarrow> 'h pollmgr \<Rightarrow> 'h pollmgr res" where
  "block_remove_end fd pm =
     (if \<not> fd < MAX_POLL_FDS then Inl OutOfBounds
      else Inr (pm\<lparr>pm_callbacks := (pm_callbacks pm)(fd := None)\<rparr>))"

text \<open>The top of the loop of \<open>wait_loop\<close>; the boolean is the broadcast to the waiting removers.\<close>

definition loop_top :: "'h pollmgr \<Rightarrow> 'h pollmgr \<times> bool" where
  "loop_top pm = (if pm_pending pm then (pm\<lparr>pm_pending := False\<rparr>, True) else (pm, False))"

text \<open>What the loop calls for a ready descriptor.\<close>

definition callback_of :: "nat \<Rightarrow> 'h pollmgr \<Rightarrow> 'h option" where
  "callback_of fd pm = pm_callbacks pm fd"

section \<open>Removal\<close>

text \<open>
  The loop's thread is at the top, about to copy the sets, in \<open>select\<close>, or going through the
  lists of ready descriptors.  \<open>pq_rem\<close> gives for each thread inside \<open>block_remove_fd\<close> its
  descriptor and whether it has been woken.  \<open>pq_gone\<close> are the descriptors whose removal has
  returned and that were not added again since.  A step is labelled with the callback it makes.

  A descriptor is not added while it is being removed: the connections only remove their own
  descriptor, after they are dead, and add it only while they are alive.
\<close>

datatype loop_pc = Top | Copying | Selecting "nat set" "nat set" nat | Calling "nat list" "nat list"

record 'h pm_sys =
  pq_pm :: "'h pollmgr"
  pq_pc :: loop_pc
  pq_rem :: "nat \<rightharpoonup> nat \<times> bool"
  pq_gone :: "nat set"

inductive pm_step :: "nat \<Rightarrow> 'h pm_sys \<Rightarrow> (nat \<times> 'h) option \<Rightarrow> 'h pm_sys \<Rightarrow> bool" for p where
  add: "fd \<noteq> p \<Longrightarrow> (\<forall>t w. pq_rem s t \<noteq> Some (fd, w)) \<Longrightarrow> add_callback fd f ch (pq_pm s) = Inr pm \<Longrightarrow>
    pm_step p s None (s\<lparr>pq_pm := pm, pq_gone := pq_gone s - {fd}\<rparr>)"
| del: "fd \<noteq> p \<Longrightarrow> del_callback fd f (pq_pm s) = Inr pm \<Longrightarrow> pm_step p s None (s\<lparr>pq_pm := pm\<rparr>)"
| rm_begin: "fd \<noteq> p \<Longrightarrow> pq_rem s t = None \<Longrightarrow> block_remove_begin fd (pq_pm s) = Inr pm \<Longrightarrow>
    pm_step p s None (s\<lparr>pq_pm := pm, pq_rem := (pq_rem s)(t \<mapsto> (fd, False))\<rparr>)"
| rm_end: "pq_rem s t = Some (fd, True) \<Longrightarrow> block_remove_end fd (pq_pm s) = Inr pm \<Longrightarrow>
    pm_step p s None (s\<lparr>pq_pm := pm, pq_rem := (pq_rem s)(t := None), pq_gone := insert fd (pq_gone s)\<rparr>)"
| top: "pq_pc s = Top \<Longrightarrow> loop_top (pq_pm s) = (pm, wake) \<Longrightarrow>
    pm_step p s None (s\<lparr>pq_pm := pm, pq_pc := Copying,
      pq_rem := (\<lambda>t. map_option (\<lambda>(fd, w). (fd, w \<or> wake)) (pq_rem s t))\<rparr>)"
| copy: "pq_pc s = Copying \<Longrightarrow> select_copy (pm_aio (pq_pm s)) = (r, w, h) \<Longrightarrow>
    pm_step p s None (s\<lparr>pq_pc := Selecting r w h\<rparr>)"
| select: "pq_pc s = Selecting r w h \<Longrightarrow> (p \<in> kr \<longleftrightarrow> 0 < sa_wakeups (pm_aio (pq_pm s))) \<Longrightarrow>
    sys_select (h + 1) kr kw r w = (tr, tw) \<Longrightarrow> tr \<noteq> {} \<or> tw \<noteq> {} \<Longrightarrow>
    select_collect p tr tw h (pm_aio (pq_pm s)) = Inr (rd, wr, a) \<Longrightarrow>
    pm_step p s None (s\<lparr>pq_pm := (pq_pm s)\<lparr>pm_aio := a\<rparr>, pq_pc := Calling rd wr\<rparr>)"
| interrupted: "pq_pc s = Selecting r w h \<Longrightarrow> pm_step p s None (s\<lparr>pq_pc := Calling [] []\<rparr>)"
| call_r: "pq_pc s = Calling (fd # rd) wr \<Longrightarrow>
    pm_step p s (map_option (\<lambda>h. (fd, h)) (callback_of fd (pq_pm s))) (s\<lparr>pq_pc := Calling rd wr\<rparr>)"
| call_w: "pq_pc s = Calling [] (fd # wr) \<Longrightarrow>
    pm_step p s (map_option (\<lambda>h. (fd, h)) (callback_of fd (pq_pm s))) (s\<lparr>pq_pc := Calling [] wr\<rparr>)"
| again: "pq_pc s = Calling [] [] \<Longrightarrow> pm_step p s None (s\<lparr>pq_pc := Top\<rparr>)"

inductive pm_reach :: "nat \<Rightarrow> 'h pm_sys \<Rightarrow> bool" for p where
  start: "pm_reach p \<lparr>pq_pm = pollmgr_new p, pq_pc = Top, pq_rem = Map.empty, pq_gone = {}\<rparr>"
| more: "pm_reach p s \<Longrightarrow> pm_step p s e t \<Longrightarrow> pm_reach p t"

fun quiet :: "nat \<Rightarrow> loop_pc \<Rightarrow> bool" where
  "quiet fd (Selecting r w h) \<longleftrightarrow> fd \<notin> r \<union> w"
| "quiet fd (Calling rd wr) \<longleftrightarrow> fd \<notin> set rd \<union> set wr"
| "quiet fd _ \<longleftrightarrow> True"

definition unwatched :: "nat \<Rightarrow> 'h pollmgr \<Rightarrow> bool" where
  "unwatched fd pm \<longleftrightarrow> (\<forall>m. \<not> select_watching (pm_aio pm) fd m)"

lemma unwatched_iff: "unwatched fd pm \<longleftrightarrow> fd \<notin> sa_rfds (pm_aio pm) \<and> fd \<notin> sa_wfds (pm_aio pm)"
  by (auto simp: unwatched_def select_watching_def all_bool_eq)

definition pm_inv :: "nat \<Rightarrow> 'h pm_sys \<Rightarrow> bool" where
  "pm_inv p s \<longleftrightarrow>
     (\<forall>t fd w. pq_rem s t = Some (fd, w) \<longrightarrow> unwatched fd (pq_pm s)) \<and>
     (\<forall>t fd. pq_rem s t = Some (fd, True) \<longrightarrow> quiet fd (pq_pc s)) \<and>
     (\<forall>t fd. pq_rem s t = Some (fd, False) \<longrightarrow> pm_pending (pq_pm s)) \<and>
     (\<forall>fd \<in> pq_gone s. unwatched fd (pq_pm s) \<and> quiet fd (pq_pc s) \<and> pm_callbacks (pq_pm s) fd = None)"

text \<open>How the operations change what is watched.\<close>

lemma watch_ops:
  "add_callback fd f ch pm = Inr pm' \<Longrightarrow> pm_pending pm' = pm_pending pm \<and>
     (\<forall>x. x \<noteq> fd \<longrightarrow> unwatched x pm' = unwatched x pm \<and> pm_callbacks pm' x = pm_callbacks pm x)"
  by (auto simp: add_callback_def Let_def unwatched_def sel.watch split: if_splits option.splits)

lemma unwatch_subset:
  assumes "select_unwatch fd f a = Inr (gone, a')" and "select_watching a' x m"
  shows "select_watching a x m"
proof -
  have "can_unwatch f" using assms(1) by (auto simp: select_unwatch_def can_unwatch_def split: if_splits)
  from sel.unwatch [OF this, of fd a] assms show ?thesis by auto
qed

lemma del_ops:
  "del_callback fd f pm = Inr pm' \<Longrightarrow> pm_pending pm' = pm_pending pm \<and>
     (\<forall>x. (unwatched x pm \<longrightarrow> unwatched x pm') \<and> (pm_callbacks pm x = None \<longrightarrow> pm_callbacks pm' x = None))"
  unfolding del_callback_def unwatched_def rbind_eq_Inr_iff
  by (auto simp: Let_def dest: unwatch_subset split: if_splits)

lemma remove_ops:
  assumes "block_remove_begin fd pm = Inr pm'"
  shows "pm_pending pm'" and "unwatched fd pm'" and "unwatched x pm \<Longrightarrow> unwatched x pm'"
    and "pm_callbacks pm' = pm_callbacks pm"
proof -
  obtain gone a where a: "select_unwatch fd CB_RDWR (pm_aio pm) = Inr (gone, a)"
    "pm' = pm\<lparr>pm_aio := a, pm_pending := True\<rparr>"
    using assms by (auto simp: block_remove_begin_def rbind_eq_Inr_iff)
  show "pm_pending pm'" "pm_callbacks pm' = pm_callbacks pm" using a(2) by simp_all
  show "unwatched fd pm'" using sel.unwatch_all [of fd "pm_aio pm"] a by (auto simp: unwatched_def)
  show "unwatched x pm \<Longrightarrow> unwatched x pm'" using unwatch_subset [OF a(1)] a(2) by (auto simp: unwatched_def)
qed

lemma pm_inv_step: "pm_step p s e t \<Longrightarrow> pm_inv p s \<Longrightarrow> pm_inv p t"
proof (induction rule: pm_step.induct)
  case (add fd s f ch pm)
  note w = watch_ops [OF add.hyps(3)]
  have "x \<noteq> fd" if "pq_rem s t = Some (x, b)" for t x b using that add.hyps(2) by blast
  then show ?case using w add.prems unfolding pm_inv_def by (auto split: if_splits)
next
  case (del fd f s pm)
  then show ?case using del_ops [OF del.hyps(2)] unfolding pm_inv_def by (auto split: if_splits)
next
  case (rm_begin fd s u pm)
  then show ?case using remove_ops [OF rm_begin.hyps(3)] unfolding pm_inv_def by (auto split: if_splits)
next
  case (rm_end s u fd pm)
  have "unwatched x pm = unwatched x (pq_pm s)" "pm_pending pm = pm_pending (pq_pm s)"
    "pm_callbacks pm x = None \<longleftrightarrow> pm_callbacks (pq_pm s) x = None \<or> x = fd" for x
    using rm_end.hyps(2) by (auto simp: block_remove_end_def unwatched_def split: if_splits)
  moreover have "unwatched fd (pq_pm s)" "quiet fd (pq_pc s)"
    using rm_end.prems rm_end.hyps(1) unfolding pm_inv_def by blast+
  ultimately show ?case using rm_end unfolding pm_inv_def by (auto split: if_splits) blast+
next
  case (top s pm wake)
  then show ?case unfolding pm_inv_def loop_top_def unwatched_def
    by (auto split: if_splits) (blast, metis (full_types))
next
  case (copy s r w h)
  have "quiet fd (Selecting r w h)" if "unwatched fd (pq_pm s)" for fd
    using that copy.hyps(2) by (auto simp: select_copy_def unwatched_iff)
  then show ?case using copy unfolding pm_inv_def by (auto split: if_splits)
next
  case (select s r w h kr kw tr tw rd wr a)
  have sub: "tr \<subseteq> r" "tw \<subseteq> w" using select.hyps(3) by (auto simp: sys_select_def)
  note c = select_collect_result [OF select.hyps(5)]
  have "select_watching a = select_watching (pm_aio (pq_pm s))"
    unfolding c(3) by (auto simp: select_watching_def fun_eq_iff)
  moreover have "quiet fd (Calling rd wr)" if "quiet fd (pq_pc s)" for fd
    using that select.hyps(1) sub unfolding c(1,2) by (auto simp: ready_fds_set)
  ultimately show ?case using select.prems unfolding pm_inv_def unwatched_def by (auto split: if_splits)
next
  case (interrupted s r w h)
  then show ?case unfolding pm_inv_def by auto
next
  case (call_r s fd rd wr)
  then show ?case unfolding pm_inv_def by auto
next
  case (call_w s fd wr)
  then show ?case unfolding pm_inv_def by auto
next
  case (again s)
  then show ?case unfolding pm_inv_def by auto
qed

lemma pm_reach_inv: "pm_reach p s \<Longrightarrow> pm_inv p s"
proof (induction rule: pm_reach.induct)
  case start
  show ?case by (simp add: pm_inv_def)
next
  case (more s e t)
  then show ?case using pm_inv_step by blast
qed

lemma pm_step_calls: "pm_step p s e t \<Longrightarrow> e = Some (fd, h) \<Longrightarrow> \<not> quiet fd (pq_pc s)"
  by (induction rule: pm_step.induct) auto



section \<open>A removal returns\<close>

definition pm_live :: "nat \<Rightarrow> 'h pm_sys \<Rightarrow> bool" where
  "pm_live p s \<longleftrightarrow> select_ok (pm_aio (pq_pm s)) \<and> sa_pipe (pm_aio (pq_pm s)) = p \<and>
     (case pq_pc s of
        Selecting r w h \<Rightarrow> p \<in> r \<and> p \<le> h \<and> (pm_pending (pq_pm s) \<longrightarrow> 0 < sa_wakeups (pm_aio (pq_pm s)))
      | Copying \<Rightarrow> (pm_pending (pq_pm s) \<longrightarrow> 0 < sa_wakeups (pm_aio (pq_pm s)))
      | _ \<Rightarrow> True)"

lemma wakeups_mono:
  "sa_wakeups (select_watch fd f a) = sa_wakeups a + 1"
  "select_unwatch fd f a = Inr (gone, a') \<Longrightarrow> sa_wakeups a \<le> sa_wakeups a'"
  "select_unwatch fd CB_RDWR a = Inr (gone, a') \<Longrightarrow> 0 < sa_wakeups a'"
  by (auto simp: select_watch_def select_unwatch_def select_clear_def Let_def split: if_splits)

lemma aio_ops:
  "add_callback fd f ch pm = Inr pm' \<Longrightarrow> pm_aio pm' = select_watch fd f (pm_aio pm) \<and> pm_pending pm' = pm_pending pm"
  "del_callback fd f pm = Inr pm' \<Longrightarrow> \<exists>gone. select_unwatch fd f (pm_aio pm) = Inr (gone, pm_aio pm') \<and>
     pm_pending pm' = pm_pending pm"
  "block_remove_begin fd pm = Inr pm' \<Longrightarrow> \<exists>gone. select_unwatch fd CB_RDWR (pm_aio pm) = Inr (gone, pm_aio pm')"
  "block_remove_end fd pm = Inr pm' \<Longrightarrow> pm_aio pm' = pm_aio pm \<and> pm_pending pm' = pm_pending pm"
  by (auto simp: add_callback_def del_callback_def block_remove_begin_def block_remove_end_def Let_def rbind_eq_Inr_iff
      split: if_splits option.splits)

lemma pm_live_step: "pm_step p s e t \<Longrightarrow> pm_live p s \<Longrightarrow> pm_live p t"
proof (induction rule: pm_step.induct)
  case (add fd s f ch pm)
  then show ?case using aio_ops(1) [OF add.hyps(3)] select_ok_watch [of "pm_aio (pq_pm s)" fd f]
    by (auto simp: pm_live_def wakeups_mono split: loop_pc.splits)
next
  case (del fd f s pm)
  then obtain gone where u: "select_unwatch fd f (pm_aio (pq_pm s)) = Inr (gone, pm_aio pm)"
    "pm_pending pm = pm_pending (pq_pm s)" using aio_ops(2) by blast
  then show ?case using del select_ok_unwatch [OF _ _ u(1)] select_pipe(2) [OF u(1)] wakeups_mono(2) [OF u(1)]
    by (auto simp: pm_live_def split: loop_pc.splits)
next
  case (rm_begin fd s u pm)
  then obtain gone where u: "select_unwatch fd CB_RDWR (pm_aio (pq_pm s)) = Inr (gone, pm_aio pm)"
    using aio_ops(3) by blast
  then show ?case using rm_begin select_ok_unwatch [OF _ _ u(1)] select_pipe(2) [OF u(1)] wakeups_mono(3) [OF u(1)]
    by (auto simp: pm_live_def split: loop_pc.splits)
next
  case (rm_end s u fd pm)
  then show ?case using aio_ops(4) [OF rm_end.hyps(2)] by (simp add: pm_live_def split: loop_pc.splits)
next
  case (top s pm wake)
  then show ?case by (auto simp: pm_live_def loop_top_def split: if_splits)
next
  case (copy s r w h)
  then show ?case by (auto simp: pm_live_def select_copy_def select_ok_def)
next
  case (select s r w h kr kw tr tw rd wr a)
  then show ?case using select_collect_result(3) [OF select.hyps(5)] by (simp add: pm_live_def)
qed (simp_all add: pm_live_def)

lemma pm_reach_live: "pm_reach p s \<Longrightarrow> pm_live p s"
proof (induction rule: pm_reach.induct)
  case start
  show ?case using select_ok_new by (simp add: pm_live_def pollmgr_new_def select_new_def)
next
  case (more s e t)
  then show ?case using pm_live_step by blast
qed

abbreviation loop_runs :: "nat \<Rightarrow> 'h pm_sys \<Rightarrow> 'h pm_sys \<Rightarrow> bool" where
  "loop_runs p \<equiv> (\<lambda>a b. \<exists>e. pm_step p a e b)\<^sup>*\<^sup>*"

lemma step_then_runs: "pm_step p a e b \<Longrightarrow> loop_runs p b c \<Longrightarrow> loop_runs p a c"
  by (rule converse_rtranclp_into_rtranclp) auto

lemma calls_drain: "pq_pc s = Calling rd wr \<Longrightarrow> loop_runs p s (s\<lparr>pq_pc := Top\<rparr>)"
proof (induction "rd @ wr" arbitrary: rd wr s)
  case Nil
  then show ?case using pm_step.again [of s p] by (metis (no_types, lifting) append_is_Nil_conv r_into_rtranclp)
next
  case (Cons x xs)
  show ?case
  proof (cases rd)
    case Nil
    then have wr: "wr = x # xs" using Cons.hyps(2) by simp
    have "loop_runs p (s\<lparr>pq_pc := Calling [] xs\<rparr>) (s\<lparr>pq_pc := Calling [] xs, pq_pc := Top\<rparr>)"
      by (rule Cons.hyps(1) [of "[]" xs]) simp_all
    then show ?thesis using step_then_runs [OF pm_step.call_w] Cons.prems Nil wr by fastforce
  next
    case (Cons y ys)
    then have "y = x" "xs = ys @ wr" using \<open>x # xs = rd @ wr\<close> by simp_all
    have "loop_runs p (s\<lparr>pq_pc := Calling ys wr\<rparr>) (s\<lparr>pq_pc := Calling ys wr, pq_pc := Top\<rparr>)"
      by (rule Cons.hyps(1) [of ys wr]) (simp_all add: \<open>xs = ys @ wr\<close>)
    then show ?thesis using step_then_runs [OF pm_step.call_r] Cons.prems Cons by fastforce
  qed
qed

lemma top_wakes:
  assumes "pq_pc s = Top" and "pm_pending (pq_pm s)" and "pq_rem s t = Some (fd, False)"
  shows "\<exists>s'. pm_step p s None s' \<and> pq_rem s' t = Some (fd, True)"
  using pm_step.top [OF assms(1), of "(pq_pm s)\<lparr>pm_pending := False\<rparr>" True p] assms(2,3)
  by (fastforce simp: loop_top_def)

lemma calls_then_wake:
  assumes "pq_pc s = Calling rd wr" and "pm_pending (pq_pm s)" and "pq_rem s t = Some (fd, False)"
  shows "\<exists>s'. loop_runs p s s' \<and> pq_rem s' t = Some (fd, True)"
proof -
  obtain s' where s': "pm_step p (s\<lparr>pq_pc := Top\<rparr>) None s'" "pq_rem s' t = Some (fd, True)"
    using top_wakes [of "s\<lparr>pq_pc := Top\<rparr>" t fd p] assms(2,3) by auto
  have "loop_runs p s s'"
    by (rule rtranclp.rtrancl_into_rtrancl [OF calls_drain [OF assms(1), of p]]) (rule exI, rule s'(1))
  then show ?thesis using s'(2) by blast
qed

text \<open>\<open>select\<close> does not block while a removal is pending, since the removal wrote to the pipe.\<close>

lemma select_unblocked:
  assumes "pm_live p s" and "pq_pc s = Selecting r w h" and "pm_pending (pq_pm s)"
  shows "\<exists>rd wr a. pm_step p s None (s\<lparr>pq_pm := (pq_pm s)\<lparr>pm_aio := a\<rparr>, pq_pc := Calling rd wr\<rparr>)"
proof -
  have l: "p \<in> r" "p \<le> h" "0 < sa_wakeups (pm_aio (pq_pm s))" using assms by (simp_all add: pm_live_def)
  have sel: "sys_select (h + 1) {p} {} r w = ({p}, {})" using l(1,2) by (auto simp: sys_select_def)
  obtain a where "select_collect p {p} {} h (pm_aio (pq_pm s)) = Inr (ready_fds p {p} {p} h, ready_fds p {p} {} h, a)"
    using select_collect_runs [of p "{p}" "pm_aio (pq_pm s)" "{}" h] l(3) by blast
  from pm_step.select [OF assms(2) _ sel _ this] l(3) show ?thesis by blast
qed

text \<open>A removal never waits for an event that may not come.  Wherever the loop is when a thread
  waits in \<open>block_remove_fd\<close>, the loop can go on to its top (\<open>select\<close> returns because of the byte the
  removal put into the pipe, and the callbacks that are left return) and wakes the thread.\<close>

theorem removal_returns:
  assumes "pm_reach p s" and "pq_rem s t = Some (fd, False)"
  shows "\<exists>s'. (\<lambda>a b. \<exists>e. pm_step p a e b)\<^sup>*\<^sup>* s s' \<and> pq_rem s' t = Some (fd, True)"
proof -
  have l: "pm_live p s" "pm_pending (pq_pm s)"
    using pm_reach_live [OF assms(1)] pm_reach_inv [OF assms(1)] assms(2) unfolding pm_inv_def by blast+
  have sel: "\<exists>s'. loop_runs p u s' \<and> pq_rem s' t = Some (fd, True)"
    if u: "pm_live p u" "pm_pending (pq_pm u)" "pq_rem u t = Some (fd, False)" "pq_pc u = Selecting r w h" for u r w h
  proof -
    obtain rd wr a where st: "pm_step p u None (u\<lparr>pq_pm := (pq_pm u)\<lparr>pm_aio := a\<rparr>, pq_pc := Calling rd wr\<rparr>)"
      using select_unblocked [OF u(1,4,2)] by blast
    have "\<exists>s'. loop_runs p (u\<lparr>pq_pm := (pq_pm u)\<lparr>pm_aio := a\<rparr>, pq_pc := Calling rd wr\<rparr>) s' \<and> pq_rem s' t = Some (fd, True)"
      by (rule calls_then_wake [of _ rd wr]) (simp_all add: u(2,3))
    then show ?thesis using step_then_runs [OF st] by blast
  qed
  show ?thesis
  proof (cases "pq_pc s")
    case Top
    then show ?thesis using top_wakes [OF Top l(2) assms(2), of p] by blast
  next
    case Copying
    obtain r w h where c: "select_copy (pm_aio (pq_pm s)) = (r, w, h)" by (metis prod_cases3)
    note st = pm_step.copy [OF Copying c, of p]
    have "\<exists>s'. loop_runs p (s\<lparr>pq_pc := Selecting r w h\<rparr>) s' \<and> pq_rem s' t = Some (fd, True)"
      using pm_live_step [OF st l(1)] l(2) assms(2) by (intro sel [of _ r w h]) simp_all
    then show ?thesis using step_then_runs [OF st] by blast
  next
    case (Selecting r w h)
    then show ?thesis using sel [OF l assms(2)] by blast
  next
    case (Calling rd wr)
    then show ?thesis using calls_then_wake [OF _ l(2) assms(2)] by blast
  qed
qed

theorem removal_returns_witness:
  "\<exists>s s'. pm_reach 4 s \<and> pq_rem s 0 = Some (9, False) \<and> (\<lambda>a b. \<exists>e. pm_step 4 a e b)\<^sup>*\<^sup>* s s' \<and>
    pq_rem (s' :: nat pm_sys) 0 = Some (9, True)"
proof -
  let ?s0 = "\<lparr>pq_pm = pollmgr_new 4, pq_pc = Top, pq_rem = Map.empty, pq_gone = {}\<rparr> :: nat pm_sys"
  obtain gone a2 where u: "select_unwatch 9 CB_RDWR (pm_aio (pq_pm ?s0)) = Inr (gone, a2)"
    using sel.unwatch_all by blast
  then have "block_remove_begin 9 (pq_pm ?s0) = Inr ((pq_pm ?s0)\<lparr>pm_aio := a2, pm_pending := True\<rparr>)"
    by (simp add: block_remove_begin_def)
  from pm_step.rm_begin [OF _ _ this, of 4 0]
  have "\<exists>s. pm_step 4 ?s0 None s \<and> pq_rem s 0 = Some (9, False)" by auto
  then obtain s where s: "pm_step 4 ?s0 None s" "pq_rem s 0 = Some (9, False)" by (elim exE conjE) rule
  note r = pm_reach.more [OF pm_reach.start s(1)]
  show ?thesis using removal_returns [OF r s(2)] r s(2) by blast
qed

end
