(* ===== verification/RpcServer.thy ===== *)
theory RpcServer
  imports Protocols
begin

text \<open>
  The RPC server endpoint, class \<open>rpcs\<close> of \<open>rpc/rpc.h\<close> and \<open>rpc/rpc.cc\<close>: the window of
  replies kept per client for at-most-once execution (\<open>checkduplicate_and_update\<close>,
  \<open>add_reply\<close>, \<open>free_reply_window\<close>), handler registration, and \<open>dispatch\<close>, split where the
  handler runs so that other requests can be dispatched in between.  A connection object is
  a number; its reference count is part of the state because \<open>dispatch\<close> maintains it.
\<close>

section \<open>State\<close>

record reply_t =
  rt_xid :: u32
  rt_cb_present :: bool
  rt_buf :: "byte list"

definition reply_new :: "u32 \<Rightarrow> reply_t" where
  "reply_new xid = \<lparr>rt_xid = xid, rt_cb_present = False, rt_buf = []\<rparr>"

datatype rpcstate_t = NEW | INPROGRESS | DONE "byte list" | FORGOTTEN

type_synonym reply_window = "u32 \<rightharpoonup> reply_t list"

type_synonym 's handler = "unmarshall \<Rightarrow> marshall \<Rightarrow> 's \<Rightarrow> (status \<times> marshall \<times> 's) res"

record 's rpcs =
  rs_port :: u32
  rs_nonce :: u32
  rs_window :: reply_window
  rs_conns :: "u32 \<rightharpoonup> nat"
  rs_refs :: "nat \<Rightarrow> int"
  rs_counting :: int
  rs_curr_counts :: int
  rs_counts :: "u32 \<Rightarrow> int"
  rs_reachable :: bool
  rs_procs :: "u32 \<rightharpoonup> 's handler"

section \<open>The reply window\<close>

text \<open>
  \<open>checkduplicate_and_update\<close>: drop what the client acknowledged, look the request up,
  and insert it in order if it is new.  \<open>find\<close> on an unknown client yields \<open>end()\<close>, which
  the code dereferences.
\<close>

definition window_ack :: "u32 \<Rightarrow> reply_t list \<Rightarrow> reply_t list" where
  "window_ack xid_rep w = dropWhile (\<lambda>r. xid_rep \<ge> rt_xid r) w"

fun window_insert :: "reply_t \<Rightarrow> reply_t list \<Rightarrow> reply_t list" where
  "window_insert n [] = [n]"
| "window_insert n (r # w) = (if rt_xid r < rt_xid n then r # window_insert n w else n # r # w)"

definition checkduplicate_and_update ::
  "reply_window \<Rightarrow> u32 \<Rightarrow> u32 \<Rightarrow> u32 \<Rightarrow> (rpcstate_t \<times> reply_window) res"
where
  "checkduplicate_and_update rw clt xid xid_rep =
     (case rw clt of
        None \<Rightarrow> Inl NullDeref
      | Some w0 \<Rightarrow>
          (let w = window_ack xid_rep w0; rw = rw(clt \<mapsto> w)
           in case find (\<lambda>r. rt_xid r = xid) w of
                Some r \<Rightarrow> Inr (if rt_cb_present r then DONE (rt_buf r) else INPROGRESS, rw)
              | None \<Rightarrow>
                  (if w \<noteq> [] \<and> xid < rt_xid (hd w) \<and> xid < xid_rep then Inr (FORGOTTEN, rw)
                   else Inr (NEW, rw(clt \<mapsto> window_insert (reply_new xid) w)))))"

definition add_reply :: "reply_window \<Rightarrow> u32 \<Rightarrow> u32 \<Rightarrow> byte list \<Rightarrow> reply_window res" where
  "add_reply rw clt xid b =
     (case rw clt of
        None \<Rightarrow> Inl NullDeref
      | Some w \<Rightarrow>
          Inr (rw(clt \<mapsto> map (\<lambda>r. if rt_xid r = xid
                                 then r\<lparr>rt_buf := b, rt_cb_present := True\<rparr> else r) w)))"

definition free_reply_window :: "reply_window \<Rightarrow> reply_window" where
  "free_reply_window rw = Map.empty"

text \<open>\<open>dispatch\<close> creates the window of a client it has not seen before.\<close>

definition open_window :: "reply_window \<Rightarrow> u32 \<Rightarrow> reply_window" where
  "open_window rw clt = (if rw clt = None then rw(clt \<mapsto> []) else rw)"

section \<open>Registration and dispatch\<close>

definition reg1 :: "'s rpcs \<Rightarrow> u32 \<Rightarrow> 's handler \<Rightarrow> 's rpcs res" where
  "reg1 s proc h =
     (if rs_procs s proc \<noteq> None then Inl AssertFail
      else Inr (s\<lparr>rs_procs := (rs_procs s)(proc \<mapsto> h)\<rparr>))"

text \<open>
  The handler a \<open>reg\<close> template builds: unmarshal all arguments, reject the request unless
  that used up the PDU, call the method, marshal its result.
\<close>

definition handler_fn ::
  "(unmarshall \<Rightarrow> ('a \<times> unmarshall) res) \<Rightarrow> ('a \<Rightarrow> 's \<Rightarrow> (status \<times> 'r \<times> 's) res) \<Rightarrow>
   (marshall \<Rightarrow> 'r \<Rightarrow> marshall) \<Rightarrow> 's handler"
where
  "handler_fn get meth put args ret s =
     rbind (get args) (\<lambda>(a, args).
     if \<not> u_okdone args then Inr (rpc_unmarshal_args_failure, ret, s)
     else rbind (meth a s) (\<lambda>(b, r, s). Inr (b, put ret r, s)))"

definition incref :: "nat \<Rightarrow> 's rpcs \<Rightarrow> 's rpcs" where
  "incref c s = s\<lparr>rs_refs := (rs_refs s)(c := rs_refs s c + 1)\<rparr>"

definition decref :: "nat \<Rightarrow> 's rpcs \<Rightarrow> 's rpcs" where
  "decref c s = s\<lparr>rs_refs := (rs_refs s)(c := rs_refs s c - 1)\<rparr>"

definition updatestat :: "'s rpcs \<Rightarrow> u32 \<Rightarrow> 's rpcs" where
  "updatestat s proc =
     (let s = s\<lparr>rs_counts := (rs_counts s)(proc := rs_counts s proc + 1),
                rs_curr_counts := rs_curr_counts s - 1\<rparr>
      in if rs_curr_counts s = 0 then s\<lparr>rs_curr_counts := rs_counting s\<rparr> else s)"

text \<open>\<open>got_pdu\<close>: \<open>queued\<close> is the answer of the thread pool; the result is whether the PDU was
  consumed and whether it is now queued for \<open>dispatch\<close>.\<close>

definition rpcs_got_pdu :: "'s rpcs \<Rightarrow> nat \<Rightarrow> bool \<Rightarrow> 's rpcs \<times> bool" where
  "rpcs_got_pdu s c queued =
     (if \<not> rs_reachable s then (s, True)
      else let s = incref c s
           in if \<not> queued then (decref c s, False) else (s, True))"

text \<open>How the first half of \<open>dispatch\<close> ends: no reply, a reply PDU, or the handler to run.\<close>

datatype 's dispatched =
    Dropped
  | Replied "byte list"
  | Running req_header unmarshall "'s handler"

definition reply_pdu :: "u32 \<Rightarrow> status \<Rightarrow> marshall \<Rightarrow> byte list" where
  "reply_pdu xid ret m = m_pdu (pack_reply_header m \<lparr>rh_xid = xid, rh_ret = word_of_int ret\<rparr>)"

definition save_conn :: "'s rpcs \<Rightarrow> u32 \<Rightarrow> nat \<Rightarrow> 's rpcs" where
  "save_conn s clt c =
     (case rs_conns s clt of
        None \<Rightarrow> (incref c s)\<lparr>rs_conns := (rs_conns s)(clt \<mapsto> c)\<rparr>
      | Some c' \<Rightarrow>
          (if c' \<noteq> c then (incref c (decref c' s))\<lparr>rs_conns := (rs_conns s)(clt \<mapsto> c)\<rparr> else s))"

definition dispatch_begin :: "'s rpcs \<Rightarrow> nat \<Rightarrow> byte list \<Rightarrow> ('s rpcs \<times> 's dispatched) res" where
  "dispatch_begin s c b =
     (let (h, req) = unpack_req_header (unmarshall_buf b)
      in if \<not> u_ok req then Inr (decref c s, Dropped)
         else if h_srv_nonce h \<noteq> 0 \<and> h_srv_nonce h \<noteq> rs_nonce s
         then Inr (s, Replied (reply_pdu (h_xid h) rpc_oldsrv_failure marshall_new))
         else case rs_procs s (h_proc h) of
           None \<Rightarrow> Inr (decref c s, Dropped)
         | Some f \<Rightarrow>
             rbind
               (if h_clt_nonce h \<noteq> 0
                then let rw = open_window (rs_window s) (h_clt_nonce h);
                         s = save_conn (s\<lparr>rs_window := rw\<rparr>) (h_clt_nonce h) c
                     in rbind (checkduplicate_and_update (rs_window s) (h_clt_nonce h) (h_xid h)
                                (h_xid_rep h))
                          (\<lambda>(st, rw). Inr (st, s\<lparr>rs_window := rw\<rparr>))
                else Inr (NEW, s))
               (\<lambda>(st, s). Inr
                  (case st of
                     NEW \<Rightarrow> (if rs_counting s \<noteq> 0 then updatestat s (h_proc h) else s,
                             Running h req f)
                   | INPROGRESS \<Rightarrow> (decref c s, Dropped)
                   | DONE b1 \<Rightarrow> (decref c s, Replied b1)
                   | FORGOTTEN \<Rightarrow>
                       (decref c s,
                        Replied (reply_pdu (h_xid h) rpc_atmostonce_failure marshall_new)))))"

text \<open>
  The second half, once the handler returned \<open>ret\<close> with its result in \<open>rep\<close>: save the
  reply, find the client's latest connection if this one died meanwhile, and send.  The
  lookup \<open>conns_[nonce]\<close> of a client that has no entry yields a null pointer, which the
  code then uses.
\<close>

definition dispatch_finish ::
  "'s rpcs \<Rightarrow> nat \<Rightarrow> bool \<Rightarrow> req_header \<Rightarrow> status \<Rightarrow> marshall \<Rightarrow> ('s rpcs \<times> nat \<times> byte list) res"
where
  "dispatch_finish s c dead h ret rep =
     (if \<not> (ret \<ge> 0 \<or> ret = rpc_unmarshal_args_failure) then Inl AssertFail
      else
        let b1 = reply_pdu (h_xid h) ret rep
        in rbind (if h_clt_nonce h > 0
                  then rbind (add_reply (rs_window s) (h_clt_nonce h) (h_xid h) b1)
                         (\<lambda>rw. Inr (s\<lparr>rs_window := rw\<rparr>))
                  else Inr s)
             (\<lambda>s. if dead \<and> rs_conns s (h_clt_nonce h) \<noteq> Some c
                  then (case rs_conns s (h_clt_nonce h) of
                          None \<Rightarrow> Inl NullDeref
                        | Some c' \<Rightarrow> Inr (decref c' (incref c' (decref c s)), c', b1))
                  else Inr (decref c s, c, b1)))"

definition rpcbind :: "u32 \<Rightarrow> 's rpcs \<Rightarrow> status \<times> u32" where
  "rpcbind a s = (0, rs_nonce s)"

text \<open>The constructor: \<open>nonce\<close> is the value of \<open>random()\<close>, and the bind procedure is the first one
  registered.  The destructor stops the listener and the pool before it frees the replies.\<close>

definition rpcs_new :: "u32 \<Rightarrow> u32 \<Rightarrow> int \<Rightarrow> 's rpcs res" where
  "rpcs_new port nonce count =
     (let s = \<lparr>rs_port = port, rs_nonce = nonce, rs_window = Map.empty, rs_conns = Map.empty,
               rs_refs = (\<lambda>_. 0), rs_counting = count, rs_curr_counts = count, rs_counts = (\<lambda>_. 0),
               rs_reachable = True, rs_procs = Map.empty\<rparr>
      in reg1 s proc_bind
           (handler_fn get_int (\<lambda>a st. case rpcbind a s of (b, r) \<Rightarrow> Inr (b, r, st)) put_int))"

section \<open>The window is sorted, and stands for a set of request numbers\<close>

definition w_sorted :: "reply_t list \<Rightarrow> bool" where
  "w_sorted w \<longleftrightarrow> sorted_wrt (<) (map rt_xid w)"

definition rw_ok :: "reply_window \<Rightarrow> bool" where
  "rw_ok rw \<longleftrightarrow> (\<forall>c w. rw c = Some w \<longrightarrow> w_sorted w)"

definition w_xids :: "reply_t list \<Rightarrow> u32 set" where
  "w_xids w = rt_xid ` set w"

lemma w_sorted_Cons [simp]:
  "w_sorted [] \<longleftrightarrow> True"
  "w_sorted (r # w) \<longleftrightarrow> (\<forall>x \<in> set w. rt_xid r < rt_xid x) \<and> w_sorted w"
  by (auto simp: w_sorted_def)

lemma window_ack_filter: "w_sorted w \<Longrightarrow> window_ack r w = filter (\<lambda>e. r < rt_xid e) w"
proof (induction w)
  case Nil
  then show ?case by (simp add: window_ack_def)
next
  case (Cons e w)
  then show ?case
    by (auto simp: window_ack_def not_le intro!: filter_True [symmetric])
qed

lemma w_sorted_filter: "w_sorted w \<Longrightarrow> w_sorted (filter P w)"
  by (induction w) auto

lemma w_sorted_ack: "w_sorted w \<Longrightarrow> w_sorted (window_ack r w)"
  by (simp add: window_ack_filter w_sorted_filter)

lemma w_xids_ack: "w_sorted w \<Longrightarrow> w_xids (window_ack r w) = {x \<in> w_xids w. r < x}"
  by (auto simp: window_ack_filter w_xids_def)

lemma set_window_insert [simp]: "set (window_insert n w) = insert n (set w)"
  by (induction w) auto

lemma w_sorted_insert: "w_sorted w \<Longrightarrow> rt_xid n \<notin> w_xids w \<Longrightarrow> w_sorted (window_insert n w)"
  by (induction w) (force simp: w_xids_def)+

lemma find_xid_None: "find (\<lambda>r. rt_xid r = x) w = None \<longleftrightarrow> x \<notin> w_xids w"
  by (auto simp: find_None_iff w_xids_def)

lemma find_xid_Some: "find (\<lambda>r. rt_xid r = x) w = Some r \<Longrightarrow> r \<in> set w \<and> rt_xid r = x"
  by (auto simp: find_Some_iff)

text \<open>The three ways a request is answered, as equations of \<open>checkduplicate_and_update\<close>.\<close>

lemma check_known:
  assumes "rw clt = Some w" and "find (\<lambda>r. rt_xid r = xid) (window_ack rep w) = Some r"
  shows "checkduplicate_and_update rw clt xid rep =
    Inr (if rt_cb_present r then DONE (rt_buf r) else INPROGRESS, rw(clt \<mapsto> window_ack rep w))"
  using assms by (simp add: checkduplicate_and_update_def)

lemma check_new:
  assumes "rw clt = Some w" and "xid \<notin> w_xids (window_ack rep w)" and "rep \<le> xid"
  shows "checkduplicate_and_update rw clt xid rep =
    Inr (NEW, rw(clt \<mapsto> window_insert (reply_new xid) (window_ack rep w)))"
  using assms
  by (auto simp: checkduplicate_and_update_def find_xid_None [symmetric] Let_def not_less)

lemma check_cases:
  assumes "checkduplicate_and_update rw clt xid rep = Inr (st, rw')"
  obtains w where "rw clt = Some w" and "xid \<in> w_xids (window_ack rep w)" and "st \<noteq> NEW"
      and "rw' = rw(clt \<mapsto> window_ack rep w)"
  | w where "rw clt = Some w" and "xid \<notin> w_xids (window_ack rep w)" and "st = FORGOTTEN"
      and "xid < rep" and "rw' = rw(clt \<mapsto> window_ack rep w)"
  | w where "rw clt = Some w" and "xid \<notin> w_xids (window_ack rep w)" and "st = NEW"
      and "rw' = rw(clt \<mapsto> window_insert (reply_new xid) (window_ack rep w))"
proof -
  obtain w where w: "rw clt = Some w"
    using assms by (auto simp: checkduplicate_and_update_def split: option.splits)
  show thesis
  proof (cases "find (\<lambda>r. rt_xid r = xid) (window_ack rep w)")
    case None
    then have n: "xid \<notin> w_xids (window_ack rep w)" by (simp add: find_xid_None)
    show thesis
      using assms w None that(2) [OF w n] that(3) [OF w n]
      by (auto simp: checkduplicate_and_update_def Let_def split: if_splits)
  next
    case (Some r)
    then have "xid \<in> w_xids (window_ack rep w)"
      by (auto simp: w_xids_def dest: find_xid_Some)
    then show thesis
      using assms check_known [of rw clt w xid rep r] w Some that(1) [OF w] by (auto split: if_splits)
  qed
qed

lemma check_rw_ok [inv_intros]:
  assumes "rw_ok rw" and "checkduplicate_and_update rw clt xid rep = Inr (st, rw')"
  shows "rw_ok rw'"
  using assms(2)
proof (cases rule: check_cases)
  case (3 w)
  then show ?thesis
    using assms(1) by (auto simp: rw_ok_def reply_new_def intro!: w_sorted_insert w_sorted_ack)
qed (use assms(1) in \<open>auto simp: rw_ok_def w_sorted_ack\<close>)

lemma map_reply_xids:
  "map rt_xid (map (\<lambda>r. if rt_xid r = xid then r\<lparr>rt_buf := b, rt_cb_present := True\<rparr> else r) w) =
    map rt_xid w"
  by (induction w) auto

lemma add_reply_rw_ok [inv_intros]: "rw_ok rw \<Longrightarrow> add_reply rw clt xid b = Inr rw' \<Longrightarrow> rw_ok rw'"
  by (auto simp: add_reply_def rw_ok_def w_sorted_def map_reply_xids simp del: map_map
      split: option.splits if_splits)

lemma open_window_rw_ok [inv_intros]: "rw_ok rw \<Longrightarrow> rw_ok (open_window rw clt)"
  by (auto simp: open_window_def rw_ok_def)

section \<open>At-most-once execution\<close>

text \<open>
  The history of a window: requests as \<open>dispatch\<close> looks them up (client, xid, the highest
  xid the client acknowledges) and replies as handlers finish, in any interleaving.
  \<open>executed\<close> lists the requests whose handler was started.
\<close>

datatype wevent = Check u32 u32 u32 | Add u32 u32 "byte list"

fun window_step :: "reply_window \<Rightarrow> wevent \<Rightarrow> ((u32 \<times> u32) list \<times> reply_window) res" where
  "window_step rw (Check c x r) =
     rbind (checkduplicate_and_update (open_window rw c) c x r)
       (\<lambda>(st, rw). Inr (if st = NEW then [(c, x)] else [], rw))"
| "window_step rw (Add c x b) = rbind (add_reply rw c x b) (\<lambda>rw. Inr ([], rw))"

fun executed :: "reply_window \<Rightarrow> wevent list \<Rightarrow> (u32 \<times> u32) list res" where
  "executed rw [] = Inr []"
| "executed rw (e # es) =
     rbind (window_step rw e) (\<lambda>(xs, rw). rbind (executed rw es) (\<lambda>ys. Inr (xs @ ys)))"

definition in_window :: "reply_window \<Rightarrow> u32 \<Rightarrow> u32 \<Rightarrow> bool" where
  "in_window rw c x \<longleftrightarrow> (\<exists>w. rw c = Some w \<and> x \<in> w_xids w)"

definition acks :: "wevent \<Rightarrow> u32 \<Rightarrow> u32 \<Rightarrow> bool" where
  "acks e c x \<longleftrightarrow> (\<exists>y r. e = Check c y r \<and> x \<le> r)"

lemma check_in_window:
  assumes ok: "rw_ok rw" and r: "checkduplicate_and_update rw c y r = Inr (st, rw')"
  shows "st = NEW \<Longrightarrow> in_window rw' c y"
    and "st = NEW \<Longrightarrow> r < y \<Longrightarrow> \<not> in_window rw c y"
    and "in_window rw c' x \<Longrightarrow> c' \<noteq> c \<or> r < x \<Longrightarrow> in_window rw' c' x"
proof -
  have ack: "x \<in> w_xids (window_ack r w) \<longleftrightarrow> x \<in> w_xids w \<and> r < x" if "rw c = Some w" for w x
    using ok that w_xids_ack [of w r] by (auto simp: rw_ok_def)
  show "st = NEW \<Longrightarrow> in_window rw' c y"
    using r by (cases rule: check_cases) (auto simp: in_window_def w_xids_def reply_new_def)
  show "st = NEW \<Longrightarrow> r < y \<Longrightarrow> \<not> in_window rw c y"
    using r by (cases rule: check_cases) (auto simp: in_window_def ack)
  show "in_window rw c' x \<Longrightarrow> c' \<noteq> c \<or> r < x \<Longrightarrow> in_window rw' c' x"
    using r
    by (cases rule: check_cases)
      (auto simp: in_window_def ack, auto simp: w_xids_def ack [unfolded w_xids_def])
qed

lemma w_xids_reply:
  "w_xids (map (\<lambda>r. if rt_xid r = xid then r\<lparr>rt_buf := b, rt_cb_present := True\<rparr> else r) w) =
    w_xids w"
  by (induction w) (auto simp: w_xids_def)

lemma add_reply_in_window:
  "add_reply rw c y b = Inr rw' \<Longrightarrow> in_window rw' c' x \<longleftrightarrow> in_window rw c' x"
  by (auto simp: add_reply_def in_window_def w_xids_reply split: option.splits if_splits)

lemma open_in_window [simp]: "in_window (open_window rw c) c' x \<longleftrightarrow> in_window rw c' x"
  by (auto simp: in_window_def open_window_def w_xids_def)

lemma window_step_keeps:
  assumes "rw_ok rw" and "window_step rw e = Inr (xs, rw')" and "\<not> acks e c x"
  shows "rw_ok rw'" and "(c, x) \<in> set xs \<Longrightarrow> \<not> in_window rw c x"
    and "in_window rw c x \<or> (c, x) \<in> set xs \<Longrightarrow> in_window rw' c x"
    and "length xs \<le> 1"
proof -
  have "rw_ok rw' \<and> ((c, x) \<in> set xs \<longrightarrow> \<not> in_window rw c x) \<and>
    (in_window rw c x \<or> (c, x) \<in> set xs \<longrightarrow> in_window rw' c x) \<and> length xs \<le> 1"
  proof (cases e)
    case (Check c1 y r)
    then obtain st where st: "checkduplicate_and_update (open_window rw c1) c1 y r = Inr (st, rw')"
      and xs: "xs = (if st = NEW then [(c1, y)] else [])"
      using assms(2) by (auto simp: rbind_eq_Inr_iff)
    have ok: "rw_ok (open_window rw c1)" by (rule open_window_rw_ok [OF assms(1)])
    note W = check_in_window [OF ok st]
    have "c \<noteq> c1 \<or> r < x" using assms(3) Check by (auto simp: acks_def)
    then show ?thesis
      using check_rw_ok [OF ok st] W xs by auto
  next
    case (Add c1 y b)
    then show ?thesis
      using assms(1,2) add_reply_rw_ok add_reply_in_window by (auto simp: rbind_eq_Inr_iff)
  qed
  then show "rw_ok rw'" "(c, x) \<in> set xs \<Longrightarrow> \<not> in_window rw c x"
    "in_window rw c x \<or> (c, x) \<in> set xs \<Longrightarrow> in_window rw' c x" "length xs \<le> 1" by blast+
qed

lemma executed_at_most:
  assumes "rw_ok rw" and "executed rw es = Inr ys" and "\<forall>e \<in> set es. \<not> acks e c x"
  shows "count_list ys (c, x) \<le> (if in_window rw c x then 0 else 1)"
  using assms
proof (induction es arbitrary: rw ys)
  case Nil
  then show ?case by simp
next
  case (Cons e es)
  obtain xs rw' zs where step: "window_step rw e = Inr (xs, rw')" and
    rest: "executed rw' es = Inr zs" and ys: "ys = xs @ zs"
    using Cons.prems(2) by (auto simp: rbind_eq_Inr_iff)
  have na: "\<not> acks e c x" using Cons.prems(3) by simp
  note S = window_step_keeps [OF Cons.prems(1) step na]
  have "count_list zs (c, x) \<le> (if in_window rw' c x then 0 else 1)"
    by (rule Cons.IH [OF S(1) rest]) (use Cons.prems(3) in simp)
  moreover have "count_list xs (c, x) \<le> (if (c, x) \<in> set xs then 1 else 0)"
    using S(4) count_le_length [of xs "(c, x)"] by (auto simp: count_notin intro: le_trans)
  ultimately show ?case using S(2,3) by (auto simp: ys split: if_splits)
qed


lemma check_xids:
  assumes "checkduplicate_and_update rw c y r = Inr (st, rw1)" and "rw c = Some w"
  shows "\<exists>w1. rw1 c = Some w1 \<and> w_xids w1 \<subseteq> insert y (w_xids (window_ack r w))"
  using assms(1)
  by (cases rule: check_cases) (use assms(2) in \<open>auto simp: w_xids_def reply_new_def\<close>)

lemma marked_reply:
  "\<forall>q \<in> set (map (\<lambda>r. if rt_xid r = x then r\<lparr>rt_buf := b, rt_cb_present := True\<rparr> else r) w).
    rt_xid q = x \<longrightarrow> rt_cb_present q \<and> rt_buf q = b"
  unfolding set_map ball_simps by (simp only: split: if_split) simp

text \<open>C4: at-most-once execution.  From an empty window, whatever requests, duplicates and
  replies of any clients are processed in whatever order, the handler of request \<open>x\<close> of client
  \<open>c\<close> is started at most once, as long as no request of \<open>c\<close> acknowledges \<open>x\<close>.\<close>

theorem at_most_once:
  assumes "executed Map.empty es = Inr ys" and "\<forall>e \<in> set es. \<not> acks e c x"
  shows "count_list ys (c, x) \<le> 1"
  using executed_at_most [of Map.empty es ys c x] assms by (simp add: rw_ok_def in_window_def)

theorem at_most_once_witness:
  "executed Map.empty [Check 9 1 0, Check 9 1 0, Check 9 2 0, Add 9 1 [7], Check 9 1 0] =
    Inr [(9, 1), (9, 2)] \<and> count_list [(9 :: u32, 1 :: u32), (9, 2)] (9, 1) \<le> 1"
proof -
  have ex: "executed Map.empty [Check 9 1 0, Check 9 1 0, Check 9 2 0, Add 9 1 [7], Check 9 1 0] =
    Inr [(9, 1), (9, 2)]"
    by (simp add: open_window_def checkduplicate_and_update_def window_ack_def reply_new_def
        add_reply_def)
  show ?thesis
    using ex at_most_once [OF ex, of 9 1] by (simp add: acks_def)
qed

text \<open>after a request was acknowledged its entry is gone, and because the \<open>FORGOTTEN\<close>
  answer compares the request with its own acknowledgement, a delayed duplicate (which carries
  its original, smaller acknowledgement) is taken for a new request and its handler runs
  again.\<close>

theorem acknowledged_duplicate_runs_again:
  assumes ok: "rw_ok rw"
    and ack: "checkduplicate_and_update rw c y r = Inr (st, rw1)" "x \<le> r" "y \<noteq> x"
    and dup: "rep < x"
  shows "\<exists>rw2. checkduplicate_and_update rw1 c x rep = Inr (NEW, rw2)"
proof -
  obtain w where w: "rw c = Some w" "w_sorted w"
    using ok ack(1) by (auto simp: rw_ok_def checkduplicate_and_update_def split: option.splits)
  have "x \<notin> w_xids (window_ack r w)"
    using w_xids_ack [OF w(2), of r] leD [OF ack(2)] by blast
  then obtain w1 where w1: "rw1 c = Some w1" "x \<notin> w_xids w1"
    using check_xids [OF ack(1) w(1)] ack(3) by blast
  have "w_sorted w1"
    using check_rw_ok [OF ok ack(1)] w1(1) by (simp add: rw_ok_def)
  then have "x \<notin> w_xids (window_ack rep w1)"
    using w1(2) by (simp add: w_xids_ack)
  then show ?thesis using check_new [of rw1 c w1 x rep] w1(1) dup by auto
qed

theorem acknowledged_duplicate_runs_again_witness:
  "\<exists>rw2. checkduplicate_and_update [9 \<mapsto> [reply_new 2]] 9 1 0 = Inr (NEW, rw2)"
proof -
  have ok: "rw_ok [9 \<mapsto> [reply_new 1]]" by (simp add: rw_ok_def)
  have ack: "checkduplicate_and_update [9 \<mapsto> [reply_new 1]] 9 2 1 = Inr (NEW, [9 \<mapsto> [reply_new 2]])"
    by (simp add: checkduplicate_and_update_def window_ack_def reply_new_def)
  show ?thesis
    by (rule acknowledged_duplicate_runs_again [OF ok ack]) simp_all
qed

text \<open>once the reply of a pending request is saved, every further duplicate that does not
  acknowledge it is answered with exactly that reply, and the window keeps it.\<close>

theorem saved_reply_is_replayed:
  assumes ok: "rw_ok rw" and add: "add_reply rw c x b = Inr rw1"
    and pending: "in_window rw c x" and rep: "rep < x"
  shows "\<exists>rw2. checkduplicate_and_update rw1 c x rep = Inr (DONE b, rw2) \<and> in_window rw2 c x"
proof -
  have in1: "in_window rw1 c x" using add_reply_in_window [OF add] pending by blast
  then obtain w1 where w1: "rw1 c = Some w1" "x \<in> w_xids w1" by (auto simp: in_window_def)
  have sorted: "w_sorted w1"
    using add_reply_rw_ok [OF ok add] w1(1) by (simp add: rw_ok_def)
  have saved: "\<forall>r \<in> set w1. rt_xid r = x \<longrightarrow> rt_cb_present r \<and> rt_buf r = b"
  proof -
    obtain w0 where w0: "rw c = Some w0" using pending by (auto simp: in_window_def)
    have "rw1 = rw(c \<mapsto> map (\<lambda>r. if rt_xid r = x then r\<lparr>rt_buf := b, rt_cb_present := True\<rparr> else r) w0)"
      using add unfolding add_reply_def w0 option.case by (rule Inr_inject [symmetric])
    then have "w1 = map (\<lambda>r. if rt_xid r = x then r\<lparr>rt_buf := b, rt_cb_present := True\<rparr> else r) w0"
      using w1(1) by simp
    then show ?thesis using marked_reply [of x b w0] by blast
  qed
  have "x \<in> w_xids (window_ack rep w1)"
    using w1(2) rep by (simp add: w_xids_ack [OF sorted])
  then obtain r where r: "find (\<lambda>r. rt_xid r = x) (window_ack rep w1) = Some r"
    using find_xid_None by fastforce
  then have "r \<in> set w1" "rt_xid r = x"
    using find_xid_Some [OF r] by (auto simp: window_ack_filter [OF sorted])
  then have "checkduplicate_and_update rw1 c x rep = Inr (DONE b, rw1(c \<mapsto> window_ack rep w1))"
    using check_known [of rw1 c w1 x rep r] w1(1) r saved by simp
  then show ?thesis
    using \<open>x \<in> w_xids (window_ack rep w1)\<close> by (auto simp: in_window_def)
qed

theorem saved_reply_is_replayed_witness:
  "\<exists>rw1 rw2. add_reply [9 \<mapsto> [reply_new 1]] 9 1 [7, 8] = Inr rw1 \<and>
    checkduplicate_and_update rw1 9 1 0 = Inr (DONE [7, 8], rw2)"
proof -
  have ok: "rw_ok [9 \<mapsto> [reply_new 1]]" and pending: "in_window [9 \<mapsto> [reply_new 1]] 9 1"
    by (simp_all add: rw_ok_def in_window_def w_xids_def reply_new_def)
  obtain rw1 where add: "add_reply [9 \<mapsto> [reply_new 1]] 9 1 [7, 8] = Inr rw1"
    by (simp add: add_reply_def)
  show ?thesis
    using saved_reply_is_replayed [OF ok add pending, of 0] add by auto
qed

end
