(* ===== verification/RpcClient.thy ===== *)
theory RpcClient
  imports Protocols Timespec
begin

text \<open>
  The RPC client endpoint, class \<open>rpcc\<close> of \<open>rpc/rpc.h\<close> and \<open>rpc/rpc.cc\<close>: binding, the
  life of a call (\<open>call1\<close>, split into registering the call, the wait-and-retransmit loop,
  and removing it), the upcall \<open>got_pdu\<close> that delivers replies, \<open>cancel\<close>, and the window of
  received replies (\<open>update_xid_rep\<close>) from which the acknowledgement in every request header
  is taken.
\<close>

section \<open>The window of received replies\<close>

fun xw_insert :: "u32 \<Rightarrow> u32 list \<Rightarrow> u32 list" where
  "xw_insert xid [] = [xid]"
| "xw_insert xid (x # w) = (if x > xid then xid # x # w else x # xw_insert xid w)"

text \<open>
  The compress loop: \<open>pre\<close> are the elements from the front up to the iterator, which stands
  at the head of the second list.  The inner loop pops the front while its successor is the
  iterator's element; it cannot pop that element itself, whose successor is another number.
\<close>

fun xw_compress :: "u32 list \<Rightarrow> u32 list \<Rightarrow> u32 list" where
  "xw_compress pre [] = pre"
| "xw_compress pre (x # w) = xw_compress (dropWhile (\<lambda>f. f + 1 = x) pre @ [x]) w"

definition update_xid_rep :: "u32 list \<Rightarrow> u32 \<Rightarrow> u32 list" where
  "update_xid_rep w xid =
     (if xid \<le> hd w then w
      else let w = xw_insert xid w in xw_compress [hd w] (tl w))"

section \<open>State\<close>

record caller =
  ca_xid :: u32
  ca_un :: unmarshall
  ca_intret :: status
  ca_done :: bool

record rpcc =
  c_clt_nonce :: u32
  c_srv_nonce :: u32
  c_bind_done :: bool
  c_xid :: u32
  c_retrans :: bool
  c_reachable :: bool
  c_destroy_wait :: bool
  c_calls :: "u32 \<rightharpoonup> caller"
  c_window :: "u32 list"

text \<open>The constructor; \<open>nonce\<close> is the value \<open>random()\<close> returns.\<close>

definition rpcc_new :: "bool \<Rightarrow> u32 \<Rightarrow> rpcc" where
  "rpcc_new retrans nonce =
     \<lparr>c_clt_nonce = (if retrans then nonce else 0), c_srv_nonce = 0, c_bind_done = False,
      c_xid = 1, c_retrans = retrans, c_reachable = True, c_destroy_wait = False,
      c_calls = Map.empty, c_window = [0]\<rparr>"

section \<open>Calls\<close>

text \<open>Registering a call: refused with a status, or given its xid and request header.\<close>

definition call1_begin :: "rpcc \<Rightarrow> u32 \<Rightarrow> rpcc \<times> (status + req_header)" where
  "call1_begin c proc =
     (if (proc \<noteq> proc_bind \<and> \<not> c_bind_done c) \<or> (proc = proc_bind \<and> c_bind_done c)
      then (c, Inl rpc_bind_failure)
      else if c_destroy_wait c then (c, Inl rpc_cancel_failure)
      else
        let xid = c_xid c;
            ca = \<lparr>ca_xid = xid, ca_un = unmarshall_empty, ca_intret = 0, ca_done = False\<rparr>;
            h = \<lparr>h_xid = xid, h_proc = proc, h_clt_nonce = c_clt_nonce c,
                 h_srv_nonce = c_srv_nonce c, h_xid_rep = hd (c_window c)\<rparr>
        in (c\<lparr>c_xid := xid + 1, c_calls := (c_calls c)(xid \<mapsto> ca)\<rparr>, Inr h))"

text \<open>Removing it: the window is updated again, and a call that is not done has timed out.\<close>

definition call1_end :: "rpcc \<Rightarrow> u32 \<Rightarrow> rpcc \<times> status" where
  "call1_end c xid =
     (c\<lparr>c_calls := (c_calls c)(xid := None), c_window := update_xid_rep (c_window c) xid\<rparr>,
      case c_calls c xid of
        Some ca \<Rightarrow> (if ca_done ca then ca_intret ca else rpc_timeout_failure)
      | None \<Rightarrow> rpc_timeout_failure)"

definition rpcc_got_pdu :: "rpcc \<Rightarrow> byte list \<Rightarrow> rpcc" where
  "rpcc_got_pdu c b =
     (let (h, rep) = unpack_reply_header (unmarshall_buf b)
      in if \<not> u_ok rep then c
         else
           let c = c\<lparr>c_window := update_xid_rep (c_window c) (rh_xid h)\<rparr>
           in case c_calls c (rh_xid h) of
                None \<Rightarrow> c
              | Some ca \<Rightarrow>
                  (if \<not> ca_done ca
                   then c\<lparr>c_calls := (c_calls c)(rh_xid h \<mapsto>
                          ca\<lparr>ca_un := fst (u_take_in (ca_un ca) rep),
                             ca_intret := sint (rh_ret h), ca_done := True\<rparr>)\<rparr>
                   else c))"

text \<open>\<open>cancel\<close> up to the point where it waits for the callers to leave.\<close>

definition rpcc_cancel :: "rpcc \<Rightarrow> rpcc" where
  "rpcc_cancel c =
     c\<lparr>c_calls := (\<lambda>x. map_option (\<lambda>ca. ca\<lparr>ca_done := True, ca_intret := rpc_cancel_failure\<rparr>)
                       (c_calls c x)),
       c_destroy_wait := (if c_calls c = Map.empty then c_destroy_wait c else True)\<rparr>"

text \<open>\<open>bind\<close> after its call returned \<open>ret\<close> with the server's nonce \<open>r\<close>.\<close>

definition rpcc_bind :: "rpcc \<Rightarrow> status \<Rightarrow> u32 \<Rightarrow> rpcc \<times> status" where
  "rpcc_bind c ret r =
     (if ret = 0 then (c\<lparr>c_bind_done := True, c_srv_nonce := r\<rparr>, ret) else (c, ret))"

text \<open>
  The \<open>call\<close> templates marshal their arguments in order; \<open>call_m\<close> decodes the result of a
  call that came back with \<open>intret\<close> and the unmarshalled reply \<open>u\<close>.
\<close>

definition rpcc_call_args :: "(marshall \<Rightarrow> marshall) list \<Rightarrow> marshall" where
  "rpcc_call_args writers = foldl (\<lambda>m w. w m) marshall_new writers"

definition rpcc_call_m ::
  "(unmarshall \<Rightarrow> ('r \<times> unmarshall) res) \<Rightarrow> 'r \<Rightarrow> status \<Rightarrow> unmarshall \<Rightarrow> (status \<times> 'r) res"
where
  "rpcc_call_m get r intret u =
     (if intret < 0 then Inr (intret, r)
      else rbind (get u) (\<lambda>(r, u).
        if \<not> u_okdone u then Inr (rpc_unmarshal_reply_failure, r) else Inr (intret, r)))"

text \<open>
  The loop of \<open>call1\<close>.  One observation per iteration: whether \<open>get_refconn\<close> finds a
  connection, the clock, whether the call is done by the deadline of the iteration, and
  whether the connection is dead then.  The result is the number of sends and, unless the
  observations run out, whether the call was done.  \<open>final\<close> is the code's \<open>finaldeadline\<close>,
  whose seconds are set to 0 to mark the last iteration.
\<close>

record wait_obs =
  ob_conn :: bool
  ob_now :: timespec
  ob_done :: bool
  ob_dead :: bool

fun call1_loop ::
  "bool \<Rightarrow> bool \<Rightarrow> bool \<Rightarrow> int \<Rightarrow> timespec \<Rightarrow> nat \<Rightarrow> wait_obs list \<Rightarrow> (nat \<times> bool option) res"
where
  "call1_loop retrans transmit ch curr_to final sent [] = Inr (sent, None)"
| "call1_loop retrans transmit ch curr_to final sent (ob # obs) =
     (let ch = (if transmit then ch \<or> ob_conn ob else ch);
          sent = (if transmit \<and> ch then sent + 1 else sent)
      in if tv_sec final = 0 then Inr (sent, Some False)
         else rbind (add_timespec (ob_now ob) curr_to) (\<lambda>next.
           let final = (if cmp_timespec next final > 0 then final\<lparr>tv_sec := 0\<rparr> else final)
           in if ob_done ob then Inr (sent, Some True)
              else call1_loop retrans (retrans \<and> (\<not> ch \<or> ob_dead ob)) ch (2 * curr_to) final
                     sent obs))"

definition to_max :: int where "to_max = 120000"
definition to_min :: int where "to_min = 1000"

definition call1_wait :: "bool \<Rightarrow> timespec \<Rightarrow> int \<Rightarrow> wait_obs list \<Rightarrow> (nat \<times> bool option) res" where
  "call1_wait retrans now to obs =
     rbind (add_timespec now to) (\<lambda>final. call1_loop retrans True False to_min final 0 obs)"

section \<open>The window stands for the set of received xids\<close>

definition received :: "u32 list \<Rightarrow> u32 set" where
  "received w = {..hd w} \<union> set w"

definition xw_ok :: "u32 list \<Rightarrow> bool" where
  "xw_ok w \<longleftrightarrow> w \<noteq> [] \<and> sorted w \<and> hd w + 1 \<notin> set w"

lemma xw_insert_set [simp]: "set (xw_insert x w) = insert x (set w)"
  by (induction w) auto

lemma xw_insert_sorted: "sorted w \<Longrightarrow> sorted (xw_insert x w)"
  by (induction w) auto

lemma xw_insert_hd: "w \<noteq> [] \<Longrightarrow> hd w < x \<Longrightarrow> hd (xw_insert x w) = hd w \<and> xw_insert x w \<noteq> []"
  by (cases w) auto

lemma word_between: "a \<le> f \<Longrightarrow> f \<le> a + 1 \<Longrightarrow> f \<noteq> a + 1 \<Longrightarrow> f = a" for a f :: u32
  by (metis antisym inc_le le_neq_trans)

lemma xw_compress_correct:
  assumes "sorted (pre @ w)" and "pre \<noteq> []" and "hd pre + 1 \<notin> set pre"
  shows "xw_ok (xw_compress pre w) \<and> received (xw_compress pre w) = received pre \<union> set w"
  using assms
proof (induction pre w rule: xw_compress.induct)
  case (1 pre)
  then show ?case by (simp add: xw_ok_def)
next
  case (2 pre x w)
  let ?pre = "dropWhile (\<lambda>f. f + 1 = x) pre @ [x]"
  have le: "hd pre \<le> f" if "f \<in> set pre" for f
    using "2.prems"(1,2) that by (cases pre) (auto simp: sorted_append)
  show ?case
  proof (cases "hd pre + 1 = x")
    case True
    have eq: "f = hd pre" if "f \<in> set pre" for f
    proof -
      have "f \<le> hd pre + 1" using "2.prems"(1) that True by (auto simp: sorted_append)
      then show ?thesis using word_between [OF le [OF that]] that "2.prems"(3) by metis
    qed
    then have pre: "?pre = [x]" using True by (simp add: dropWhile_eq_Nil_conv) metis
    have one: "x + 1 \<noteq> x" by simp
    have "hd pre \<le> x" using "2.prems"(1,2) by (cases pre) auto
    have hd_in: "hd pre \<in> set pre" using "2.prems"(2) by simp
    have "set pre = {hd pre}"
      using eq hd_in by blast
    moreover have "{..x} = insert x {..hd pre}"
      using word_between [of "hd pre"] \<open>hd pre \<le> x\<close> True
      by (auto intro: order_trans) (metis linorder_le_cases)
    ultimately have "received [x] = received pre \<union> {x}"
      by (auto simp: received_def)
    moreover have "xw_ok (xw_compress [x] w) \<and> received (xw_compress [x] w) = received [x] \<union> set w"
      using "2.IH" "2.prems"(1) one unfolding pre by (simp add: sorted_append)
    ultimately show ?thesis unfolding xw_compress.simps pre by simp
  next
    case False
    then have pre: "?pre = pre @ [x]"
      using "2.prems"(2) by (cases pre) auto
    have "received (pre @ [x]) = received pre \<union> {x}"
      using "2.prems"(2) by (auto simp: received_def)
    moreover have "xw_ok (xw_compress (pre @ [x]) w) \<and>
        received (xw_compress (pre @ [x]) w) = received (pre @ [x]) \<union> set w"
      using "2.IH" "2.prems" False unfolding pre by simp
    ultimately show ?thesis unfolding xw_compress.simps pre by simp
  qed
qed

lemma update_xid_rep_correct:
  assumes "xw_ok w"
  shows "xw_ok (update_xid_rep w x) \<and> received (update_xid_rep w x) = insert x (received w)"
proof (cases "x \<le> hd w")
  case True
  then show ?thesis using assms by (auto simp: update_xid_rep_def received_def)
next
  case False
  let ?v = "xw_insert x w"
  have v: "hd ?v = hd w" "?v \<noteq> []" "sorted ?v"
    using assms False xw_insert_hd [of w x] xw_insert_sorted [of w x] by (auto simp: xw_ok_def)
  then have split: "?v = [hd w] @ tl ?v" by (cases ?v) auto
  have sorted: "sorted ([hd w] @ tl ?v)" using v(3) split by metis
  have "xw_ok (xw_compress [hd w] (tl ?v)) \<and>
      received (xw_compress [hd w] (tl ?v)) = received [hd w] \<union> set (tl ?v)"
    by (rule xw_compress_correct [OF sorted]) simp_all
  moreover have "received [hd w] \<union> set (tl ?v) = insert x (received w)"
  proof -
    have "insert (hd w) (set (tl ?v)) = insert x (set w)"
      using xw_insert_set [of x w] split by (metis append_Cons append_Nil list.simps(15))
    then show ?thesis by (auto simp: received_def)
  qed
  ultimately show ?thesis using False v(1) by (simp add: update_xid_rep_def Let_def)
qed


text \<open>The front is determined by the set: it is the last number before the first gap.\<close>

lemma xw_front_le:
  assumes "xw_ok w" and "received v \<subseteq> received w"
  shows "hd v \<le> hd w"
proof (rule ccontr)
  assume "\<not> hd v \<le> hd w"
  then have lt: "hd w < hd v" by simp
  then have "hd w + 1 \<le> hd v" by (rule inc_le)
  then have "hd w + 1 \<in> received w" using assms(2) by (auto simp: received_def)
  moreover have "hd w < hd w + 1" using lt by (intro less_succ_u32) (auto simp: not_less)
  ultimately show False using assms(1) by (auto simp: received_def xw_ok_def)
qed

lemma xw_front_unique: "xw_ok v \<Longrightarrow> xw_ok w \<Longrightarrow> received v = received w \<Longrightarrow> hd v = hd w"
  by (intro antisym xw_front_le) auto

text \<open>the reply window, however it is represented, stands for the set of received
  xids: an update adds one xid to the set, keeps the list sorted, and leaves as its front (the
  acknowledgement of the next request) the last number before the first gap.\<close>

theorem update_xid_rep_refines:
  assumes "xw_ok w"
  shows "received (update_xid_rep w x) = insert x (received w) \<and> sorted (update_xid_rep w x) \<and>
    (\<forall>y \<le> hd (update_xid_rep w x). y \<in> insert x (received w)) \<and>
    (hd (update_xid_rep w x) \<noteq> - 1 \<longrightarrow> hd (update_xid_rep w x) + 1 \<notin> insert x (received w))"
proof -
  let ?v = "update_xid_rep w x"
  have v: "xw_ok ?v" "received ?v = insert x (received w)"
    using update_xid_rep_correct [OF assms, of x] by auto
  have "hd ?v + 1 \<notin> received ?v" if "hd ?v \<noteq> - 1"
  proof -
    have "hd ?v < hd ?v + 1" using that by (simp add: less_succ_u32)
    then show ?thesis using v(1) by (auto simp: received_def xw_ok_def)
  qed
  moreover have "\<forall>y \<le> hd ?v. y \<in> received ?v" by (auto simp: received_def)
  ultimately show ?thesis using v by (auto simp: xw_ok_def)
qed

theorem update_xid_rep_refines_witness:
  "update_xid_rep [1, 3, 5] 2 = [3, 5] \<and>
    received (update_xid_rep [1, 3, 5] 2) = insert 2 (received [1, 3, 5])"
proof -
  have "xw_ok [1, 3, 5]" by (simp add: xw_ok_def)
  from conjunct1 [OF update_xid_rep_refines [OF this, of 2]]
  show ?thesis by (rule conjI [rotated]) code_simp
qed

text \<open>\<open>call1\<close> updates the window a second time for the same xid; as its comment hopes,
  this changes neither the set of received xids nor the acknowledgement.\<close>

theorem update_xid_rep_twice:
  assumes "xw_ok w"
  shows "received (update_xid_rep (update_xid_rep w x) x) = received (update_xid_rep w x) \<and>
    hd (update_xid_rep (update_xid_rep w x) x) = hd (update_xid_rep w x)"
proof -
  note one = update_xid_rep_correct [OF assms, of x]
  note two = update_xid_rep_correct [OF conjunct1 [OF one], of x]
  have "received (update_xid_rep (update_xid_rep w x) x) = received (update_xid_rep w x)"
    using one two by auto
  then show ?thesis using xw_front_unique one two by blast
qed

theorem update_xid_rep_twice_witness:
  "update_xid_rep (update_xid_rep [1] 3) 3 = [1, 3, 3] \<and>
    hd (update_xid_rep (update_xid_rep [1] 3) 3) = hd (update_xid_rep [1] 3)"
proof -
  have "xw_ok [1]" by (simp add: xw_ok_def)
  from conjunct2 [OF update_xid_rep_twice [OF this, of 3]]
  show ?thesis by (rule conjI [rotated]) code_simp
qed

section \<open>Acknowledgements are safe\<close>

text \<open>
  The histories of one client object: calls begin and end in any order on any threads, PDUs
  arrive, the client is bound or cancelled.  The two side conditions are that the 32-bit xid
  counter does not wrap and that a server answers only xids the client has issued.
\<close>

inductive client_reach :: "rpcc \<Rightarrow> bool" where
  created: "client_reach (rpcc_new retrans nonce)"
| begins: "client_reach c \<Longrightarrow> c_xid c \<noteq> - 1 \<Longrightarrow> call1_begin c proc = (c', res) \<Longrightarrow> client_reach c'"
| bound: "client_reach c \<Longrightarrow> client_reach (fst (rpcc_bind c ret r))"
| pdu: "client_reach c \<Longrightarrow> rh_xid (fst (unpack_reply_header (unmarshall_buf b))) < c_xid c \<Longrightarrow>
    client_reach (rpcc_got_pdu c b)"
| cancelled: "client_reach c \<Longrightarrow> client_reach (rpcc_cancel c)"
| ends: "client_reach c \<Longrightarrow> c_calls c x \<noteq> None \<Longrightarrow> client_reach (fst (call1_end c x))"

definition pending :: "rpcc \<Rightarrow> u32 \<Rightarrow> bool" where
  "pending c x \<longleftrightarrow> (\<exists>ca. c_calls c x = Some ca \<and> \<not> ca_done ca)"

definition client_inv :: "rpcc \<Rightarrow> bool" where
  "client_inv c \<longleftrightarrow> xw_ok (c_window c) \<and> (\<forall>x \<in> received (c_window c). x < c_xid c) \<and>
     (\<forall>x. c_calls c x \<noteq> None \<longrightarrow> x < c_xid c) \<and>
     (\<forall>x. pending c x \<longrightarrow> x \<notin> received (c_window c))"

lemma client_inv_new: "client_inv (rpcc_new retrans nonce)"
  by (auto simp: client_inv_def rpcc_new_def xw_ok_def received_def pending_def)

lemma client_inv_begin [inv_intros]:
  assumes inv: "client_inv c" and xid: "c_xid c \<noteq> - 1" and b: "call1_begin c proc = (c', res)"
  shows "client_inv c'"
proof (cases "c_calls c' = c_calls c")
  case True
  then have "c' = c \<or> c_calls c (c_xid c) \<noteq> None"
    using b by (auto simp: call1_begin_def Let_def fun_upd_idem_iff split: if_splits)
  then show ?thesis using inv by (auto simp: client_inv_def)
next
  case False
  then have c': "c_xid c' = c_xid c + 1" "c_window c' = c_window c"
    "\<And>x. x \<noteq> c_xid c \<Longrightarrow> c_calls c' x = c_calls c x"
    using b by (auto simp: call1_begin_def Let_def split: if_splits)
  have "c_xid c \<notin> received (c_window c)" using inv by (auto simp: client_inv_def)
  then have "pending c' x \<Longrightarrow> x \<notin> received (c_window c)" for x
    using inv c'(3) by (cases "x = c_xid c") (auto simp: client_inv_def pending_def)
  moreover have "c_calls c' x \<noteq> None \<Longrightarrow> x < c_xid c + 1" for x
    using inv c'(3) [of x] less_succ_u32 [OF xid]
    by (cases "x = c_xid c") (auto simp: client_inv_def intro: less_imp_le)
  ultimately show ?thesis
    using inv c' less_succ_u32 [OF xid] by (auto simp: client_inv_def intro: less_imp_le)
qed

lemma client_inv_bind [inv_intros]: "client_inv c \<Longrightarrow> client_inv (fst (rpcc_bind c ret r))"
  by (auto simp: client_inv_def rpcc_bind_def pending_def)

lemma client_inv_cancel [inv_intros]: "client_inv c \<Longrightarrow> client_inv (rpcc_cancel c)"
  by (auto simp: client_inv_def rpcc_cancel_def pending_def)

lemma client_inv_update:
  assumes "client_inv c" and "x < c_xid c" and "c_xid c' = c_xid c"
    and "c_window c' = update_xid_rep (c_window c) x"
    and "\<And>y. c_calls c' y \<noteq> None \<Longrightarrow> c_calls c y \<noteq> None"
    and "\<And>y. pending c' y \<Longrightarrow> pending c y \<and> y \<noteq> x"
  shows "client_inv c'"
  using assms update_xid_rep_correct [of "c_window c" x] by (auto simp: client_inv_def)

lemma client_inv_pdu [inv_intros]:
  assumes "client_inv c" and x: "rh_xid (fst (unpack_reply_header (unmarshall_buf b))) < c_xid c"
  shows "client_inv (rpcc_got_pdu c b)"
proof -
  obtain h rep where hr: "unpack_reply_header (unmarshall_buf b) = (h, rep)" by force
  show ?thesis
  proof (cases "u_ok rep")
    case False
    then show ?thesis using assms(1) by (simp add: rpcc_got_pdu_def hr)
  next
    case True
    show ?thesis
      by (rule client_inv_update [OF assms(1) x])
        (use True hr in \<open>auto simp: rpcc_got_pdu_def pending_def Let_def split: option.splits if_splits\<close>)
  qed
qed

lemma client_inv_end [inv_intros]:
  assumes "client_inv c" and "c_calls c x \<noteq> None"
  shows "client_inv (fst (call1_end c x))"
  by (rule client_inv_update [OF assms(1), of x])
    (use assms in \<open>auto simp: call1_end_def pending_def client_inv_def split: if_splits\<close>)

lemma client_reach_inv: "client_reach c \<Longrightarrow> client_inv c"
  by (induction rule: client_reach.induct) (auto intro: client_inv_new inv_intros)

text \<open>C24: in every history, the acknowledgement a new request carries is smaller than its own
  xid and smaller than the xid of every call that is still waiting for its reply; so a server that
  drops acknowledged replies never drops one that is still needed.\<close>

theorem acknowledgement_safe:
  assumes "client_reach c" and "call1_begin c proc = (c', Inr h)"
  shows "h_xid_rep h < h_xid h \<and> (\<forall>x. pending c x \<longrightarrow> h_xid_rep h < x)"
proof -
  have inv: "client_inv c" by (rule client_reach_inv [OF assms(1)])
  have h: "h_xid h = c_xid c" "h_xid_rep h = hd (c_window c)"
    using assms(2) by (auto simp: call1_begin_def Let_def split: if_splits)
  have "hd (c_window c) \<in> received (c_window c)" by (simp add: received_def)
  then show ?thesis
    using inv h by (auto simp: client_inv_def received_def not_le)
qed

theorem acknowledgement_safe_witness:
  "\<exists>c c' h. client_reach c \<and> pending c 1 \<and> call1_begin c 0x7001 = (c', Inr h) \<and>
    h_xid_rep h < h_xid h \<and> h_xid_rep h < 1"
proof -
  let ?c0 = "fst (rpcc_bind (rpcc_new True 77) 0 5)"
  let ?c1 = "fst (call1_begin ?c0 0x7002)"
  let ?r = "call1_begin ?c1 0x7001"
  have r0: "client_reach ?c0" by (intro client_reach.bound client_reach.created)
  have r1: "client_reach ?c1"
    by (rule client_reach.begins [OF r0 _ surjective_pairing]) (simp add: rpcc_bind_def rpcc_new_def)
  have p: "pending ?c1 1"
    by (simp add: pending_def call1_begin_def rpcc_bind_def rpcc_new_def proc_bind_def Let_def)
  have e: "?r = (fst ?r, Inr \<lparr>h_xid = 2, h_proc = 0x7001, h_clt_nonce = 77, h_srv_nonce = 5, h_xid_rep = 0\<rparr>)"
    by (simp add: call1_begin_def rpcc_bind_def rpcc_new_def proc_bind_def Let_def)
  show ?thesis using acknowledgement_safe [OF r1 e] r1 p e by blast
qed

section \<open>The retry loop\<close>

text \<open>
  The clock only has to stay at or after the start of the call; each observation is a
  normalised time.
\<close>

definition clock_from :: "timespec \<Rightarrow> wait_obs list \<Rightarrow> bool" where
  "clock_from t obs \<longleftrightarrow> (\<forall>ob \<in> set obs. ts_ok (ob_now ob) \<and> ts_ns t \<le> ts_ns (ob_now ob))"

lemma cmp_timespec_later:
  assumes "ts_ns b < ts_ns a" and "tv_nsec a \<le> 10 ^ 9" and "0 \<le> tv_nsec b"
  shows "cmp_timespec a b = 1"
  using assms by (auto simp: cmp_timespec_def ts_ns_def)

lemma add_timespec_returns:
  assumes "ts_ok a" and "0 \<le> b"
  obtains r where "add_timespec a b = Inr r" "ts_ns r = ts_ns a + b * 1000000"
    "0 \<le> tv_nsec r" "tv_nsec r \<le> 10 ^ 9"
proof -
  let ?r = "\<lparr>tv_sec = tv_sec a + b div 1000, tv_nsec = tv_nsec a + (b mod 1000) * 1000000\<rparr>"
  have "b div 1000 * 1000000000 + b mod 1000 * 1000000 = b * 1000000"
    using div_mult_mod_eq [of b 1000] by linarith
  then have "add_timespec a b = Inr (carry_loop ?r)" "ts_ns ?r = ts_ns a + b * 1000000"
    "0 \<le> tv_nsec ?r"
    using assms sdiv_smod_1000 [OF assms(2)] by (auto simp: add_timespec_def Let_def ts_ok_def ts_ns_def)
  then show thesis using carry_loop_spec [of ?r] by (intro that [of "carry_loop ?r"]) auto
qed

lemma call1_loop_last: "tv_sec final = 0 \<Longrightarrow> obs \<noteq> [] \<Longrightarrow>
    \<exists>n b. call1_loop retrans transmit ch cto final sent obs = Inr (n, Some b)"
  by (cases obs) (auto simp: Let_def)

lemma call1_loop_ends:
  assumes "clock_from t obs" and "0 \<le> tv_nsec final" and "0 \<le> cto"
    and "ts_ns final < ts_ns t + cto * 2 ^ k * 1000000" and "k + 2 \<le> length obs"
  shows "\<exists>n b. call1_loop retrans transmit ch cto final sent obs = Inr (n, Some b)"
  using assms
proof (induction k arbitrary: obs transmit ch cto final sent)
  case (0 obs)
  then obtain ob os where obs: "obs = ob # os" "os \<noteq> []" by (cases obs) fastforce+
  then have ob: "ts_ok (ob_now ob)" "ts_ns t \<le> ts_ns (ob_now ob)"
    using "0.prems"(1) by (auto simp: clock_from_def)
  obtain r where r: "add_timespec (ob_now ob) cto = Inr r"
    "ts_ns r = ts_ns (ob_now ob) + cto * 1000000" "tv_nsec r \<le> 10 ^ 9"
    using add_timespec_returns [OF ob(1) "0.prems"(3)] by metis
  have "cmp_timespec r final = 1"
    using ob(2) r(2,3) "0.prems"(2,4) by (intro cmp_timespec_later) auto
  then show ?case using obs r(1) call1_loop_last [of "final\<lparr>tv_sec := 0\<rparr>" os]
    by (auto simp: Let_def)
next
  case (Suc k obs)
  then obtain ob os where obs: "obs = ob # os" "k + 2 \<le> length os" by (cases obs) auto
  then have ob: "ts_ok (ob_now ob)" and clk: "clock_from t os"
    using "Suc.prems"(1) by (auto simp: clock_from_def)
  obtain r where r: "add_timespec (ob_now ob) cto = Inr r"
    using add_timespec_returns [OF ob "Suc.prems"(3)] by metis
  have "os \<noteq> []" using obs(2) by auto
  moreover have "\<exists>n b. call1_loop retrans tr c (2 * cto) final s os = Inr (n, Some b)" for tr c s
    using "Suc.IH" [OF clk "Suc.prems"(2)] "Suc.prems"(3,4) obs(2) by (simp add: algebra_simps)
  ultimately show ?case using obs r call1_loop_last [of "final\<lparr>tv_sec := 0\<rparr>" os]
    by (auto simp: Let_def)
qed



lemma call1_loop_sends:
  assumes "call1_loop retrans transmit ch cto final sent obs = Inr (n, r)"
    and "transmit \<or> ch \<or> \<not> retrans"
  shows "n \<le> sent + of_bool transmit + (if retrans then length (filter ob_dead obs) else 0)"
  using assms
proof (induction obs arbitrary: transmit ch cto final sent)
  case Nil
  then show ?case by simp
next
  case (Cons ob obs)
  let ?ch = "if transmit then ch \<or> ob_conn ob else ch"
  let ?sent = "if transmit \<and> ?ch then sent + 1 else sent"
  let ?tr = "retrans \<and> (\<not> ?ch \<or> ob_dead ob)"
  consider "n = ?sent" | f where "call1_loop retrans ?tr ?ch (2 * cto) f ?sent obs = Inr (n, r)"
    using Cons.prems(1) by (auto simp: Let_def rbind_eq_Inr_iff split: if_splits)
  then show ?case
  proof cases
    case 1
    then show ?thesis by auto
  next
    case 2
    show ?thesis
      using Cons.IH [OF 2] Cons.prems(2) by (cases transmit; cases ch; cases "ob_conn ob"; cases "ob_dead ob"; cases retrans) auto
  qed
qed


text \<open>a call is sent at most once more than the number of times it found its connection
  dead; without retransmission it is sent at most once.\<close>

theorem call1_sends_bounded:
  assumes "call1_wait retrans now to obs = Inr (n, r)"
  shows "n \<le> 1 + (if retrans then length (filter ob_dead obs) else 0)"
  using assms call1_loop_sends [of retrans True False to_min _ 0 obs n r]
  by (auto simp: call1_wait_def rbind_eq_Inr_iff)

theorem call1_sends_bounded_witness:
  "call1_wait True \<lparr>tv_sec = 10, tv_nsec = 0\<rparr> 120000
    [\<lparr>ob_conn = True, ob_now = \<lparr>tv_sec = 10, tv_nsec = 5\<rparr>, ob_done = False, ob_dead = True\<rparr>,
     \<lparr>ob_conn = True, ob_now = \<lparr>tv_sec = 11, tv_nsec = 5\<rparr>, ob_done = True, ob_dead = False\<rparr>]
    = Inr (2, Some True) \<and> (2::nat) \<le> 1 + 1"
proof -
  let ?obs = "[\<lparr>ob_conn = True, ob_now = \<lparr>tv_sec = 10, tv_nsec = 5\<rparr>, ob_done = False, ob_dead = True\<rparr>,
     \<lparr>ob_conn = True, ob_now = \<lparr>tv_sec = 11, tv_nsec = 5\<rparr>, ob_done = True, ob_dead = False\<rparr>]"
  have run: "call1_wait True \<lparr>tv_sec = 10, tv_nsec = 0\<rparr> 120000 ?obs = Inr (2, Some True)"
    by (simp add: call1_wait_def to_min_def add_timespec_def carry_loop.simps cmp_timespec_def
        signed_divide_int_def signed_modulo_int_def Let_def)
  then show ?thesis using call1_sends_bounded [OF run] by simp
qed

end
