(* ===== verification/RpcChannel.thy ===== *)
theory RpcChannel
  imports Connection RpcClient
begin

text \<open>
  The connections of an RPC client: \<open>connect_to_dst\<close> of \<open>rpc/connection.cc\<close>, \<open>get_refconn\<close> and the
  destructor of \<open>rpcc\<close> (\<open>rpc/rpc.cc\<close>), and how the threads in \<open>call1\<close> use them.  Connections are
  counted objects in a heap; the member \<open>chan_\<close> and every call that has got the connection hold a
  reference.  The theorem says that the counts are exact, so that no call touches a connection that
  was deleted and none is left over.
\<close>

section \<open>Operations\<close>

type_synonym conn_heap = "nat \<rightharpoonup> connection"

definition deref :: "nat \<Rightarrow> conn_heap \<Rightarrow> connection res" where
  "deref q heap = (case heap q of None \<Rightarrow> Inl OutOfBounds | Some c \<Rightarrow> Inr c)"

definition add_ref :: "nat \<Rightarrow> conn_heap \<Rightarrow> conn_heap res" where
  "add_ref q heap = rbind (deref q heap) (\<lambda>c. Inr (heap(q \<mapsto> conn_incref c)))"

definition drop_ref :: "nat \<Rightarrow> conn_heap \<Rightarrow> conn_heap res" where
  "drop_ref q heap = rbind (deref q heap) (\<lambda>c. rbind (conn_decref c) (\<lambda>left. Inr (heap(q := left))))"

text \<open>\<open>connected\<close> is the outcome of the \<open>connect\<close> call and \<open>p\<close> the address of the new object.\<close>

definition connect_to_dst :: "nat \<Rightarrow> bool \<Rightarrow> conn_heap \<Rightarrow> nat option \<times> conn_heap" where
  "connect_to_dst p connected heap =
     (if \<not> connected then (None, heap) else (Some p, heap(p \<mapsto> connection_new)))"

text \<open>\<open>get_refconn\<close> replaces a dead \<open>chan_\<close> and moves the caller's reference \<open>ch\<close> to the current one.\<close>

definition get_refconn ::
  "nat \<Rightarrow> bool \<Rightarrow> nat option \<Rightarrow> nat option \<times> conn_heap \<Rightarrow> (nat option \<times> nat option \<times> conn_heap) res" where
  "get_refconn p connected ch k =
     (let (chan, heap) = k in
      rbind (case chan of
               None \<Rightarrow> Inr (connect_to_dst p connected heap)
             | Some q \<Rightarrow> rbind (deref q heap) (\<lambda>c.
                 if isdead c then rbind (drop_ref q heap) (\<lambda>heap. Inr (connect_to_dst p connected heap))
                 else Inr (chan, heap)))
        (\<lambda>(chan, heap). case chan of
           None \<Rightarrow> Inr (ch, chan, heap)
         | Some q \<Rightarrow>
             rbind (case ch of None \<Rightarrow> Inr heap | Some r \<Rightarrow> drop_ref r heap) (\<lambda>heap.
             rbind (add_ref q heap) (\<lambda>heap. Inr (Some q, chan, heap)))))"

text \<open>The destructor of the client; the asserts on its mutexes are left out.\<close>

definition rpcc_delete :: "rpcc \<Rightarrow> nat option \<times> conn_heap \<Rightarrow> conn_heap res" where
  "rpcc_delete c k =
     (let (chan, heap) = k in
      rbind (case chan of
               None \<Rightarrow> Inr heap
             | Some q \<Rightarrow> rbind (deref q heap) (\<lambda>cn. drop_ref q (heap(q \<mapsto> fst (closeconn cn)))))
        (\<lambda>heap. if c_calls c = Map.empty then Inr heap else Inl AssertFail))"

section \<open>Calls on a changing connection\<close>

text \<open>Where a thread is in \<open>call1\<close>: outside, in its loop with the connection \<open>ch\<close>, waiting in
  \<open>send\<close> for its turn, or writing its PDU.\<close>

datatype call_state = Outside | Calling "nat option" | Waiting nat | Sending nat

fun holds :: "call_state \<Rightarrow> nat option" where
  "holds Outside = None"
| "holds (Calling ch) = ch"
| "holds (Waiting q) = Some q"
| "holds (Sending q) = Some q"

text \<open>What the poll manager's thread and a failing socket do to a connection.\<close>

inductive io_step :: "connection \<Rightarrow> connection \<Rightarrow> bool" where
  closed: "io_step c (fst (closeconn c))"
| wrote: "write_cb wr c = Inr (c', bs) \<Longrightarrow> io_step c c'"
| read_some: "read_cb al hd_rd rd stale consumed inp c = Inr (c', rest, pdu) \<Longrightarrow> io_step c c'"

record chans =
  k_chan :: "nat option"
  k_heap :: conn_heap
  k_call :: "nat \<Rightarrow> call_state"

inductive k_step :: "chans \<Rightarrow> chans \<Rightarrow> bool" where
  enter: "k_call s t = Outside \<Longrightarrow> k_step s (s\<lparr>k_call := (k_call s)(t := Calling None)\<rparr>)"
| refresh: "k_call s t = Calling ch \<Longrightarrow> k_heap s p = None \<Longrightarrow>
    get_refconn p connected ch (k_chan s, k_heap s) = Inr (ch', chan', heap') \<Longrightarrow>
    k_step s (s\<lparr>k_chan := chan', k_heap := heap', k_call := (k_call s)(t := Calling ch')\<rparr>)"
| arrive: "k_call s t = Calling (Some q) \<Longrightarrow> k_heap s q = Some c \<Longrightarrow>
    k_step s (s\<lparr>k_heap := (k_heap s)(q \<mapsto> send_arrive c), k_call := (k_call s)(t := Waiting q)\<rparr>)"
| refused: "k_call s t = Waiting q \<Longrightarrow> k_heap s q = Some c \<Longrightarrow> \<not> send_waits c \<Longrightarrow>
    send_enter b sz wr c = Inr (c', None) \<Longrightarrow>
    k_step s (s\<lparr>k_heap := (k_heap s)(q \<mapsto> c'), k_call := (k_call s)(t := Calling (Some q))\<rparr>)"
| sends: "k_call s t = Waiting q \<Longrightarrow> k_heap s q = Some c \<Longrightarrow> \<not> send_waits c \<Longrightarrow>
    send_enter b sz wr c = Inr (c', Some bs) \<Longrightarrow>
    k_step s (s\<lparr>k_heap := (k_heap s)(q \<mapsto> c'), k_call := (k_call s)(t := Sending q)\<rparr>)"
| sent: "k_call s t = Sending q \<Longrightarrow> k_heap s q = Some c \<Longrightarrow> send_ready c \<Longrightarrow>
    k_step s (s\<lparr>k_heap := (k_heap s)(q \<mapsto> snd (send_leave c)), k_call := (k_call s)(t := Calling (Some q))\<rparr>)"
| io: "k_heap s q = Some c \<Longrightarrow> io_step c c' \<Longrightarrow> k_step s (s\<lparr>k_heap := (k_heap s)(q \<mapsto> c')\<rparr>)"
| done_without: "k_call s t = Calling None \<Longrightarrow> k_step s (s\<lparr>k_call := (k_call s)(t := Outside)\<rparr>)"
| done_with: "k_call s t = Calling (Some q) \<Longrightarrow> drop_ref q (k_heap s) = Inr heap' \<Longrightarrow>
    k_step s (s\<lparr>k_heap := heap', k_call := (k_call s)(t := Outside)\<rparr>)"

definition k_init :: chans where
  "k_init = \<lparr>k_chan = None, k_heap = Map.empty, k_call = (\<lambda>_. Outside)\<rparr>"

inductive k_reach :: "chans \<Rightarrow> bool" where
  init: "k_reach k_init"
| step: "k_reach s \<Longrightarrow> k_step s t \<Longrightarrow> k_reach t"

section \<open>Counting references\<close>

text \<open>
  \<open>n\<close> is the number of references to each object, \<open>w\<close> says which of them a call is writing to.  Only
  the client's current connection may be alive.
\<close>

definition heap_ok :: "conn_heap \<Rightarrow> (nat \<Rightarrow> int) \<Rightarrow> (nat \<Rightarrow> bool) \<Rightarrow> nat option \<Rightarrow> bool" where
  "heap_ok heap n w chan \<longleftrightarrow> (\<forall>q. case heap q of
     None \<Rightarrow> n q = 0
   | Some c \<Rightarrow> cn_refno c = n q \<and> 0 < n q \<and> (cn_wbuf c \<noteq> None \<longrightarrow> w q) \<and> (chan \<noteq> Some q \<longrightarrow> cn_dead c))"

lemma heap_okD: "heap_ok heap n w chan \<Longrightarrow> (case heap q of
     None \<Rightarrow> n q = 0
   | Some c \<Rightarrow> cn_refno c = n q \<and> 0 < n q \<and> (cn_wbuf c \<noteq> None \<longrightarrow> w q) \<and> (chan \<noteq> Some q \<longrightarrow> cn_dead c))"
  by (simp add: heap_ok_def)

lemma heap_ok_get:
  assumes "heap_ok heap n w chan" and "0 < n q"
  obtains c where "heap q = Some c" "cn_refno c = n q" "cn_wbuf c \<noteq> None \<longrightarrow> w q" "chan \<noteq> Some q \<longrightarrow> cn_dead c"
  using heap_okD [OF assms(1), of q] assms(2) by (cases "heap q") auto

lemma heap_ok_upd:
  assumes "heap_ok heap n w chan"
    and "case x of None \<Rightarrow> n' q = 0
      | Some c \<Rightarrow> cn_refno c = n' q \<and> 0 < n' q \<and> (cn_wbuf c \<noteq> None \<longrightarrow> w' q) \<and> (chan' \<noteq> Some q \<longrightarrow> cn_dead c)"
    and "\<forall>r. r \<noteq> q \<longrightarrow> n' r = n r \<and> (w r \<longrightarrow> w' r) \<and> (chan = Some r \<longrightarrow> chan' = Some r \<or> heap r = None \<or> cn_dead (the (heap r)))"
  shows "heap_ok (heap(q := x)) n' w' chan'"
  unfolding heap_ok_def
proof (rule allI)
  fix r
  show "case (heap(q := x)) r of None \<Rightarrow> n' r = 0
    | Some c \<Rightarrow> cn_refno c = n' r \<and> 0 < n' r \<and> (cn_wbuf c \<noteq> None \<longrightarrow> w' r) \<and> (chan' \<noteq> Some r \<longrightarrow> cn_dead c)"
    using assms(2,3) heap_okD [OF assms(1), of r] by (cases "r = q") (auto split: option.splits)
qed

lemma add_ref_ok:
  assumes "heap_ok heap n w chan" and "0 < n q"
  shows "\<exists>heap'. add_ref q heap = Inr heap' \<and> heap_ok heap' (n(q := n q + 1)) w chan"
proof -
  obtain c where c: "heap q = Some c" "cn_refno c = n q" "cn_wbuf c \<noteq> None \<longrightarrow> w q" "chan \<noteq> Some q \<longrightarrow> cn_dead c"
    using heap_ok_get [OF assms] .
  have "heap_ok (heap(q \<mapsto> conn_incref c)) (n(q := n q + 1)) w chan"
    by (rule heap_ok_upd [OF assms(1)]) (use c assms(2) in \<open>auto simp: conn_incref_def\<close>)
  then show ?thesis using c(1) by (simp add: add_ref_def deref_def)
qed

text \<open>The last reference is dropped only from a dead connection nobody writes to, which deletes it.\<close>

lemma drop_ref_ok:
  assumes "heap_ok heap n w chan" and "0 < n q"
    and "n q = 1 \<longrightarrow> chan \<noteq> Some q \<and> \<not> w q"
  shows "\<exists>heap'. drop_ref q heap = Inr heap' \<and> heap_ok heap' (n(q := n q - 1)) w chan"
proof -
  obtain c where c: "heap q = Some c" "cn_refno c = n q" "cn_wbuf c \<noteq> None \<longrightarrow> w q" "chan \<noteq> Some q \<longrightarrow> cn_dead c"
    using heap_ok_get [OF assms(1,2)] .
  show ?thesis
  proof (cases "n q = 1")
    case True
    then have "cn_dead c" "cn_wbuf c = None" using c assms(3) by auto
    then have d: "conn_decref c = Inr None"
      using c(2) True by (simp add: conn_decref_def connection_delete_def)
    have "heap_ok (heap(q := None)) (n(q := n q - 1)) w chan"
      by (rule heap_ok_upd [OF assms(1)]) (use True in auto)
    then show ?thesis using c(1) d by (auto simp: drop_ref_def deref_def)
  next
    case False
    then have d: "conn_decref c = Inr (Some (c\<lparr>cn_refno := cn_refno c - 1\<rparr>))"
      using c(2) assms(2) by (simp add: conn_decref_def Let_def)
    have "heap_ok (heap(q \<mapsto> c\<lparr>cn_refno := cn_refno c - 1\<rparr>)) (n(q := n q - 1)) w chan"
      by (rule heap_ok_upd [OF assms(1)]) (use False c assms(2) in auto)
    then show ?thesis using c(1) d by (auto simp: drop_ref_def deref_def)
  qed
qed

lemma heap_ok_cong: "heap_ok heap n w chan \<Longrightarrow> n = n' \<Longrightarrow> heap_ok heap n' w chan"
  by simp

text \<open>What \<open>m\<close> others hold is untouched by a call of \<open>get_refconn\<close>.\<close>

abbreviation refs :: "nat option \<Rightarrow> nat option \<Rightarrow> (nat \<Rightarrow> int) \<Rightarrow> nat \<Rightarrow> int" where
  "refs chan ch m \<equiv> (\<lambda>q. of_bool (chan = Some q) + of_bool (ch = Some q) + m q)"

lemma move_ref:
  assumes ok: "heap_ok heap (refs (Some q) ch m) w (Some q)" and m: "\<forall>q. 0 \<le> m q \<and> (w q \<longrightarrow> 1 \<le> m q)"
  shows "\<exists>heap'. rbind (case ch of None \<Rightarrow> Inr heap | Some r \<Rightarrow> drop_ref r heap) (\<lambda>heap. add_ref q heap) = Inr heap' \<and>
    heap_ok heap' (refs (Some q) (Some q) m) w (Some q)"
proof -
  have "\<exists>heap'. (case ch of None \<Rightarrow> Inr heap | Some r \<Rightarrow> drop_ref r heap) = Inr heap' \<and>
      heap_ok heap' (refs (Some q) None m) w (Some q)"
  proof (cases ch)
    case None
    then show ?thesis using ok by simp
  next
    case (Some r)
    have p: "0 < refs (Some q) ch m r" using Some m by (simp add: add_pos_nonneg)
    have l: "refs (Some q) ch m r = 1 \<longrightarrow> Some q \<noteq> Some r \<and> \<not> w r"
      using Some m by (auto simp: of_bool_def split: if_splits dest: spec [of _ r])
    have "(refs (Some q) ch m)(r := refs (Some q) ch m r - 1) = refs (Some q) None m"
      using Some by (auto simp: fun_eq_iff)
    then show ?thesis using drop_ref_ok [OF ok p l] Some by (auto intro: heap_ok_cong)
  qed
  then obtain h where h: "(case ch of None \<Rightarrow> Inr heap | Some r \<Rightarrow> drop_ref r heap) = Inr h"
    "heap_ok h (refs (Some q) None m) w (Some q)" by blast
  have p: "0 < refs (Some q) None m q" using m by (simp add: add_pos_nonneg)
  have "(refs (Some q) None m)(q := refs (Some q) None m q + 1) = refs (Some q) (Some q) m"
    by (auto simp: fun_eq_iff)
  then show ?thesis using add_ref_ok [OF h(2) p] h(1) by (auto intro: heap_ok_cong)
qed

lemma get_refconn_ok:
  assumes ok: "heap_ok heap (refs chan ch m) w chan" and m: "\<forall>q. 0 \<le> m q \<and> (w q \<longrightarrow> 1 \<le> m q)"
    and p: "heap p = None"
  shows "\<exists>ch' chan' heap'. get_refconn p connected ch (chan, heap) = Inr (ch', chan', heap') \<and>
    heap_ok heap' (refs chan' ch' m) w chan'"
proof -
  let ?first = "case chan of
               None \<Rightarrow> Inr (connect_to_dst p connected heap)
             | Some q \<Rightarrow> rbind (deref q heap) (\<lambda>c.
                 if isdead c then rbind (drop_ref q heap) (\<lambda>heap. Inr (connect_to_dst p connected heap))
                 else Inr (chan, heap))"
  have new: "\<exists>chan' heap'. connect_to_dst p connected h = (chan', heap') \<and> heap_ok heap' (refs chan' ch m) w chan'"
    if h: "heap_ok h (refs None ch m) w None" "h p = None" for h
  proof (cases connected)
    case True
    have z: "ch \<noteq> Some p" "m p = 0"
      using heap_okD [OF h(1), of p] h(2) m by (auto simp: of_bool_def split: if_splits dest: spec [of _ p])
    have "heap_ok (h(p \<mapsto> connection_new)) (refs (Some p) ch m) w (Some p)"
      by (rule heap_ok_upd [OF h(1)]) (use z in \<open>auto simp: connection_new_def\<close>)
    then show ?thesis using True by (simp add: connect_to_dst_def)
  qed (use h in \<open>simp add: connect_to_dst_def\<close>)
  have "\<exists>chan' heap'. ?first = Inr (chan', heap') \<and> heap_ok heap' (refs chan' ch m) w chan'"
  proof (cases chan)
    case None
    then show ?thesis using new [of heap] ok p by auto
  next
    case (Some q)
    have pos: "0 < refs chan ch m q" using Some m by (simp add: add_pos_nonneg)
    obtain c where c: "heap q = Some c" "cn_refno c = refs chan ch m q" "cn_wbuf c \<noteq> None \<longrightarrow> w q"
      using heap_ok_get [OF ok, of q] pos by metis
    show ?thesis
    proof (cases "isdead c")
      case False
      then show ?thesis using ok c Some by (simp add: deref_def)
    next
      case True
      have dead: "heap_ok heap (refs chan ch m) w None"
      proof -
        have "heap_ok (heap(q := Some c)) (refs chan ch m) w None"
          by (rule heap_ok_upd [OF ok]) (use c True pos Some in \<open>auto simp: isdead_def\<close>)
        then show ?thesis using c(1) by (simp add: fun_upd_idem)
      qed
      have l: "refs chan ch m q = 1 \<longrightarrow> None \<noteq> Some q \<and> \<not> w q"
        using Some m by (auto simp: of_bool_def split: if_splits dest: spec [of _ q])
      have "(refs chan ch m)(q := refs chan ch m q - 1) = refs None ch m"
        using Some by (auto simp: fun_eq_iff)
      then obtain h where h: "drop_ref q heap = Inr h" "heap_ok h (refs None ch m) w None"
        using drop_ref_ok [OF dead pos l] by (auto intro: heap_ok_cong)
      have "h p = None"
        using h(1) c(1) p by (auto simp: drop_ref_def deref_def rbind_eq_Inr_iff)
      then show ?thesis using new [OF h(2)] c(1) h(1) True Some by (auto simp: deref_def)
    qed
  qed
  then obtain chan' h where f: "?first = Inr (chan', h)" "heap_ok h (refs chan' ch m) w chan'" by blast
  show ?thesis
  proof (cases chan')
    case None
    then show ?thesis using f by (simp add: get_refconn_def)
  next
    case (Some q)
    from move_ref [OF f(2) [unfolded Some] m] obtain h' where
      "rbind (case ch of None \<Rightarrow> Inr h | Some r \<Rightarrow> drop_ref r h) (\<lambda>heap. add_ref q heap) = Inr h'"
      "heap_ok h' (refs (Some q) (Some q) m) w (Some q)" by blast
    then show ?thesis using f(1) Some
      by (auto simp: get_refconn_def rbind_eq_Inr_iff)
  qed
qed

section \<open>The invariant\<close>

definition others :: "(nat \<Rightarrow> call_state) \<Rightarrow> nat \<Rightarrow> nat \<Rightarrow> int" where
  "others call t q = int (card {u. u \<noteq> t \<and> holds (call u) = Some q})"

definition sending :: "(nat \<Rightarrow> call_state) \<Rightarrow> nat \<Rightarrow> bool" where
  "sending call q \<longleftrightarrow> (\<exists>t. call t = Sending q)"

definition k_refs :: "chans \<Rightarrow> nat \<Rightarrow> int" where
  "k_refs s q = of_bool (k_chan s = Some q) + int (card {t. holds (k_call s t) = Some q})"

definition k_inv :: "chans \<Rightarrow> bool" where
  "k_inv s \<longleftrightarrow> finite {t. k_call s t \<noteq> Outside} \<and> heap_ok (k_heap s) (k_refs s) (sending (k_call s)) (k_chan s)"

lemma finite_holders: "finite {t. call t \<noteq> Outside} \<Longrightarrow> finite {t. holds (call t) = Some q}"
proof (rule finite_subset)
  show "{t. holds (call t) = Some q} \<subseteq> {t. call t \<noteq> Outside}" by (intro subsetI CollectI notI) simp
qed

lemma k_refs_focus:
  assumes "finite {t. k_call s t \<noteq> Outside}"
  shows "k_refs s = refs (k_chan s) (holds (k_call s t)) (others (k_call s) t)"
proof
  fix q
  let ?A = "{u. holds (k_call s u) = Some q}"
  have "{u. u \<noteq> t \<and> holds (k_call s u) = Some q} = ?A - {t}" by auto
  moreover have "card ?A = card (?A - {t}) + of_bool (t \<in> ?A)"
    using finite_holders [OF assms] card.remove [of ?A t] by (cases "t \<in> ?A") simp_all
  ultimately show "k_refs s q = refs (k_chan s) (holds (k_call s t)) (others (k_call s) t) q"
    by (simp add: k_refs_def others_def)
qed

lemma others_upd [simp]: "others (call(t := x)) t = others call t"
  by (auto simp: others_def fun_eq_iff intro!: arg_cong [where f = card])

lemma finite_upd: "finite {t. call t \<noteq> Outside} \<Longrightarrow> finite {u. (call(t := x)) u \<noteq> Outside}"
  by (rule finite_subset [of _ "insert t {t. call t \<noteq> Outside}"]) (auto split: if_splits)

lemma sending_others:
  assumes "finite {t. call t \<noteq> Outside}" and "sending call q" and "call t \<noteq> Sending q"
  shows "1 \<le> others call t q"
proof -
  obtain u where u: "call u = Sending q" "u \<noteq> t" using assms(2,3) by (auto simp: sending_def)
  have f: "finite {u. u \<noteq> t \<and> holds (call u) = Some q}"
    using finite_holders [OF assms(1)] by (rule rev_finite_subset) auto
  have "{u} \<subseteq> {u. u \<noteq> t \<and> holds (call u) = Some q}" using u by simp
  from card_mono [OF f this] show ?thesis by (simp add: others_def)
qed

lemma others_nonneg: "0 \<le> others call t q"
  by (simp add: others_def)

text \<open>The invariant as one thread sees it, and how a thread's step re-establishes it.\<close>

lemma k_inv_focus:
  assumes "k_inv s"
  shows "heap_ok (k_heap s) (refs (k_chan s) (holds (k_call s t)) (others (k_call s) t)) (sending (k_call s)) (k_chan s)"
  using assms k_refs_focus [of s t] by (simp add: k_inv_def)

lemma k_inv_by:
  assumes "k_inv s"
    and "heap_ok heap (refs chan (holds x) (others (k_call s) t)) (sending ((k_call s)(t := x))) chan"
  shows "k_inv (s\<lparr>k_chan := chan, k_heap := heap, k_call := (k_call s)(t := x)\<rparr>)"
proof -
  have f: "finite {u. ((k_call s)(t := x)) u \<noteq> Outside}"
    using finite_upd [of "k_call s" t x] assms(1) unfolding k_inv_def by blast
  let ?s = "s\<lparr>k_chan := chan, k_heap := heap, k_call := (k_call s)(t := x)\<rparr>"
  have "k_refs ?s = refs chan (holds x) (others (k_call s) t)" using k_refs_focus [of ?s t] f by simp
  then show ?thesis using assms(2) f by (simp add: k_inv_def)
qed

text \<open>A step of a thread that holds the connection it works on, and goes on holding it.\<close>

lemma k_inv_held:
  assumes inv: "k_inv s" and h: "holds (k_call s t) = Some q" "holds x = Some q" and c: "k_heap s q = Some c"
    and c': "cn_refno c' = cn_refno c" "cn_dead c \<longrightarrow> cn_dead c'" "cn_wbuf c' \<noteq> None \<longrightarrow> sending ((k_call s)(t := x)) q"
    and snd: "\<forall>r. k_call s t = Sending r \<longrightarrow> r = q"
  shows "k_inv (s\<lparr>k_heap := (k_heap s)(q \<mapsto> c'), k_call := (k_call s)(t := x)\<rparr>)"
proof -
  note ok = k_inv_focus [OF inv, of t]
  have w: "sending (k_call s) r \<longrightarrow> sending ((k_call s)(t := x)) r" if "r \<noteq> q" for r
    using snd that by (auto simp: sending_def)
  have "heap_ok ((k_heap s)(q \<mapsto> c')) (refs (k_chan s) (holds x) (others (k_call s) t)) (sending ((k_call s)(t := x))) (k_chan s)"
    by (rule heap_ok_upd [OF ok]) (use heap_okD [OF ok, of q] c c' h w in auto)
  from k_inv_by [OF inv this] show ?thesis by simp
qed

lemma writepdu_keeps:
  "writepdu wr c = Inr (ok, bs, c') \<Longrightarrow>
    cn_refno c' = cn_refno c \<and> cn_dead c' = cn_dead c \<and> (cn_wbuf c' = None \<longleftrightarrow> cn_wbuf c = None)"
  by (auto simp: writepdu_def Let_def split: if_splits option.splits sum.splits)

lemma send_enter_keeps:
  "send_enter b sz wr c = Inr (c', r) \<Longrightarrow> cn_refno c' = cn_refno c \<and> (cn_dead c \<longrightarrow> cn_dead c') \<and>
    (r = None \<longrightarrow> cn_wbuf c' = cn_wbuf c)"
  by (auto simp: send_enter_def Let_def rbind_eq_Inr_iff dest!: writepdu_keeps split: if_splits)

lemma read_body_keeps:
  "read_body rd stale inp c = Inr (ok, rest, c') \<Longrightarrow>
    cn_refno c' = cn_refno c \<and> cn_dead c' = cn_dead c \<and> cn_wbuf c' = cn_wbuf c"
  by (auto simp: read_body_def read_drop_def Let_def split: if_splits option.splits sum.splits list.splits)

lemma readpdu_keeps:
  "readpdu al hd_rd rd stale inp c = Inr (ok, rest, c') \<Longrightarrow>
    cn_refno c' = cn_refno c \<and> cn_dead c' = cn_dead c \<and> cn_wbuf c' = cn_wbuf c"
proof (cases "cn_rsz c = 0")
  case True
  assume r: "readpdu al hd_rd rd stale inp c = Inr (ok, rest, c')"
  show ?thesis
  proof (cases "sys_read hd_rd 4 inp")
    case (Inl again)
    then show ?thesis using r True by (simp add: readpdu_def split: if_splits)
  next
    case (Inr a)
    obtain sz1 inp' where a: "a = (sz1, inp')" by force
    let ?c = "c\<lparr>cn_rsz := ntohl_int sz1, cn_rbuf := Some sz1, cn_ralloc := size_t (ntohl_int sz1 + 4), cn_rso := 4\<rparr>"
    have "(ok, rest, c') = (False, inp', c) \<or> read_body rd stale inp' ?c = Inr (ok, rest, c')"
      using r True Inr a by (simp add: readpdu_def Let_def split: if_splits)
    then show ?thesis using read_body_keeps [of rd stale inp' ?c] by fastforce
  qed
next
  case False
  then show "readpdu al hd_rd rd stale inp c = Inr (ok, rest, c') \<Longrightarrow> ?thesis"
    using read_body_keeps [of rd stale inp c] by (simp add: readpdu_def)
qed

lemma io_step_keeps:
  "io_step c c' \<Longrightarrow> cn_refno c' = cn_refno c \<and> (cn_dead c \<longrightarrow> cn_dead c') \<and> (cn_wbuf c' \<noteq> None \<longrightarrow> cn_wbuf c \<noteq> None)"
proof (induction rule: io_step.induct)
  case (closed c)
  then show ?case by (simp add: closeconn_def)
next
  case (wrote wr c c' bs)
  then show ?case
    by (auto simp: write_cb_def rbind_eq_Inr_iff dest!: writepdu_keeps split: if_splits)
next
  case (read_some al hd_rd rd stale consumed inp c c' rest pdu)
  show ?case
  proof (cases "cn_dead c")
    case True
    then show ?thesis using read_some by (simp add: read_cb_def)
  next
    case False
    let ?r = "if cn_rbuf c = None \<or> cn_rso c < cn_rsz c then readpdu al hd_rd rd stale inp c else Inr (True, inp, c)"
    obtain succ inp' c1 where r: "?r = Inr (succ, inp', c1)"
      using read_some False by (cases ?r) (auto simp: read_cb_def)
    have c': "cn_refno c' = cn_refno c1" "cn_dead c1 \<longrightarrow> cn_dead c'" "cn_wbuf c' = cn_wbuf c1"
      using read_some unfolding read_cb_def r rbind_simps if_not_P [OF False] prod.case Let_def
      by (auto simp: read_drop_def split: if_splits)
    have "cn_refno c1 = cn_refno c \<and> cn_dead c1 = cn_dead c \<and> cn_wbuf c1 = cn_wbuf c"
      using r readpdu_keeps [of al hd_rd rd stale inp c succ inp' c1] by (simp split: if_splits)
    then show ?thesis using c' by simp
  qed
qed

lemma last_ref:
  assumes "k_inv s" and "k_call s t = Calling (Some q)"
  shows "0 < k_refs s q \<and> (k_refs s q = 1 \<longrightarrow> k_chan s \<noteq> Some q \<and> \<not> sending (k_call s) q)"
proof -
  have r: "k_refs s q = of_bool (k_chan s = Some q) + 1 + others (k_call s) t q"
    using assms k_refs_focus [of s t] by (simp add: k_inv_def)
  show ?thesis
    using r assms others_nonneg [of "k_call s" t q] sending_others [of "k_call s" q t]
    by (auto simp: k_inv_def)
qed

lemma refconn_runs:
  assumes inv: "k_inv s" and t: "k_call s t = Calling ch" and p: "k_heap s p = None"
  shows "\<exists>ch' chan' heap'. get_refconn p connected ch (k_chan s, k_heap s) = Inr (ch', chan', heap') \<and>
    heap_ok heap' (refs chan' ch' (others (k_call s) t)) (sending (k_call s)) chan'"
proof (rule get_refconn_ok [where m = "others (k_call s) t" and heap = "k_heap s" and chan = "k_chan s", OF _ _ p])
  show "heap_ok (k_heap s) (refs (k_chan s) ch (others (k_call s) t)) (sending (k_call s)) (k_chan s)"
    using k_inv_focus [OF inv, of t] t by simp
  show "\<forall>q. 0 \<le> others (k_call s) t q \<and> (sending (k_call s) q \<longrightarrow> 1 \<le> others (k_call s) t q)"
    using inv t sending_others [of "k_call s" _ t] others_nonneg by (auto simp: k_inv_def)
qed

lemma sending_upd:
  assumes "\<And>q. call t \<noteq> Sending q" and "\<And>q. x \<noteq> Sending q"
  shows "sending (call(t := x)) = sending call"
proof
  fix q
  have "(\<exists>u. (call(t := x)) u = Sending q) \<longleftrightarrow> (\<exists>u. call u = Sending q)"
    using assms [of q] by (metis fun_upd_apply)
  then show "sending (call(t := x)) q = sending call q" by (simp add: sending_def)
qed

lemma k_inv_step: "k_step s s' \<Longrightarrow> k_inv s \<Longrightarrow> k_inv s'"
proof (induction rule: k_step.induct)
  case (enter s t)
  show ?case
    using k_inv_by [OF enter.prems, of "k_heap s" "k_chan s" "Calling None" t] k_inv_focus [OF enter.prems, of t] enter.hyps
    by (simp add: sending_upd)
next
  case (refresh s t ch p connected ch' chan' heap')
  have "heap_ok heap' (refs chan' ch' (others (k_call s) t)) (sending (k_call s)) chan'"
    using refconn_runs [OF refresh.prems refresh.hyps(1,2), of connected] refresh.hyps(3) by auto
  then show ?case
    by (intro k_inv_by [OF refresh.prems]) (simp add: sending_upd refresh.hyps(1))
next
  case (arrive s t q c)
  have "cn_wbuf c \<noteq> None \<longrightarrow> sending (k_call s) q"
    using arrive heap_okD [of "k_heap s" _ _ _ q] by (fastforce simp: k_inv_def)
  then show ?case
    by (intro k_inv_held [OF arrive.prems _ _ arrive.hyps(2)])
      (use arrive.hyps(1) in \<open>simp_all add: send_arrive_def sending_upd arrive.hyps(1)\<close>)
next
  case (refused s t q c b sz wr c')
  have "cn_wbuf c \<noteq> None \<longrightarrow> sending (k_call s) q"
    using refused heap_okD [of "k_heap s" _ _ _ q] by (fastforce simp: k_inv_def)
  moreover have "sending ((k_call s)(t := Calling (Some q))) = sending (k_call s)"
    using refused.hyps(1) by (simp add: sending_upd)
  ultimately show ?case
    by (intro k_inv_held [OF refused.prems _ _ refused.hyps(2)])
      (use refused.hyps(1) send_enter_keeps [OF refused.hyps(4)] in simp_all)
next
  case (sends s t q c b sz wr c' bs)
  have "sending ((k_call s)(t := Sending q)) q" by (auto simp: sending_def)
  then show ?case
    by (intro k_inv_held [OF sends.prems _ _ sends.hyps(2)])
      (use sends.hyps(1) send_enter_keeps [OF sends.hyps(4)] in simp_all)
next
  case (sent s t q c)
  show ?case
    by (rule k_inv_held [OF sent.prems _ _ sent.hyps(2)]) (use sent.hyps(1) in \<open>simp_all add: send_leave_def\<close>)
next
  case (io s q c c')
  have ok: "heap_ok (k_heap s) (k_refs s) (sending (k_call s)) (k_chan s)" using io.prems by (simp add: k_inv_def)
  have "heap_ok ((k_heap s)(q \<mapsto> c')) (k_refs s) (sending (k_call s)) (k_chan s)"
    by (rule heap_ok_upd [OF ok]) (use heap_okD [OF ok, of q] io.hyps(1) io_step_keeps [OF io.hyps(2)] in auto)
  then show ?case using io.prems by (simp add: k_inv_def k_refs_def [abs_def])
next
  case (done_without s t)
  then show ?case
    using k_inv_by [OF done_without.prems, of "k_heap s" "k_chan s" Outside t] k_inv_focus [OF done_without.prems, of t]
    by (simp add: sending_upd done_without.hyps)
next
  case (done_with s t q heap')
  have ok: "heap_ok (k_heap s) (k_refs s) (sending (k_call s)) (k_chan s)" using done_with.prems by (simp add: k_inv_def)
  have "(k_refs s)(q := k_refs s q - 1) = refs (k_chan s) None (others (k_call s) t)"
    using k_refs_focus [of s t] done_with by (auto simp: k_inv_def fun_eq_iff)
  then have "heap_ok heap' (refs (k_chan s) None (others (k_call s) t)) (sending (k_call s)) (k_chan s)"
    using drop_ref_ok [OF ok, of q] last_ref [OF done_with.prems done_with.hyps(1)] done_with.hyps(2) by auto
  then show ?case
    using k_inv_by [OF done_with.prems, of heap' "k_chan s" Outside t] by (simp add: sending_upd done_with.hyps(1))
qed

lemma k_inv_init: "k_inv k_init"
  by (simp add: k_inv_def k_init_def heap_ok_def k_refs_def)

lemma k_reach_inv: "k_reach s \<Longrightarrow> k_inv s"
  by (induction rule: k_reach.induct) (auto intro: k_inv_init k_inv_step)

text \<open>C10: the references of a client's connections are counted exactly.  Whatever connections fail and
  however calls overlap, a connection lives exactly as long as the client or a call refers to it, and
  no use, replacement or release of a connection by a call touches a deleted one or trips an assert;
  when the last call has left, the destructor leaves no connection behind.\<close>

theorem connections_are_counted:
  assumes "k_reach s"
  shows "(\<forall>q c. k_heap s q = Some c \<longrightarrow> cn_refno c = k_refs s q \<and> 0 < k_refs s q) \<and>
    (\<forall>t q. holds (k_call s t) = Some q \<longrightarrow> k_heap s q \<noteq> None) \<and>
    (\<forall>t ch p connected. k_call s t = Calling ch \<and> k_heap s p = None \<longrightarrow>
       (\<exists>r. get_refconn p connected ch (k_chan s, k_heap s) = Inr r)) \<and>
    (\<forall>t q. k_call s t = Calling (Some q) \<longrightarrow> (\<exists>heap. drop_ref q (k_heap s) = Inr heap)) \<and>
    ((\<forall>t. k_call s t = Outside) \<longrightarrow>
       (\<forall>c :: rpcc. c_calls c = Map.empty \<longrightarrow> rpcc_delete c (k_chan s, k_heap s) = Inr Map.empty))"
proof (intro conjI)
  have inv: "k_inv s" using assms by (rule k_reach_inv)
  then have ok: "heap_ok (k_heap s) (k_refs s) (sending (k_call s)) (k_chan s)" by (simp add: k_inv_def)
  show "\<forall>q c. k_heap s q = Some c \<longrightarrow> cn_refno c = k_refs s q \<and> 0 < k_refs s q"
    using heap_okD [OF ok] by (metis (mono_tags, lifting) option.simps(5))
  show "\<forall>t q. holds (k_call s t) = Some q \<longrightarrow> k_heap s q \<noteq> None"
  proof (intro allI impI)
    fix t q assume "holds (k_call s t) = Some q"
    then have "0 < k_refs s q"
      using k_refs_focus [of s t] inv others_nonneg [of "k_call s" t q] by (simp add: k_inv_def add_nonneg_pos)
    then show "k_heap s q \<noteq> None" using heap_okD [OF ok, of q] by (cases "k_heap s q") auto
  qed
  show "\<forall>t ch p connected. k_call s t = Calling ch \<and> k_heap s p = None \<longrightarrow>
      (\<exists>r. get_refconn p connected ch (k_chan s, k_heap s) = Inr r)"
    using refconn_runs [OF inv] by blast
  show "\<forall>t q. k_call s t = Calling (Some q) \<longrightarrow> (\<exists>heap. drop_ref q (k_heap s) = Inr heap)"
    using last_ref [OF inv] drop_ref_ok [OF ok] by blast
  show "(\<forall>t. k_call s t = Outside) \<longrightarrow>
      (\<forall>c :: rpcc. c_calls c = Map.empty \<longrightarrow> rpcc_delete c (k_chan s, k_heap s) = Inr Map.empty)"
  proof (intro impI allI)
    fix c :: rpcc assume out: "\<forall>t. k_call s t = Outside" and c: "c_calls c = Map.empty"
    have n: "k_refs s q = of_bool (k_chan s = Some q)" for q using out by (simp add: k_refs_def)
    have z: "k_heap s q = None" if "k_chan s \<noteq> Some q" for q
      using heap_okD [OF ok, of q] n [of q] that by (auto split: option.splits)
    show "rpcc_delete c (k_chan s, k_heap s) = Inr Map.empty"
    proof (cases "k_chan s")
      case None
      then have "k_heap s = Map.empty" using z by (auto simp: fun_eq_iff)
      then show ?thesis using None c by (simp add: rpcc_delete_def)
    next
      case (Some q)
      then have "0 < k_refs s q" using n by simp
      then obtain cn where cn: "k_heap s q = Some cn" "cn_refno cn = k_refs s q" "cn_wbuf cn \<noteq> None \<longrightarrow> sending (k_call s) q"
        using heap_ok_get [OF ok] by metis
      have "\<not> sending (k_call s) q" using out by (simp add: sending_def)
      then have "conn_decref (fst (closeconn cn)) = Inr None"
        using cn n [of q] Some by (simp add: conn_decref_def closeconn_def connection_delete_def)
      moreover have "(k_heap s)(q := None) = Map.empty" using z Some by (auto simp: fun_eq_iff)
      ultimately show ?thesis using Some cn(1) c
        by (simp add: rpcc_delete_def deref_def drop_ref_def)
    qed
  qed
qed

text \<open>A call gets a connection, the connection fails, and the call gets another one.\<close>

definition ex_reconnected :: chans where
  "ex_reconnected = \<lparr>k_chan = Some 8, k_heap = [8 \<mapsto> connection_new\<lparr>cn_refno := 2\<rparr>],
     k_call = (\<lambda>_. Outside)(0 := Calling (Some 8))\<rparr>"

lemma ex_reconnected_reach: "k_reach ex_reconnected"
proof -
  let ?two = "connection_new\<lparr>cn_refno := 2\<rparr>"
  have to: "k_reach t" if "k_reach s" "k_step s t'" "t' = t" for s t t'
    using k_reach.step [OF that(1,2)] that(3) by simp
  have a: "k_reach (k_init\<lparr>k_call := (\<lambda>_. Outside)(0 := Calling None)\<rparr>)"
    by (rule to [OF k_reach.init k_step.enter [of _ 0]]) (simp_all add: k_init_def)
  have b: "k_reach \<lparr>k_chan = Some 7, k_heap = [7 \<mapsto> ?two], k_call = (\<lambda>_. Outside)(0 := Calling (Some 7))\<rparr>"
    by (rule to [OF a k_step.refresh [of _ 0 None 7 True "Some 7" "Some 7" "[7 \<mapsto> ?two]"]])
      (simp_all add: k_init_def get_refconn_def connect_to_dst_def add_ref_def deref_def conn_incref_def connection_new_def)
  have c: "k_reach \<lparr>k_chan = Some 7, k_heap = [7 \<mapsto> ?two\<lparr>cn_dead := True\<rparr>], k_call = (\<lambda>_. Outside)(0 := Calling (Some 7))\<rparr>"
    by (rule to [OF b k_step.io [of _ 7 ?two "fst (closeconn ?two)"]])
      (simp_all add: io_step.closed, simp add: closeconn_def connection_new_def)
  show ?thesis
    by (rule to [OF c k_step.refresh [of _ 0 "Some 7" 8 True "Some 8" "Some 8" "[8 \<mapsto> ?two]"]])
      (simp_all add: ex_reconnected_def get_refconn_def connect_to_dst_def add_ref_def drop_ref_def deref_def
        conn_incref_def conn_decref_def connection_delete_def connection_new_def isdead_def fun_upd_twist)
qed

theorem connections_are_counted_witness:
  "k_reach ex_reconnected \<and> (\<exists>heap. drop_ref 8 (k_heap ex_reconnected) = Inr heap)"
  using connections_are_counted [OF ex_reconnected_reach] ex_reconnected_reach by (auto simp: ex_reconnected_def)

end
