(* ===== verification/Listener.thy ===== *)
theory Listener
  imports Connection RpcServer
begin

text \<open>
  The listening socket of an RPC server, class \<open>tcpsconn\<close> of \<open>rpc/connection.cc\<close>: the set-up in its
  constructor, the turns of the thread that accepts connections, its destructor, and the destructor
  of \<open>rpcs\<close> that uses it.  The outcomes of the system calls are arguments.
\<close>

section \<open>Operations\<close>

record tcpsconn =
  tc_tcp :: int
  tc_pipe :: "int \<times> int"
  tc_conns :: "(int \<times> connection) list"

text \<open>The constructor: every failing system call ends in an assert.\<close>

definition tcpsconn_new :: "int \<Rightarrow> int \<Rightarrow> int \<Rightarrow> (int \<times> int) option \<Rightarrow> bool \<Rightarrow> tcpsconn res" where
  "tcpsconn_new tcp bind_ret listen_ret pipe_fds thread_ok =
     (if tcp < 0 then Inl AssertFail
      else if bind_ret < 0 then Inl AssertFail
      else if listen_ret < 0 then Inl AssertFail
      else case pipe_fds of
             None \<Rightarrow> Inl AssertFail
           | Some fds \<Rightarrow>
               if \<not> thread_ok then Inl AssertFail
               else Inr \<lparr>tc_tcp = tcp, tc_pipe = fds, tc_conns = []\<rparr>)"

text \<open>
  One turn of \<open>accept_conn\<close>: what \<open>select\<close> answers (an error, \<open>EINTR\<close> or another, or which of the
  pipe and the socket are ready) and the result \<open>s1\<close> of \<open>accept\<close>, which ends the thread when it
  is negative.
\<close>

datatype select_answer = SelectFails bool | SelectReady bool bool

datatype accept_turn = Again | Closed | ThreadExits

definition accept_conn :: "select_answer \<Rightarrow> int \<Rightarrow> (int \<times> connection) list \<Rightarrow> (accept_turn \<times> (int \<times> connection) list) res" where
  "accept_conn a s1 conns =
     (case a of
        SelectFails eintr \<Rightarrow> if eintr then Inr (Again, conns) else Inl AssertFail
      | SelectReady on_pipe on_tcp \<Rightarrow>
          if on_pipe then Inr (Closed, conns)
          else if on_tcp then
            (if s1 < 0 then Inr (ThreadExits, conns)
             else rbind (process_accept s1 conns) (\<lambda>conns. Inr (Again, conns)))
          else Inl AssertFail)"

text \<open>\<open>~rpcs\<close>: the listener with its connections, then the reply window; the dispatch pool is
  deleted between the two.\<close>

definition rpcs_delete :: "'s rpcs \<Rightarrow> (int \<times> connection) list \<Rightarrow> ('s rpcs \<times> (int \<times> connection) list) res" where
  "rpcs_delete s conns =
     rbind (tcpsconn_delete conns) (\<lambda>left. Inr (s\<lparr>rs_window := free_reply_window (rs_window s)\<rparr>, left))"

section \<open>Properties\<close>

text \<open>The map refers to each of its connections, and a connection nobody else refers to is not being
  written to.\<close>

definition conns_ok :: "(int \<times> connection) list \<Rightarrow> bool" where
  "conns_ok conns \<longleftrightarrow> sorted_wrt (<) (map fst conns) \<and>
     (\<forall>(fd, c) \<in> set conns. 1 \<le> cn_refno c \<and> (cn_refno c = 1 \<longrightarrow> cn_wbuf c = None))"

definition collectable :: "connection \<Rightarrow> bool" where
  "collectable c \<longleftrightarrow> cn_dead c \<and> cn_refno c = 1"

lemma smap_update_props:
  "sorted_wrt (<) (map fst d) \<Longrightarrow> sorted_wrt (<) (map fst (smap_update k v d)) \<and>
    map_of (smap_update k v d) = (map_of d)(k \<mapsto> v) \<and> set (smap_update k v d) \<subseteq> insert (k, v) (set d)"
proof (induction d)
  case (Cons x d)
  obtain a b where x: "x = (a, b)" by force
  have d: "sorted_wrt (<) (map fst d)" "\<forall>y \<in> set d. a < fst y" using Cons.prems x by auto
  note IH = Cons.IH [OF d(1)]
  have new: "a < fst y" if "y \<in> set (smap_update k v d)" "a < k" for y
    using IH d(2) that by fastforce
  consider "k < a" | "k = a" | "a < k" using linorder_less_linear by blast
  then show ?case
  proof cases
    case 3
    then show ?thesis using IH x new by (auto simp: fun_upd_twist)
  qed (use d x in \<open>force simp: less_trans\<close>)+
qed simp

lemma collect_dead_filter:
  "conns_ok conns \<Longrightarrow> collect_dead conns = Inr (filter (\<lambda>(fd, c). \<not> collectable c) conns)"
proof (induction conns)
  case (Cons x conns)
  obtain fd c where x: "x = (fd, c)" by force
  have "conns_ok conns" using Cons.prems by (simp add: conns_ok_def)
  moreover have "cn_refno c = 1 \<longrightarrow> cn_wbuf c = None" using Cons.prems x by (simp add: conns_ok_def)
  ultimately show ?case using Cons.IH x
    by (auto simp: isdead_def conn_ref_def collectable_def conn_decref_def connection_delete_def Let_def)
qed (simp)

text \<open>accepting a connection enters it, drops the dead connections nobody refers to and keeps all
  others, and trips no assert.\<close>

theorem accept_keeps_connections:
  assumes "conns_ok conns" and "0 \<le> s1" and "s1 \<notin> fst ` set conns"
  shows "\<exists>conns'. accept_conn (SelectReady False True) s1 conns = Inr (Again, conns') \<and> conns_ok conns' \<and>
    map_of conns' = (\<lambda>fd. if fd = s1 then Some connection_new
      else (case map_of conns fd of Some c \<Rightarrow> if collectable c then None else Some c | None \<Rightarrow> None))"
proof -
  let ?k = "filter (\<lambda>(fd, c). \<not> collectable c) conns"
  have sk: "sorted_wrt (<) (map fst ?k)" and d: "distinct (map fst conns)"
    using assms(1) strict_sorted_iff [of "map fst conns"]
    by (simp_all add: conns_ok_def) (simp add: sorted_wrt_map sorted_wrt_filter)
  note u = smap_update_props [OF sk, of s1 connection_new]
  have "conns_ok (smap_update s1 connection_new ?k)"
    using u assms(1) by (fastforce simp: conns_ok_def connection_new_def)
  moreover have "map_of ?k fd = (case map_of conns fd of Some c \<Rightarrow> if collectable c then None else Some c | None \<Rightarrow> None)" for fd
    using d by (induction conns) (auto simp: map_of_eq_None_iff dest: map_of_SomeD split: option.splits if_splits)
  ultimately show ?thesis
    using u assms(2) collect_dead_filter [OF assms(1)]
    by (auto simp: accept_conn_def process_accept_def fun_eq_iff)
qed

text \<open>the destructor of a server closes every connection and deletes those nobody else refers to;
  the others stay, closed, among them every connection remembered in \<open>conns_\<close>, whose references it
  does not give back.\<close>

theorem rpcs_delete_leaves_referenced:
  assumes "conns_ok conns"
  shows "rpcs_delete s conns = Inr (s\<lparr>rs_window := Map.empty\<rparr>,
    map (\<lambda>(fd, c). (fd, c\<lparr>cn_dead := True, cn_refno := cn_refno c - 1\<rparr>)) (filter (\<lambda>(fd, c). cn_refno c > 1) conns))"
proof -
  have "tcpsconn_delete conns = Inr (map (\<lambda>(fd, c). (fd, c\<lparr>cn_dead := True, cn_refno := cn_refno c - 1\<rparr>))
      (filter (\<lambda>(fd, c). cn_refno c > 1) conns))"
    using assms
  proof (induction conns)
    case (Cons x conns)
    obtain fd c where x: "x = (fd, c)" by force
    have ok: "conns_ok conns" and c: "1 \<le> cn_refno c" "cn_refno c = 1 \<longrightarrow> cn_wbuf c = None"
      using Cons.prems x by (auto simp: conns_ok_def)
    let ?d = "c\<lparr>cn_dead := True, cn_refno := cn_refno c - 1\<rparr>"
    have "conn_decref (fst (closeconn c)) = Inr (if cn_refno c > 1 then Some ?d else None)"
      using c by (auto simp: conn_decref_def closeconn_def connection_delete_def Let_def)
    then show ?case using Cons.IH [OF ok] x by simp
  qed simp
  then show ?thesis by (simp add: rpcs_delete_def free_reply_window_def)
qed

text \<open>A failing \<open>accept\<close> ends the thread, so the server takes no further connections.\<close>

lemma failed_accept_stops: "s1 < 0 \<Longrightarrow> accept_conn (SelectReady False True) s1 conns = Inr (ThreadExits, conns)"
  by (simp add: accept_conn_def)

definition ex_conns :: "(int \<times> connection) list" where
  "ex_conns = [(4, connection_new\<lparr>cn_dead := True\<rparr>), (5, connection_new\<lparr>cn_dead := True, cn_refno := 2\<rparr>)]"

lemma ex_conns_ok: "conns_ok ex_conns"
  by (simp add: ex_conns_def conns_ok_def connection_new_def)

theorem accept_keeps_connections_witness:
  "\<exists>conns'. accept_conn (SelectReady False True) 6 ex_conns = Inr (Again, conns') \<and>
    map_of conns' 4 = None \<and> map_of conns' 5 \<noteq> None \<and> map_of conns' 6 = Some connection_new"
proof -
  have "6 \<notin> fst ` set ex_conns" by (simp add: ex_conns_def)
  from accept_keeps_connections [OF ex_conns_ok _ this] show ?thesis
    by (auto simp: ex_conns_def collectable_def) (simp add: connection_new_def)
qed

theorem rpcs_delete_leaves_referenced_witness:
  "\<exists>s :: unit rpcs. rpcs_delete s ex_conns =
    Inr (s\<lparr>rs_window := Map.empty\<rparr>, [(5, connection_new\<lparr>cn_dead := True, cn_refno := 1\<rparr>)])"
  using rpcs_delete_leaves_referenced [OF ex_conns_ok, of "projr (rpcs_new 9000 5 0) :: unit rpcs"]
  by (intro exI [of _ "projr (rpcs_new 9000 5 0)"]) (simp add: ex_conns_def connection_new_def)

end
