(* ===== verification/RpcCall.thy ===== *)
theory RpcCall
  imports RpcServer RpcClient
begin

text \<open>
  One call from end to end: the client stub marshals the arguments, \<open>call1\<close> sends the request,
  the server's \<open>got_pdu\<close> and \<open>dispatch\<close> run the handler, the reply comes back through the client's
  \<open>got_pdu\<close>, and the stub unmarshals the result.  The theorems say that such a call is a call of
  the method, and that a sequence of calls is the same sequence of local calls.
\<close>

section \<open>The path of a call\<close>

text \<open>
  The server's side of one request PDU on connection \<open>ch\<close>: queued, dispatched, its handler run,
  and finished, with the reply PDU if there is one.
\<close>

definition serve ::
  "nat \<Rightarrow> byte list \<Rightarrow> 's rpcs \<Rightarrow> 's \<Rightarrow> ('s rpcs \<times> 's \<times> byte list option) res"
where
  "serve ch b s st =
     (if \<not> rs_reachable s then Inr (s, st, None)
      else rbind (dispatch_begin (fst (rpcs_got_pdu s ch True)) ch b) (\<lambda>(s, d).
        case d of
          Dropped \<Rightarrow> Inr (s, st, None)
        | Replied r \<Rightarrow> Inr (s, st, Some r)
        | Running h req f \<Rightarrow>
            rbind (f req marshall_new st) (\<lambda>(ret, rep, st).
            rbind (dispatch_finish s ch False h ret rep) (\<lambda>(s, _, r). Inr (s, st, Some r)))))"

text \<open>\<open>call1\<close> over a connection that delivers: the result is its status and the reply it has taken
  in; without a reply it times out.\<close>

definition call1_over ::
  "nat \<Rightarrow> u32 \<Rightarrow> marshall \<Rightarrow> rpcc \<Rightarrow> 's rpcs \<Rightarrow> 's \<Rightarrow>
   (rpcc \<times> 's rpcs \<times> 's \<times> status \<times> unmarshall) res"
where
  "call1_over ch proc m c s st =
     (case call1_begin c proc of
        (c, Inl e) \<Rightarrow> Inr (c, s, st, e, unmarshall_empty)
      | (c, Inr h) \<Rightarrow>
          rbind (serve ch (m_pdu (pack_req_header m h)) s st) (\<lambda>(s, st, r).
            let c = (case r of None \<Rightarrow> c | Some b \<Rightarrow> rpcc_got_pdu c b);
                un = (case c_calls c (h_xid h) of Some ca \<Rightarrow> ca_un ca | None \<Rightarrow> unmarshall_empty);
                (c, ret) = call1_end c (h_xid h)
            in Inr (c, s, st, ret, un)))"

text \<open>A call stub: \<open>put\<close> writes the arguments, \<open>get\<close> reads the result over \<open>old\<close>.\<close>

definition rpc_call ::
  "(marshall \<Rightarrow> 'a \<Rightarrow> marshall) \<Rightarrow> ('r \<Rightarrow> unmarshall \<Rightarrow> ('r \<times> unmarshall) res) \<Rightarrow> nat \<Rightarrow> u32 \<Rightarrow> 'a \<Rightarrow> 'r \<Rightarrow>
   rpcc \<Rightarrow> 's rpcs \<Rightarrow> 's \<Rightarrow> (rpcc \<times> 's rpcs \<times> 's \<times> status \<times> 'r) res"
where
  "rpc_call put get ch proc a old c s st =
     rbind (call1_over ch proc (rpcc_call_args [\<lambda>m. put m a]) c s st) (\<lambda>(c, s, st, ret, un).
     rbind (rpcc_call_m (get old) old ret un) (\<lambda>(ret, r). Inr (c, s, st, ret, r)))"

section \<open>Replies on the wire\<close>

definition enc_reply_header :: "reply_header \<Rightarrow> byte list" where
  "enc_reply_header h = be32 (rh_xid h) @ be32 (rh_ret h)"

lemma pack_reply_header_effect:
  assumes "m_wf m" and "24 \<le> m_ind m"
  shows "pack_reply_header m h = m\<lparr>m_buf := memcpy (m_buf m) 4 (enc_reply_header h)\<rparr>"
  using assms
  by (simp add: pack_reply_header_def m_wf_def Let_def m_pack_inplace memcpy_memcpy_be
      enc_reply_header_def)

lemma m_pdu_pack_reply_header:
  assumes "m_wf m" and "24 \<le> m_ind m"
  shows "\<exists>pad. m_pdu (pack_reply_header m h) =
      take 4 (m_pdu m) @ enc_reply_header h @ pad @ m_content m \<and> length pad = 12"
proof -
  let ?b = "m_buf m" and ?n = "m_ind m"
  have sz: "24 \<le> length ?b" "?n \<le> length ?b" using assms by (auto simp: m_wf_def)
  have len: "length (enc_reply_header h) = 8" by (simp add: enc_reply_header_def)
  have "drop 12 (take ?n ?b) = take 12 (drop 12 (take ?n ?b)) @ drop 12 (drop 12 (take ?n ?b))"
    by (rule append_take_drop_id [symmetric])
  then have rest: "drop 12 (take ?n ?b) = take 12 (drop 12 (take ?n ?b)) @ m_content m"
    by (simp add: m_content_def slice_def)
  have "m_pdu (pack_reply_header m h) = take 4 (take ?n ?b) @ enc_reply_header h @ drop 12 (take ?n ?b)"
    using assms(2) sz len
    by (simp add: pack_reply_header_effect [OF assms] m_pdu_def memcpy_def drop_take min_def)
  also have "\<dots> = take 4 (m_pdu m) @ enc_reply_header h @ take 12 (drop 12 (take ?n ?b)) @ m_content m"
    using rest by (simp add: m_pdu_def)
  finally show ?thesis using sz assms(2) by (intro exI [of _ "take 12 (drop 12 (take ?n ?b))"]) simp
qed

lemma unpack_reply_header_pdu:
  assumes b: "b = sz @ enc_reply_header h @ rest" and "length sz = 4" and "length b < 2 ^ 31"
  shows "\<exists>u. unpack_reply_header (unmarshall_buf b) = (h, u) \<and> u_ok u \<and> u_buf u = b \<and> u_sz u = length b"
proof -
  define w where "w = u_adv 4 (unmarshall_buf b)"
  have wf: "u_wf w" and r: "u_rest w = be32 (rh_xid h) @ be32 (rh_ret h) @ rest"
    using assms by (auto simp: w_def unmarshall_buf_def u_wf_def u_rest_def enc_reply_header_def)
  have start: "(unmarshall_buf b)\<lparr>u_ind := 4\<rparr> = w"
    by (simp add: w_def u_adv_def unmarshall_buf_def)
  have one: "u_unpack w = (rh_xid h, u_adv 4 w)" by (rule u_unpack_step(1) [OF wf r])
  have two: "u_unpack (u_adv 4 w) = (rh_ret h, u_adv 8 w)"
    using u_unpack_step(1) [of "u_adv 4 w" "rh_ret h" rest] wf r by simp
  have "unpack_reply_header (unmarshall_buf b) = (h, (u_adv 8 w)\<lparr>u_ind := 24\<rparr>)"
    unfolding unpack_reply_header_def rpc_sz_t_size_eq start Let_def one two prod.case by simp
  then show ?thesis by (simp add: w_def unmarshall_buf_def)
qed


section \<open>The server runs a fresh request\<close>

definition xids_of :: "'s rpcs \<Rightarrow> u32 \<Rightarrow> u32 set" where
  "xids_of s clt = (case rs_window s clt of Some w \<Rightarrow> w_xids w | None \<Rightarrow> {})"

definition same_server :: "'s rpcs \<Rightarrow> 's rpcs \<Rightarrow> bool" where
  "same_server s t \<longleftrightarrow> rs_nonce t = rs_nonce s \<and> rs_procs t = rs_procs s \<and> rs_reachable t = rs_reachable s"

lemma ref_simps [simp]:
  "rs_window (incref c s) = rs_window s" "rs_window (decref c s) = rs_window s"
  "rs_procs (incref c s) = rs_procs s" "rs_procs (decref c s) = rs_procs s"
  "rs_nonce (incref c s) = rs_nonce s" "rs_nonce (decref c s) = rs_nonce s"
  "rs_reachable (incref c s) = rs_reachable s" "rs_reachable (decref c s) = rs_reachable s"
  "rs_counting (incref c s) = rs_counting s" "rs_counting (decref c s) = rs_counting s"
  by (simp_all add: incref_def decref_def)

lemma save_conn_simps [simp]:
  "rs_window (save_conn s clt c) = rs_window s" "rs_procs (save_conn s clt c) = rs_procs s"
  "rs_nonce (save_conn s clt c) = rs_nonce s" "rs_reachable (save_conn s clt c) = rs_reachable s"
  "rs_counting (save_conn s clt c) = rs_counting s"
  by (simp_all add: save_conn_def split: option.splits)

lemma updatestat_simps [simp]:
  "rs_window (updatestat s p) = rs_window s" "rs_procs (updatestat s p) = rs_procs s"
  "rs_nonce (updatestat s p) = rs_nonce s" "rs_reachable (updatestat s p) = rs_reachable s"
  by (simp_all add: updatestat_def Let_def)

lemma same_server_simps [simp]:
  "same_server s (incref c t) = same_server s t" "same_server s (decref c t) = same_server s t"
  "same_server s (save_conn t clt c) = same_server s t" "same_server s (updatestat t p) = same_server s t"
  "same_server s (t\<lparr>rs_window := w\<rparr>) = same_server s t" "same_server s s"
  by (simp_all add: same_server_def)

lemma request_unpacked:
  assumes m: "m_wf m" "24 \<le> m_ind m" "m_ind m < 2 ^ 31"
  obtains u where "unpack_req_header (unmarshall_buf (m_pdu (pack_req_header m h))) = (h, u)"
    "u_ok u" "u_wf u" "u_rest u = m_content m"
proof -
  define b where "b = m_pdu (pack_req_header m h)"
  have b: "b = take 4 (m_pdu m) @ enc_req_header h @ m_content m" "length (take 4 (m_pdu m)) = 4"
    using m m_pdu_pack_req_header [of m h] by (simp_all add: b_def m_pdu_def m_wf_def)
  moreover have "length b < 2 ^ 31"
    using b(1) m by (simp add: enc_req_header_def m_pdu_def m_content_def m_wf_def)
  ultimately show thesis
    using unpack_req_header_pdu [of b "take 4 (m_pdu m)" h "m_content m"] that unfolding b_def by blast
qed

lemma check_fresh:
  assumes "rw_ok rw" and x: "\<And>w. rw clt = Some w \<Longrightarrow> x \<notin> w_xids w" and "rep \<le> x"
  obtains rw' w where "checkduplicate_and_update (open_window rw clt) clt x rep = Inr (NEW, rw')"
    "rw_ok rw'" "rw' clt = Some w" "w_xids w \<subseteq> insert x (case rw clt of Some w \<Rightarrow> w_xids w | None \<Rightarrow> {})"
    "\<And>d. d \<noteq> clt \<Longrightarrow> rw' d = rw d" "x \<in> w_xids w"
proof -
  let ?rw = "open_window rw clt"
  obtain w where w: "?rw clt = Some w" "w_xids w = (case rw clt of Some w \<Rightarrow> w_xids w | None \<Rightarrow> {})"
    by (cases "rw clt") (auto simp: open_window_def w_xids_def)
  have ok: "rw_ok ?rw" by (rule open_window_rw_ok [OF assms(1)])
  then have sub: "w_xids (window_ack rep w) \<subseteq> w_xids w"
    using w(1) w_xids_ack [of w rep] by (auto simp: rw_ok_def)
  moreover have "x \<notin> w_xids w" using x w(2) by (cases "rw clt") auto
  ultimately have n: "checkduplicate_and_update ?rw clt x rep =
      Inr (NEW, ?rw(clt \<mapsto> window_insert (reply_new x) (window_ack rep w)))"
    using check_new [of ?rw clt w x rep] w(1) assms(3) by blast
  have other: "d \<noteq> clt \<Longrightarrow> ?rw d = rw d" for d by (simp add: open_window_def)
  show thesis
    using that [OF n check_rw_ok [OF ok n]] sub w(2) other by (auto simp: w_xids_def reply_new_def)
qed

lemma add_reply_present:
  assumes "rw_ok rw" and "rw clt = Some w"
  obtains rw' w' where "add_reply rw clt x b = Inr rw'" "rw_ok rw'" "rw' clt = Some w'" "w_xids w' = w_xids w"
    "\<And>d. d \<noteq> clt \<Longrightarrow> rw' d = rw d" "\<forall>r \<in> set w'. rt_xid r = x \<longrightarrow> rt_cb_present r \<and> rt_buf r = b"
proof -
  define f where "f = (\<lambda>r. if rt_xid r = x then r\<lparr>rt_buf := b, rt_cb_present := True\<rparr> else r :: reply_t)"
  have a: "add_reply rw clt x b = Inr (rw(clt \<mapsto> map f w))" using assms(2) by (simp add: add_reply_def f_def)
  have f: "rt_xid (f r) = x \<longrightarrow> rt_cb_present (f r) \<and> rt_buf (f r) = b" for r
    by (cases "rt_xid r = x") (simp_all add: f_def)
  have "w_xids (map f w) = w_xids w" unfolding f_def by (rule w_xids_reply)
  then show thesis
    using that [of "rw(clt \<mapsto> map f w)" "map f w", OF a add_reply_rw_ok [OF assms(1) a]] f by simp
qed

text \<open>The reply to a request is kept: a duplicate of the request finds it.\<close>

definition answered :: "'s rpcs \<Rightarrow> req_header \<Rightarrow> byte list \<Rightarrow> bool" where
  "answered s h b \<longleftrightarrow> (\<exists>w r. rs_window s (h_clt_nonce h) = Some w \<and>
     find (\<lambda>r. rt_xid r = h_xid h) (window_ack (h_xid_rep h) w) = Some r \<and> rt_cb_present r \<and> rt_buf r = b)"

lemma answered_intro:
  assumes "rs_window s (h_clt_nonce h) = Some w" and "w_sorted w" and "h_xid h \<in> w_xids w" and "h_xid_rep h < h_xid h"
    and "\<forall>r \<in> set w. rt_xid r = h_xid h \<longrightarrow> rt_cb_present r \<and> rt_buf r = b"
  shows "answered s h b"
proof -
  let ?a = "window_ack (h_xid_rep h) w"
  have "h_xid h \<in> w_xids ?a" using w_xids_ack [OF assms(2)] assms(3,4) by simp
  then obtain r where r: "find (\<lambda>r. rt_xid r = h_xid h) ?a = Some r" using find_xid_None by (metis not_None_eq)
  moreover have "set ?a \<subseteq> set w" using assms(2) by (auto simp: window_ack_filter)
  ultimately have "r \<in> set w" "rt_xid r = h_xid h" using find_xid_Some by blast+
  then show ?thesis using assms(1,5) r unfolding answered_def by blast
qed

text \<open>A request whose xid is new to the server, for a registered handler: the handler runs once, on
  the arguments that were written, and its answer is the reply.\<close>

lemma serve_runs:
  assumes s: "rs_reachable s" "rw_ok (rs_window s)" "rs_procs s (h_proc h) = Some f"
    and m: "m_wf m" "24 \<le> m_ind m" "m_ind m < 2 ^ 31"
    and h: "h_srv_nonce h = 0 \<or> h_srv_nonce h = rs_nonce s" "h_xid h \<notin> xids_of s (h_clt_nonce h)" "h_xid_rep h \<le> h_xid h"
    and f: "\<And>u. u_wf u \<Longrightarrow> u_ok u \<Longrightarrow> u_rest u = m_content m \<Longrightarrow> f u marshall_new st = Inr (ret, rep, st')"
    and ret: "ret \<ge> 0 \<or> ret = rpc_unmarshal_args_failure"
  shows "\<exists>s'. serve ch (m_pdu (pack_req_header m h)) s st = Inr (s', st', Some (reply_pdu (h_xid h) ret rep)) \<and>
    same_server s s' \<and> rw_ok (rs_window s') \<and> xids_of s' (h_clt_nonce h) \<subseteq> insert (h_xid h) (xids_of s (h_clt_nonce h)) \<and>
    (\<forall>d. d \<noteq> h_clt_nonce h \<longrightarrow> xids_of s' d = xids_of s d) \<and>
    (h_clt_nonce h \<noteq> 0 \<and> h_xid_rep h < h_xid h \<longrightarrow> answered s' h (reply_pdu (h_xid h) ret rep))"
proof -
  obtain u where u: "unpack_req_header (unmarshall_buf (m_pdu (pack_req_header m h))) = (h, u)"
    "u_ok u" "u_wf u" "u_rest u = m_content m"
    using request_unpacked [OF m] by blast
  note run = f [OF u(3,2,4)]
  let ?s0 = "incref ch s" and ?clt = "h_clt_nonce h"
  show ?thesis
  proof (cases "?clt = 0")
    case True
    let ?s1 = "if rs_counting s \<noteq> 0 then updatestat ?s0 (h_proc h) else ?s0"
    have "dispatch_begin ?s0 ch (m_pdu (pack_req_header m h)) = Inr (?s1, Running h u f)"
      using u s(3) h(1) True by (auto simp: dispatch_begin_def)
    then have "serve ch (m_pdu (pack_req_header m h)) s st =
        Inr (decref ch ?s1, st', Some (reply_pdu (h_xid h) ret rep))"
      using s(1) run ret True by (simp add: serve_def rpcs_got_pdu_def dispatch_finish_def)
    then show ?thesis using s(2) True by (auto simp: xids_of_def)
  next
    case False
    then have pos: "?clt > 0" by (simp add: word_gt_0)
    obtain rw w where rw: "checkduplicate_and_update (open_window (rs_window s) ?clt) ?clt (h_xid h) (h_xid_rep h) = Inr (NEW, rw)"
      "rw_ok rw" "rw ?clt = Some w"
      "w_xids w \<subseteq> insert (h_xid h) (case rs_window s ?clt of Some w \<Rightarrow> w_xids w | None \<Rightarrow> {})"
      "\<And>d. d \<noteq> ?clt \<Longrightarrow> rw d = rs_window s d" "h_xid h \<in> w_xids w"
    proof (rule check_fresh [OF s(2) _ h(3)])
      show "h_xid h \<notin> w_xids w" if "rs_window s ?clt = Some w" for w
        using h(2) that by (simp add: xids_of_def)
    qed blast
    define s1 where "s1 = (save_conn (?s0\<lparr>rs_window := open_window (rs_window s) ?clt\<rparr>) ?clt ch)\<lparr>rs_window := rw\<rparr>"
    define s2 where "s2 = (if rs_counting s1 \<noteq> 0 then updatestat s1 (h_proc h) else s1)"
    have s2: "same_server s s2" "rs_window s2 = rw" by (simp_all add: s2_def s1_def)
    have "dispatch_begin ?s0 ch (m_pdu (pack_req_header m h)) = Inr (s2, Running h u f)"
      using u s(3) h(1) False rw(1) by (auto simp: dispatch_begin_def s2_def s1_def Let_def)
    moreover obtain rw' w' where rw': "add_reply rw ?clt (h_xid h) (reply_pdu (h_xid h) ret rep) = Inr rw'"
      "rw_ok rw'" "rw' ?clt = Some w'" "w_xids w' = w_xids w" "\<And>d. d \<noteq> ?clt \<Longrightarrow> rw' d = rw d"
      "\<forall>r \<in> set w'. rt_xid r = h_xid h \<longrightarrow> rt_cb_present r \<and> rt_buf r = reply_pdu (h_xid h) ret rep"
      using add_reply_present [OF rw(2,3)] by metis
    ultimately have r: "serve ch (m_pdu (pack_req_header m h)) s st =
        Inr (decref ch (s2\<lparr>rs_window := rw'\<rparr>), st', Some (reply_pdu (h_xid h) ret rep))"
      using s(1) run ret pos s2(2) by (simp add: serve_def rpcs_got_pdu_def dispatch_finish_def)
    have "answered (decref ch (s2\<lparr>rs_window := rw'\<rparr>)) h (reply_pdu (h_xid h) ret rep)" if "h_xid_rep h < h_xid h"
      by (rule answered_intro [OF _ _ _ that rw'(6)]) (use rw' rw(6) in \<open>auto simp: rw_ok_def\<close>)
    then show ?thesis using r s2(1) rw'(1-5) rw(4,5) by (auto simp: xids_of_def)
  qed
qed

section \<open>The client gets the answer\<close>

text \<open>A client without calls under way and the server it talks to: the server has seen only xids the
  client has issued.\<close>

definition linked :: "rpcc \<Rightarrow> 's rpcs \<Rightarrow> bool" where
  "linked c s \<longleftrightarrow> client_inv c \<and> c_calls c = Map.empty \<and> \<not> c_destroy_wait c \<and>
     (c_srv_nonce c = 0 \<or> c_srv_nonce c = rs_nonce s) \<and> rs_reachable s \<and> rw_ok (rs_window s) \<and>
     (\<forall>x \<in> xids_of s (c_clt_nonce c). x < c_xid c)"

definition same_client :: "rpcc \<Rightarrow> rpcc \<Rightarrow> bool" where
  "same_client c d \<longleftrightarrow> c_clt_nonce d = c_clt_nonce c \<and> c_srv_nonce d = c_srv_nonce c \<and>
     c_bind_done d = c_bind_done c \<and> c_destroy_wait d = c_destroy_wait c"

lemma sint_status: "- (2 ^ 31) \<le> ret \<Longrightarrow> ret < 2 ^ 31 \<Longrightarrow> sint (word_of_int ret :: u32) = ret"
  by (simp add: signed_take_bit_int_eq_self sint_sbintrunc')

text \<open>The reply to a pending call completes it and is taken in.\<close>

lemma got_reply:
  assumes rep: "m_wf rep" "24 \<le> m_ind rep" "m_ind rep < 2 ^ 31"
    and ret: "- (2 ^ 31) \<le> ret" "ret < 2 ^ 31"
    and ca: "c_calls c x = Some ca" "\<not> ca_done ca"
  obtains un where "rpcc_got_pdu c (reply_pdu x ret rep) =
      c\<lparr>c_window := update_xid_rep (c_window c) x,
        c_calls := (c_calls c)(x \<mapsto> ca\<lparr>ca_un := un, ca_intret := ret, ca_done := True\<rparr>)\<rparr>"
    "u_wf un" "u_ok un" "u_rest un = m_content rep"
    "rh_xid (fst (unpack_reply_header (unmarshall_buf (reply_pdu x ret rep)))) = x"
proof -
  let ?h = "\<lparr>rh_xid = x, rh_ret = word_of_int ret\<rparr>"
  define b where "b = reply_pdu x ret rep"
  obtain pad where pad: "b = take 4 (m_pdu rep) @ enc_reply_header ?h @ pad @ m_content rep" "length pad = 12"
    using m_pdu_pack_reply_header [OF rep(1,2)] unfolding b_def reply_pdu_def by blast
  have four: "length (take 4 (m_pdu rep)) = 4" using rep by (simp add: m_pdu_def m_wf_def)
  have len: "length b = 24 + length (m_content rep)" using pad four by (simp add: enc_reply_header_def)
  then have lt: "length b < 2 ^ 31" using rep by (simp add: m_content_def m_wf_def)
  obtain u where u: "unpack_reply_header (unmarshall_buf b) = (?h, u)" "u_ok u" "u_buf u = b" "u_sz u = length b"
    using unpack_reply_header_pdu [OF pad(1) four lt] by blast
  define un where "un = fst (u_take_in (ca_un ca) u)"
  have un: "u_wf un" "u_ok un" "u_rest un = m_content rep"
    using u len lt pad four by (simp_all add: un_def u_take_in_def u_wf_def u_rest_def enc_reply_header_def)
  have "rpcc_got_pdu c b = c\<lparr>c_window := update_xid_rep (c_window c) x,
        c_calls := (c_calls c)(x \<mapsto> ca\<lparr>ca_un := un, ca_intret := ret, ca_done := True\<rparr>)\<rparr>"
    using ca u sint_status [OF ret] by (simp add: rpcc_got_pdu_def Let_def un_def)
  then show thesis using that un u(1) unfolding b_def by simp
qed

text \<open>The client's side of a call that is answered, and of one that is not.\<close>

lemma call_starts:
  assumes "client_inv c" "\<not> c_destroy_wait c" "c_bind_done c \<longleftrightarrow> proc \<noteq> proc_bind" "c_calls c = Map.empty" "c_xid c \<noteq> - 1"
  obtains c1 h where "call1_begin c proc = (c1, Inr h)" "client_inv c1" "same_client c c1" "c_xid c1 = c_xid c + 1"
    "c_calls c1 = [c_xid c \<mapsto> \<lparr>ca_xid = c_xid c, ca_un = unmarshall_empty, ca_intret = 0, ca_done = False\<rparr>]"
    "h_xid h = c_xid c" "h_proc h = proc" "h_clt_nonce h = c_clt_nonce c" "h_srv_nonce h = c_srv_nonce c"
    "h_xid_rep h < h_xid h"
proof -
  define h where "h = \<lparr>h_xid = c_xid c, h_proc = proc, h_clt_nonce = c_clt_nonce c,
    h_srv_nonce = c_srv_nonce c, h_xid_rep = hd (c_window c)\<rparr>"
  define c1 where "c1 = c\<lparr>c_xid := c_xid c + 1, c_calls := [c_xid c \<mapsto>
    \<lparr>ca_xid = c_xid c, ca_un = unmarshall_empty, ca_intret = 0, ca_done = False\<rparr>]\<rparr>"
  have b: "call1_begin c proc = (c1, Inr h)" using assms by (auto simp: call1_begin_def Let_def c1_def h_def)
  show thesis
  proof (rule that [OF b client_inv_begin [OF assms(1,5) b]])
    show "h_xid_rep h < h_xid h" using assms(1) by (auto simp: client_inv_def received_def h_def)
  qed (simp_all add: c1_def h_def same_client_def)
qed

lemma reply_completes:
  assumes c1: "client_inv c1" "c_xid c1 = x + 1" "x \<noteq> - 1"
    "c_calls c1 = [x \<mapsto> \<lparr>ca_xid = x, ca_un = unmarshall_empty, ca_intret = 0, ca_done = False\<rparr>]"
    and rep: "m_wf rep" "24 \<le> m_ind rep" "m_ind rep < 2 ^ 31"
    and ret: "- (2 ^ 31) \<le> ret" "ret < 2 ^ 31"
  obtains c3 ca where "call1_end (rpcc_got_pdu c1 (reply_pdu x ret rep)) x = (c3, ret)" "client_inv c3"
    "c_calls c3 = Map.empty" "c_xid c3 = c_xid c1" "same_client c1 c3"
    "c_calls (rpcc_got_pdu c1 (reply_pdu x ret rep)) x = Some ca"
    "u_wf (ca_un ca)" "u_ok (ca_un ca)" "u_rest (ca_un ca) = m_content rep"
proof -
  let ?ca = "\<lparr>ca_xid = x, ca_un = unmarshall_empty, ca_intret = 0, ca_done = False\<rparr>"
  define c2 where "c2 = rpcc_got_pdu c1 (reply_pdu x ret rep)"
  have ca: "c_calls c1 x = Some ?ca" "\<not> ca_done ?ca" using c1(4) by simp_all
  obtain un where got: "c2 = c1\<lparr>c_window := update_xid_rep (c_window c1) x,
        c_calls := (c_calls c1)(x \<mapsto> ?ca\<lparr>ca_un := un, ca_intret := ret, ca_done := True\<rparr>)\<rparr>"
    and un: "u_wf un" "u_ok un" "u_rest un = m_content rep"
    and rx: "rh_xid (fst (unpack_reply_header (unmarshall_buf (reply_pdu x ret rep)))) = x"
    unfolding c2_def by (rule got_reply [OF rep ret ca])
  have c2: "c_calls c2 x = Some (?ca\<lparr>ca_un := un, ca_intret := ret, ca_done := True\<rparr>)" by (simp add: got)
  have "rh_xid (fst (unpack_reply_header (unmarshall_buf (reply_pdu x ret rep)))) < c_xid c1"
    using less_succ_u32 [OF c1(3) order_refl] unfolding rx c1(2) .
  then have "client_inv c2" unfolding c2_def by (rule client_inv_pdu [OF c1(1)])
  then have inv: "client_inv (fst (call1_end c2 x))" by (rule client_inv_end) (simp add: c2)
  have e: "call1_end c2 x = (fst (call1_end c2 x), ret)" using c2 by (simp add: call1_end_def)
  show thesis
    by (rule that [of "fst (call1_end c2 x)" "?ca\<lparr>ca_un := un, ca_intret := ret, ca_done := True\<rparr>"])
      (use c1(4) un inv e c2 in \<open>auto simp: call1_end_def same_client_def fun_eq_iff got simp flip: c2_def\<close>)
qed

lemma silence_completes:
  assumes c1: "client_inv c1"
    "c_calls c1 = [x \<mapsto> \<lparr>ca_xid = x, ca_un = unmarshall_empty, ca_intret = 0, ca_done = False\<rparr>]"
  obtains c3 where "call1_end c1 x = (c3, rpc_timeout_failure)" "client_inv c3"
    "c_calls c3 = Map.empty" "c_xid c3 = c_xid c1" "same_client c1 c3"
proof -
  have inv: "client_inv (fst (call1_end c1 x))" by (rule client_inv_end [OF c1(1)]) (use c1(2) in auto)
  show thesis
    by (rule that [OF _ inv]) (use c1(2) in \<open>auto simp: call1_end_def same_client_def fun_eq_iff\<close>)
qed

lemma same_client_trans: "same_client c d \<Longrightarrow> same_client d e \<Longrightarrow> same_client c e"
  by (simp add: same_client_def)

text \<open>Client and server are linked again after the call.\<close>

lemma linked_after:
  assumes l: "linked c s" and x: "c_xid c \<noteq> - 1" and c3: "client_inv c3" "c_calls c3 = Map.empty" "same_client c c3"
      "c_xid c3 = c_xid c + 1"
    and s: "same_server s s'" "rw_ok (rs_window s')" "xids_of s' (c_clt_nonce c) \<subseteq> insert (c_xid c) (xids_of s (c_clt_nonce c))"
  shows "linked c3 s'"
proof -
  have "\<forall>y \<in> xids_of s' (c_clt_nonce c). y < c_xid c + 1"
    using s(3) l less_succ_u32 [OF x] by (auto simp: linked_def intro: less_imp_le)
  then show ?thesis using l c3 s(1,2) by (simp add: linked_def same_client_def same_server_def)
qed

lemma call1_over_runs:
  assumes l: "linked c s" and x: "c_xid c \<noteq> - 1" and p: "c_bind_done c \<longleftrightarrow> proc \<noteq> proc_bind"
    and f: "rs_procs s proc = Some f" "\<And>u. u_wf u \<Longrightarrow> u_ok u \<Longrightarrow> u_rest u = m_content m \<Longrightarrow>
      f u marshall_new st = Inr (ret, rep, st')"
    and m: "m_wf m" "24 \<le> m_ind m" "m_ind m < 2 ^ 31"
    and ret: "ret \<ge> 0 \<or> ret = rpc_unmarshal_args_failure" "ret < 2 ^ 31"
    and rep: "m_wf rep" "24 \<le> m_ind rep" "m_ind rep < 2 ^ 31"
  obtains c' s' un where "call1_over ch proc m c s st = Inr (c', s', st', ret, un)" "linked c' s'"
    "same_client c c'" "c_xid c' = c_xid c + 1" "same_server s s'" "u_wf un" "u_ok un" "u_rest un = m_content rep"
    "\<forall>d. d \<noteq> c_clt_nonce c \<longrightarrow> xids_of s' d = xids_of s d"
proof -
  let ?x = "c_xid c"
  have k: "client_inv c" "\<not> c_destroy_wait c" "c_calls c = Map.empty" using l by (auto simp: linked_def)
  obtain c1 h where start: "call1_begin c proc = (c1, Inr h)" "client_inv c1" "same_client c c1" "c_xid c1 = ?x + 1"
    "c_calls c1 = [?x \<mapsto> \<lparr>ca_xid = ?x, ca_un = unmarshall_empty, ca_intret = 0, ca_done = False\<rparr>]"
    and h: "h_xid h = ?x" "h_proc h = proc" "h_clt_nonce h = c_clt_nonce c" "h_srv_nonce h = c_srv_nonce c"
      "h_xid_rep h < h_xid h"
    by (rule call_starts [OF k(1,2) p k(3) x])
  obtain s' where s': "serve ch (m_pdu (pack_req_header m h)) s st = Inr (s', st', Some (reply_pdu ?x ret rep))"
    "same_server s s'" "rw_ok (rs_window s')" "xids_of s' (c_clt_nonce c) \<subseteq> insert ?x (xids_of s (c_clt_nonce c))"
    "\<forall>d. d \<noteq> c_clt_nonce c \<longrightarrow> xids_of s' d = xids_of s d"
  proof -
    have "rs_reachable s" "rw_ok (rs_window s)" "rs_procs s (h_proc h) = Some f" "h_xid_rep h \<le> h_xid h"
      "h_srv_nonce h = 0 \<or> h_srv_nonce h = rs_nonce s" "h_xid h \<notin> xids_of s (h_clt_nonce h)"
      using l f(1) h by (auto simp: linked_def)
    then show thesis
      using serve_runs [of s h f m st ret rep st' ch, OF _ _ _ m _ _ _ f(2) ret(1)] that unfolding h by blast
  qed
  have lo: "- (2 ^ 31) \<le> ret" using ret(1) by (auto simp: rpc_const_defs)
  obtain c3 ca where fin: "call1_end (rpcc_got_pdu c1 (reply_pdu ?x ret rep)) ?x = (c3, ret)" "client_inv c3"
    "c_calls c3 = Map.empty" "c_xid c3 = c_xid c1" "same_client c1 c3"
    "c_calls (rpcc_got_pdu c1 (reply_pdu ?x ret rep)) ?x = Some ca"
    "u_wf (ca_un ca)" "u_ok (ca_un ca)" "u_rest (ca_un ca) = m_content rep"
    by (rule reply_completes [OF start(2,4) x start(5) rep lo ret(2)])
  have over: "call1_over ch proc m c s st = Inr (c3, s', st', ret, ca_un ca)"
    using start(1) s'(1) fin(1,6) unfolding call1_over_def by (simp add: h(1) Let_def)
  have c3: "same_client c c3" "c_xid c3 = ?x + 1" using same_client_trans start(3,4) fin(4,5) by auto
  have "linked c3 s'" by (rule linked_after [OF l x fin(2,3) c3 s'(2-4)])
  then show thesis using that over c3 s'(2,5) fin(7-9) by blast
qed

section \<open>Calls are calls of the method\<close>

text \<open>
  A procedure as both sides know it: how its arguments and its result are written and read, and
  the method.  \<open>fits\<close> says that a message is small enough for the \<open>int\<close> sizes of the buffers.
\<close>

definition fits :: "byte list \<Rightarrow> bool" where
  "fits b \<longleftrightarrow> length b < 2 ^ 31 - 24"

lemma stub_buffer:
  assumes "codec put get enc" and "fits (enc a)"
  shows "m_wf (put marshall_new a)" "24 \<le> m_ind (put marshall_new a)" "m_ind (put marshall_new a) < 2 ^ 31"
    "m_content (put marshall_new a) = enc a"
  using codec.put_wf [OF assms(1) m_wf_new] codec.put_ind [OF assms(1) m_wf_new, of a]
    codec.m_content_put [OF assms(1) m_wf_new, of a] assms(2)
  by (simp_all add: marshall_new_def fits_def m_content_def slice_def)

lemma read_all:
  assumes "codec put get enc" and "u_wf u" "u_ok u" "u_rest u = enc a"
  shows "get u = Inr (a, u_adv (length (enc a)) u)" "u_okdone (u_adv (length (enc a)) u)"
proof -
  show "get u = Inr (a, u_adv (length (enc a)) u)"
    by (rule codec.get_enc [OF assms(1-3), where rest = "[]"]) (simp add: assms(4))
  have "length (enc a) = u_sz u - u_ind u" using length_u_rest [OF assms(2)] assms(4) by simp
  then show "u_okdone (u_adv (length (enc a)) u)"
    using assms(2,3) by (simp add: u_okdone_def u_wf_def)
qed

definition callable :: "rpcc \<Rightarrow> 's rpcs \<Rightarrow> u32 \<Rightarrow> 's handler \<Rightarrow> bool" where
  "callable c s proc f \<longleftrightarrow> linked c s \<and> (c_bind_done c \<longleftrightarrow> proc \<noteq> proc_bind) \<and> rs_procs s proc = Some f"

lemma callable_same:
  "linked c' s' \<Longrightarrow> same_client c c' \<Longrightarrow> same_server s s' \<Longrightarrow> callable c s proc f \<Longrightarrow> callable c' s' proc f"
  by (auto simp: callable_def same_client_def same_server_def)

text \<open>a call returns what the method returns, and the method has run once.\<close>

theorem rpc_call_is_method_call:
  assumes args: "codec put get enc" "fits (enc a)"
    and res: "\<And>old. codec rput (rget old) renc" "fits (renc r)"
    and call: "callable c s proc (handler_fn get meth rput)" "c_xid c \<noteq> - 1"
    and meth: "meth a st = Inr (b, r, st')" "0 \<le> b" "b < 2 ^ 31"
  shows "\<exists>c' s'. rpc_call put rget ch proc a old c s st = Inr (c', s', st', b, r) \<and>
    linked c' s' \<and> same_client c c' \<and> same_server s s' \<and> c_xid c' = c_xid c + 1 \<and>
    (\<forall>d. d \<noteq> c_clt_nonce c \<longrightarrow> xids_of s' d = xids_of s d)"
proof -
  let ?m = "put marshall_new a" and ?f = "handler_fn get meth rput"
  note m = stub_buffer [OF args] and l = call(1) [unfolded callable_def, THEN conjunct1]
    call(1) [unfolded callable_def, THEN conjunct2, THEN conjunct1]
    call(1) [unfolded callable_def, THEN conjunct2, THEN conjunct2]
  note rep = stub_buffer [OF res(1) [of old] res(2)]
  have f: "?f u marshall_new st = Inr (b, rput marshall_new r, st')"
    if "u_wf u" "u_ok u" "u_rest u = m_content ?m" for u
    using read_all [OF args(1) that(1,2)] that(3) m(4) meth(1) by (simp add: handler_fn_def)
  have nonneg: "b \<ge> 0 \<or> b = rpc_unmarshal_args_failure" using meth(2) by blast
  obtain c' s' un where over: "call1_over ch proc ?m c s st = Inr (c', s', st', b, un)" "linked c' s'"
    "same_client c c'" "c_xid c' = c_xid c + 1" "same_server s s'" "u_wf un" "u_ok un"
    "u_rest un = m_content (rput marshall_new r)" "\<forall>d. d \<noteq> c_clt_nonce c \<longrightarrow> xids_of s' d = xids_of s d"
    by (rule call1_over_runs [where ch = ch and c = c and s = s and proc = proc and m = ?m and f = ?f
          and st = st and st' = st' and ret = b and rep = "rput marshall_new r",
          OF l(1) call(2) l(2,3) f m(1-3) nonneg meth(3) rep(1-3)])
  have "u_rest un = renc r" using over(8) rep(4) by simp
  then have "rpcc_call_m (rget old) old b un = Inr (b, r)"
    using read_all [OF res(1) over(6,7)] meth(2) by (simp add: rpcc_call_m_def)
  then show ?thesis using over by (simp add: rpc_call_def rpcc_call_args_def)
qed

text \<open>arguments of the wrong number or types are refused without running the method.\<close>

theorem wrong_arguments_refused:
  assumes args: "codec put pget enc" "fits (enc a)"
    and call: "callable c s proc (handler_fn get meth rput)" "c_xid c \<noteq> - 1"
    and get: "\<And>u. u_wf u \<Longrightarrow> u_ok u \<Longrightarrow> u_rest u = enc a \<Longrightarrow> \<exists>x v. get u = Inr (x, v) \<and> \<not> u_okdone v"
  shows "\<exists>c' s'. rpc_call put rget ch proc a old c s st = Inr (c', s', st, rpc_unmarshal_args_failure, old) \<and>
    linked c' s' \<and> same_client c c' \<and> same_server s s' \<and> c_xid c' = c_xid c + 1 \<and>
    (\<forall>d. d \<noteq> c_clt_nonce c \<longrightarrow> xids_of s' d = xids_of s d)"
proof -
  let ?m = "put marshall_new a" and ?f = "handler_fn get meth rput"
  note m = stub_buffer [OF args] and l = call(1) [unfolded callable_def, THEN conjunct1]
    call(1) [unfolded callable_def, THEN conjunct2, THEN conjunct1]
    call(1) [unfolded callable_def, THEN conjunct2, THEN conjunct2]
  have f: "?f u marshall_new st = Inr (rpc_unmarshal_args_failure, marshall_new, st)"
    if "u_wf u" "u_ok u" "u_rest u = m_content ?m" for u
    using get [OF that(1,2)] that(3) m(4) by (auto simp: handler_fn_def)
  have neg: "rpc_unmarshal_args_failure \<ge> 0 \<or> rpc_unmarshal_args_failure = rpc_unmarshal_args_failure"
    "rpc_unmarshal_args_failure < 2 ^ 31" by (simp_all add: rpc_const_defs)
  have new: "24 \<le> m_ind marshall_new" "m_ind marshall_new < 2 ^ 31" by (simp_all add: marshall_new_def)
  obtain c' s' un where over: "call1_over ch proc ?m c s st = Inr (c', s', st, rpc_unmarshal_args_failure, un)"
    "linked c' s'" "same_client c c'" "c_xid c' = c_xid c + 1" "same_server s s'"
    "\<forall>d. d \<noteq> c_clt_nonce c \<longrightarrow> xids_of s' d = xids_of s d"
    by (rule call1_over_runs [where ch = ch and c = c and s = s and proc = proc and m = ?m and f = ?f
          and st = st and st' = st and ret = rpc_unmarshal_args_failure and rep = marshall_new,
          OF l(1) call(2) l(2,3) f m(1-3) neg m_wf_new new])
  then show ?thesis by (simp add: rpc_call_def rpcc_call_args_def rpcc_call_m_def rpc_const_defs)
qed

section \<open>Many clients, many calls\<close>

text \<open>
  A sequence of calls to procedures of one signature, each by one of several clients of the server,
  and the same sequence of plain method calls.
\<close>

fun remote_calls ::
  "(marshall \<Rightarrow> 'a \<Rightarrow> marshall) \<Rightarrow> ('r \<Rightarrow> unmarshall \<Rightarrow> ('r \<times> unmarshall) res) \<Rightarrow> (nat \<times> u32 \<times> 'a \<times> 'r) list \<Rightarrow>
   (nat \<Rightarrow> rpcc) \<Rightarrow> 's rpcs \<Rightarrow> 's \<Rightarrow> ((nat \<Rightarrow> rpcc) \<times> 's rpcs \<times> 's \<times> (status \<times> 'r) list) res"
where
  "remote_calls put rget [] cs s st = Inr (cs, s, st, [])"
| "remote_calls put rget ((i, proc, a, old) # xs) cs s st =
     rbind (rpc_call put rget i proc a old (cs i) s st) (\<lambda>(c, s, st, b, r).
     rbind (remote_calls put rget xs (cs(i := c)) s st) (\<lambda>(cs, s, st, rs). Inr (cs, s, st, (b, r) # rs)))"

fun local_calls ::
  "(u32 \<Rightarrow> 'a \<Rightarrow> 's \<Rightarrow> (status \<times> 'r \<times> 's) res) \<Rightarrow> (nat \<times> u32 \<times> 'a \<times> 'r) list \<Rightarrow> 's \<Rightarrow>
   ('s \<times> (status \<times> 'r) list) res"
where
  "local_calls meth [] st = Inr (st, [])"
| "local_calls meth ((i, proc, a, old) # xs) st =
     rbind (meth proc a st) (\<lambda>(b, r, st). rbind (local_calls meth xs st) (\<lambda>(st, rs). Inr (st, (b, r) # rs)))"

definition clients_ok :: "nat set \<Rightarrow> (nat \<Rightarrow> rpcc) \<Rightarrow> 's rpcs \<Rightarrow> nat \<Rightarrow> bool" where
  "clients_ok I cs s n \<longleftrightarrow> (\<forall>i \<in> I. linked (cs i) s \<and> c_bind_done (cs i) \<and> unat (c_xid (cs i)) + n < 2 ^ 32) \<and>
     inj_on (\<lambda>i. c_clt_nonce (cs i)) I"

lemma linked_other:
  assumes "linked d s" and "same_server s s'" and "rw_ok (rs_window s')"
    and "xids_of s' (c_clt_nonce d) = xids_of s (c_clt_nonce d)"
  shows "linked d s'"
  using assms by (simp add: linked_def same_server_def)

lemma clients_ok_step:
  assumes ok: "clients_ok I cs s (Suc n)" "i \<in> I"
    and c: "linked c s'" "same_client (cs i) c" "c_xid c = c_xid (cs i) + 1"
    and s: "same_server s s'" "\<forall>d. d \<noteq> c_clt_nonce (cs i) \<longrightarrow> xids_of s' d = xids_of s d"
  shows "clients_ok I (cs(i := c)) s' n"
proof -
  have rw: "rw_ok (rs_window s')" using c(1) by (simp add: linked_def)
  have k: "linked (cs j) s" "c_bind_done (cs j)" "unat (c_xid (cs j)) + Suc n < 2 ^ 32" if "j \<in> I" for j
    using ok that by (auto simp: clients_ok_def)
  have inj: "inj_on (\<lambda>i. c_clt_nonce (cs i)) I" using ok unfolding clients_ok_def by blast
  have x: "unat (c_xid c) = Suc (unat (c_xid (cs i)))" using room_u32 [OF k(3) [OF ok(2)]] c(3) by simp
  have new: "linked ((cs(i := c)) j) s' \<and> c_bind_done ((cs(i := c)) j) \<and> unat (c_xid ((cs(i := c)) j)) + n < 2 ^ 32"
    if j: "j \<in> I" for j
  proof (cases "j = i")
    case True
    then show ?thesis using c k(2,3) [OF ok(2)] x by (simp add: same_client_def)
  next
    case False
    then have "c_clt_nonce (cs j) \<noteq> c_clt_nonce (cs i)" using inj j ok(2) by (auto dest: inj_onD)
    then show ?thesis using False linked_other [OF k(1) [OF j] s(1) rw] s(2) k(2,3) [OF j] by simp
  qed
  have "c_clt_nonce ((cs(i := c)) j) = c_clt_nonce (cs j)" for j
    using c(2) by (cases "j = i") (simp_all add: same_client_def)
  then show ?thesis unfolding clients_ok_def using new inj by simp
qed

text \<open>calls of any number of clients in any order have the results and the effect of the same
  method calls made locally.\<close>

theorem remote_calls_are_local_calls:
  assumes args: "codec put get enc" "\<forall>(i, proc, a, old) \<in> set xs. i \<in> I \<and> proc \<noteq> proc_bind \<and> fits (enc a) \<and>
      rs_procs s proc = Some (handler_fn get (meth proc) rput)"
    and res: "\<And>old. codec rput (rget old) renc"
    and ok: "clients_ok I cs s (length xs)"
    and l: "local_calls meth xs st = Inr (st', rs)" "\<forall>(b, r) \<in> set rs. 0 \<le> b \<and> b < 2 ^ 31 \<and> fits (renc r)"
  shows "\<exists>cs' s'. remote_calls put rget xs cs s st = Inr (cs', s', st', rs)"
  using args(2) ok l
proof (induction xs arbitrary: cs s st rs)
  case Nil
  then show ?case by simp
next
  case (Cons x xs)
  obtain i proc a old where x: "x = (i, proc, a, old)" by (cases x)
  obtain b r st1 rs1 where m: "meth proc a st = Inr (b, r, st1)" "local_calls meth xs st1 = Inr (st', rs1)"
    and rs: "rs = (b, r) # rs1"
    using Cons.prems(3) by (auto simp: x rbind_eq_Inr_iff)
  have c: "callable (cs i) s proc (handler_fn get (meth proc) rput)" "c_xid (cs i) \<noteq> - 1" "fits (enc a)"
  proof -
    have "unat (c_xid (cs i)) + Suc (length xs) < 2 ^ 32" using Cons.prems(1,2) by (simp add: x clients_ok_def)
    then show "c_xid (cs i) \<noteq> - 1" using room_u32 by blast
  qed (use Cons.prems(1,2) in \<open>simp_all add: x callable_def clients_ok_def\<close>)
  have b: "0 \<le> b" "b < 2 ^ 31" "fits (renc r)" using Cons.prems(4) by (auto simp: rs)
  obtain c' s1 where call: "rpc_call put rget i proc a old (cs i) s st = Inr (c', s1, st1, b, r)"
    "linked c' s1" "same_client (cs i) c'" "same_server s s1" "c_xid c' = c_xid (cs i) + 1"
    "\<forall>d. d \<noteq> c_clt_nonce (cs i) \<longrightarrow> xids_of s1 d = xids_of s d"
    using rpc_call_is_method_call [where ch = i and old = old and rget = rget, OF args(1) c(3) res b(3) c(1,2) m(1) b(1,2)] by blast
  have ok: "clients_ok I (cs(i := c')) s1 (length xs)"
    using clients_ok_step [where cs = cs and i = i and n = "length xs", OF _ _ call(2,3,5,4,6)] Cons.prems(1,2) by (simp add: x)
  have procs: "\<forall>(i, proc, a, old) \<in> set xs. i \<in> I \<and> proc \<noteq> proc_bind \<and> fits (enc a) \<and>
      rs_procs s1 proc = Some (handler_fn get (meth proc) rput)"
    using Cons.prems(1) call(4) by (auto simp: same_server_def)
  have "\<exists>cs' s'. remote_calls put rget xs (cs(i := c')) s1 st1 = Inr (cs', s', st', rs1)"
    by (rule Cons.IH [OF procs ok m(2)]) (use Cons.prems(4) in \<open>simp add: rs\<close>)
  then show ?case by (auto simp: x rs call(1))
qed

section \<open>Binding and restarted servers\<close>

definition rpc_bind :: "nat \<Rightarrow> rpcc \<Rightarrow> 's rpcs \<Rightarrow> 's \<Rightarrow> (rpcc \<times> 's rpcs \<times> 's \<times> status) res" where
  "rpc_bind ch c s st =
     rbind (rpc_call put_int (\<lambda>_. get_int) ch proc_bind 0 0 c s st) (\<lambda>(c, s, st, ret, r).
     let (c, ret) = rpcc_bind c ret r in Inr (c, s, st, ret))"

text \<open>A call whose server never answers.\<close>

definition call1_lost :: "u32 \<Rightarrow> rpcc \<Rightarrow> rpcc \<times> status" where
  "call1_lost proc c =
     (case call1_begin c proc of (c, Inl e) \<Rightarrow> (c, e) | (c, Inr h) \<Rightarrow> call1_end c (h_xid h))"

definition bind_handler :: "u32 \<Rightarrow> 's handler" where
  "bind_handler nonce = handler_fn get_int (\<lambda>a st. Inr (0, nonce, st)) put_int"

lemma rpcs_new_eq: "\<exists>s. rpcs_new port nonce count = Inr s \<and> rs_procs s = [proc_bind \<mapsto> bind_handler nonce] \<and>
    rs_nonce s = nonce \<and> rs_reachable s \<and> rs_window s = Map.empty"
  by (simp add: rpcs_new_def reg1_def rpcbind_def bind_handler_def Let_def)

lemma reg1_new: "rs_procs s proc = None \<Longrightarrow> reg1 s proc f = Inr (s\<lparr>rs_procs := (rs_procs s)(proc \<mapsto> f)\<rparr>)"
  by (simp add: reg1_def)

lemma linked_new:
  "rs_reachable s \<Longrightarrow> rw_ok (rs_window s) \<Longrightarrow> xids_of s (if retrans then nonce else 0) = {} \<Longrightarrow>
    linked (rpcc_new retrans nonce) s"
  using client_inv_new [of retrans nonce] by (simp add: linked_def rpcc_new_def)

text \<open>a client that binds learns the nonce of the server it has reached, and can call it from then on.\<close>

theorem bind_connects:
  assumes "linked c s" and "\<not> c_bind_done c" and "c_xid c \<noteq> - 1"
    and "rs_procs s proc_bind = Some (bind_handler (rs_nonce s))"
  shows "\<exists>c' s'. rpc_bind ch c s st = Inr (c', s', st, 0) \<and> linked c' s' \<and> c_bind_done c' \<and>
    c_srv_nonce c' = rs_nonce s \<and> c_xid c' = c_xid c + 1 \<and> c_clt_nonce c' = c_clt_nonce c \<and>
    same_server s s' \<and> (\<forall>d. d \<noteq> c_clt_nonce c \<longrightarrow> xids_of s' d = xids_of s d)"
proof -
  have cb: "callable c s proc_bind (handler_fn get_int (\<lambda>a st. Inr (0, rs_nonce s, st)) put_int)"
    using assms by (simp add: callable_def bind_handler_def)
  obtain c' s' where call: "rpc_call put_int (\<lambda>_. get_int) ch proc_bind 0 0 c s st = Inr (c', s', st, 0, rs_nonce s)"
    "linked c' s'" "same_client c c'" "same_server s s'" "c_xid c' = c_xid c + 1"
    "\<forall>d. d \<noteq> c_clt_nonce c \<longrightarrow> xids_of s' d = xids_of s d"
    using rpc_call_is_method_call [where rget = "\<lambda>_. get_int" and ch = ch and old = 0 and a = 0 and st = st,
        OF int.codec_axioms _ int.codec_axioms _ cb assms(3) refl] by (auto simp: fits_def)
  let ?c = "c'\<lparr>c_bind_done := True, c_srv_nonce := rs_nonce s\<rparr>"
  have "client_inv (fst (rpcc_bind c' 0 (rs_nonce s)))"
    using call(2) by (intro client_inv_bind) (simp add: linked_def)
  then have "linked ?c s'" using call(2,4) by (simp add: linked_def rpcc_bind_def same_server_def)
  moreover have "rpc_bind ch c s st = Inr (?c, s', st, 0)" by (simp add: rpc_bind_def call(1) rpcc_bind_def)
  ultimately show ?thesis using call(3-6) by (simp add: same_client_def)
qed

text \<open>C26: a client bound to an earlier instance of a server gets \<open>oldsrv_failure\<close> from its successor,
  which runs nothing; the reference to the connection that \<open>got_pdu\<close> took is not given back.\<close>

theorem restarted_server_refuses:
  assumes l: "linked c s0" and x: "c_bind_done c" "c_xid c \<noteq> - 1" "proc \<noteq> proc_bind"
    and s: "rs_reachable s" "c_srv_nonce c \<noteq> 0" "c_srv_nonce c \<noteq> rs_nonce s"
    and args: "codec put get enc" "fits (enc a)"
  shows "\<exists>c'. rpc_call put rget ch proc a old c s st = Inr (c', incref ch s, st, rpc_oldsrv_failure, old)"
proof -
  let ?m = "put marshall_new a" and ?x = "c_xid c"
  note m = stub_buffer [OF args]
  define ca where "ca = \<lparr>ca_xid = ?x, ca_un = unmarshall_empty, ca_intret = 0, ca_done = False\<rparr>"
  define h where "h = \<lparr>h_xid = ?x, h_proc = proc, h_clt_nonce = c_clt_nonce c,
    h_srv_nonce = c_srv_nonce c, h_xid_rep = hd (c_window c)\<rparr>"
  define c1 where "c1 = c\<lparr>c_xid := ?x + 1, c_calls := (c_calls c)(?x \<mapsto> ca)\<rparr>"
  let ?r = "reply_pdu ?x rpc_oldsrv_failure marshall_new"
  have start: "call1_begin c proc = (c1, Inr h)"
    using x l by (auto simp: call1_begin_def linked_def Let_def c1_def h_def ca_def)
  obtain u where u: "unpack_req_header (unmarshall_buf (m_pdu (pack_req_header ?m h))) = (h, u)" "u_ok u"
    using request_unpacked [OF m(1-3)] by blast
  have sv: "serve ch (m_pdu (pack_req_header ?m h)) s st = Inr (incref ch s, st, Some ?r)"
    using u s by (simp add: serve_def rpcs_got_pdu_def dispatch_begin_def h_def)
  have new: "m_wf marshall_new" "24 \<le> m_ind marshall_new" "m_ind marshall_new < 2 ^ 31"
    by (simp_all add: m_wf_new) (simp_all add: marshall_new_def)
  have ret: "- (2 ^ 31) \<le> rpc_oldsrv_failure" "rpc_oldsrv_failure < 2 ^ 31" by (simp_all add: rpc_const_defs)
  have ca1: "c_calls c1 ?x = Some ca" "\<not> ca_done ca" by (simp_all add: c1_def ca_def)
  obtain un where got: "rpcc_got_pdu c1 ?r = c1\<lparr>c_window := update_xid_rep (c_window c1) ?x,
        c_calls := (c_calls c1)(?x \<mapsto> ca\<lparr>ca_un := un, ca_intret := rpc_oldsrv_failure, ca_done := True\<rparr>)\<rparr>"
    by (rule got_reply [OF new ret ca1])
  define c2 where "c2 = rpcc_got_pdu c1 ?r"
  have "c_calls c2 ?x = Some (ca\<lparr>ca_un := un, ca_intret := rpc_oldsrv_failure, ca_done := True\<rparr>)" by (simp add: c2_def got)
  then have "call1_over ch proc ?m c s st =
      Inr (fst (call1_end c2 ?x), incref ch s, st, rpc_oldsrv_failure, un)"
    using start sv unfolding call1_over_def by (simp add: h_def Let_def call1_end_def flip: c2_def)
  then show ?thesis
    by (simp add: rpc_call_def rpcc_call_args_def rpcc_call_m_def rpc_const_defs)
qed

section \<open>Examples\<close>

definition ex_inc :: "u32 \<Rightarrow> unit \<Rightarrow> (status \<times> u32 \<times> unit) res" where
  "ex_inc a st = Inr (0, a + 1, st)"

definition ex_srv :: "u32 \<Rightarrow> unit rpcs" where
  "ex_srv nonce = projr (reg1 (projr (rpcs_new 9000 nonce 0)) 23 (handler_fn get_int ex_inc put_int))"

definition ex_clt :: "u32 \<Rightarrow> rpcc" where
  "ex_clt nonce = fst (rpcc_bind (rpcc_new True nonce) 0 5)"

lemma ex_srv_simps:
  "rs_procs (ex_srv n) 23 = Some (handler_fn get_int ex_inc put_int)" "rs_nonce (ex_srv n) = n"
  "rs_reachable (ex_srv n)" "rs_window (ex_srv n) = Map.empty"
  "rs_procs (ex_srv n) proc_bind = Some (bind_handler n)"
  by (simp_all add: ex_srv_def rpcs_new_def reg1_def Let_def bind_handler_def rpcbind_def proc_bind_def)

lemma ex_clt_simps:
  "c_bind_done (ex_clt n)" "c_srv_nonce (ex_clt n) = 5" "c_clt_nonce (ex_clt n) = n" "c_xid (ex_clt n) = 1"
  by (simp_all add: ex_clt_def rpcc_bind_def rpcc_new_def)

lemma ex_linked: "linked (ex_clt n) (ex_srv 5)"
  using client_inv_bind [OF client_inv_new, of True n 0 5]
  by (simp add: linked_def ex_clt_def ex_srv_simps rw_ok_def xids_of_def)
    (simp add: rpcc_bind_def rpcc_new_def)

lemma ex_callable: "callable (ex_clt n) (ex_srv 5) 23 (handler_fn get_int ex_inc put_int)"
  by (simp add: callable_def ex_linked ex_clt_simps ex_srv_simps proc_bind_def)

theorem rpc_call_is_method_call_witness:
  "\<exists>c' s'. rpc_call put_int (\<lambda>_. get_int) 3 23 41 0 (ex_clt 9) (ex_srv 5) () = Inr (c', s', (), 0, 42) \<and> c_xid c' = 2"
proof -
  have "ex_inc 41 () = Inr (0, 42, ())" by (simp add: ex_inc_def)
  from rpc_call_is_method_call [where ch = 3 and old = 0, OF int.codec_axioms _ int.codec_axioms _ ex_callable [of 9] _ this]
  show ?thesis by (auto simp: fits_def ex_clt_simps)
qed

theorem wrong_arguments_refused_witness:
  "\<exists>c' s'. rpc_call put_u64 (\<lambda>_. get_int) 3 23 41 7 (ex_clt 9) (ex_srv 5) () =
    Inr (c', s', (), rpc_unmarshal_args_failure, 7)"
proof -
  have get: "\<exists>x v. get_int u = Inr (x, v) \<and> \<not> u_okdone v"
    if u: "u_wf u" "u_ok u" "u_rest u = enc_u64 41" for u
  proof -
    have "get_int u = Inr (ucast (drop_bit 32 (41 :: u64)), u_adv (length (be32 (ucast (drop_bit 32 (41 :: u64))))) u)"
      by (rule int.get_enc [OF u(1,2), where rest = "be32 (ucast (41 :: u64))"]) (simp add: u(3) enc_u64_def)
    moreover have "length (u_rest u) = 8" by (simp add: u(3) enc_u64_def)
    moreover have "u_sz u = u_ind u + 8" using calculation(2) length_u_rest [OF u(1)] by simp
    ultimately show ?thesis by (simp add: u_okdone_def)
  qed
  from wrong_arguments_refused [where ch = 3 and old = 7 and a = 41 and rget = "\<lambda>_. get_int" and st = "()",
      OF u64.codec_axioms _ ex_callable [of 9] _ get]
  show ?thesis by (auto simp: fits_def enc_u64_def ex_clt_simps)
qed

theorem remote_calls_are_local_calls_witness:
  "\<exists>cs' s'. remote_calls put_int (\<lambda>_. get_int) [(2, 23, 41, 0), (1, 23, 6, 0)] (\<lambda>i. ex_clt (of_nat i)) (ex_srv 5) ()
    = Inr (cs', s', (), [(0, 42), (0, 7)])"
proof -
  let ?xs = "[(2 :: nat, 23 :: u32, 41 :: u32, 0 :: u32), (1, 23, 6, 0)]"
  have l: "local_calls (\<lambda>_. ex_inc) ?xs () = Inr ((), [(0, 42), (0, 7)])" by (simp add: ex_inc_def)
  have ok: "clients_ok {1, 2} (\<lambda>i. ex_clt (of_nat i)) (ex_srv 5) (length ?xs)"
    by (simp add: clients_ok_def ex_linked ex_clt_simps)
  have procs: "\<forall>(i, proc, a, old) \<in> set ?xs. i \<in> {1, 2} \<and> proc \<noteq> proc_bind \<and> fits (be32 a) \<and>
      rs_procs (ex_srv 5) proc = Some (handler_fn get_int ex_inc put_int)"
    by (simp add: proc_bind_def fits_def ex_srv_simps)
  show ?thesis
    by (rule remote_calls_are_local_calls [OF int.codec_axioms procs int.codec_axioms ok l]) (simp add: fits_def)
qed

theorem bind_connects_witness:
  "\<exists>c' s'. rpc_bind 3 (rpcc_new True 9) (ex_srv 5) () = Inr (c', s', (), 0) \<and> c_srv_nonce c' = 5"
proof -
  have "linked (rpcc_new True 9) (ex_srv 5)"
    by (rule linked_new) (simp_all add: ex_srv_simps rw_ok_def xids_of_def)
  from bind_connects [OF this, of 3 "()"] show ?thesis
    by (auto simp: ex_srv_simps) (auto simp: rpcc_new_def)
qed

theorem restarted_server_refuses_witness:
  "\<exists>c'. rpc_call put_int (\<lambda>_. get_int) 3 23 41 7 (ex_clt 9) (ex_srv 6) () =
    Inr (c', incref 3 (ex_srv 6), (), rpc_oldsrv_failure, 7)"
  using restarted_server_refuses [where ch = 3 and old = 7 and a = 41 and proc = 23 and s = "ex_srv 6" and st = "()"
      and rget = "\<lambda>_. get_int", OF ex_linked [of 9] _ _ _ _ _ _ int.codec_axioms]
  by (auto simp: ex_clt_simps ex_srv_simps fits_def proc_bind_def)

end
