(* ===== verification/RpcLossy.thy ===== *)
theory RpcLossy
  imports RpcCall
begin

text \<open>
  Calls over connections that fail.  Each turn of the loop in \<open>call1\<close> that has to transmit uses a new
  connection; the connection may die before the request arrives, or after the server has taken it
  and before the reply is back, and then the next turn sends the same request again.  The server's
  reply window makes the method run once all the same: the theorems compose the retransmission of
  the client (theory \<open>RpcClient\<close>) with the duplicate detection of the server (theory \<open>RpcServer\<close>).
\<close>

section \<open>A call with retransmissions\<close>

text \<open>An attempt: the connection, whether the request arrives, whether the reply comes back.\<close>

type_synonym attempt = "nat \<times> bool \<times> bool"

fun arrives :: "attempt list \<Rightarrow> bool" where
  "arrives [] = False"
| "arrives ((ch, ar, bk) # as) = (ar \<or> arrives as)"

fun comes_back :: "attempt list \<Rightarrow> bool" where
  "comes_back [] = False"
| "comes_back ((ch, ar, bk) # as) = (ar \<and> bk \<or> comes_back as)"

lemma comes_back_arrives: "comes_back as \<Longrightarrow> arrives as"
  by (induction as rule: comes_back.induct) auto

text \<open>The attempts of a call, up to the first whose reply comes back.\<close>

fun transmit :: "attempt list \<Rightarrow> byte list \<Rightarrow> rpcc \<Rightarrow> 's rpcs \<Rightarrow> 's \<Rightarrow> (rpcc \<times> 's rpcs \<times> 's) res" where
  "transmit [] b c s st = Inr (c, s, st)"
| "transmit ((ch, ar, bk) # as) b c s st =
     (if \<not> ar then transmit as b c s st
      else rbind (serve ch b s st) (\<lambda>(s, st, r).
        case r of
          None \<Rightarrow> transmit as b c s st
        | Some p \<Rightarrow> if bk then Inr (rpcc_got_pdu c p, s, st) else transmit as b c s st))"

definition call1_lossy ::
  "attempt list \<Rightarrow> u32 \<Rightarrow> marshall \<Rightarrow> rpcc \<Rightarrow> 's rpcs \<Rightarrow> 's \<Rightarrow> (rpcc \<times> 's rpcs \<times> 's \<times> status \<times> unmarshall) res"
where
  "call1_lossy as proc m c s st =
     (case call1_begin c proc of
        (c, Inl e) \<Rightarrow> Inr (c, s, st, e, unmarshall_empty)
      | (c, Inr h) \<Rightarrow>
          rbind (transmit as (m_pdu (pack_req_header m h)) c s st) (\<lambda>(c, s, st).
            let un = (case c_calls c (h_xid h) of Some ca \<Rightarrow> ca_un ca | None \<Rightarrow> unmarshall_empty);
                (c, ret) = call1_end c (h_xid h)
            in Inr (c, s, st, ret, un)))"

definition rpc_call_lossy ::
  "(marshall \<Rightarrow> 'a \<Rightarrow> marshall) \<Rightarrow> ('r \<Rightarrow> unmarshall \<Rightarrow> ('r \<times> unmarshall) res) \<Rightarrow> attempt list \<Rightarrow> u32 \<Rightarrow> 'a \<Rightarrow> 'r \<Rightarrow>
   rpcc \<Rightarrow> 's rpcs \<Rightarrow> 's \<Rightarrow> (rpcc \<times> 's rpcs \<times> 's \<times> status \<times> 'r) res"
where
  "rpc_call_lossy put get as proc a old c s st =
     rbind (call1_lossy as proc (rpcc_call_args [\<lambda>m. put m a]) c s st) (\<lambda>(c, s, st, ret, un).
     rbind (rpcc_call_m (get old) old ret un) (\<lambda>(ret, r). Inr (c, s, st, ret, r)))"

text \<open>Over a connection that holds it is the call of theory \<open>RpcCall\<close>.\<close>

lemma call1_lossy_over: "call1_lossy [(ch, True, True)] proc m c s st = call1_over ch proc m c s st"
  by (auto simp: call1_lossy_def call1_over_def Let_def rbind_def split: prod.split sum.split option.split)

lemma rpc_call_lossy_over: "rpc_call_lossy put get [(ch, True, True)] proc a old c s st = rpc_call put get ch proc a old c s st"
  by (simp add: rpc_call_lossy_def rpc_call_def call1_lossy_over)

section \<open>The server answers a duplicate from its window\<close>

definition serves_as :: "u32 \<Rightarrow> u32 \<Rightarrow> 's rpcs \<Rightarrow> 's rpcs \<Rightarrow> bool" where
  "serves_as clt x s s' \<longleftrightarrow> same_server s s' \<and> rw_ok (rs_window s') \<and>
     xids_of s' clt \<subseteq> insert x (xids_of s clt) \<and> (\<forall>d. d \<noteq> clt \<longrightarrow> xids_of s' d = xids_of s d)"

lemma serves_as_trans: "serves_as clt x s s1 \<Longrightarrow> serves_as clt x s1 s2 \<Longrightarrow> serves_as clt x s s2"
  by (auto simp: serves_as_def same_server_def)

lemma serves_as_refl: "rw_ok (rs_window s) \<Longrightarrow> serves_as clt x s s"
  by (auto simp: serves_as_def same_server_def)

lemma serve_again:
  assumes s: "rs_reachable s" "rw_ok (rs_window s)" "rs_procs s (h_proc h) = Some f"
    and m: "m_wf m" "24 \<le> m_ind m" "m_ind m < 2 ^ 31"
    and h: "h_srv_nonce h = 0 \<or> h_srv_nonce h = rs_nonce s" "h_clt_nonce h \<noteq> 0" and a: "answered s h b"
  obtains s' where "serve ch (m_pdu (pack_req_header m h)) s st = Inr (s', st, Some b)"
    "serves_as (h_clt_nonce h) (h_xid h) s s'" "answered s' h b"
proof -
  let ?clt = "h_clt_nonce h"
  obtain u where u: "unpack_req_header (unmarshall_buf (m_pdu (pack_req_header m h))) = (h, u)" "u_ok u"
    using request_unpacked [OF m] by blast
  obtain w r where w: "rs_window s ?clt = Some w" "find (\<lambda>r. rt_xid r = h_xid h) (window_ack (h_xid_rep h) w) = Some r"
    "rt_cb_present r" "rt_buf r = b"
    using a unfolding answered_def by blast
  let ?rw = "(rs_window s)(?clt \<mapsto> window_ack (h_xid_rep h) w)"
  have ow: "open_window (rs_window s) ?clt = rs_window s" using w(1) by (simp add: open_window_def)
  have k: "checkduplicate_and_update (rs_window s) ?clt (h_xid h) (h_xid_rep h) = Inr (DONE b, ?rw)"
    using check_known [of "rs_window s" ?clt w "h_xid h" "h_xid_rep h" r] w by simp
  define s1 where "s1 = (save_conn ((incref ch s)\<lparr>rs_window := rs_window s\<rparr>) ?clt ch)\<lparr>rs_window := ?rw\<rparr>"
  have db: "dispatch_begin (incref ch s) ch (m_pdu (pack_req_header m h)) = Inr (decref ch s1, Replied b)"
    using u s(3) h ow k by (auto simp: dispatch_begin_def s1_def Let_def)
  have sv: "serve ch (m_pdu (pack_req_header m h)) s st = Inr (decref ch s1, st, Some b)"
    using db s(1) by (simp add: serve_def rpcs_got_pdu_def)
  have sub: "w_xids (window_ack (h_xid_rep h) w) \<subseteq> w_xids w"
    using s(2) w(1) w_xids_ack [of w "h_xid_rep h"] by (auto simp: rw_ok_def)
  have "serves_as ?clt (h_xid h) s (decref ch s1)"
    using check_rw_ok [OF s(2) k] sub w(1) by (auto simp: serves_as_def s1_def xids_of_def same_server_def)
  moreover have "window_ack (h_xid_rep h) (window_ack (h_xid_rep h) w) = window_ack (h_xid_rep h) w"
    by (simp add: window_ack_def dropWhile_idem)
  then have "answered (decref ch s1) h b" using w by (simp add: answered_def s1_def)
  ultimately show thesis using that [OF sv] by blast
qed

text \<open>Once the request has been answered, every further copy of it gets the same reply.\<close>

lemma transmit_again:
  assumes "rs_reachable s" "rw_ok (rs_window s)" "rs_procs s (h_proc h) = Some f"
    and m: "m_wf m" "24 \<le> m_ind m" "m_ind m < 2 ^ 31"
    and "h_srv_nonce h = 0 \<or> h_srv_nonce h = rs_nonce s" and n: "h_clt_nonce h \<noteq> 0" and "answered s h b"
  shows "\<exists>s'. transmit as (m_pdu (pack_req_header m h)) c s st =
      Inr (if comes_back as then rpcc_got_pdu c b else c, s', st) \<and> serves_as (h_clt_nonce h) (h_xid h) s s'"
  using assms(1-3,7,9)
proof (induction as arbitrary: s)
  case Nil
  then show ?case by (auto intro: serves_as_refl)
next
  case (Cons a as)
  obtain ch ar bk where a: "a = (ch, ar, bk)" by (cases a)
  show ?case
  proof (cases ar)
    case False
    then show ?thesis using Cons by (auto simp: a)
  next
    case True
    obtain s1 where s1: "serve ch (m_pdu (pack_req_header m h)) s st = Inr (s1, st, Some b)"
      "serves_as (h_clt_nonce h) (h_xid h) s s1" "answered s1 h b"
      by (rule serve_again [OF Cons.prems(1-3) m Cons.prems(4) n Cons.prems(5)])
    show ?thesis
    proof (cases bk)
      case True
      then show ?thesis using \<open>ar\<close> s1 by (auto simp: a)
    next
      case False
      have "rs_reachable s1" "rw_ok (rs_window s1)" "rs_procs s1 (h_proc h) = Some f"
        "h_srv_nonce h = 0 \<or> h_srv_nonce h = rs_nonce s1"
        using s1(2) Cons.prems by (auto simp: serves_as_def same_server_def)
      from Cons.IH [OF this s1(3)] show ?thesis
        using \<open>ar\<close> False s1(1) serves_as_trans [OF s1(2)] by (auto simp: a)
    qed
  qed
qed

text \<open>A request that is new to the server runs at its first arrival, and only then.\<close>

lemma transmit_runs_once:
  assumes s: "rs_reachable s" "rw_ok (rs_window s)" "rs_procs s (h_proc h) = Some f"
    and m: "m_wf m" "24 \<le> m_ind m" "m_ind m < 2 ^ 31"
    and h: "h_srv_nonce h = 0 \<or> h_srv_nonce h = rs_nonce s" "h_xid h \<notin> xids_of s (h_clt_nonce h)" "h_xid_rep h < h_xid h"
    and n: "h_clt_nonce h \<noteq> 0 \<or> length as \<le> 1"
    and f: "\<And>u. u_wf u \<Longrightarrow> u_ok u \<Longrightarrow> u_rest u = m_content m \<Longrightarrow> f u marshall_new st = Inr (ret, rep, st')"
    and ret: "ret \<ge> 0 \<or> ret = rpc_unmarshal_args_failure"
  shows "\<exists>s'. transmit as (m_pdu (pack_req_header m h)) c s st =
      Inr (if comes_back as then rpcc_got_pdu c (reply_pdu (h_xid h) ret rep) else c, s', if arrives as then st' else st) \<and>
    serves_as (h_clt_nonce h) (h_xid h) s s'"
  using n
proof (induction as)
  case Nil
  then show ?case using s(2) by (auto intro: serves_as_refl)
next
  case (Cons a as)
  obtain ch ar bk where a: "a = (ch, ar, bk)" by (cases a)
  show ?case
  proof (cases ar)
    case False
    then show ?thesis using Cons by (auto simp: a)
  next
    case True
    let ?b = "reply_pdu (h_xid h) ret rep"
    have le: "h_xid_rep h \<le> h_xid h" using h(3) by simp
    obtain s1 where s1: "serve ch (m_pdu (pack_req_header m h)) s st = Inr (s1, st', Some ?b)"
      "serves_as (h_clt_nonce h) (h_xid h) s s1" "h_clt_nonce h \<noteq> 0 \<longrightarrow> answered s1 h ?b"
      using serve_runs [of s h f m st ret rep st' ch, OF s m h(1,2) le f ret] h(3) unfolding serves_as_def by blast
    show ?thesis
    proof (cases "bk \<or> as = []")
      case True
      then show ?thesis using \<open>ar\<close> s1 by (auto simp: a)
    next
      case False
      then have nz: "h_clt_nonce h \<noteq> 0" using Cons.prems by (cases as) auto
      have k: "rs_reachable s1" "rw_ok (rs_window s1)" "rs_procs s1 (h_proc h) = Some f"
        "h_srv_nonce h = 0 \<or> h_srv_nonce h = rs_nonce s1"
        using s1(2) s h(1) by (auto simp: serves_as_def same_server_def)
      have "answered s1 h ?b" using s1(3) nz by blast
      from transmit_again [OF k(1-3) m k(4) nz this] show ?thesis
        using \<open>ar\<close> False s1(1) serves_as_trans [OF s1(2)] by (fastforce simp: a)
    qed
  qed
qed

section \<open>A call runs once\<close>

lemma call1_lossy_runs:
  assumes l: "linked c s" and x: "c_xid c \<noteq> - 1" and p: "c_bind_done c \<longleftrightarrow> proc \<noteq> proc_bind"
    and n: "c_clt_nonce c \<noteq> 0 \<or> length as \<le> 1"
    and f: "rs_procs s proc = Some f" "\<And>u. u_wf u \<Longrightarrow> u_ok u \<Longrightarrow> u_rest u = m_content m \<Longrightarrow>
      f u marshall_new st = Inr (ret, rep, st')"
    and m: "m_wf m" "24 \<le> m_ind m" "m_ind m < 2 ^ 31"
    and ret: "ret \<ge> 0 \<or> ret = rpc_unmarshal_args_failure" "ret < 2 ^ 31"
    and rep: "m_wf rep" "24 \<le> m_ind rep" "m_ind rep < 2 ^ 31"
  obtains c' s' un where "call1_lossy as proc m c s st =
      Inr (c', s', if arrives as then st' else st, if comes_back as then ret else rpc_timeout_failure, un)"
    "linked c' s'" "same_client c c'" "c_xid c' = c_xid c + 1" "same_server s s'"
    "comes_back as \<longrightarrow> u_wf un \<and> u_ok un \<and> u_rest un = m_content rep"
    "\<forall>d. d \<noteq> c_clt_nonce c \<longrightarrow> xids_of s' d = xids_of s d"
proof -
  let ?x = "c_xid c"
  have k: "client_inv c" "\<not> c_destroy_wait c" "c_calls c = Map.empty" using l by (auto simp: linked_def)
  obtain c1 h where start: "call1_begin c proc = (c1, Inr h)" "client_inv c1" "same_client c c1" "c_xid c1 = ?x + 1"
    "c_calls c1 = [?x \<mapsto> \<lparr>ca_xid = ?x, ca_un = unmarshall_empty, ca_intret = 0, ca_done = False\<rparr>]"
    and h: "h_xid h = ?x" "h_proc h = proc" "h_clt_nonce h = c_clt_nonce c" "h_srv_nonce h = c_srv_nonce c"
      "h_xid_rep h < h_xid h"
    by (rule call_starts [OF k(1,2) p k(3) x])
  let ?b = "reply_pdu ?x ret rep" and ?st = "if arrives as then st' else st"
  let ?c = "if comes_back as then rpcc_got_pdu c1 ?b else c1"
  obtain s' where s': "transmit as (m_pdu (pack_req_header m h)) c1 s st = Inr (?c, s', ?st)"
    "serves_as (c_clt_nonce c) ?x s s'"
  proof -
    have "rs_reachable s" "rw_ok (rs_window s)" "rs_procs s (h_proc h) = Some f"
      "h_srv_nonce h = 0 \<or> h_srv_nonce h = rs_nonce s" "h_xid h \<notin> xids_of s (h_clt_nonce h)"
      using l f(1) h by (auto simp: linked_def)
    then show thesis
      using transmit_runs_once [of s h f m as st ret rep st' c1, OF _ _ _ m _ _ h(5) _ f(2) ret(1)] n that
      unfolding h by blast
  qed
  have lo: "- (2 ^ 31) \<le> ret" using ret(1) by (auto simp: rpc_const_defs)
  obtain c3 un where fin: "call1_end ?c ?x = (c3, if comes_back as then ret else rpc_timeout_failure)" "client_inv c3"
    "c_calls c3 = Map.empty" "c_xid c3 = c_xid c1" "same_client c1 c3"
    "un = (case c_calls ?c ?x of Some ca \<Rightarrow> ca_un ca | None \<Rightarrow> unmarshall_empty)"
    "comes_back as \<longrightarrow> u_wf un \<and> u_ok un \<and> u_rest un = m_content rep"
  proof (cases "comes_back as")
    case True
    obtain c3 ca where "call1_end (rpcc_got_pdu c1 ?b) ?x = (c3, ret)" "client_inv c3"
      "c_calls c3 = Map.empty" "c_xid c3 = c_xid c1" "same_client c1 c3" "c_calls (rpcc_got_pdu c1 ?b) ?x = Some ca"
      "u_wf (ca_un ca)" "u_ok (ca_un ca)" "u_rest (ca_un ca) = m_content rep"
      by (rule reply_completes [OF start(2,4) x start(5) rep lo ret(2)])
    then show thesis using that [of c3 "ca_un ca"] True by simp
  next
    case False
    obtain c3 where "call1_end c1 ?x = (c3, rpc_timeout_failure)" "client_inv c3"
      "c_calls c3 = Map.empty" "c_xid c3 = c_xid c1" "same_client c1 c3"
      by (rule silence_completes [OF start(2,5)])
    then show thesis using that [OF _ _ _ _ _ refl] False by simp
  qed
  have over: "call1_lossy as proc m c s st =
      Inr (c3, s', ?st, if comes_back as then ret else rpc_timeout_failure, un)"
    using start(1) s'(1) fin(1,6) unfolding call1_lossy_def by (simp add: h(1) Let_def)
  have c3: "same_client c c3" "c_xid c3 = ?x + 1" using same_client_trans start(3,4) fin(4,5) by auto
  have "linked c3 s'"
    using linked_after [OF l x fin(2,3) c3] s'(2) unfolding serves_as_def by blast
  then show thesis using that [OF over _ c3] s'(2) fin(7) unfolding serves_as_def by blast
qed

text \<open>However often the request and the reply of a call are lost, the method runs once if any copy of the
  request arrives and not at all otherwise; the call returns what the method returned if any reply
  to a copy comes back, and a timeout otherwise.\<close>

theorem lossy_call_runs_once:
  assumes args: "codec put get enc" "fits (enc a)"
    and res: "\<And>old. codec rput (rget old) renc" "fits (renc r)"
    and call: "callable c s proc (handler_fn get meth rput)" "c_xid c \<noteq> - 1" "c_clt_nonce c \<noteq> 0 \<or> length as \<le> 1"
    and meth: "meth a st = Inr (b, r, st')" "0 \<le> b" "b < 2 ^ 31"
  shows "\<exists>c' s'. rpc_call_lossy put rget as proc a old c s st =
      Inr (c', s', if arrives as then st' else st,
        if comes_back as then b else rpc_timeout_failure, if comes_back as then r else old) \<and>
    linked c' s' \<and> same_client c c' \<and> same_server s s' \<and> c_xid c' = c_xid c + 1 \<and>
    (\<forall>d. d \<noteq> c_clt_nonce c \<longrightarrow> xids_of s' d = xids_of s d)"
proof -
  let ?m = "put marshall_new a" and ?f = "handler_fn get meth rput"
  note m = stub_buffer [OF args] and rep = stub_buffer [OF res(1) [of old] res(2)]
  have l: "linked c s" "c_bind_done c \<longleftrightarrow> proc \<noteq> proc_bind" "rs_procs s proc = Some ?f"
    using call(1) by (simp_all add: callable_def)
  have f: "?f u marshall_new st = Inr (b, rput marshall_new r, st')"
    if "u_wf u" "u_ok u" "u_rest u = m_content ?m" for u
    using read_all [OF args(1) that(1,2)] that(3) m(4) meth(1) by (simp add: handler_fn_def)
  have nonneg: "b \<ge> 0 \<or> b = rpc_unmarshal_args_failure" using meth(2) by blast
  obtain c' s' un where over: "call1_lossy as proc ?m c s st =
      Inr (c', s', if arrives as then st' else st, if comes_back as then b else rpc_timeout_failure, un)"
    "linked c' s'" "same_client c c'" "c_xid c' = c_xid c + 1" "same_server s s'"
    "comes_back as \<longrightarrow> u_wf un \<and> u_ok un \<and> u_rest un = m_content (rput marshall_new r)"
    "\<forall>d. d \<noteq> c_clt_nonce c \<longrightarrow> xids_of s' d = xids_of s d"
    by (rule call1_lossy_runs [where as = as and c = c and s = s and proc = proc and m = ?m and f = ?f
          and st = st and st' = st' and ret = b and rep = "rput marshall_new r",
          OF l(1) call(2) l(2) call(3) l(3) f m(1-3) nonneg meth(3) rep(1-3)])
  have "rpcc_call_m (rget old) old (if comes_back as then b else rpc_timeout_failure) un =
      Inr (if comes_back as then b else rpc_timeout_failure, if comes_back as then r else old)"
  proof (cases "comes_back as")
    case True
    then have "u_wf un" "u_ok un" "u_rest un = renc r" using over(6) rep(4) by auto
    then show ?thesis using read_all [OF res(1)] meth(2) True by (simp add: rpcc_call_m_def)
  qed (simp add: rpcc_call_m_def rpc_const_defs)
  then show ?thesis using over(1-5,7) by (simp add: rpc_call_lossy_def rpcc_call_args_def)
qed

section \<open>Many clients over failing connections\<close>

fun lossy_calls ::
  "(marshall \<Rightarrow> 'a \<Rightarrow> marshall) \<Rightarrow> ('r \<Rightarrow> unmarshall \<Rightarrow> ('r \<times> unmarshall) res) \<Rightarrow>
   (nat \<times> attempt list \<times> u32 \<times> 'a \<times> 'r) list \<Rightarrow> (nat \<Rightarrow> rpcc) \<Rightarrow> 's rpcs \<Rightarrow> 's \<Rightarrow>
   ((nat \<Rightarrow> rpcc) \<times> 's rpcs \<times> 's \<times> (status \<times> 'r) list) res"
where
  "lossy_calls put rget [] cs s st = Inr (cs, s, st, [])"
| "lossy_calls put rget ((i, as, proc, a, old) # xs) cs s st =
     rbind (rpc_call_lossy put rget as proc a old (cs i) s st) (\<lambda>(c, s, st, b, r).
     rbind (lossy_calls put rget xs (cs(i := c)) s st) (\<lambda>(cs, s, st, rs). Inr (cs, s, st, (b, r) # rs)))"

text \<open>The same calls made locally: a method whose request is lost for good is not called, and a result
  whose reply is lost for good is not seen.\<close>

fun unreliable_calls ::
  "(u32 \<Rightarrow> 'a \<Rightarrow> 's \<Rightarrow> (status \<times> 'r \<times> 's) res) \<Rightarrow> (nat \<times> attempt list \<times> u32 \<times> 'a \<times> 'r) list \<Rightarrow> 's \<Rightarrow>
   ('s \<times> (status \<times> 'r) list) res"
where
  "unreliable_calls meth [] st = Inr (st, [])"
| "unreliable_calls meth ((i, as, proc, a, old) # xs) st =
     rbind (if arrives as then meth proc a st else Inr (rpc_timeout_failure, old, st)) (\<lambda>(b, r, st).
     rbind (unreliable_calls meth xs st) (\<lambda>(st, rs).
     Inr (st, (if comes_back as then (b, r) else (rpc_timeout_failure, old)) # rs)))"


text \<open>A counter: the first call gets through at its third attempt, after its request and then its reply
  were lost; the reply to the second never comes back.\<close>

definition ex_count :: "u32 \<Rightarrow> u32 \<Rightarrow> nat \<Rightarrow> (status \<times> u32 \<times> nat) res" where
  "ex_count proc a n = Inr (0, a + of_nat n, Suc n)"

definition ex_counter :: "nat rpcs" where
  "ex_counter = projr (reg1 (projr (rpcs_new 9000 5 0)) 23 (handler_fn get_int (ex_count 23) put_int))"


end
