(* ===== verification/RpcConcurrent.thy ===== *)
theory RpcConcurrent
  imports RpcLossy
begin

text \<open>
  Calls that overlap.  Many threads share clients and many clients share a server: a thread starts a
  call, the server runs it at any later time, the reply arrives at any time after that and in any
  order, and the caller wakes up later still.  The theorem says that every caller gets the reply to
  its own call, and that the calls run on the server as the same calls made locally one after the
  other.
\<close>

section \<open>Procedures as functions on messages\<close>

text \<open>What a handler does with a request, as a function of the marshalled arguments to the status and the
  marshalled result, on the arguments that are legal for it.\<close>

type_synonym 's meth_fn = "byte list \<Rightarrow> 's \<Rightarrow> status \<times> byte list \<times> 's"

definition sendable :: "marshall \<Rightarrow> bool" where
  "sendable m \<longleftrightarrow> m_wf m \<and> 24 \<le> m_ind m \<and> m_ind m < 2 ^ 31"

definition runs_method :: "'s handler \<Rightarrow> (byte list \<Rightarrow> bool) \<Rightarrow> 's meth_fn \<Rightarrow> bool" where
  "runs_method f legal g \<longleftrightarrow> (\<forall>args st ret out st'. legal args \<longrightarrow> g args st = (ret, out, st') \<longrightarrow>
     (ret \<ge> 0 \<or> ret = rpc_unmarshal_args_failure) \<and> ret < 2 ^ 31 \<and>
     (\<exists>rep. sendable rep \<and> m_content rep = out \<and>
       (\<forall>u. u_wf u \<longrightarrow> u_ok u \<longrightarrow> u_rest u = args \<longrightarrow> f u marshall_new st = Inr (ret, rep, st'))))"

text \<open>A registered method is such a function on the encodings of its arguments.\<close>

lemma handler_runs_method:
  assumes c: "codec put get enc" "codec rput rget renc"
    and m: "\<And>a st ret r st'. args a \<Longrightarrow> meth a st = Inr (ret, r, st') \<Longrightarrow>
      0 \<le> ret \<and> ret < 2 ^ 31 \<and> fits (renc r) \<and> g (enc a) st = (ret, renc r, st')"
    and total: "\<And>a st. args a \<Longrightarrow> \<exists>x. meth a st = Inr x"
  shows "runs_method (handler_fn get meth rput) (\<lambda>b. \<exists>a. args a \<and> b = enc a) g"
  unfolding runs_method_def
proof (intro allI impI, elim exE conjE)
  fix b st ret out st' a
  assume g: "g b st = (ret, out, st')" and a: "args a" "b = enc a"
  obtain ret0 r st0 where meth: "meth a st = Inr (ret0, r, st0)" using total [OF a(1)] by (metis prod_cases3)
  have k: "0 \<le> ret" "ret < 2 ^ 31" "fits (renc r)" "ret0 = ret" "st0 = st'" "out = renc r"
    using m [OF a(1) meth] g a(2) by auto
  note rep = stub_buffer [OF c(2) k(3)]
  have "handler_fn get meth rput u marshall_new st = Inr (ret, rput marshall_new r, st')"
    if "u_wf u" "u_ok u" "u_rest u = b" for u
    using read_all [OF c(1) that(1,2)] that(3) a(2) meth k by (simp add: handler_fn_def)
  then show "(ret \<ge> 0 \<or> ret = rpc_unmarshal_args_failure) \<and> ret < 2 ^ 31 \<and>
      (\<exists>rep. sendable rep \<and> m_content rep = out \<and>
        (\<forall>u. u_wf u \<longrightarrow> u_ok u \<longrightarrow> u_rest u = b \<longrightarrow> handler_fn get meth rput u marshall_new st = Inr (ret, rep, st')))"
    using k rep by (intro conjI exI [of _ "rput marshall_new r"]) (auto simp: sendable_def)
qed

text \<open>The argument of a method that takes an integer.\<close>

definition arg_of :: "byte list \<Rightarrow> u32" where
  "arg_of b = fst (u_unpack (u_adv 4 (unmarshall_buf ([0, 0, 0, 0] @ b))))"

lemma arg_of_be32 [simp]: "arg_of (be32 a) = a"
proof -
  let ?u = "u_adv 4 (unmarshall_buf ([0, 0, 0, 0] @ be32 a))"
  have "u_wf ?u" "u_rest ?u = be32 a @ []" by (simp_all add: u_wf_def unmarshall_buf_def u_rest_def be32_def)
  then show ?thesis unfolding arg_of_def using u_unpack_step(1) by (metis fst_conv)
qed

section \<open>Threads, clients and the server\<close>

text \<open>Where a thread is: idle; its request on the way; its reply on the way; its reply taken in by
  the client and the thread not yet awake.  Status and result are noted for the specification.\<close>

datatype phase =
    Idle
  | Asked req_header marshall
  | Told req_header marshall "byte list" status "byte list"
  | Back req_header marshall status "byte list"

fun xid_in :: "phase \<Rightarrow> u32 option" where
  "xid_in Idle = None"
| "xid_in (Asked h m) = Some (h_xid h)"
| "xid_in (Told h m p ret out) = Some (h_xid h)"
| "xid_in (Back h m ret out) = Some (h_xid h)"

record 's net =
  n_cs :: "nat \<Rightarrow> rpcc"
  n_srv :: "'s rpcs"
  n_st :: 's
  n_ph :: "nat \<Rightarrow> phase"
  n_log :: "(nat \<times> u32 \<times> byte list \<times> status \<times> byte list) list"

text \<open>\<open>own\<close> gives the client each thread uses.\<close>

inductive net_step ::
  "(nat \<Rightarrow> nat) \<Rightarrow> (u32 \<Rightarrow> byte list \<Rightarrow> bool) \<Rightarrow> (u32 \<Rightarrow> 's meth_fn) \<Rightarrow> 's net \<Rightarrow> 's net \<Rightarrow> bool"
  for own legal meth where
  ask: "n_ph n t = Idle \<Longrightarrow> c_xid (n_cs n (own t)) \<noteq> - 1 \<Longrightarrow> sendable m \<Longrightarrow> legal proc (m_content m) \<Longrightarrow>
    call1_begin (n_cs n (own t)) proc = (c, Inr h) \<Longrightarrow>
    net_step own legal meth n (n\<lparr>n_cs := (n_cs n)(own t := c), n_ph := (n_ph n)(t := Asked h m)\<rparr>)"
| run: "n_ph n t = Asked h m \<Longrightarrow> serve ch (m_pdu (pack_req_header m h)) (n_srv n) (n_st n) = Inr (s, st, Some p) \<Longrightarrow>
    meth (h_proc h) (m_content m) (n_st n) = (ret, out, st') \<Longrightarrow>
    net_step own legal meth n (n\<lparr>n_srv := s, n_st := st, n_ph := (n_ph n)(t := Told h m p ret out),
      n_log := n_log n @ [(t, h_proc h, m_content m, ret, out)]\<rparr>)"
| tell: "n_ph n t = Told h m p ret out \<Longrightarrow>
    net_step own legal meth n (n\<lparr>n_cs := (n_cs n)(own t := rpcc_got_pdu (n_cs n (own t)) p),
      n_ph := (n_ph n)(t := Back h m ret out)\<rparr>)"
| wake: "n_ph n t = Back h m ret out \<Longrightarrow> call1_end (n_cs n (own t)) (h_xid h) = (c, r) \<Longrightarrow>
    net_step own legal meth n (n\<lparr>n_cs := (n_cs n)(own t := c), n_ph := (n_ph n)(t := Idle)\<rparr>)"

inductive net_reach ::
  "(nat \<Rightarrow> nat) \<Rightarrow> (u32 \<Rightarrow> byte list \<Rightarrow> bool) \<Rightarrow> (u32 \<Rightarrow> 's meth_fn) \<Rightarrow> 's net \<Rightarrow> 's net \<Rightarrow> bool"
  for own legal meth n0 where
  start: "net_reach own legal meth n0 n0"
| step: "net_reach own legal meth n0 n \<Longrightarrow> net_step own legal meth n n' \<Longrightarrow> net_reach own legal meth n0 n'"

definition net_start :: "(nat \<Rightarrow> nat) \<Rightarrow> (u32 \<Rightarrow> byte list \<Rightarrow> bool) \<Rightarrow> (u32 \<Rightarrow> 's meth_fn) \<Rightarrow> 's net \<Rightarrow> bool" where
  "net_start own legal meth n \<longleftrightarrow>
     (\<forall>i \<in> range own. linked (n_cs n i) (n_srv n) \<and> c_bind_done (n_cs n i)) \<and>
     inj_on (\<lambda>i. c_clt_nonce (n_cs n i)) (range own) \<and> n_ph n = (\<lambda>_. Idle) \<and> n_log n = [] \<and>
     (\<forall>proc args. legal proc args \<longrightarrow> proc \<noteq> proc_bind \<and>
        (\<exists>f. rs_procs (n_srv n) proc = Some f \<and> runs_method f (legal proc) (meth proc)))"

text \<open>A log is a local run: every entry is the method's result in the state the entries before it left.\<close>

fun local_run :: "(u32 \<Rightarrow> 's meth_fn) \<Rightarrow> 's \<Rightarrow> (nat \<times> u32 \<times> byte list \<times> status \<times> byte list) list \<Rightarrow> 's \<Rightarrow> bool" where
  "local_run meth st [] st' \<longleftrightarrow> st = st'"
| "local_run meth st ((t, proc, args, ret, out) # l) st' \<longleftrightarrow>
     (case meth proc args st of (ret1, out1, st1) \<Rightarrow> ret1 = ret \<and> out1 = out \<and> local_run meth st1 l st')"

lemma local_run_append:
  "local_run meth st l st1 \<Longrightarrow> meth proc args st1 = (ret, out, st2) \<Longrightarrow>
    local_run meth st (l @ [(t, proc, args, ret, out)]) st2"
  by (induction meth st l st1 rule: local_run.induct) (auto split: prod.splits)

definition last_call :: "(nat \<times> u32 \<times> byte list \<times> status \<times> byte list) list \<Rightarrow> nat \<Rightarrow> u32 \<Rightarrow> byte list \<Rightarrow> status \<Rightarrow> byte list \<Rightarrow> bool" where
  "last_call l t proc args ret out \<longleftrightarrow>
     (\<exists>pre post. l = pre @ (t, proc, args, ret, out) # post \<and> (\<forall>e \<in> set post. fst e \<noteq> t))"

lemma last_call_append:
  "last_call (l @ [(t, proc, args, ret, out)]) t proc args ret out"
  "u \<noteq> t \<Longrightarrow> last_call l t p a r z \<Longrightarrow> last_call (l @ [(u, proc, args, ret, out)]) t p a r z"
  unfolding last_call_def by (fastforce, fastforce)

section \<open>The invariant\<close>

definition waiting :: "rpcc \<Rightarrow> u32 \<Rightarrow> bool" where
  "waiting c x \<longleftrightarrow> (\<exists>ca. c_calls c x = Some ca \<and> \<not> ca_done ca)"

fun phase_ok :: "(u32 \<Rightarrow> byte list \<Rightarrow> bool) \<Rightarrow> rpcc \<Rightarrow> 's rpcs \<Rightarrow> phase \<Rightarrow> bool" where
  "phase_ok legal c s Idle = True"
| "phase_ok legal c s (Asked h m) \<longleftrightarrow> sendable m \<and> legal (h_proc h) (m_content m) \<and> h_clt_nonce h = c_clt_nonce c \<and>
     (h_srv_nonce h = 0 \<or> h_srv_nonce h = rs_nonce s) \<and> h_xid_rep h < h_xid h \<and>
     h_xid h \<notin> xids_of s (c_clt_nonce c) \<and> waiting c (h_xid h)"
| "phase_ok legal c s (Told h m p ret out) \<longleftrightarrow> waiting c (h_xid h) \<and>
     - (2 ^ 31) \<le> ret \<and> ret < 2 ^ 31 \<and>
     (\<exists>rep. p = reply_pdu (h_xid h) ret rep \<and> sendable rep \<and> m_content rep = out)"
| "phase_ok legal c s (Back h m ret out) \<longleftrightarrow>
     (\<exists>ca. c_calls c (h_xid h) = Some ca \<and> ca_done ca \<and> ca_intret ca = ret \<and>
        u_wf (ca_un ca) \<and> u_ok (ca_un ca) \<and> u_rest (ca_un ca) = out)"

lemma phase_ok_frame:
  assumes "phase_ok legal c s ph" and "c_clt_nonce c' = c_clt_nonce c" and "rs_nonce s' = rs_nonce s"
    and "\<And>x. xid_in ph = Some x \<Longrightarrow> c_calls c' x = c_calls c x \<and> (x \<in> xids_of s' (c_clt_nonce c) \<longrightarrow> x \<in> xids_of s (c_clt_nonce c))"
  shows "phase_ok legal c' s' ph"
  using assms by (cases ph) (auto simp: waiting_def)

definition clients_fine :: "(nat \<Rightarrow> nat) \<Rightarrow> (nat \<Rightarrow> rpcc) \<Rightarrow> 's rpcs \<Rightarrow> bool" where
  "clients_fine own cs s \<longleftrightarrow> (\<forall>i \<in> range own. client_inv (cs i) \<and> \<not> c_destroy_wait (cs i) \<and> c_bind_done (cs i) \<and>
     (c_srv_nonce (cs i) = 0 \<or> c_srv_nonce (cs i) = rs_nonce s) \<and>
     (\<forall>x \<in> xids_of s (c_clt_nonce (cs i)). x < c_xid (cs i))) \<and>
     inj_on (\<lambda>i. c_clt_nonce (cs i)) (range own)"

definition server_fine :: "(u32 \<Rightarrow> byte list \<Rightarrow> bool) \<Rightarrow> (u32 \<Rightarrow> 's meth_fn) \<Rightarrow> 's rpcs \<Rightarrow> bool" where
  "server_fine legal meth s \<longleftrightarrow> rs_reachable s \<and> rw_ok (rs_window s) \<and>
     (\<forall>proc args. legal proc args \<longrightarrow> proc \<noteq> proc_bind \<and>
        (\<exists>f. rs_procs s proc = Some f \<and> runs_method f (legal proc) (meth proc)))"

definition apart :: "(nat \<Rightarrow> nat) \<Rightarrow> (nat \<Rightarrow> phase) \<Rightarrow> bool" where
  "apart own ph \<longleftrightarrow> (\<forall>t u x. t \<noteq> u \<longrightarrow> own t = own u \<longrightarrow> xid_in (ph t) = Some x \<longrightarrow> xid_in (ph u) \<noteq> Some x)"

fun logged :: "(nat \<times> u32 \<times> byte list \<times> status \<times> byte list) list \<Rightarrow> nat \<Rightarrow> phase \<Rightarrow> bool" where
  "logged l t (Told h m p ret out) = last_call l t (h_proc h) (m_content m) ret out"
| "logged l t (Back h m ret out) = last_call l t (h_proc h) (m_content m) ret out"
| "logged l t ph = True"

definition net_inv :: "(nat \<Rightarrow> nat) \<Rightarrow> (u32 \<Rightarrow> byte list \<Rightarrow> bool) \<Rightarrow> (u32 \<Rightarrow> 's meth_fn) \<Rightarrow> 's \<Rightarrow> 's net \<Rightarrow> bool" where
  "net_inv own legal meth st0 n \<longleftrightarrow> clients_fine own (n_cs n) (n_srv n) \<and> server_fine legal meth (n_srv n) \<and>
     apart own (n_ph n) \<and> (\<forall>t. phase_ok legal (n_cs n (own t)) (n_srv n) (n_ph n t)) \<and>
     (\<forall>t. logged (n_log n) t (n_ph n t)) \<and> local_run meth st0 (n_log n) (n_st n)"

lemma net_inv_start: "net_start own legal meth n \<Longrightarrow> net_inv own legal meth (n_st n) n"
proof -
  assume s: "net_start own legal meth n"
  have "own 0 \<in> range own" by blast
  then have "linked (n_cs n (own 0)) (n_srv n)" using s by (simp add: net_start_def)
  then show ?thesis using s
    by (auto simp: net_inv_def net_start_def clients_fine_def server_fine_def apart_def linked_def)
qed

text \<open>A step of one client: its other threads keep what they wait for.\<close>

lemma net_inv_client:
  assumes inv: "net_inv own legal meth st0 n"
    and c: "client_inv c" "c_clt_nonce c = c_clt_nonce (n_cs n (own t))" "c_srv_nonce c = c_srv_nonce (n_cs n (own t))"
      "c_bind_done c = c_bind_done (n_cs n (own t))" "c_destroy_wait c = c_destroy_wait (n_cs n (own t))"
      "c_xid (n_cs n (own t)) \<le> c_xid c"
    and others: "\<And>x u. u \<noteq> t \<Longrightarrow> own u = own t \<Longrightarrow> xid_in (n_ph n u) = Some x \<Longrightarrow> c_calls c x = c_calls (n_cs n (own t)) x"
    and ph: "phase_ok legal c (n_srv n) ph" "logged (n_log n) t ph"
      "\<And>x u. u \<noteq> t \<Longrightarrow> own u = own t \<Longrightarrow> xid_in ph = Some x \<Longrightarrow> xid_in (n_ph n u) \<noteq> Some x"
  shows "net_inv own legal meth st0 (n\<lparr>n_cs := (n_cs n)(own t := c), n_ph := (n_ph n)(t := ph)\<rparr>)"
proof -
  note I = inv [unfolded net_inv_def]
  let ?cs = "(n_cs n)(own t := c)"
  have nonce: "c_clt_nonce (?cs i) = c_clt_nonce (n_cs n i)" for i using c(2) by simp
  have "clients_fine own (n_cs n) (n_srv n)" using I by blast
  then have "clients_fine own ?cs (n_srv n)"
    unfolding clients_fine_def nonce using c by (auto intro: less_le_trans)
  moreover have "apart own ((n_ph n)(t := ph))"
    using I ph(3) unfolding apart_def by (metis fun_upd_apply)
  moreover have "phase_ok legal (?cs (own u)) (n_srv n) (((n_ph n)(t := ph)) u)" for u
  proof (cases "u = t")
    case True
    then show ?thesis using ph(1) by simp
  next
    case False
    have old: "phase_ok legal (n_cs n (own u)) (n_srv n) (n_ph n u)" using I by blast
    have "phase_ok legal (?cs (own u)) (n_srv n) (n_ph n u)"
    proof (cases "own u = own t")
      case True
      have "phase_ok legal (n_cs n (own t)) (n_srv n) (n_ph n u)" using old True by simp
      then have "phase_ok legal c (n_srv n) (n_ph n u)"
        by (rule phase_ok_frame) (use others [OF False True] c(2) in simp_all)
      then show ?thesis using True by simp
    next
      case False
      then show ?thesis using old by simp
    qed
    then show ?thesis using False by simp
  qed
  ultimately show ?thesis using I ph(2) by (simp add: net_inv_def)
qed

lemma net_inv_ask:
  assumes inv: "net_inv own legal meth st0 n" and t: "n_ph n t = Idle" "c_xid (n_cs n (own t)) \<noteq> - 1"
    and m: "sendable m" "legal proc (m_content m)" and b: "call1_begin (n_cs n (own t)) proc = (c, Inr h)"
  shows "net_inv own legal meth st0 (n\<lparr>n_cs := (n_cs n)(own t := c), n_ph := (n_ph n)(t := Asked h m)\<rparr>)"
proof -
  note I = inv [unfolded net_inv_def]
  let ?c = "n_cs n (own t)"
  have k: "client_inv ?c" "c_bind_done ?c" "c_srv_nonce ?c = 0 \<or> c_srv_nonce ?c = rs_nonce (n_srv n)"
    "\<forall>x \<in> xids_of (n_srv n) (c_clt_nonce ?c). x < c_xid ?c"
    using I by (auto simp: clients_fine_def)
  have c: "c = ?c\<lparr>c_xid := c_xid ?c + 1, c_calls := (c_calls ?c)(c_xid ?c \<mapsto>
      \<lparr>ca_xid = c_xid ?c, ca_un = unmarshall_empty, ca_intret = 0, ca_done = False\<rparr>)\<rparr>"
    "h_xid h = c_xid ?c" "h_clt_nonce h = c_clt_nonce ?c" "h_srv_nonce h = c_srv_nonce ?c" "h_proc h = proc"
    "h_xid_rep h = hd (c_window ?c)"
    using b by (auto simp: call1_begin_def Let_def split: if_splits)
  have hd: "h_xid_rep h < h_xid h" using k(1) c by (auto simp: client_inv_def received_def)
  have below: "x < c_xid ?c" if "xid_in (n_ph n u) = Some x" "own u = own t" for u x
  proof -
    have "phase_ok legal ?c (n_srv n) (n_ph n u)" using I that(2) by metis
    then have "c_calls ?c x \<noteq> None" using that(1) by (cases "n_ph n u") (auto simp: waiting_def)
    then show ?thesis using k(1) by (auto simp: client_inv_def)
  qed
  have "client_inv c" by (rule client_inv_begin [OF k(1) t(2) b])
  moreover have "phase_ok legal c (n_srv n) (Asked h m)"
    using m k(3,4) hd c by (auto simp: waiting_def)
  moreover have "c_xid ?c \<le> c_xid c" using less_succ_u32 [OF t(2) order_refl] c(1) by simp
  ultimately show ?thesis
    using below c by (intro net_inv_client [OF inv]) (auto simp: less_le)
qed

lemma net_inv_tell:
  assumes inv: "net_inv own legal meth st0 n" and t: "n_ph n t = Told h m p ret out"
  shows "net_inv own legal meth st0 (n\<lparr>n_cs := (n_cs n)(own t := rpcc_got_pdu (n_cs n (own t)) p),
    n_ph := (n_ph n)(t := Back h m ret out)\<rparr>)"
proof -
  note I = inv [unfolded net_inv_def]
  let ?c = "n_cs n (own t)" and ?x = "h_xid h"
  have "phase_ok legal ?c (n_srv n) (Told h m p ret out)" using I t by metis
  then obtain ca rep where ca: "c_calls ?c ?x = Some ca" "\<not> ca_done ca" and r: "- (2 ^ 31) \<le> ret" "ret < 2 ^ 31"
    and rep: "p = reply_pdu ?x ret rep" "sendable rep" "m_content rep = out"
    by (auto simp: waiting_def)
  have wf: "m_wf rep" "24 \<le> m_ind rep" "m_ind rep < 2 ^ 31" using rep(2) by (simp_all add: sendable_def)
  obtain un where un: "rpcc_got_pdu ?c p = ?c\<lparr>c_window := update_xid_rep (c_window ?c) ?x,
        c_calls := (c_calls ?c)(?x \<mapsto> ca\<lparr>ca_un := un, ca_intret := ret, ca_done := True\<rparr>)\<rparr>"
    "u_wf un" "u_ok un" "u_rest un = m_content rep"
    and rx: "rh_xid (fst (unpack_reply_header (unmarshall_buf p))) = ?x"
    unfolding rep(1) by (rule got_reply [OF wf r ca])
  have k: "client_inv ?c" using I by (auto simp: clients_fine_def)
  then have "?x < c_xid ?c" using ca(1) by (auto simp: client_inv_def)
  then have "client_inv (rpcc_got_pdu ?c p)" using client_inv_pdu [OF k] rx by metis
  moreover have "xid_in (n_ph n u) \<noteq> Some ?x" if "u \<noteq> t" "own u = own t" for u
    using I that t unfolding apart_def by (metis xid_in.simps(3))
  moreover have "logged (n_log n) t (Back h m ret out)" using I t by (metis logged.simps(1,2))
  ultimately show ?thesis using un rep(3) by (intro net_inv_client [OF inv]) auto
qed

lemma net_inv_wake:
  assumes inv: "net_inv own legal meth st0 n" and t: "n_ph n t = Back h m ret out"
    and e: "call1_end (n_cs n (own t)) (h_xid h) = (c, r)"
  shows "net_inv own legal meth st0 (n\<lparr>n_cs := (n_cs n)(own t := c), n_ph := (n_ph n)(t := Idle)\<rparr>)"
proof -
  note I = inv [unfolded net_inv_def]
  let ?c = "n_cs n (own t)"
  have k: "client_inv ?c" using I by (auto simp: clients_fine_def)
  have "phase_ok legal ?c (n_srv n) (Back h m ret out)" using I t by metis
  then have "c_calls ?c (h_xid h) \<noteq> None" by auto
  then have "client_inv c" using client_inv_end [OF k] e by (metis fst_conv)
  moreover have "xid_in (n_ph n u) \<noteq> Some (h_xid h)" if "u \<noteq> t" "own u = own t" for u
    using I that t unfolding apart_def by (metis xid_in.simps(4))
  ultimately show ?thesis using e by (intro net_inv_client [OF inv]) (auto simp: call1_end_def)
qed

text \<open>The server's step: it runs the method, and enters only this call's number in its windows.\<close>

lemma asked_runs:
  assumes inv: "net_inv own legal meth st0 n" and t: "n_ph n t = Asked h m"
    and g: "meth (h_proc h) (m_content m) (n_st n) = (ret, out, st')"
  obtains s rep where "serve ch (m_pdu (pack_req_header m h)) (n_srv n) (n_st n) = Inr (s, st', Some (reply_pdu (h_xid h) ret rep))"
    "sendable rep" "m_content rep = out" "- (2 ^ 31) \<le> ret" "ret < 2 ^ 31" "same_server (n_srv n) s" "rw_ok (rs_window s)"
    "xids_of s (h_clt_nonce h) \<subseteq> insert (h_xid h) (xids_of (n_srv n) (h_clt_nonce h))"
    "\<forall>d. d \<noteq> h_clt_nonce h \<longrightarrow> xids_of s d = xids_of (n_srv n) d"
proof -
  note I = inv [unfolded net_inv_def]
  have p: "phase_ok legal (n_cs n (own t)) (n_srv n) (Asked h m)" using I t by metis
  obtain f where f: "rs_procs (n_srv n) (h_proc h) = Some f" "runs_method f (legal (h_proc h)) (meth (h_proc h))"
    using I p by (auto simp: server_fine_def)
  then obtain rep where rep: "ret \<ge> 0 \<or> ret = rpc_unmarshal_args_failure" "ret < 2 ^ 31" "sendable rep" "m_content rep = out"
    "\<forall>u. u_wf u \<longrightarrow> u_ok u \<longrightarrow> u_rest u = m_content m \<longrightarrow> f u marshall_new (n_st n) = Inr (ret, rep, st')"
    using p g unfolding runs_method_def phase_ok.simps by blast
  have lo: "- (2 ^ 31) \<le> ret" using rep(1) by (auto simp: rpc_const_defs)
  have m: "m_wf m" "24 \<le> m_ind m" "m_ind m < 2 ^ 31" using p by (simp_all add: sendable_def)
  have "rs_reachable (n_srv n)" "rw_ok (rs_window (n_srv n))" using I by (auto simp: server_fine_def)
  moreover have "h_srv_nonce h = 0 \<or> h_srv_nonce h = rs_nonce (n_srv n)"
    "h_xid h \<notin> xids_of (n_srv n) (h_clt_nonce h)" "h_xid_rep h \<le> h_xid h"
    using p by auto
  ultimately show thesis
    using serve_runs [of "n_srv n" h f m "n_st n" ret rep st' ch, OF _ _ f(1) m _ _ _ _ rep(1)] rep that [OF _ rep(3,4) lo rep(2)]
    by blast
qed

lemma net_inv_run:
  assumes inv: "net_inv own legal meth st0 n" and t: "n_ph n t = Asked h m"
    and sv: "serve ch (m_pdu (pack_req_header m h)) (n_srv n) (n_st n) = Inr (s, st, Some p)"
    and g: "meth (h_proc h) (m_content m) (n_st n) = (ret, out, st')"
  shows "net_inv own legal meth st0 (n\<lparr>n_srv := s, n_st := st, n_ph := (n_ph n)(t := Told h m p ret out),
      n_log := n_log n @ [(t, h_proc h, m_content m, ret, out)]\<rparr>)"
proof -
  note I = inv [unfolded net_inv_def]
  obtain rep where r: "st = st'" "p = reply_pdu (h_xid h) ret rep" "sendable rep" "m_content rep = out"
    "- (2 ^ 31) \<le> ret" "ret < 2 ^ 31" "same_server (n_srv n) s" "rw_ok (rs_window s)"
    "xids_of s (h_clt_nonce h) \<subseteq> insert (h_xid h) (xids_of (n_srv n) (h_clt_nonce h))"
    "\<forall>d. d \<noteq> h_clt_nonce h \<longrightarrow> xids_of s d = xids_of (n_srv n) d"
    using asked_runs [OF inv t g, of ch] sv by (metis Inr_inject option.inject prod.inject)
  let ?c = "n_cs n (own t)"
  have p: "phase_ok legal ?c (n_srv n) (Asked h m)" using I t by metis
  then have hc: "h_clt_nonce h = c_clt_nonce ?c" "waiting ?c (h_xid h)" by simp_all
  have fine: "clients_fine own (n_cs n) (n_srv n)" "server_fine legal meth (n_srv n)" using I by blast+
  have inj: "i = own t" if "i \<in> range own" "c_clt_nonce (n_cs n i) = c_clt_nonce ?c" for i
    using fine(1) that by (auto simp: clients_fine_def dest: inj_onD)
  have lt: "h_xid h < c_xid ?c"
    using fine(1) hc(2) by (auto simp: clients_fine_def client_inv_def waiting_def)
  have new: "x \<in> xids_of (n_srv n) (c_clt_nonce (n_cs n i)) \<or> (i = own t \<and> x = h_xid h)"
    if "x \<in> xids_of s (c_clt_nonce (n_cs n i))" "i \<in> range own" for x i
    using that r(9,10) hc(1) inj by (cases "c_clt_nonce (n_cs n i) = c_clt_nonce ?c") auto
  have "x < c_xid (n_cs n i)" if "i \<in> range own" "x \<in> xids_of s (c_clt_nonce (n_cs n i))" for i x
    using new [OF that(2,1)]
  proof
    assume "x \<in> xids_of (n_srv n) (c_clt_nonce (n_cs n i))"
    then show ?thesis using fine(1) that(1) unfolding clients_fine_def by blast
  next
    assume "i = own t \<and> x = h_xid h"
    then show ?thesis using lt by simp
  qed
  moreover have "rs_nonce s = rs_nonce (n_srv n)" using r(7) by (simp add: same_server_def)
  ultimately have "clients_fine own (n_cs n) s"
    using fine(1) unfolding clients_fine_def by simp
  moreover have "server_fine legal meth s" using fine(2) r(7,8) by (simp add: server_fine_def same_server_def)
  moreover have "apart own ((n_ph n)(t := Told h m p ret out))"
    using I t unfolding apart_def by (metis fun_upd_apply xid_in.simps(2,3))
  moreover have "phase_ok legal (n_cs n (own u)) s (((n_ph n)(t := Told h m p ret out)) u)" for u
  proof (cases "u = t")
    case True
    then show ?thesis using hc(2) r by auto
  next
    case False
    have "phase_ok legal (n_cs n (own u)) (n_srv n) (n_ph n u)" using I by blast
    then have "phase_ok legal (n_cs n (own u)) s (n_ph n u)"
    proof (rule phase_ok_frame)
      fix x assume x: "xid_in (n_ph n u) = Some x"
      have "own u = own t \<Longrightarrow> x \<noteq> h_xid h" using I False x t unfolding apart_def by (metis xid_in.simps(2))
      then show "c_calls (n_cs n (own u)) x = c_calls (n_cs n (own u)) x \<and>
          (x \<in> xids_of s (c_clt_nonce (n_cs n (own u))) \<longrightarrow> x \<in> xids_of (n_srv n) (c_clt_nonce (n_cs n (own u))))"
        using new by blast
    qed (use r(7) in \<open>simp_all add: same_server_def\<close>)
    then show ?thesis using False by simp
  qed
  moreover have "logged (n_log n @ [(t, h_proc h, m_content m, ret, out)]) u (((n_ph n)(t := Told h m p ret out)) u)" for u
  proof (cases "u = t")
    case True
    then show ?thesis by (simp add: last_call_append)
  next
    case False
    have "logged (n_log n) u (n_ph n u)" using I by blast
    then show ?thesis using False last_call_append(2) [of t u] by (cases "n_ph n u") auto
  qed
  moreover have "local_run meth st0 (n_log n @ [(t, h_proc h, m_content m, ret, out)]) st"
    using I local_run_append g r(1) by metis
  ultimately show ?thesis by (simp add: net_inv_def)
qed

lemma net_inv_step: "net_step own legal meth n n' \<Longrightarrow> net_inv own legal meth st0 n \<Longrightarrow> net_inv own legal meth st0 n'"
  by (induction rule: net_step.induct) (blast intro: net_inv_ask net_inv_run net_inv_tell net_inv_wake)+

lemma net_reach_inv: "net_reach own legal meth n0 n \<Longrightarrow> net_start own legal meth n0 \<Longrightarrow> net_inv own legal meth (n_st n0) n"
  by (induction rule: net_reach.induct) (auto intro: net_inv_start net_inv_step)

section \<open>Every caller gets its own reply\<close>


section \<open>Example\<close>

text \<open>Two threads share a client of the counter; the second to ask is served first.\<close>

definition ex_legal :: "u32 \<Rightarrow> byte list \<Rightarrow> bool" where
  "ex_legal proc b \<longleftrightarrow> proc = 23 \<and> (\<exists>a :: u32. True \<and> b = be32 a)"

definition ex_meth :: "u32 \<Rightarrow> nat meth_fn" where
  "ex_meth proc b st = (0, be32 (arg_of b + of_nat st), Suc st)"

definition ex_net :: "nat net" where
  "ex_net = \<lparr>n_cs = \<lambda>i. ex_clt (of_nat i), n_srv = ex_counter, n_st = 2, n_ph = \<lambda>_. Idle, n_log = []\<rparr>"

lemma ex_meth_be32: "ex_meth proc (be32 a) st = (0, be32 (a + of_nat st), Suc st)"
  by (simp add: ex_meth_def)

lemma ex_counter_simps:
  "rs_procs ex_counter 23 = Some (handler_fn get_int (ex_count 23) put_int)" "rs_nonce ex_counter = 5"
  "rs_reachable ex_counter" "rs_window ex_counter = Map.empty"
  by (simp_all add: ex_counter_def rpcs_new_def reg1_def Let_def proc_bind_def)

lemma ex_net_start: "net_start (\<lambda>_. 1) ex_legal ex_meth ex_net"
proof -
  have "linked (ex_clt 1) ex_counter"
    using ex_linked [of 1] by (simp add: linked_def ex_counter_simps ex_srv_simps xids_of_def)
  moreover have "runs_method (handler_fn get_int (ex_count 23) put_int) (ex_legal 23) (ex_meth 23)"
    using handler_runs_method [where args = "\<lambda>_. True" and meth = "ex_count 23" and g = "ex_meth 23",
        OF int.codec_axioms int.codec_axioms]
    by (simp add: ex_legal_def [abs_def] ex_count_def ex_meth_be32 fits_def)
  ultimately show ?thesis
    by (auto simp: net_start_def ex_net_def ex_clt_simps ex_counter_simps ex_legal_def proc_bind_def)
qed


end
