(* ===== verification/RpcTest.thy ===== *)
theory RpcTest
  imports RpcCall
begin

text \<open>
  The RPC test program \<open>rpc/rpctest.cc\<close> as a client of the library: its handlers, the server it
  starts, and its tests with their asserts, over the modelled client and server.  The theorems say
  that the tests pass.  Random arguments, thread interleaving within a test and the clock are
  parameters: a list of arguments stands for the draws of a loop.
\<close>

section \<open>The handlers\<close>

definition xstring :: "nat \<Rightarrow> string" where
  "xstring n = replicate n CHR ''x''"

lemma length_xstring [simp]: "length (xstring n) = n"
  by (simp add: xstring_def)

definition handle_22 :: "string \<times> string \<Rightarrow> unit \<Rightarrow> (status \<times> string \<times> unit) res" where
  "handle_22 p st = (case p of (a, b) \<Rightarrow> Inr (0, a @ b, st))"

definition handle_fast :: "u32 \<Rightarrow> unit \<Rightarrow> (status \<times> u32 \<times> unit) res" where
  "handle_fast a st = Inr (0, a + 1, st)"

definition handle_slow :: "u32 \<Rightarrow> unit \<Rightarrow> (status \<times> u32 \<times> unit) res" where
  "handle_slow a st = Inr (0, a + 2, st)"

text \<open>A negative length becomes a huge unsigned one, which the string constructor refuses.\<close>

definition handle_bigrep :: "u32 \<Rightarrow> unit \<Rightarrow> (status \<times> string \<times> unit) res" where
  "handle_bigrep len st = (if sint len < 0 then Inl OutOfRange else Inr (0, xstring (unat len), st))"

abbreviation two_strings :: "unmarshall \<Rightarrow> ((string \<times> string) \<times> unmarshall) res" where
  "two_strings \<equiv> get_pair (get_string []) (get_string [])"

definition startserver :: "u32 \<Rightarrow> u32 \<Rightarrow> unit rpcs res" where
  "startserver port nonce =
     rbind (rpcs_new port nonce 0) (\<lambda>server.
     rbind (reg1 server 22 (handler_fn two_strings handle_22 put_string)) (\<lambda>server.
     rbind (reg1 server 23 (handler_fn get_int handle_fast put_int)) (\<lambda>server.
     rbind (reg1 server 24 (handler_fn get_int handle_slow put_int)) (\<lambda>server.
     reg1 server 25 (handler_fn get_int handle_bigrep put_string)))))"

section \<open>The tests\<close>

definition require :: "bool \<Rightarrow> unit res" where
  "require b = (if b then Inr () else Inl AssertFail)"

lemma require_simps [simp]: "require True = Inr ()" "require False = Inl AssertFail"
  by (simp_all add: require_def)

text \<open>\<open>testmarshall\<close>: a request with three values is written, taken apart and compared.\<close>

abbreviation put_three :: "marshall \<Rightarrow> u32 \<times> u64 \<times> string \<Rightarrow> marshall" where
  "put_three \<equiv> put_pair put_int (put_pair put_u64 put_string)"

abbreviation get_three :: "unmarshall \<Rightarrow> ((u32 \<times> u64 \<times> string) \<times> unmarshall) res" where
  "get_three \<equiv> get_pair get_int (get_pair get_u64 (get_string []))"

definition testmarshall :: "unit res" where
  "testmarshall =
     (let rh = \<lparr>h_xid = 1, h_proc = 2, h_clt_nonce = 3, h_srv_nonce = 4, h_xid_rep = 5\<rparr>;
          m = pack_req_header marshall_new rh;
          i = 12345; l = 1223344455; s = ''hallo....'';
          m' = put_three m (i, l, s)
      in rbind (require (m_ind m = RPC_HEADER_SZ)) (\<lambda>_.
         let b = m_pdu m' in
         rbind (require (length b = RPC_HEADER_SZ + 4 + 8 + length s + 4)) (\<lambda>_.
         let (rh1, un) = unpack_req_header (unmarshall_buf b) in
         rbind (require (rh1 = rh)) (\<lambda>_.
         rbind (get_three un) (\<lambda>((i1, l1, s1), un).
         rbind (require (u_okdone un)) (\<lambda>_.
         require (i1 = i \<and> l1 = l \<and> s1 = s)))))))"

text \<open>The loops of \<open>client1\<close>: echo sizes, then replies of two procedures; and \<open>client2\<close>, which checks
  the sizes only.\<close>

fun client1_sizes :: "nat \<Rightarrow> u32 list \<Rightarrow> rpcc \<Rightarrow> unit rpcs \<Rightarrow> (rpcc \<times> unit rpcs) res" where
  "client1_sizes ch [] c s = Inr (c, s)"
| "client1_sizes ch (arg # args) c s =
     rbind (rpc_call put_int get_string ch 25 arg [] c s ()) (\<lambda>(c, s, _, ret, rep).
     rbind (require (ret = 0)) (\<lambda>_.
     rbind (require (of_nat (length rep) = arg)) (\<lambda>_. client1_sizes ch args c s)))"

fun client1_order :: "nat \<Rightarrow> (bool \<times> u32) list \<Rightarrow> rpcc \<Rightarrow> unit rpcs \<Rightarrow> (rpcc \<times> unit rpcs) res" where
  "client1_order ch [] c s = Inr (c, s)"
| "client1_order ch ((which, arg) # args) c s =
     rbind (rpc_call put_int (\<lambda>_. get_int) ch (if which then 23 else 24) arg 0 c s ()) (\<lambda>(c, s, _, ret, rep).
     rbind (require (ret = 0)) (\<lambda>_.
     rbind (require (rep = (if which then arg + 1 else arg + 2))) (\<lambda>_. client1_order ch args c s)))"

definition client1 :: "nat \<Rightarrow> u32 list \<Rightarrow> (bool \<times> u32) list \<Rightarrow> rpcc \<Rightarrow> unit rpcs \<Rightarrow> (rpcc \<times> unit rpcs) res" where
  "client1 ch args1 args2 c s = rbind (client1_sizes ch args1 c s) (\<lambda>(c, s). client1_order ch args2 c s)"

fun client2 :: "nat \<Rightarrow> u32 list \<Rightarrow> rpcc \<Rightarrow> unit rpcs \<Rightarrow> (rpcc \<times> unit rpcs) res" where
  "client2 ch [] c s = Inr (c, s)"
| "client2 ch (arg # args) c s =
     rbind (rpc_call put_int get_string ch 25 arg [] c s ()) (\<lambda>(c, s, _, ret, rep).
     rbind (require (of_nat (length rep) = arg)) (\<lambda>_. client2 ch args c s))"

text \<open>\<open>client3\<close>: any of its calls may time out (\<open>lost\<close>).\<close>

fun client3 :: "nat \<Rightarrow> u32 \<Rightarrow> bool list \<Rightarrow> rpcc \<Rightarrow> unit rpcs \<Rightarrow> (rpcc \<times> unit rpcs) res" where
  "client3 ch i [] c s = Inr (c, s)"
| "client3 ch i (True # lost) c s =
     (let (c, ret) = call1_lost 24 c
      in rbind (require (ret = rpc_timeout_failure)) (\<lambda>_. client3 ch (i + 1) lost c s))"
| "client3 ch i (False # lost) c s =
     rbind (rpc_call put_int (\<lambda>_. get_int) ch 24 i 0 c s ()) (\<lambda>(c, s, _, ret, rep).
     rbind (require (ret = rpc_timeout_failure \<or> rep = i + 2)) (\<lambda>_. client3 ch (i + 1) lost c s))"

text \<open>\<open>simple_tests\<close>; \<open>c1\<close> is the client of an address where nobody listens, \<open>t0\<close> and \<open>t1\<close> are the
  times before and after it tries to bind.\<close>

definition simple_tests ::
  "nat \<Rightarrow> int \<Rightarrow> int \<Rightarrow> rpcc \<Rightarrow> rpcc \<Rightarrow> unit rpcs \<Rightarrow> (rpcc \<times> rpcc \<times> unit rpcs) res" where
  "simple_tests ch t0 t1 c1 c s =
     rbind (rpc_call (put_pair put_string put_string) get_string ch 22 (''hello'', '' goodbye'') [] c s ())
       (\<lambda>(c, s, _, intret, rep). rbind (require (intret = 0)) (\<lambda>_. rbind (require (rep = ''hello goodbye'')) (\<lambda>_.
     rbind (rpc_call put_int get_string ch 25 70000 rep c s ())
       (\<lambda>(c, s, _, intret, rep). rbind (require (intret = 0)) (\<lambda>_. rbind (require (length rep = 70000)) (\<lambda>_.
     rbind (rpc_call put_string get_string ch 22 ''just one'' rep c s ())
       (\<lambda>(c, s, _, intret, rep). rbind (require (intret < 0)) (\<lambda>_.
     rbind (rpc_call (put_pair put_int put_int) get_string ch 23 (1001, 1002) rep c s ())
       (\<lambda>(c, s, _, intret, rep). rbind (require (intret < 0)) (\<lambda>_.
     rbind (rpc_call (put_pair put_string put_string) (\<lambda>_. get_int) ch 23 (''hello'', '' goodbye'') 0 c s ())
       (\<lambda>(c, s, _, intret, wrongrep). rbind (require (intret < 0)) (\<lambda>_.
     rbind (rpc_call put_int (\<lambda>_. get_int) ch 23 77 0 c s ())
       (\<lambda>(c, s, _, intret, xx). rbind (require (intret = 0 \<and> xx = 78)) (\<lambda>_.
     rbind (rpc_call (put_pair put_string put_string) get_string ch 22 (xstring 1000, ''x'') [] c s ())
       (\<lambda>(c, s, _, intret, rep'). rbind (require (length rep' = 1001)) (\<lambda>_.
     rbind (rpc_call (put_pair put_string put_string) get_string ch 22 (xstring 1000000, ''z'') rep c s ())
       (\<lambda>(c, s, _, intret, rep). rbind (require (length rep = 1000001)) (\<lambda>_.
     let (c1, intret) = call1_lost proc_bind c1; (c1, intret) = rpcc_bind c1 intret 0
     in rbind (require (intret < 0 \<and> t1 - t0 \<le> 4)) (\<lambda>_. Inr (c, c1, s))))))))))))))))))))"

text \<open>\<open>failure_test\<close> up to its first concurrent part: the server is deleted and started again with
  another nonce; \<open>client\<close> is bound to the first one, \<open>n1\<close> and \<open>n2\<close> are the nonces of the clients it
  creates.\<close>

definition failure_test ::
  "nat \<Rightarrow> u32 \<Rightarrow> u32 \<Rightarrow> u32 \<Rightarrow> u32 \<Rightarrow> rpcc \<Rightarrow> (rpcc \<times> unit rpcs) res" where
  "failure_test ch port nonce n1 n2 client =
     (let (client1, r) = call1_lost proc_bind (rpcc_new True n1)
      in rbind (require (snd (rpcc_bind client1 r 0) < 0)) (\<lambda>_.
     rbind (startserver port nonce) (\<lambda>s.
     rbind (rpc_call (put_pair put_string put_string) get_string ch 22 (''hello'', '' goodbye'') [] client s ())
       (\<lambda>(_, s, _, intret, rep). rbind (require (intret = rpc_oldsrv_failure)) (\<lambda>_.
     rbind (rpc_bind ch (rpcc_new True n2) s ()) (\<lambda>(c, s, _, r). rbind (require (r \<ge> 0)) (\<lambda>_.
     rbind (rpc_bind ch c s ()) (\<lambda>(c, s, _, r). rbind (require (r < 0)) (\<lambda>_.
     rbind (rpc_call (put_pair put_string put_string) get_string ch 22 (''hello'', '' goodbye'') rep c s ())
       (\<lambda>(c, s, _, intret, rep). rbind (require (intret = 0)) (\<lambda>_. rbind (require (rep = ''hello goodbye'')) (\<lambda>_.
     Inr (c, s)))))))))))))"

section \<open>The server under test\<close>

definition test_procs :: "u32 \<Rightarrow> u32 \<rightharpoonup> unit handler" where
  "test_procs nonce = [proc_bind \<mapsto> bind_handler nonce, 22 \<mapsto> handler_fn two_strings handle_22 put_string,
     23 \<mapsto> handler_fn get_int handle_fast put_int, 24 \<mapsto> handler_fn get_int handle_slow put_int,
     25 \<mapsto> handler_fn get_int handle_bigrep put_string]"

definition tested :: "rpcc \<Rightarrow> unit rpcs \<Rightarrow> nat \<Rightarrow> bool" where
  "tested c s n \<longleftrightarrow> linked c s \<and> c_bind_done c \<and> rs_procs s = test_procs (rs_nonce s) \<and>
     unat (c_xid c) + n < 2 ^ 32"

text \<open>What a call leaves alone: the identities of client and server, and the other clients' windows.\<close>

definition kept :: "rpcc \<Rightarrow> unit rpcs \<Rightarrow> rpcc \<Rightarrow> unit rpcs \<Rightarrow> bool" where
  "kept c s c' s' \<longleftrightarrow> same_client c c' \<and> same_server s s' \<and> (\<forall>d. d \<noteq> c_clt_nonce c \<longrightarrow> xids_of s' d = xids_of s d)"

lemma kept_trans: "kept c s c1 s1 \<Longrightarrow> kept c1 s1 c2 s2 \<Longrightarrow> kept c s c2 s2"
  by (auto simp: kept_def same_client_def same_server_def)

lemma startserver_started:
  obtains s where "startserver port nonce = Inr s" "rs_procs s = test_procs nonce" "rs_nonce s = nonce"
    "rs_reachable s" "rs_window s = Map.empty"
proof -
  obtain s0 :: "unit rpcs" where s0: "rpcs_new port nonce 0 = Inr s0" "rs_procs s0 = [proc_bind \<mapsto> bind_handler nonce]"
    "rs_nonce s0 = nonce" "rs_reachable s0" "rs_window s0 = Map.empty"
    using rpcs_new_eq by blast
  show thesis
    by (rule that [where s = "s0\<lparr>rs_procs := test_procs nonce\<rparr>"])
      (simp_all add: startserver_def s0 reg1_new proc_bind_def test_procs_def)
qed

lemma test_procs_simps:
  "test_procs n 22 = Some (handler_fn two_strings handle_22 put_string)"
  "test_procs n 23 = Some (handler_fn get_int handle_fast put_int)"
  "test_procs n 24 = Some (handler_fn get_int handle_slow put_int)"
  "test_procs n 25 = Some (handler_fn get_int handle_bigrep put_string)"
  "test_procs n proc_bind = Some (bind_handler n)"
  by (simp_all add: test_procs_def proc_bind_def)

lemma tested_callable:
  assumes "tested c s (Suc n)" and "p \<noteq> proc_bind" and "test_procs (rs_nonce s) p = Some f"
  shows "callable c s p f" "c_xid c \<noteq> - 1"
  using assms room_u32 [of "c_xid c" n] by (auto simp: tested_def callable_def)

lemma tested_next:
  assumes t: "tested c s (Suc n)" and "linked c' s'" "same_client c c'" "same_server s s'" "c_xid c' = c_xid c + 1"
  shows "tested c' s' n"
  using assms room_u32 [of "c_xid c" n] by (simp add: tested_def same_client_def same_server_def)

lemma two_strings_codec: "codec (put_pair put_string put_string) two_strings (enc_pair enc_string enc_string)"
  by (rule codec2.pair_codec [OF codec2.intro [OF str.codec_axioms str.codec_axioms]])

lemma two_ints_codec: "codec (put_pair put_int put_int) (get_pair get_int get_int) (enc_pair be32 be32)"
  by (rule codec2.pair_codec [OF codec2.intro [OF int.codec_axioms int.codec_axioms]])

lemma fits_string: "fits (enc_string a) \<longleftrightarrow> length a < 2 ^ 31 - 28"
  by (auto simp: fits_def enc_string_def)

text \<open>One call of each kind.\<close>

lemma ok_call:
  assumes t: "tested c s (Suc n)" and p: "p \<noteq> proc_bind" "test_procs (rs_nonce s) p = Some (handler_fn get meth rput)"
    and c: "codec put get enc" "fits (enc a)" "\<And>old. codec rput (rget old) renc" "fits (renc r)"
    and m: "meth a () = Inr (0, r, ())"
  obtains c' s' where "rpc_call put rget ch p a old c s () = Inr (c', s', (), 0, r)" "tested c' s' n" "kept c s c' s'"
proof -
  note k = tested_callable [OF t p]
  from rpc_call_is_method_call [where ch = ch and old = old and rget = rget, OF c k m]
  obtain c' s' where r: "rpc_call put rget ch p a old c s () = Inr (c', s', (), 0, r)" "linked c' s'" "same_client c c'"
    "same_server s s'" "c_xid c' = c_xid c + 1" "\<forall>d. d \<noteq> c_clt_nonce c \<longrightarrow> xids_of s' d = xids_of s d" by auto
  show thesis using that [OF r(1) tested_next [OF t r(2-5)]] r(3,4,6) by (simp add: kept_def)
qed

lemma bad_call:
  assumes t: "tested c s (Suc n)" and p: "p \<noteq> proc_bind" "test_procs (rs_nonce s) p = Some (handler_fn get meth rput)"
    and c: "codec put pget enc" "fits (enc a)"
    and g: "\<forall>u. u_wf u \<and> u_ok u \<and> u_rest u = enc a \<longrightarrow> (\<exists>x v. get u = Inr (x, v) \<and> \<not> u_okdone v)"
  obtains c' s' where "rpc_call put rget ch p a old c s () = Inr (c', s', (), rpc_unmarshal_args_failure, old)" "tested c' s' n" "kept c s c' s'"
proof -
  note k = tested_callable [OF t p]
  have g': "\<exists>x v. get u = Inr (x, v) \<and> \<not> u_okdone v" if "u_wf u" "u_ok u" "u_rest u = enc a" for u
    using g that by blast
  from wrong_arguments_refused [where ch = ch and old = old and rget = rget and st = "()", OF c k g']
  obtain c' s' where r: "rpc_call put rget ch p a old c s () = Inr (c', s', (), rpc_unmarshal_args_failure, old)"
    "linked c' s'" "same_client c c'" "same_server s s'" "c_xid c' = c_xid c + 1"
    "\<forall>d. d \<noteq> c_clt_nonce c \<longrightarrow> xids_of s' d = xids_of s d" by blast
  show thesis using that [OF r(1) tested_next [OF t r(2-5)]] r(3,4,6) by (simp add: kept_def)
qed

lemma int_leaves_rest:
  assumes "u_wf u" "u_ok u" "u_rest u = be32 x @ b # rest"
  shows "\<exists>y v. get_int u = Inr (y, v) \<and> \<not> u_okdone v"
proof -
  have "get_int u = Inr (x, u_adv (length (be32 x)) u)" by (rule int.get_enc [OF assms])
  moreover have "u_sz u = u_ind u + 5 + length rest"
    using length_u_rest [OF assms(1)] assms(1,3) by (simp add: u_wf_def)
  ultimately show ?thesis by (simp add: u_okdone_def)
qed

lemma string_missing:
  assumes "u_wf u" "u_ok u" "u_rest u = enc_string a"
  shows "\<exists>y v. two_strings u = Inr (y, v) \<and> \<not> u_okdone v"
proof -
  let ?v = "u_adv (length (enc_string a)) u"
  have one: "get_string [] u = Inr (a, ?v)" and fin: "u_okdone ?v"
    using read_all [OF str.codec_axioms assms] by blast+
  have "u_rawbyte w = (0, w\<lparr>u_ok := False\<rparr>)" if "u_ind w = u_sz w" for w
    using that by (simp add: u_rawbyte_def)
  then have "get_string [] ?v = Inr ([], ?v\<lparr>u_ok := False\<rparr>)"
    using fin by (simp add: get_string_def get_u32_def u_okdone_def Let_def)
  then show ?thesis by (simp add: get_pair_def one u_okdone_def)
qed

lemma lost_call:
  assumes "client_inv c" "c_calls c = Map.empty" "\<not> c_destroy_wait c" "c_bind_done c \<longleftrightarrow> proc \<noteq> proc_bind" "c_xid c \<noteq> - 1"
  obtains c' where "call1_lost proc c = (c', rpc_timeout_failure)" "client_inv c'" "c_calls c' = Map.empty"
    "same_client c c'" "c_xid c' = c_xid c + 1"
proof -
  let ?ca = "\<lparr>ca_xid = c_xid c, ca_un = unmarshall_empty, ca_intret = 0, ca_done = False\<rparr>"
  obtain c1 h where b: "call1_begin c proc = (c1, Inr h)" "h_xid h = c_xid c" "same_client c c1" "c_xid c1 = c_xid c + 1"
    "c_calls c1 = [c_xid c \<mapsto> ?ca]"
    using assms by (auto simp: call1_begin_def Let_def same_client_def)
  let ?c = "fst (call1_end c1 (c_xid c))"
  have "client_inv c1" by (rule client_inv_begin [OF assms(1,5) b(1)])
  then have "client_inv ?c" by (rule client_inv_end) (use b(5) in auto)
  then show thesis
    by (rule that [rotated]) (use b in \<open>auto simp: call1_lost_def call1_end_def same_client_def fun_eq_iff\<close>)
qed

lemma tested_lost:
  assumes t: "tested c s (Suc n)"
  obtains c' where "call1_lost 24 c = (c', rpc_timeout_failure)" "tested c' s n"
proof -
  have "c_xid c \<noteq> - 1" "c_xid c < c_xid c + 1" using t room_u32 [of "c_xid c" n]
    by (auto simp: tested_def word_less_nat_alt)
  then obtain c' where c': "call1_lost 24 c = (c', rpc_timeout_failure)" "client_inv c'" "c_calls c' = Map.empty"
    "same_client c c'" "c_xid c' = c_xid c + 1"
    using lost_call [of c 24] t by (auto simp: tested_def linked_def proc_bind_def)
  have "linked c' s"
    using t c' \<open>c_xid c < c_xid c + 1\<close> by (auto simp: tested_def linked_def same_client_def)
  then show thesis using that [OF c'(1)] tested_next [OF t _ c'(4) _ c'(5)] by simp
qed

section \<open>The tests pass\<close>

text \<open>the marshalling test passes.\<close>

theorem testmarshall_passes: "testmarshall = Inr ()"
proof -
  let ?h = "\<lparr>h_xid = 1, h_proc = 2, h_clt_nonce = 3, h_srv_nonce = 4, h_xid_rep = 5\<rparr>"
  let ?a = "(12345 :: u32, 1223344455 :: u64, ''hallo....'')" and ?e = "enc_pair be32 (enc_pair enc_u64 enc_string)"
  let ?m = "pack_req_header marshall_new ?h"
  have c: "codec put_three get_three ?e"
    by (rule codec2.pair_codec [OF codec2.intro [OF int.codec_axioms
          codec2.pair_codec [OF codec2.intro [OF u64.codec_axioms str.codec_axioms]]]])
  have new: "m_wf marshall_new" "24 \<le> m_ind marshall_new" "m_ind marshall_new = 24" "m_content marshall_new = []"
    by (simp_all add: m_wf_new) (simp_all add: marshall_new_def m_content_def slice_def)
  have eff: "?m = marshall_new\<lparr>m_buf := memcpy (m_buf marshall_new) 4 (enc_req_header ?h)\<rparr>"
    by (rule pack_req_header_effect [OF new(1,2)])
  have wf: "m_wf ?m" "m_ind ?m = 24"
    using new by (simp_all add: eff m_wf_def enc_req_header_def)
  have pdu: "m_pdu ?m = take 4 (m_pdu marshall_new) @ enc_req_header ?h"
    using m_pdu_pack_req_header [OF new(1,2), of ?h] new(4) by simp
  define b where "b = m_pdu (put_three ?m ?a)"
  have b: "b = take 4 (m_pdu marshall_new) @ enc_req_header ?h @ ?e ?a"
    using codec.put_pdu [OF c wf(1), of ?a] pdu by (simp add: b_def)
  have four: "length (take 4 (m_pdu marshall_new)) = 4" using new by (simp add: m_pdu_def m_wf_def)
  have e: "length (?e ?a) = 25" by (simp add: enc_pair_def enc_u64_def enc_string_def)
  have len: "length b = 49" using b four e by (simp add: enc_req_header_def)
  obtain u where u: "unpack_req_header (unmarshall_buf b) = (?h, u)" "u_ok u" "u_wf u" "u_rest u = ?e ?a"
    using unpack_req_header_pdu [OF b four] len by auto
  have rd: "get_three u = Inr (?a, u_adv (length (?e ?a)) u)" "u_okdone (u_adv (length (?e ?a)) u)"
    using read_all [where put = put_three and get = get_three and enc = ?e and a = ?a and u = u, OF c u(3,2,4)] by blast+
  show ?thesis
    unfolding testmarshall_def Let_def using wf(2) len u(1) rd by (simp flip: b_def)
qed

lemma bigrep_small: "unat arg < 2 ^ 31 \<Longrightarrow> handle_bigrep arg () = Inr (0, xstring (unat arg), ())"
proof -
  assume "unat arg < 2 ^ 31"
  then have "int (unat arg) < int (2 ^ 31)" by (simp only: of_nat_less_iff)
  moreover have "int (2 ^ 31) = 2 ^ 31" by simp
  moreover have "int (unat arg) = uint arg" by simp
  ultimately have "uint arg < 2 ^ 31" by linarith
  moreover have "- (2 ^ 31) \<le> uint arg" by (rule order_trans [of _ 0]) simp_all
  ultimately have "signed_take_bit 31 (uint arg) = uint arg" by (rule signed_take_bit_int_eq_self [rotated])
  then have "sint arg = uint arg" by (simp add: sint_uint)
  then show ?thesis by (simp add: handle_bigrep_def)
qed

lemma call_25:
  assumes t: "tested c s (Suc n)" and a: "unat arg < 2 ^ 31 - 28"
  obtains c' s' where "rpc_call put_int get_string ch 25 arg old c s () = Inr (c', s', (), 0, xstring (unat arg))" "tested c' s' n" "kept c s c' s'"
proof -
  have f: "fits (be32 arg)" "fits (enc_string (xstring (unat arg)))"
    using a by (simp add: fits_def, simp add: fits_string)
  have m: "handle_bigrep arg () = Inr (0, xstring (unat arg), ())" using a by (intro bigrep_small) simp
  show thesis
    by (rule ok_call [where ch = ch and old = old and rget = get_string,
          OF t _ test_procs_simps(4) int.codec_axioms f(1) str.codec_axioms f(2) m])
      (simp add: proc_bind_def, rule that)
qed

lemma call_int:
  assumes t: "tested c s (Suc n)"
  obtains c' s' where "rpc_call put_int (\<lambda>_. get_int) ch (if fast then 23 else 24) arg old c s () =
    Inr (c', s', (), 0, if fast then arg + 1 else arg + 2)" "tested c' s' n" "kept c s c' s'"
proof (cases fast)
  case True
  have "handle_fast arg () = Inr (0, arg + 1, ())" by (simp add: handle_fast_def)
  from ok_call [where ch = ch and old = old and rget = "\<lambda>_. get_int", OF t _ test_procs_simps(2) int.codec_axioms _ int.codec_axioms _ this]
  show thesis using that True by (auto simp: proc_bind_def fits_def)
next
  case False
  have "handle_slow arg () = Inr (0, arg + 2, ())" by (simp add: handle_slow_def)
  from ok_call [where ch = ch and old = old and rget = "\<lambda>_. get_int", OF t _ test_procs_simps(3) int.codec_axioms _ int.codec_axioms _ this]
  show thesis using that False by (auto simp: proc_bind_def fits_def)
qed

lemma call_22:
  assumes t: "tested c s (Suc n)" and a: "length a + length b < 2 ^ 31 - 32"
  obtains c' s' where "rpc_call (put_pair put_string put_string) get_string ch 22 (a, b) old c s () =
    Inr (c', s', (), 0, a @ b)" "tested c' s' n" "kept c s c' s'"
proof -
  have m: "handle_22 (a, b) () = Inr (0, a @ b, ())" by (simp add: handle_22_def)
  have f: "fits (enc_pair enc_string enc_string (a, b))" "fits (enc_string (a @ b))"
    using a by (simp_all add: fits_def enc_pair_def enc_string_def)
  show thesis
    by (rule ok_call [where ch = ch and old = old and rget = get_string,
          OF t _ test_procs_simps(1) two_strings_codec f(1) str.codec_axioms f(2) m])
      (simp add: proc_bind_def, rule that)
qed

lemma client1_sizes_pass:
  assumes "tested c s (length args + n)" and "\<forall>arg \<in> set args. unat arg < 2000"
  shows "\<exists>c' s'. client1_sizes ch args c s = Inr (c', s') \<and> tested c' s' n"
  using assms
proof (induction args arbitrary: c s)
  case Nil
  then show ?case by simp
next
  case (Cons arg args)
  have t: "tested c s (Suc (length args + n))" and a: "unat arg < 2 ^ 31 - 28" using Cons.prems by auto
  obtain c1 s1 where call: "rpc_call put_int get_string ch 25 arg [] c s () = Inr (c1, s1, (), 0, xstring (unat arg))"
    "tested c1 s1 (length args + n)" "kept c s c1 s1"
    by (rule call_25 [OF t a])
  show ?case using Cons.IH [OF call(2)] Cons.prems(2) call(1) by simp
qed

lemma client1_order_passes:
  assumes "tested c s (length args + n)"
  shows "\<exists>c' s'. client1_order ch args c s = Inr (c', s') \<and> tested c' s' n"
  using assms
proof (induction args arbitrary: c s)
  case Nil
  then show ?case by simp
next
  case (Cons x args)
  obtain which arg where x: "x = (which, arg)" by (cases x)
  have t: "tested c s (Suc (length args + n))" using Cons.prems by auto
  obtain c1 s1 where call: "rpc_call put_int (\<lambda>_. get_int) ch (if which then 23 else 24) arg 0 c s () =
      Inr (c1, s1, (), 0, if which then arg + 1 else arg + 2)" "tested c1 s1 (length args + n)" "kept c s c1 s1"
    by (rule call_int [OF t])
  show ?case using Cons.IH [OF call(2)] call(1) by (simp add: x)
qed

text \<open>the bodies of the concurrent tests pass for any draws of their random arguments.\<close>

theorem clients_pass:
  assumes "tested c s (length args1 + length args2)" and "\<forall>arg \<in> set args1. unat arg < 2000"
  shows "\<exists>c' s'. client1 ch args1 args2 c s = Inr (c', s')"
proof -
  obtain c1 s1 where one: "client1_sizes ch args1 c s = Inr (c1, s1)" "tested c1 s1 (length args2)"
    using client1_sizes_pass [OF assms] by blast
  then show ?thesis using client1_order_passes [of c1 s1 args2 0 ch] by (auto simp: client1_def)
qed

lemma client2_passes:
  assumes "tested c s (length args)" and "\<forall>arg \<in> set args. unat arg < 2000"
  shows "\<exists>c' s'. client2 ch args c s = Inr (c', s')"
  using assms
proof (induction args arbitrary: c s)
  case Nil
  then show ?case by simp
next
  case (Cons arg args)
  have t: "tested c s (Suc (length args))" and a: "unat arg < 2 ^ 31 - 28" using Cons.prems by auto
  obtain c1 s1 where call: "rpc_call put_int get_string ch 25 arg [] c s () = Inr (c1, s1, (), 0, xstring (unat arg))"
    "tested c1 s1 (length args)" "kept c s c1 s1"
    by (rule call_25 [OF t a])
  show ?case using Cons.IH [OF call(2)] Cons.prems(2) call(1) by simp
qed

lemma client3_passes:
  assumes "tested c s (length lost)"
  shows "\<exists>c' s'. client3 ch i lost c s = Inr (c', s')"
  using assms
proof (induction lost arbitrary: c s i)
  case Nil
  then show ?case by simp
next
  case (Cons l lost)
  have t: "tested c s (Suc (length lost))" using Cons.prems by simp
  show ?case
  proof (cases l)
    case True
    obtain c1 where c1: "call1_lost 24 c = (c1, rpc_timeout_failure)" "tested c1 s (length lost)"
      by (rule tested_lost [OF t])
    then show ?thesis using True Cons.IH by simp
  next
    case False
    obtain c1 s1 where call: "rpc_call put_int (\<lambda>_. get_int) ch (if False then 23 else 24) i 0 c s () =
      Inr (c1, s1, (), 0, if False then i + 1 else i + 2)" "tested c1 s1 (length lost)" "kept c s c1 s1"
      by (rule call_int [OF t])
    then show ?thesis using False Cons.IH by simp
  qed
qed

lemma lost_bind:
  obtains c' where "call1_lost proc_bind (rpcc_new retrans nonce) = (c', rpc_timeout_failure)"
proof -
  have "client_inv (rpcc_new retrans nonce)" "c_calls (rpcc_new retrans nonce) = Map.empty"
    "\<not> c_destroy_wait (rpcc_new retrans nonce)"
    "c_bind_done (rpcc_new retrans nonce) \<longleftrightarrow> proc_bind \<noteq> proc_bind" "c_xid (rpcc_new retrans nonce) \<noteq> - 1"
    by (simp_all add: client_inv_new) (simp_all add: rpcc_new_def)
  then show thesis using lost_call that by blast
qed

text \<open>all asserts of \<open>simple_tests\<close> hold.\<close>

theorem simple_tests_pass:
  assumes t: "tested c s (8 + n)" and clock: "t1 - t0 \<le> 4"
  shows "\<exists>c' c1' s'. simple_tests ch t0 t1 (rpcc_new retrans nonce) c s = Inr (c', c1', s') \<and> tested c' s' n \<and> kept c s c' s'"
proof -
  have p: "(22 :: u32) \<noteq> proc_bind" "(23 :: u32) \<noteq> proc_bind" by (simp_all add: proc_bind_def)
  have t8: "tested c s (Suc (7 + n))" using t by simp
  obtain ca sa where a: "rpc_call (put_pair put_string put_string) get_string ch 22 (''hello'', '' goodbye'') [] c s () =
      Inr (ca, sa, (), 0, ''hello'' @ '' goodbye'')" "tested ca sa (7 + n)" "kept c s ca sa"
    by (rule call_22 [where ch = ch and a = "''hello''" and b = "'' goodbye''" and old = "[]", OF t8]) (simp, rule that)
  have t7: "tested ca sa (Suc (6 + n))" using a(2) by (simp add: eval_nat_numeral)
  have u: "unat (70000 :: u32) = 70000" by simp
  have lt: "unat (70000 :: u32) < 2 ^ 31 - 28" by simp
  obtain cb sb where b: "rpc_call put_int get_string ch 25 70000 (''hello'' @ '' goodbye'') ca sa () =
      Inr (cb, sb, (), 0, xstring (unat (70000 :: u32)))" "tested cb sb (6 + n)" "kept ca sa cb sb"
    by (rule call_25 [OF t7 lt])
  let ?big = "xstring (unat (70000 :: u32))"
  have t6: "tested cb sb (Suc (5 + n))" using b(2) by (simp add: eval_nat_numeral)
  have fc: "fits (enc_string ''just one'')" "fits (enc_pair be32 be32 (1001, 1002))"
    "fits (enc_pair enc_string enc_string (''hello'', '' goodbye''))"
    by (simp_all add: fits_def enc_pair_def enc_string_def)
  have miss: "\<forall>u. u_wf u \<and> u_ok u \<and> u_rest u = enc_string ''just one'' \<longrightarrow>
      (\<exists>x v. two_strings u = Inr (x, v) \<and> \<not> u_okdone v)"
    using string_missing by blast
  obtain cc sc where c: "rpc_call put_string get_string ch 22 ''just one'' ?big cb sb () =
      Inr (cc, sc, (), rpc_unmarshal_args_failure, ?big)" "tested cc sc (5 + n)" "kept cb sb cc sc"
    by (rule bad_call [where ch = ch and old = ?big and rget = get_string and put = put_string and pget = "get_string []"
            and enc = enc_string and a = "''just one''" and get = two_strings, OF t6 p(1) test_procs_simps(1) str.codec_axioms fc(1) miss]) (rule that)
  have t5: "tested cc sc (Suc (4 + n))" using c(2) by (simp add: eval_nat_numeral)
  have two: "\<forall>u. u_wf u \<and> u_ok u \<and> u_rest u = enc_pair be32 be32 (1001, 1002) \<longrightarrow>
      (\<exists>x v. get_int u = Inr (x, v) \<and> \<not> u_okdone v)"
    by (intro allI impI, elim conjE, rule int_leaves_rest [where x = 1001 and b = 0 and rest = "[0, 3, 234]"])
      (assumption+, simp add: enc_pair_def be32_def)
  obtain cd sd where d: "rpc_call (put_pair put_int put_int) get_string ch 23 (1001, 1002) ?big cc sc () =
      Inr (cd, sd, (), rpc_unmarshal_args_failure, ?big)" "tested cd sd (4 + n)" "kept cc sc cd sd"
    by (rule bad_call [where ch = ch and old = ?big and rget = get_string and put = "put_pair put_int put_int"
            and enc = "enc_pair be32 be32" and a = "(1001, 1002)" and get = get_int, OF t5 p(2) test_procs_simps(2) two_ints_codec fc(2) two]) (rule that)
  have t4: "tested cd sd (Suc (3 + n))" using d(2) by (simp add: eval_nat_numeral)
  have strs: "\<forall>u. u_wf u \<and> u_ok u \<and> u_rest u = enc_pair enc_string enc_string (''hello'', '' goodbye'') \<longrightarrow>
      (\<exists>x v. get_int u = Inr (x, v) \<and> \<not> u_okdone v)"
    by (intro allI impI, elim conjE, rule int_leaves_rest [where x = 5 and b = "byte_of_char CHR ''h''"
          and rest = "map byte_of_char ''ello'' @ enc_string '' goodbye''"])
      (assumption+, simp add: enc_pair_def enc_string_def)
  obtain ce se where e: "rpc_call (put_pair put_string put_string) (\<lambda>_. get_int) ch 23 (''hello'', '' goodbye'') 0 cd sd () =
      Inr (ce, se, (), rpc_unmarshal_args_failure, 0)" "tested ce se (3 + n)" "kept cd sd ce se"
    by (rule bad_call [where ch = ch and old = 0 and rget = "\<lambda>_. get_int" and put = "put_pair put_string put_string"
            and enc = "enc_pair enc_string enc_string" and a = "(''hello'', '' goodbye'')" and get = get_int, OF t4 p(2) test_procs_simps(2) two_strings_codec fc(3) strs]) (rule that)
  have t3: "tested ce se (Suc (2 + n))" using e(2) by (simp add: eval_nat_numeral)
  obtain cf sf where f: "rpc_call put_int (\<lambda>_. get_int) ch (if True then 23 else 24) 77 0 ce se () =
      Inr (cf, sf, (), 0, if True then 77 + 1 else 77 + 2)" "tested cf sf (2 + n)" "kept ce se cf sf"
    by (rule call_int [OF t3])
  have t2: "tested cf sf (Suc (1 + n))" using f(2) by (simp add: eval_nat_numeral)
  obtain cg sg where g: "rpc_call (put_pair put_string put_string) get_string ch 22 (xstring 1000, ''x'') [] cf sf () =
      Inr (cg, sg, (), 0, xstring 1000 @ ''x'')" "tested cg sg (1 + n)" "kept cf sf cg sg"
    by (rule call_22 [where ch = ch and a = "xstring 1000" and b = "''x''" and old = "[]", OF t2]) (simp, rule that)
  have t1': "tested cg sg (Suc n)" using g(2) by (simp add: numeral_2_eq_2)
  obtain ch' sh where h: "rpc_call (put_pair put_string put_string) get_string ch 22 (xstring 1000000, ''z'') ?big cg sg () =
      Inr (ch', sh, (), 0, xstring 1000000 @ ''z'')" "tested ch' sh n" "kept cg sg ch' sh"
    by (rule call_22 [where ch = ch and a = "xstring 1000000" and b = "''z''" and old = "?big", OF t1']) (simp, rule that)
  obtain cl where l: "call1_lost proc_bind (rpcc_new retrans nonce) = (cl, rpc_timeout_failure)" by (rule lost_bind)
  have k: "kept c s ch' sh"
    by (rule a(3) [THEN kept_trans], rule b(3) [THEN kept_trans], rule c(3) [THEN kept_trans],
      rule d(3) [THEN kept_trans], rule e(3) [THEN kept_trans], rule f(3) [THEN kept_trans],
      rule g(3) [THEN kept_trans], rule h(3))
  have "''hello'' @ '' goodbye'' = ''hello goodbye''" by simp
  then show ?thesis
    unfolding simple_tests_def using a(1) b(1) c(1) d(1) e(1) f(1) g(1) h(1,2) k l clock
    by (simp add: rpc_const_defs rpcc_bind_def Let_def)
qed

text \<open>the asserts of \<open>failure_test\<close> hold when the new server draws another nonce: its clients must
  bind again, once.\<close>

theorem failure_test_passes:
  assumes c: "linked client s0" "c_bind_done client" "c_xid client \<noteq> - 1" "c_srv_nonce client \<noteq> 0"
    and n: "c_srv_nonce client \<noteq> nonce"
  shows "\<exists>c' s'. failure_test ch port nonce n1 n2 client = Inr (c', s') \<and> tested c' s' 99"
proof -
  let ?hg = "(''hello'', '' goodbye'')" and ?put = "put_pair put_string put_string"
  obtain cl where l: "call1_lost proc_bind (rpcc_new True n1) = (cl, rpc_timeout_failure)" by (rule lost_bind)
  obtain s where s: "startserver port nonce = Inr s" "rs_procs s = test_procs nonce" "rs_nonce s = nonce"
    "rs_reachable s" "rs_window s = Map.empty" by (rule startserver_started)
  have p: "(22 :: u32) \<noteq> proc_bind" by (simp add: proc_bind_def)
  have fits: "fits (enc_pair enc_string enc_string ?hg)" by (simp add: fits_def enc_pair_def enc_string_def)
  have other: "c_srv_nonce client \<noteq> rs_nonce s" using n s(3) by simp
  obtain c1 where old: "rpc_call ?put get_string ch 22 ?hg [] client s () = Inr (c1, incref ch s, (), rpc_oldsrv_failure, [])"
    using restarted_server_refuses [where ch = ch and rget = get_string and old = "[]" and st = "()" and a = ?hg,
        OF c(1,2,3) p s(4) c(4) other two_strings_codec fits] by blast
  let ?s = "incref ch s"
  have "linked (rpcc_new True n2) ?s"
    by (rule linked_new) (simp_all add: s rw_ok_def xids_of_def)
  then obtain c2 s2 where b: "rpc_bind ch (rpcc_new True n2) ?s () = Inr (c2, s2, (), 0)" "linked c2 s2" "c_bind_done c2"
    "same_server ?s s2" "c_xid c2 = 2"
    using bind_connects [of "rpcc_new True n2" ?s ch "()"]
    by (auto simp: s test_procs_simps) (auto simp: rpcc_new_def)
  have again: "rpc_bind ch c2 s2 () = Inr (c2, s2, (), rpc_bind_failure)"
    using b(3) by (simp add: rpc_bind_def rpc_call_def call1_over_def call1_begin_def rpcc_call_m_def rpcc_bind_def rpc_const_defs)
  have t: "tested c2 s2 (Suc 99)" using b s by (simp add: tested_def same_server_def)
  obtain c3 s3 where d: "rpc_call ?put get_string ch 22 ?hg [] c2 s2 () = Inr (c3, s3, (), 0, ''hello'' @ '' goodbye'')"
    "tested c3 s3 99" "kept c2 s2 c3 s3"
    by (rule call_22 [where ch = ch and a = "''hello''" and b = "'' goodbye''" and old = "[]", OF t]) (simp, rule that)
  show ?thesis
    unfolding failure_test_def using l s(1) old b(1) again d(1,2)
    by (simp add: rpc_const_defs rpcc_bind_def Let_def)
qed

section \<open>Examples\<close>

lemma ex_tested: "\<exists>s. startserver 9000 5 = Inr s \<and> tested (ex_clt 9) s 100"
proof -
  obtain s where s: "startserver 9000 5 = Inr s" "rs_procs s = test_procs 5" "rs_nonce s = 5"
    "rs_reachable s" "rs_window s = Map.empty" by (rule startserver_started)
  have "tested (ex_clt 9) s 100"
    using ex_linked [of 9] s by (simp add: tested_def linked_def ex_clt_simps rw_ok_def xids_of_def)
  then show ?thesis using s(1) by blast
qed

lemma tested_less: "tested c s n \<Longrightarrow> m \<le> n \<Longrightarrow> tested c s m"
  by (simp add: tested_def)

theorem clients_pass_witness:
  "\<exists>s c' s'. startserver 9000 5 = Inr s \<and> client1 3 [0, 7] [(True, 4)] (ex_clt 9) s = Inr (c', s')"
proof -
  obtain s where s: "startserver 9000 5 = Inr s" "tested (ex_clt 9) s 100" using ex_tested by blast
  have "tested (ex_clt 9) s (length [0 :: u32, 7] + length [(True, 4 :: u32)])" by (rule tested_less [OF s(2)]) simp
  from clients_pass [OF this] s(1) show ?thesis by simp
qed

theorem simple_tests_pass_witness:
  "\<exists>s r. startserver 9000 5 = Inr s \<and> simple_tests 3 100 103 (rpcc_new True 7) (ex_clt 9) s = Inr r"
proof -
  obtain s where s: "startserver 9000 5 = Inr s" "tested (ex_clt 9) s 100" using ex_tested by blast
  have "tested (ex_clt 9) s (8 + 0)" by (rule tested_less [OF s(2)]) simp
  from simple_tests_pass [OF this, of 103 100 3 True 7] s(1) show ?thesis by auto
qed

theorem failure_test_passes_witness: "\<exists>r. failure_test 3 9000 6 7 8 (ex_clt 9) = Inr r"
  using failure_test_passes [OF ex_linked [of 9], of 6 3 9000 7 8] by (auto simp: ex_clt_simps)

end
