(* ===== verification/RpcThreads.thy ===== *)
theory RpcThreads
  imports RpcTest RpcConcurrent
begin

text \<open>
  The threads of \<open>rpc/rpctest.cc\<close>: the loops of its clients run as threads that share the clients
  and the server, moved on by a scheduler one step at a time, so that calls overlap.  The theorem
  says that for every schedule no assert fails, and that every fair one brings all threads to their end.
\<close>

section \<open>The turns of the loops\<close>

text \<open>A turn: of the first and the second loop of \<open>client1\<close>, and of the loop of \<open>client3\<close>.\<close>

datatype turn = Sized u32 | Ordered bool u32 | Timed u32

fun turn_proc :: "turn \<Rightarrow> u32" where
  "turn_proc (Sized arg) = 25"
| "turn_proc (Ordered which arg) = (if which then 23 else 24)"
| "turn_proc (Timed i) = 24"

fun turn_arg :: "turn \<Rightarrow> u32" where
  "turn_arg (Sized arg) = arg"
| "turn_arg (Ordered which arg) = arg"
| "turn_arg (Timed i) = i"

text \<open>What is left of the turn when \<open>call1\<close> is back with its status and reply.\<close>

fun turn_end :: "turn \<Rightarrow> status \<Rightarrow> unmarshall \<Rightarrow> unit res" where
  "turn_end (Sized arg) ret un =
     rbind (rpcc_call_m (get_string []) [] ret un) (\<lambda>(ret, rep).
     rbind (require (ret = 0)) (\<lambda>_. require (of_nat (length rep) = arg)))"
| "turn_end (Ordered which arg) ret un =
     rbind (rpcc_call_m get_int 0 ret un) (\<lambda>(ret, rep).
     rbind (require (ret = 0)) (\<lambda>_. require (rep = (if which then arg + 1 else arg + 2))))"
| "turn_end (Timed i) ret un =
     rbind (rpcc_call_m get_int 0 ret un) (\<lambda>(ret, rep). require (ret = rpc_timeout_failure \<or> rep = i + 2))"

definition client1_turns :: "u32 list \<Rightarrow> (bool \<times> u32) list \<Rightarrow> turn list" where
  "client1_turns args1 args2 = map Sized args1 @ map (\<lambda>(which, arg). Ordered which arg) args2"

definition client3_turns :: "turn list" where
  "client3_turns = map Timed [0, 1, 2, 3]"

text \<open>A turn on its own is the loop body of theory \<open>RpcTest\<close>.\<close>

definition turn_alone :: "nat \<Rightarrow> turn \<Rightarrow> rpcc \<Rightarrow> unit rpcs \<Rightarrow> (rpcc \<times> unit rpcs) res" where
  "turn_alone ch w c s = rbind (call1_over ch (turn_proc w) (rpcc_call_args [\<lambda>m. put_int m (turn_arg w)]) c s ())
     (\<lambda>(c, s, _, ret, un). rbind (turn_end w ret un) (\<lambda>_. Inr (c, s)))"

lemma turns_are_loop_bodies:
  "client1_sizes ch (arg # args) c s = rbind (turn_alone ch (Sized arg) c s) (\<lambda>(c, s). client1_sizes ch args c s)"
  "client1_order ch ((which, arg) # args2) c s =
    rbind (turn_alone ch (Ordered which arg) c s) (\<lambda>(c, s). client1_order ch args2 c s)"
  "client3 ch i (False # lost) c s = rbind (turn_alone ch (Timed i) c s) (\<lambda>(c, s). client3 ch (i + 1) lost c s)"
  by (auto simp: turn_alone_def rpc_call_def rbind_def split: sum.split prod.split)

section \<open>Threads under a scheduler\<close>

text \<open>The methods under test, on marshalled arguments.\<close>

definition test_meth :: "u32 \<Rightarrow> unit meth_fn" where
  "test_meth proc b st =
     (0, if proc = 25 then enc_string (xstring (unat (arg_of b)))
         else be32 (if proc = 23 then arg_of b + 1 else arg_of b + 2), ())"

definition test_legal :: "u32 \<Rightarrow> byte list \<Rightarrow> bool" where
  "test_legal proc b \<longleftrightarrow> (proc = 23 \<or> proc = 24 \<or> proc = 25) \<and>
     (\<exists>a :: u32. (proc = 25 \<longrightarrow> unat a < 2000) \<and> b = be32 a)"

text \<open>One step of thread \<open>t\<close>: it starts the call of its next turn; its request is run; its reply
  reaches the client; it wakes up and checks what it got.  The phases are those of theory
  \<open>RpcConcurrent\<close>; what they note of the specification is not read here.\<close>

definition thread_move ::
  "nat \<Rightarrow> (nat \<Rightarrow> nat) \<Rightarrow> nat \<Rightarrow> unit net \<times> (nat \<Rightarrow> turn list) \<Rightarrow> (unit net \<times> (nat \<Rightarrow> turn list)) res"
where
  "thread_move ch own t x =
     (case x of (n, work) \<Rightarrow>
      case n_ph n t of
        Idle \<Rightarrow>
          (case work t of
             [] \<Rightarrow> Inr (n, work)
           | w # ws \<Rightarrow>
              (case call1_begin (n_cs n (own t)) (turn_proc w) of
                 (c, Inr h) \<Rightarrow>
                   Inr (n\<lparr>n_cs := (n_cs n)(own t := c),
                          n_ph := (n_ph n)(t := Asked h (rpcc_call_args [\<lambda>m. put_int m (turn_arg w)]))\<rparr>, work)
               | (c, Inl e) \<Rightarrow>
                   rbind (turn_end w e unmarshall_empty) (\<lambda>_.
                     Inr (n\<lparr>n_cs := (n_cs n)(own t := c)\<rparr>, work(t := ws)))))
      | Asked h m \<Rightarrow>
          rbind (serve ch (m_pdu (pack_req_header m h)) (n_srv n) (n_st n)) (\<lambda>(s, st, r).
            case r of
              None \<Rightarrow> Inr (n\<lparr>n_srv := s, n_st := st\<rparr>, work)
            | Some p \<Rightarrow>
                (case test_meth (h_proc h) (m_content m) (n_st n) of (ret, out, _) \<Rightarrow>
                   Inr (n\<lparr>n_srv := s, n_st := st, n_ph := (n_ph n)(t := Told h m p ret out),
                     n_log := n_log n @ [(t, h_proc h, m_content m, ret, out)]\<rparr>, work)))
      | Told h m p ret out \<Rightarrow>
          Inr (n\<lparr>n_cs := (n_cs n)(own t := rpcc_got_pdu (n_cs n (own t)) p),
            n_ph := (n_ph n)(t := Back h m ret out)\<rparr>, work)
      | Back h m ret out \<Rightarrow>
          (let un = (case c_calls (n_cs n (own t)) (h_xid h) of Some ca \<Rightarrow> ca_un ca | None \<Rightarrow> unmarshall_empty);
               (c, r) = call1_end (n_cs n (own t)) (h_xid h)
           in rbind (turn_end (hd (work t)) r un) (\<lambda>_.
                Inr (n\<lparr>n_cs := (n_cs n)(own t := c), n_ph := (n_ph n)(t := Idle)\<rparr>, work(t := tl (work t))))))"

fun run_threads ::
  "nat \<Rightarrow> (nat \<Rightarrow> nat) \<Rightarrow> nat list \<Rightarrow> unit net \<times> (nat \<Rightarrow> turn list) \<Rightarrow> (unit net \<times> (nat \<Rightarrow> turn list)) res"
where
  "run_threads ch own [] x = Inr x"
| "run_threads ch own (t # sched) x = rbind (thread_move ch own t x) (run_threads ch own sched)"

definition NUM_CL :: nat where
  "NUM_CL = 2"

definition net_of :: "(nat \<Rightarrow> rpcc) \<Rightarrow> unit rpcs \<Rightarrow> unit net" where
  "net_of cs s = \<lparr>n_cs = cs, n_srv = s, n_st = (), n_ph = \<lambda>_. Idle, n_log = []\<rparr>"

text \<open>\<open>concurrent_test\<close>: \<open>nt\<close> threads in \<open>client1\<close>, thread \<open>i\<close> with the draws \<open>args i\<close>; the scheduler runs
  them as \<open>sched\<close> says; the joins wait for all.\<close>

definition concurrent_test ::
  "nat \<Rightarrow> nat \<Rightarrow> (nat \<Rightarrow> u32 list \<times> (bool \<times> u32) list) \<Rightarrow> nat list \<Rightarrow> (nat \<Rightarrow> rpcc) \<Rightarrow> unit rpcs \<Rightarrow>
   (unit net \<times> (nat \<Rightarrow> turn list)) res"
where
  "concurrent_test ch nt args sched clients s =
     run_threads ch (\<lambda>i. i mod NUM_CL) sched
       (net_of clients s, \<lambda>i. if i < nt then client1_turns (fst (args i)) (snd (args i)) else [])"

text \<open>All threads joined.\<close>

definition joined :: "unit net \<times> (nat \<Rightarrow> turn list) \<Rightarrow> bool" where
  "joined x \<longleftrightarrow> (\<forall>t. n_ph (fst x) t = Idle \<and> snd x t = [])"

section \<open>The invariant\<close>

fun turn_legal :: "turn \<Rightarrow> bool" where
  "turn_legal (Sized arg) = (unat arg < 2000)"
| "turn_legal w = True"

fun header_of :: "phase \<Rightarrow> (req_header \<times> marshall) option" where
  "header_of Idle = None"
| "header_of (Asked h m) = Some (h, m)"
| "header_of (Told h m p ret out) = Some (h, m)"
| "header_of (Back h m ret out) = Some (h, m)"

definition turn_busy :: "phase \<Rightarrow> turn list \<Rightarrow> bool" where
  "turn_busy ph ws \<longleftrightarrow> (\<forall>h m. header_of ph = Some (h, m) \<longrightarrow>
     (\<exists>w ws'. ws = w # ws' \<and> h_proc h = turn_proc w \<and> m_content m = be32 (turn_arg w)))"

text \<open>The calls a thread has still to start, and the steps it has still to make.\<close>

definition todo :: "phase \<Rightarrow> turn list \<Rightarrow> nat" where
  "todo ph ws = (if ph = Idle then length ws else length ws - 1)"

fun moves_left :: "phase \<Rightarrow> turn list \<Rightarrow> nat" where
  "moves_left Idle ws = 4 * length ws"
| "moves_left (Asked h m) ws = 4 * length ws - 1"
| "moves_left (Told h m p ret out) ws = 4 * length ws - 2"
| "moves_left (Back h m ret out) ws = 4 * length ws - 3"

definition room :: "(nat \<Rightarrow> nat) \<Rightarrow> nat \<Rightarrow> unit net \<Rightarrow> (nat \<Rightarrow> turn list) \<Rightarrow> bool" where
  "room own nt n work \<longleftrightarrow> (\<forall>i \<in> range own. unat (c_xid (n_cs n i)) + (\<Sum>t<nt. todo (n_ph n t) (work t)) < 2 ^ 32)"

definition threads_inv :: "(nat \<Rightarrow> nat) \<Rightarrow> nat \<Rightarrow> unit net \<times> (nat \<Rightarrow> turn list) \<Rightarrow> bool" where
  "threads_inv own nt x \<longleftrightarrow> (case x of (n, work) \<Rightarrow>
     net_inv own test_legal test_meth () n \<and> (\<forall>t. turn_busy (n_ph n t) (work t)) \<and>
     (\<forall>t. \<forall>w \<in> set (work t). turn_legal w) \<and> (\<forall>t \<ge> nt. work t = []) \<and> room own nt n work)"

text \<open>A step moves its thread on, and no other.\<close>

definition moved :: "nat \<Rightarrow> unit net \<times> (nat \<Rightarrow> turn list) \<Rightarrow> unit net \<times> (nat \<Rightarrow> turn list) \<Rightarrow> bool" where
  "moved t x y \<longleftrightarrow> (\<forall>u. moves_left (n_ph (fst y) u) (snd y u) =
     (if u = t then moves_left (n_ph (fst x) u) (snd x u) - 1 else moves_left (n_ph (fst x) u) (snd x u)))"

lemma local_run_stateless: "local_run test_meth st l st' \<Longrightarrow> (t, proc, b, ret, out) \<in> set l \<Longrightarrow> test_meth proc b () = (ret, out, ())"
  by (induction test_meth st l st' rule: local_run.induct) auto

lemma last_call_in: "last_call l t proc b ret out \<Longrightarrow> (t, proc, b, ret, out) \<in> set l"
  by (auto simp: last_call_def)

text \<open>The checks of a turn pass on the method's result.\<close>

lemma turn_end_passes:
  assumes "turn_legal w" and "test_meth (turn_proc w) (be32 (turn_arg w)) () = (ret, out, ())"
    and u: "u_wf un" "u_ok un" "u_rest un = out"
  shows "turn_end w ret un = Inr ()"
proof (cases w)
  case (Sized arg)
  have "u_rest un = enc_string (xstring (unat arg))" "ret = 0" using assms Sized by (auto simp: test_meth_def)
  then show ?thesis using read_all [OF str.codec_axioms u(1,2)] Sized by (simp add: rpcc_call_m_def)
next
  case (Ordered which arg)
  have "u_rest un = be32 (if which then arg + 1 else arg + 2)" "ret = 0" using assms Ordered by (auto simp: test_meth_def)
  then show ?thesis using read_all [OF int.codec_axioms u(1,2)] Ordered by (simp add: rpcc_call_m_def)
next
  case (Timed i)
  have "u_rest un = be32 (i + 2)" "ret = 0" using assms Timed by (auto simp: test_meth_def)
  then show ?thesis using read_all [OF int.codec_axioms u(1,2)] Timed by (simp add: rpcc_call_m_def)
qed

text \<open>What a step keeps, from what it does to the phase and the work of its thread.\<close>

lemma threads_inv_step:
  assumes inv: "threads_inv own nt (n, work)" and "net_inv own test_legal test_meth () n'"
    and ph: "n_ph n' = (n_ph n)(t := ph)" and busy: "turn_busy ph ws" and ws: "set ws \<subseteq> set (work t)"
    and left: "moves_left ph ws = moves_left (n_ph n t) (work t) - 1"
    and xid: "\<And>i. i \<noteq> own t \<Longrightarrow> c_xid (n_cs n' i) = c_xid (n_cs n i)"
      "unat (c_xid (n_cs n' (own t))) + todo ph ws \<le> unat (c_xid (n_cs n (own t))) + todo (n_ph n t) (work t)"
      "todo ph ws \<le> todo (n_ph n t) (work t)"
  shows "threads_inv own nt (n', work(t := ws)) \<and> moved t (n, work) (n', work(t := ws))"
proof -
  let ?W = "work(t := ws)"
  have I: "\<forall>t. turn_busy (n_ph n t) (work t)" "\<forall>t. \<forall>w \<in> set (work t). turn_legal w" "\<forall>t \<ge> nt. work t = []" "room own nt n work"
    using inv by (auto simp: threads_inv_def)
  have "room own nt n' ?W"
    unfolding room_def
  proof
    fix i assume i: "i \<in> range own"
    let ?f = "\<lambda>u. todo (n_ph n u) (work u)" and ?g = "\<lambda>u. todo (n_ph n' u) (?W u)"
    have old: "unat (c_xid (n_cs n i)) + sum ?f {..<nt} < 2 ^ 32" using I(4) i by (auto simp: room_def)
    have g: "?g u = (if u = t then todo ph ws else ?f u)" for u by (simp add: ph)
    show "unat (c_xid (n_cs n' i)) + sum ?g {..<nt} < 2 ^ 32"
    proof (cases "t < nt")
      case True
      have "sum ?f {..<nt} = ?f t + sum ?f ({..<nt} - {t})" "sum ?g {..<nt} = ?g t + sum ?g ({..<nt} - {t})"
        using True by (simp_all add: sum.remove)
      moreover have "sum ?g ({..<nt} - {t}) = sum ?f ({..<nt} - {t})" by (rule sum.cong) (auto simp: ph)
      moreover have "?g t = todo ph ws" by (simp add: ph)
      ultimately show ?thesis using old xid by (cases "i = own t") auto
    next
      case False
      then have "todo (n_ph n t) (work t) = 0" using I(3) by (simp add: todo_def)
      moreover have "sum ?g {..<nt} = sum ?f {..<nt}" by (rule sum.cong) (use False in \<open>auto simp: ph\<close>)
      ultimately show ?thesis using old xid by (cases "i = own t") auto
    qed
  qed
  moreover have "\<forall>u. turn_busy (n_ph n' u) (?W u)" using I(1) busy by (simp add: ph)
  moreover have "\<forall>u. \<forall>w \<in> set (?W u). turn_legal w" using I(2) ws by auto
  moreover have "\<forall>u \<ge> nt. ?W u = []" using I(3) ws by auto
  moreover have "moved t (n, work) (n', ?W)" using left by (auto simp: moved_def ph)
  ultimately show ?thesis using assms(2) by (simp add: threads_inv_def)
qed

lemma threads_inv_busy:
  assumes "threads_inv own nt (n, work)" and "header_of (n_ph n t) = Some (h, m)"
  shows "\<exists>w ws. work t = w # ws \<and> h_proc h = turn_proc w \<and> m_content m = be32 (turn_arg w) \<and> turn_legal w"
proof -
  have "turn_busy (n_ph n t) (work t)" "\<forall>w \<in> set (work t). turn_legal w" using assms(1) by (auto simp: threads_inv_def)
  then show ?thesis using assms(2) by (auto simp: turn_busy_def)
qed

lemma turn_legal_test: "turn_legal w \<Longrightarrow> test_legal (turn_proc w) (be32 (turn_arg w))"
  by (cases w) (auto simp: test_legal_def)

lemma turn_proc_not_bind: "turn_proc w \<noteq> proc_bind"
  by (cases w) (auto simp: proc_bind_def)

lemma turn_args:
  "sendable (rpcc_call_args [\<lambda>m. put_int m a])" "m_content (rpcc_call_args [\<lambda>m. put_int m a]) = be32 a"
proof -
  have fit: "fits (be32 a)" by (simp add: fits_def)
  show "sendable (rpcc_call_args [\<lambda>m. put_int m a])" "m_content (rpcc_call_args [\<lambda>m. put_int m a]) = be32 a"
    using stub_buffer [OF int.codec_axioms fit] by (simp_all add: sendable_def rpcc_call_args_def)
qed

lemma thread_asks:
  assumes inv: "threads_inv own nt (n, work)" and t: "n_ph n t = Idle" "work t = w # ws"
  shows "\<exists>y. thread_move ch own t (n, work) = Inr y \<and> threads_inv own nt y \<and> moved t (n, work) y"
proof -
  let ?c = "n_cs n (own t)" and ?m = "rpcc_call_args [\<lambda>m. put_int m (turn_arg w)]"
  have I: "net_inv own test_legal test_meth () n" "\<forall>w \<in> set (work t). turn_legal w" "\<forall>t \<ge> nt. work t = []" "room own nt n work"
    using inv by (auto simp: threads_inv_def)
  have legal: "turn_legal w" using I(2) t(2) by simp
  have "t < nt" using I(3) t(2) by (metis list.distinct(1) not_le)
  then have "todo (n_ph n t) (work t) \<le> (\<Sum>t<nt. todo (n_ph n t) (work t))" by (intro member_le_sum) auto
  moreover have "todo (n_ph n t) (work t) = Suc (length ws)" using t by (simp add: todo_def)
  moreover have "unat (c_xid ?c) + (\<Sum>t<nt. todo (n_ph n t) (work t)) < 2 ^ 32" using I(4) by (auto simp: room_def)
  ultimately have lt: "unat (c_xid ?c) + Suc (length ws) < 2 ^ 32" by linarith
  have x: "c_xid ?c \<noteq> - 1" "unat (c_xid ?c + 1) = Suc (unat (c_xid ?c))" using room_u32 [OF lt] by auto
  have "clients_fine own (n_cs n) (n_srv n)" using I(1) by (simp add: net_inv_def)
  then have "\<not> c_destroy_wait ?c" "c_bind_done ?c" by (auto simp: clients_fine_def)
  then obtain c h where b: "call1_begin ?c (turn_proc w) = (c, Inr h)" "c_xid c = c_xid ?c + 1" "h_proc h = turn_proc w"
    using turn_proc_not_bind [of w] by (auto simp: call1_begin_def Let_def)
  let ?n = "n\<lparr>n_cs := (n_cs n)(own t := c), n_ph := (n_ph n)(t := Asked h ?m)\<rparr>"
  have inv': "net_inv own test_legal test_meth () ?n"
    using net_inv_ask [OF I(1) t(1) x(1) turn_args(1) _ b(1)] turn_legal_test [OF legal] by (simp add: turn_args(2))
  have "threads_inv own nt (?n, work(t := work t)) \<and> moved t (n, work) (?n, work(t := work t))"
    by (rule threads_inv_step [OF inv inv', where ph = "Asked h ?m"])
      (use t b x(2) in \<open>simp_all add: turn_busy_def turn_args(2) todo_def\<close>)
  moreover have "thread_move ch own t (n, work) = Inr (?n, work)" using t b(1) by (simp add: thread_move_def)
  ultimately show ?thesis by simp
qed

lemma thread_served:
  assumes inv: "threads_inv own nt (n, work)" and t: "n_ph n t = Asked h m"
  shows "\<exists>y. thread_move ch own t (n, work) = Inr y \<and> threads_inv own nt y \<and> moved t (n, work) y"
proof -
  obtain w ws where w: "work t = w # ws" "h_proc h = turn_proc w" "m_content m = be32 (turn_arg w)"
    using threads_inv_busy [OF inv, of t h m] t by auto
  have I: "net_inv own test_legal test_meth () n" using inv by (simp add: threads_inv_def)
  obtain ret out st' where g: "test_meth (h_proc h) (m_content m) (n_st n) = (ret, out, st')" by (metis prod_cases3)
  obtain s p where sv: "serve ch (m_pdu (pack_req_header m h)) (n_srv n) (n_st n) = Inr (s, st', Some p)"
    using asked_runs [OF I t g, of ch] by metis
  let ?n = "n\<lparr>n_srv := s, n_st := st', n_ph := (n_ph n)(t := Told h m p ret out),
      n_log := n_log n @ [(t, h_proc h, m_content m, ret, out)]\<rparr>"
  have inv': "net_inv own test_legal test_meth () ?n" by (rule net_inv_run [OF I t sv g])
  have "threads_inv own nt (?n, work(t := work t)) \<and> moved t (n, work) (?n, work(t := work t))"
    by (rule threads_inv_step [OF inv inv', where ph = "Told h m p ret out"])
      (use t w in \<open>simp_all add: turn_busy_def todo_def\<close>)
  moreover have "thread_move ch own t (n, work) = Inr (?n, work)" using t sv g by (simp add: thread_move_def)
  ultimately show ?thesis by simp
qed

lemma thread_told:
  assumes inv: "threads_inv own nt (n, work)" and t: "n_ph n t = Told h m p ret out"
  shows "\<exists>y. thread_move ch own t (n, work) = Inr y \<and> threads_inv own nt y \<and> moved t (n, work) y"
proof -
  obtain w ws where w: "work t = w # ws" "h_proc h = turn_proc w" "m_content m = be32 (turn_arg w)"
    using threads_inv_busy [OF inv, of t h m] t by auto
  have I: "net_inv own test_legal test_meth () n" using inv by (simp add: threads_inv_def)
  let ?n = "n\<lparr>n_cs := (n_cs n)(own t := rpcc_got_pdu (n_cs n (own t)) p), n_ph := (n_ph n)(t := Back h m ret out)\<rparr>"
  have inv': "net_inv own test_legal test_meth () ?n" by (rule net_inv_tell [OF I t])
  have x: "c_xid (rpcc_got_pdu c p) = c_xid c" for c
    by (simp add: rpcc_got_pdu_def Let_def split: prod.splits option.splits)
  have "threads_inv own nt (?n, work(t := work t)) \<and> moved t (n, work) (?n, work(t := work t))"
    by (rule threads_inv_step [OF inv inv', where ph = "Back h m ret out"])
      (use t w x in \<open>simp_all add: turn_busy_def todo_def\<close>)
  moreover have "thread_move ch own t (n, work) = Inr (?n, work)" using t by (simp add: thread_move_def)
  ultimately show ?thesis by simp
qed

lemma thread_wakes:
  assumes inv: "threads_inv own nt (n, work)" and t: "n_ph n t = Back h m ret out"
  shows "\<exists>y. thread_move ch own t (n, work) = Inr y \<and> threads_inv own nt y \<and> moved t (n, work) y"
proof -
  obtain w ws where w: "work t = w # ws" "h_proc h = turn_proc w" "m_content m = be32 (turn_arg w)" "turn_legal w"
    using threads_inv_busy [OF inv, of t h m] t by auto
  have I: "net_inv own test_legal test_meth () n" using inv by (simp add: threads_inv_def)
  note N = I [unfolded net_inv_def]
  have "logged (n_log n) t (Back h m ret out)" "local_run test_meth () (n_log n) (n_st n)"
    "phase_ok test_legal (n_cs n (own t)) (n_srv n) (Back h m ret out)" using N t by metis+
  then have "last_call (n_log n) t (turn_proc w) (be32 (turn_arg w)) ret out" "local_run test_meth () (n_log n) (n_st n)"
    and "\<exists>ca. c_calls (n_cs n (own t)) (h_xid h) = Some ca \<and> ca_done ca \<and> ca_intret ca = ret \<and>
      u_wf (ca_un ca) \<and> u_ok (ca_un ca) \<and> u_rest (ca_un ca) = out"
    using w(2,3) by simp_all
  then have meth: "test_meth (turn_proc w) (be32 (turn_arg w)) () = (ret, out, ())"
    and "\<exists>ca. c_calls (n_cs n (own t)) (h_xid h) = Some ca \<and> ca_done ca \<and> ca_intret ca = ret \<and>
      u_wf (ca_un ca) \<and> u_ok (ca_un ca) \<and> u_rest (ca_un ca) = out"
    by (blast dest: last_call_in local_run_stateless)+
  then obtain ca where ca: "c_calls (n_cs n (own t)) (h_xid h) = Some ca" "ca_done ca" "ca_intret ca = ret"
    "u_wf (ca_un ca)" "u_ok (ca_un ca)" "u_rest (ca_un ca) = out" by blast
  obtain c where e: "call1_end (n_cs n (own t)) (h_xid h) = (c, ret)" "c_xid c = c_xid (n_cs n (own t))"
    using ca by (simp add: call1_end_def)
  have fine: "turn_end w ret (ca_un ca) = Inr ()" by (rule turn_end_passes [OF w(4) meth ca(4-6)])
  let ?n = "n\<lparr>n_cs := (n_cs n)(own t := c), n_ph := (n_ph n)(t := Idle)\<rparr>"
  have inv': "net_inv own test_legal test_meth () ?n" by (rule net_inv_wake [OF I t e(1)])
  have "threads_inv own nt (?n, work(t := ws)) \<and> moved t (n, work) (?n, work(t := ws))"
    by (rule threads_inv_step [OF inv inv', where ph = Idle])
      (use t w e in \<open>auto simp: turn_busy_def todo_def\<close>)
  moreover have "thread_move ch own t (n, work) = Inr (?n, work(t := ws))"
    using t ca(1) e(1) fine w(1) by (simp add: thread_move_def Let_def)
  ultimately show ?thesis by blast
qed

lemma thread_moves:
  assumes "threads_inv own nt x"
  shows "\<exists>y. thread_move ch own t x = Inr y \<and> threads_inv own nt y \<and> moved t x y"
proof -
  obtain n work where x: "x = (n, work)" by (cases x)
  note inv = assms [unfolded x]
  show ?thesis
  proof (cases "n_ph n t")
    case Idle
    show ?thesis
    proof (cases "work t")
      case Nil
      then show ?thesis using Idle assms by (auto simp: x thread_move_def moved_def)
    next
      case (Cons w ws)
      then show ?thesis using thread_asks [OF inv Idle] by (simp add: x)
    qed
  qed (use thread_served [OF inv] thread_told [OF inv] thread_wakes [OF inv] in \<open>simp_all add: x\<close>)
qed

lemma threads_run:
  "threads_inv own nt x \<Longrightarrow> \<exists>y. run_threads ch own sched x = Inr y \<and> threads_inv own nt y \<and>
    (\<forall>t. moves_left (n_ph (fst y) t) (snd y t) = moves_left (n_ph (fst x) t) (snd x t) - count_list sched t)"
proof (induction sched arbitrary: x)
  case Nil
  then show ?case by simp
next
  case (Cons t sched)
  obtain y where y: "thread_move ch own t x = Inr y" "threads_inv own nt y" "moved t x y"
    using thread_moves [OF Cons.prems] by blast
  show ?case using Cons.IH [OF y(2)] y(1,3) by (auto simp: moved_def)
qed

lemma all_moved:
  assumes "threads_inv own nt y" and "\<forall>t. moves_left (n_ph (fst y) t) (snd y t) = 0"
  shows "joined y"
proof -
  obtain n work where y: "y = (n, work)" by (cases y)
  have "n_ph n t = Idle \<and> work t = []" for t
  proof (cases "header_of (n_ph n t)")
    case None
    then show ?thesis using assms(2) by (cases "n_ph n t") (auto simp: y dest: spec [of _ t])
  next
    case (Some hm)
    obtain h m where hm: "hm = (h, m)" by (cases hm)
    obtain w ws where "work t = w # ws"
      using threads_inv_busy [OF assms(1) [unfolded y] Some [unfolded hm]] by blast
    then show ?thesis using assms(2) Some by (cases "n_ph n t") (auto simp: y dest: spec [of _ t])
  qed
  then show ?thesis by (simp add: joined_def y)
qed

section \<open>The concurrent test passes\<close>

text \<open>A server under test offers the methods.\<close>

lemma test_method:
  assumes "test_legal proc b"
  shows "proc \<noteq> proc_bind \<and> (\<exists>f. test_procs nonce proc = Some f \<and> runs_method f (test_legal proc) (test_meth proc))"
proof -
  have big: "runs_method (handler_fn get_int handle_bigrep put_string) (test_legal 25) (test_meth 25)"
  proof -
    have m: "handle_bigrep a () = Inr (0, xstring (unat a), ())" if "unat a < 2000" for a
      using that by (intro bigrep_small) simp
    have fit: "fits (enc_string (xstring (unat a)))" if "unat a < 2000" for a :: u32
      using that by (simp add: fits_string)
    show ?thesis
      using handler_runs_method [where args = "\<lambda>a. unat a < 2000" and meth = handle_bigrep and g = "test_meth 25",
          OF int.codec_axioms str.codec_axioms [of "[]"]]
      by (auto simp: test_legal_def [abs_def] m fit test_meth_def)
  qed
  have small: "runs_method (handler_fn get_int handle_fast put_int) (test_legal 23) (test_meth 23)"
    "runs_method (handler_fn get_int handle_slow put_int) (test_legal 24) (test_meth 24)"
    using handler_runs_method [where args = "\<lambda>_. True" and meth = handle_fast and g = "test_meth 23",
        OF int.codec_axioms int.codec_axioms]
      handler_runs_method [where args = "\<lambda>_. True" and meth = handle_slow and g = "test_meth 24",
        OF int.codec_axioms int.codec_axioms]
    by (auto simp: test_legal_def [abs_def] handle_fast_def handle_slow_def fits_def test_meth_def)
  consider "proc = 23" | "proc = 24" | "proc = 25" using assms by (auto simp: test_legal_def)
  then show ?thesis using big small by cases (simp_all add: test_procs_simps proc_bind_def)
qed

definition clients_tested :: "nat set \<Rightarrow> (nat \<Rightarrow> rpcc) \<Rightarrow> unit rpcs \<Rightarrow> nat \<Rightarrow> bool" where
  "clients_tested I cs s n \<longleftrightarrow> (\<forall>i \<in> I. tested (cs i) s n) \<and> inj_on (\<lambda>i. c_clt_nonce (cs i)) I"

lemma threads_inv_start:
  assumes "clients_tested (range own) cs s (\<Sum>t<nt. length (work t))"
    and "\<forall>t. \<forall>w \<in> set (work t). turn_legal w" and "\<forall>t \<ge> nt. work t = []"
  shows "threads_inv own nt (net_of cs s, work)"
proof -
  have t: "tested (cs i) s (\<Sum>t<nt. length (work t))" if "i \<in> range own" for i
    using assms(1) that by (auto simp: clients_tested_def)
  then have procs: "rs_procs s = test_procs (rs_nonce s)" by (auto simp: tested_def)
  have "net_start own test_legal test_meth (net_of cs s)"
    unfolding net_start_def
  proof (intro conjI)
    show "\<forall>i \<in> range own. linked (n_cs (net_of cs s) i) (n_srv (net_of cs s)) \<and> c_bind_done (n_cs (net_of cs s) i)"
      using t by (auto simp: net_of_def tested_def)
  qed (use assms(1) test_method in \<open>simp_all add: net_of_def clients_tested_def procs\<close>)
  then have "net_inv own test_legal test_meth () (net_of cs s)" using net_inv_start by fastforce
  moreover have "room own nt (net_of cs s) work" using t by (auto simp: room_def net_of_def todo_def tested_def)
  ultimately show ?thesis using assms(2,3) by (simp add: threads_inv_def net_of_def turn_busy_def)
qed

lemma threads_pass:
  assumes "clients_tested (range own) cs s (\<Sum>t<nt. length (work t))"
    and "\<forall>t. \<forall>w \<in> set (work t). turn_legal w" and "\<forall>t \<ge> nt. work t = []"
  shows "\<exists>y. run_threads ch own sched (net_of cs s, work) = Inr y \<and>
    ((\<forall>t. 4 * length (work t) \<le> count_list sched t) \<longrightarrow> joined y)"
proof -
  obtain y where y: "run_threads ch own sched (net_of cs s, work) = Inr y" "threads_inv own nt y"
    "\<forall>t. moves_left (n_ph (fst y) t) (snd y t) = 4 * length (work t) - count_list sched t"
    using threads_run [OF threads_inv_start [OF assms], of ch sched] by (auto simp: net_of_def)
  then show ?thesis using all_moved [OF y(2)] by auto
qed

lemma range_mod: "range (\<lambda>i. i mod NUM_CL) = {0, 1}"
proof -
  have "range (\<lambda>i. i mod NUM_CL) = {..<2}"
  proof (rule set_eqI, rule iffI)
    fix x :: nat assume "x \<in> {..<2}"
    then have "x = x mod NUM_CL" by (simp add: NUM_CL_def)
    then show "x \<in> range (\<lambda>i. i mod NUM_CL)" by (rule range_eqI)
  qed (auto simp: NUM_CL_def)
  then show ?thesis by auto
qed

lemma concurrent_test_result:
  assumes clients: "clients_tested {0, 1} cs s (\<Sum>t<nt. length (fst (args t)) + length (snd (args t)))"
    and draws: "\<forall>t < nt. \<forall>arg \<in> set (fst (args t)). unat arg < 2000"
  shows "\<exists>y. concurrent_test ch nt args sched cs s = Inr y \<and>
    ((\<forall>t < nt. 4 * (length (fst (args t)) + length (snd (args t))) \<le> count_list sched t) \<longrightarrow> joined y)"
proof -
  let ?work = "\<lambda>i. if i < nt then client1_turns (fst (args i)) (snd (args i)) else []"
  have len: "length (?work t) = (if t < nt then length (fst (args t)) + length (snd (args t)) else 0)" for t
    by (simp add: client1_turns_def)
  have sum: "(\<Sum>t<nt. length (?work t)) = (\<Sum>t<nt. length (fst (args t)) + length (snd (args t)))"
    by (rule sum.cong) (simp_all add: client1_turns_def)
  have legal: "\<forall>t. \<forall>w \<in> set (?work t). turn_legal w" using draws by (auto simp: client1_turns_def)
  have c: "clients_tested (range (\<lambda>i. i mod NUM_CL)) cs s (\<Sum>t<nt. length (?work t))"
    using clients unfolding range_mod sum .
  obtain y where y: "run_threads ch (\<lambda>i. i mod NUM_CL) sched (net_of cs s, ?work) = Inr y"
    "(\<forall>t. 4 * length (?work t) \<le> count_list sched t) \<longrightarrow> joined y"
    using threads_pass [OF c legal, of ch sched] by auto
  moreover have "(\<forall>t. 4 * length (?work t) \<le> count_list sched t)"
    if "\<forall>t < nt. 4 * (length (fst (args t)) + length (snd (args t))) \<le> count_list sched t"
    using that by (simp add: len)
  ultimately show ?thesis unfolding concurrent_test_def by blast
qed

text \<open>however the scheduler interleaves the calls of the threads on the two clients, no assert of
  \<open>client1\<close> fails; and when it gives every thread the steps it needs, all threads are joined.\<close>

theorem concurrent_test_passes:
  assumes "clients_tested {0, 1} cs s (\<Sum>t<nt. length (fst (args t)) + length (snd (args t)))"
    and "\<forall>t < nt. \<forall>arg \<in> set (fst (args t)). unat arg < 2000"
  shows "\<exists>y. concurrent_test ch nt args sched cs s = Inr y \<and>
    ((\<forall>t < nt. 4 * (length (fst (args t)) + length (snd (args t))) \<le> count_list sched t) \<longrightarrow> joined y)"
  by (rule concurrent_test_result [OF assms])

theorem concurrent_test_passes_witness:
  "\<exists>s y. startserver 9000 5 = Inr s \<and>
    concurrent_test 3 2 (\<lambda>t. ([7], [(t = 0, 4)])) ([0, 1, 1, 0, 1, 0, 0, 1] @ [1, 1, 0, 0, 0, 1, 0, 1])
      (\<lambda>i. ex_clt (of_nat i)) s = Inr y \<and> joined y"
proof -
  obtain s where s: "startserver 9000 5 = Inr s" "rs_procs s = test_procs 5" "rs_nonce s = 5"
    "rs_reachable s" "rs_window s = Map.empty" by (rule startserver_started)
  have "tested (ex_clt n) s 100" for n
    using ex_linked [of n] s by (simp add: tested_def linked_def ex_clt_simps rw_ok_def xids_of_def)
  then have "tested (ex_clt n) s 4" for n by (rule tested_less) simp
  then have c: "clients_tested {0, 1} (\<lambda>i. ex_clt (of_nat i)) s
      (\<Sum>t<2. length (fst ([7 :: u32], [(t = (0 :: nat), 4 :: u32)])) + length (snd ([7 :: u32], [(t = 0, 4 :: u32)])))"
    by (simp add: clients_tested_def ex_clt_simps)
  from concurrent_test_passes [OF c, of 3 "[0, 1, 1, 0, 1, 0, 0, 1] @ [1, 1, 0, 0, 0, 1, 0, 1]"]
  show ?thesis using s(1) by (auto simp: less_2_cases_iff)
qed

end
