(* ===== verification/TextIO.thy ===== *)
theory TextIO
  imports Prelude
begin

text \<open>
  Text written with \<open>ostream\<close> insertions and read with \<open>istream\<close> extractions: the Paxos log,
  the member lists of views and the i-numbers in directories are text of this kind.
\<close>

section \<open>Text streams\<close>

text \<open>An input stream is the text still to be read, or \<open>None\<close> once its fail bit is set.\<close>

type_synonym istream = "string option"

definition newline :: char where "newline = CHR 0x0A"

definition is_space :: "char \<Rightarrow> bool" where
  "is_space c \<longleftrightarrow> c = CHR 0x20 \<or> (9 \<le> (of_char c :: nat) \<and> (of_char c :: nat) \<le> 13)"

definition is_digit :: "char \<Rightarrow> bool" where
  "is_digit c \<longleftrightarrow> 48 \<le> (of_char c :: nat) \<and> (of_char c :: nat) \<le> 57"

fun show_nat :: "nat \<Rightarrow> string" where
  "show_nat n = (if n < 10 then [char_of (48 + n)] else show_nat (n div 10) @ [char_of (48 + n mod 10)])"

declare show_nat.simps [simp del]

definition show_word :: "'a::len word \<Rightarrow> string" where
  "show_word w = show_nat (unat w)"

definition read_nat :: "string \<Rightarrow> nat" where
  "read_nat s = foldl (\<lambda>n c. 10 * n + (of_char c - 48)) 0 s"

text \<open>
  The extractions.  Each takes the old value of its target, which a failed stream leaves as
  it is.  A number is a run of digits (the logs hold no signs); one that does not fit sets the
  fail bit.
\<close>

definition in_word :: "string \<Rightarrow> istream \<Rightarrow> string \<times> istream" where
  "in_word old st = (case st of
     None \<Rightarrow> (old, None)
   | Some s \<Rightarrow> (let s = dropWhile is_space s in
       if s = [] then (old, None)
       else (takeWhile (\<lambda>c. \<not> is_space c) s, Some (dropWhile (\<lambda>c. \<not> is_space c) s))))"

definition in_uint :: "'a::len word \<Rightarrow> istream \<Rightarrow> 'a word \<times> istream" where
  "in_uint old st = (case st of
     None \<Rightarrow> (old, None)
   | Some s \<Rightarrow> (let s = dropWhile is_space s; d = takeWhile is_digit s in
       if s = [] then (old, None)
       else if d = [] then (0, None)
       else if read_nat d \<ge> 2 ^ LENGTH('a) then (- 1, None)
       else (word_of_nat (read_nat d), Some (dropWhile is_digit s))))"

definition in_get :: "istream \<Rightarrow> istream" where
  "in_get st = (case st of Some (c # s) \<Rightarrow> Some s | _ \<Rightarrow> None)"

definition in_line :: "istream \<Rightarrow> string \<times> istream" where
  "in_line st = (case st of
     None \<Rightarrow> ([], None)
   | Some s \<Rightarrow> (if s = [] then ([], None)
       else (takeWhile (\<lambda>c. c \<noteq> newline) s, Some (drop 1 (dropWhile (\<lambda>c. c \<noteq> newline) s)))))"

definition in_len :: "istream \<Rightarrow> nat" where
  "in_len st = (case st of None \<Rightarrow> 0 | Some s \<Rightarrow> Suc (length s))"

lemma in_len_uint: "in_len (snd (in_uint old st)) \<le> in_len st"
  by (auto simp: in_len_def in_uint_def Let_def split: option.split
      intro!: le_trans [OF length_dropWhile_le] length_dropWhile_le)

lemma in_len_word: "in_len (snd (in_word old st)) \<le> in_len st"
  by (auto simp: in_len_def in_word_def Let_def split: option.split
      intro!: le_trans [OF length_dropWhile_le] length_dropWhile_le)

lemma in_len_get: "in_len (in_get st) \<le> in_len st"
  by (auto simp: in_len_def in_get_def split: option.split list.split)

lemma in_len_line: "in_len (snd (in_line st)) \<le> in_len st"
  by (auto simp: in_len_def in_line_def Let_def split: option.split
      intro!: le_trans [OF diff_le_self] length_dropWhile_le)

lemma in_word_len: "in_word old st = (w, Some s) \<Longrightarrow> in_len (Some s) < in_len st"
proof -
  assume a: "in_word old st = (w, Some s)"
  then obtain t where t: "st = Some t" by (cases st) (auto simp: in_word_def)
  let ?u = "dropWhile is_space t"
  have u: "?u \<noteq> []" "s = dropWhile (\<lambda>c. \<not> is_space c) ?u"
    using a t by (auto simp: in_word_def Let_def split: if_splits)
  then have "\<not> is_space (hd ?u)" using hd_dropWhile by blast
  then have "s = dropWhile (\<lambda>c. \<not> is_space c) (tl ?u)" using u by (cases ?u) auto
  then have "length s \<le> length (tl ?u)" by (simp only: length_dropWhile_le)
  moreover have "length ?u \<le> length t" by (rule length_dropWhile_le)
  ultimately show ?thesis using u(1) t by (cases ?u) (auto simp: in_len_def)
qed

section \<open>Reading back what was written\<close>

definition word_ok :: "string \<Rightarrow> bool" where
  "word_ok w \<longleftrightarrow> w \<noteq> [] \<and> (\<forall>c \<in> set w. \<not> is_space c)"

definition line_ok :: "string \<Rightarrow> bool" where
  "line_ok v \<longleftrightarrow> newline \<notin> set v"

lemma digit_props: "n < 10 \<Longrightarrow> is_digit (char_of (48 + n)) \<and> of_char (char_of (48 + n :: nat)) - 48 = n"
  by (simp add: is_digit_def)

lemma read_nat_snoc: "read_nat (s @ [c]) = 10 * read_nat s + (of_char c - 48)"
  by (simp add: read_nat_def)

lemma show_nat_props:
  "show_nat n \<noteq> [] \<and> (\<forall>c \<in> set (show_nat n). is_digit c) \<and> read_nat (show_nat n) = n"
proof (induction n rule: show_nat.induct)
  case (1 n)
  show ?case
  proof (cases "n < 10")
    case True
    then show ?thesis using digit_props [of n] by (simp add: show_nat.simps [of n] read_nat_def)
  next
    case False
    then show ?thesis
      using 1 digit_props [of "n mod 10"] by (simp add: show_nat.simps [of n] read_nat_snoc)
  qed
qed

lemma digit_not_space: "is_digit c \<Longrightarrow> \<not> is_space c"
  by (auto simp: is_digit_def is_space_def)

lemma is_space_newline [simp]: "is_space newline" "\<not> is_digit newline"
  by (simp_all add: is_space_def is_digit_def newline_def)

lemma is_space_blank [simp]: "is_space CHR '' ''" "\<not> is_digit CHR '' ''"
  by (simp_all add: is_space_def is_digit_def)

lemma takeWhile_until: "\<forall>x \<in> set xs. P x \<Longrightarrow> \<not> P c \<Longrightarrow>
    takeWhile P (xs @ c # r) = xs \<and> dropWhile P (xs @ c # r) = c # r"
  by (simp add: takeWhile_append dropWhile_append)

lemma dropWhile_blank: "\<forall>x \<in> set ws. is_space x \<Longrightarrow> xs \<noteq> [] \<Longrightarrow> \<not> is_space (hd xs) \<Longrightarrow>
    dropWhile is_space (ws @ xs) = xs"
  by (cases xs) (simp_all add: dropWhile_append)

lemma in_word_read:
  assumes "\<forall>x \<in> set ws. is_space x" and "word_ok w" and "is_space c"
  shows "in_word old (Some (ws @ w @ c # r)) = (w, Some (c # r))"
proof -
  have "dropWhile is_space (ws @ w @ c # r) = w @ c # r"
    using assms by (intro dropWhile_blank) (cases w; simp add: word_ok_def)+
  then show ?thesis
    using assms takeWhile_until [of w "\<lambda>c. \<not> is_space c" c r] by (simp add: in_word_def word_ok_def)
qed

lemma in_uint_read:
  fixes i :: "'a::len word"
  assumes "\<not> is_digit c"
  shows "in_uint old (Some (CHR '' '' # show_word i @ c # r)) = (i, Some (c # r))"
proof -
  let ?d = "show_word i"
  have d: "?d \<noteq> []" "\<forall>c \<in> set ?d. is_digit c" "read_nat ?d = unat i"
    using show_nat_props [of "unat i"] by (simp_all add: show_word_def)
  have drop: "dropWhile is_space (?d @ c # r) = ?d @ c # r"
    using d digit_not_space dropWhile_blank [of "[]" "?d @ c # r"] by (cases ?d) auto
  have tw: "takeWhile is_digit (?d @ c # r) = ?d" "dropWhile is_digit (?d @ c # r) = c # r"
    using takeWhile_until [OF d(2) assms, of r] by blast+
  have "\<not> 2 ^ LENGTH('a) \<le> unat i"
    using unsigned_less [of i, where ?'a = nat] by (simp only: not_le)
  then show ?thesis
    using d(1,3) by (simp add: in_uint_def Let_def drop tw)
qed

lemma in_line_read: "line_ok v \<Longrightarrow> in_line (Some (v @ newline # r)) = (v, Some r)"
proof -
  assume "line_ok v"
  then have v: "\<forall>x \<in> set v. x \<noteq> newline" by (auto simp: line_ok_def)
  have "takeWhile (\<lambda>c. c \<noteq> newline) (v @ newline # r) = v"
    "dropWhile (\<lambda>c. c \<noteq> newline) (v @ newline # r) = newline # r"
    using takeWhile_until [of v "\<lambda>c. c \<noteq> newline" newline r] v by blast+
  then show ?thesis by (simp add: in_line_def)
qed

lemma in_get_read [simp]: "in_get (Some (c # s)) = Some s"
  by (simp add: in_get_def)

end
