(* ===== verification/Sockaddr.thy ===== *)
theory Sockaddr
  imports TextIO
begin

text \<open>
  Socket addresses in \<open>rpc/rpc.cc\<close>: the ordering by which they can be keys of a map, and
  \<open>make_sockaddr\<close>, which reads an address written as \<open>host:port\<close> or \<open>port\<close>.  The resolver calls
  \<open>inet_addr\<close> and \<open>gethostbyname\<close> are arguments.
\<close>

section \<open>Addresses and their order\<close>

text \<open>The family is always \<open>AF_INET\<close>; address and port are kept as stored, in network order.\<close>

datatype sockaddr_in = Sockaddr (s_addr: u32) (sin_port: u16)

definition sockaddr_before :: "sockaddr_in \<Rightarrow> sockaddr_in \<Rightarrow> bool" where
  "sockaddr_before a b \<longleftrightarrow>
     s_addr a < s_addr b \<or> (s_addr a = s_addr b \<and> sin_port a < sin_port b)"

instantiation sockaddr_in :: linorder
begin

definition less_sockaddr_in :: "sockaddr_in \<Rightarrow> sockaddr_in \<Rightarrow> bool" where
  "less_sockaddr_in = sockaddr_before"

definition less_eq_sockaddr_in :: "sockaddr_in \<Rightarrow> sockaddr_in \<Rightarrow> bool" where
  "less_eq_sockaddr_in a b \<longleftrightarrow> a < b \<or> a = b"

instance
proof
  fix x y z :: sockaddr_in
  show "x < y \<longleftrightarrow> x \<le> y \<and> \<not> y \<le> x"
    by (auto simp: less_sockaddr_in_def sockaddr_before_def less_eq_sockaddr_in_def)
  show "x \<le> x" by (simp add: less_eq_sockaddr_in_def)
  show "x \<le> y \<Longrightarrow> y \<le> z \<Longrightarrow> x \<le> z"
    by (auto simp: less_sockaddr_in_def sockaddr_before_def less_eq_sockaddr_in_def)
  show "x \<le> y \<Longrightarrow> y \<le> x \<Longrightarrow> x = y"
    by (auto simp: less_sockaddr_in_def sockaddr_before_def less_eq_sockaddr_in_def)
  show "x \<le> y \<or> y \<le> x"
    by (cases x; cases y) (auto simp: less_sockaddr_in_def sockaddr_before_def less_eq_sockaddr_in_def)
qed

end

section \<open>Reading an address\<close>

text \<open>\<open>atoi\<close>, whose result is undefined in C when it does not fit an \<open>int\<close>; and \<open>htons\<close>, which
  takes the low 16 bits of it.\<close>

definition atoi :: "string \<Rightarrow> int" where
  "atoi s =
     (let s = dropWhile is_space s
      in case s of
           [] \<Rightarrow> 0
         | c # r \<Rightarrow>
             if c = CHR ''-'' then - int (read_nat (takeWhile is_digit r))
             else if c = CHR ''+'' then int (read_nat (takeWhile is_digit r))
             else int (read_nat (takeWhile is_digit s)))"

definition htons :: "u16 \<Rightarrow> u16" where
  "htons x = push_bit 8 x OR drop_bit 8 x"

text \<open>The one with separate host and port: \<open>inet\<close> is \<open>None\<close> for \<open>INADDR_NONE\<close>, and \<open>lookup\<close> gives the
  length of the addresses of a host and the first of them.\<close>

definition make_sockaddr_host ::
  "(string \<Rightarrow> u32 option) \<Rightarrow> (string \<Rightarrow> (nat \<times> u32) option) \<Rightarrow> string \<Rightarrow> string \<Rightarrow> sockaddr_in res" where
  "make_sockaddr_host inet lookup host port =
     rbind (case inet host of
              Some a \<Rightarrow> Inr a
            | None \<Rightarrow> (case lookup host of
                None \<Rightarrow> Inl Exit
              | Some (h_length, a) \<Rightarrow> if h_length \<noteq> 4 then Inl Exit else Inr a))
       (\<lambda>a. Inr (Sockaddr a (htons (word_of_int (atoi port)))))"

text \<open>The other one copies the host into a buffer of 200 characters.\<close>

definition make_sockaddr ::
  "(string \<Rightarrow> u32 option) \<Rightarrow> (string \<Rightarrow> (nat \<times> u32) option) \<Rightarrow> string \<Rightarrow> sockaddr_in res" where
  "make_sockaddr inet lookup hostandport =
     (let host = takeWhile (\<lambda>c. c \<noteq> CHR '':'') hostandport; port = drop (length host) hostandport
      in if port = [] then make_sockaddr_host inet lookup ''127.0.0.1'' hostandport
         else if length host \<ge> 200 then Inl OutOfBounds
         else make_sockaddr_host inet lookup host (drop 1 port))"

section \<open>Properties\<close>

lemma atoi_show_word: "atoi (show_word (p :: 'a::len word)) = uint p"
proof -
  let ?d = "show_word p"
  have d: "?d \<noteq> []" "\<forall>c \<in> set ?d. is_digit c" "read_nat ?d = unat p"
    using show_nat_props [of "unat p"] by (simp_all add: show_word_def)
  obtain c r where cr: "?d = c # r" using d(1) by (cases ?d) auto
  have c: "is_digit c" using d(2) cr by simp
  have s: "\<not> is_space c" using c digit_not_space by blast
  have "c \<noteq> CHR ''-''" "c \<noteq> CHR ''+''" using c by (auto simp: is_digit_def)
  moreover have "takeWhile is_digit ?d = ?d" using d(2) by (simp add: takeWhile_eq_all_conv)
  ultimately show ?thesis using d(3) s by (simp add: atoi_def cr Let_def unsigned_of_nat)
qed

text \<open>a host of up to 199 characters and a decimal port are read back as the host's address and
  that port in network order, and a port alone stands for the local host.\<close>

theorem make_sockaddr_reads:
  assumes "CHR '':'' \<notin> set host" and "length host < 200" and "inet host = Some a" and "inet ''127.0.0.1'' = Some l"
  shows "make_sockaddr inet lookup (host @ CHR '':'' # show_word p) = Inr (Sockaddr a (htons p)) \<and>
    make_sockaddr inet lookup (show_word p) = Inr (Sockaddr l (htons p))"
proof -
  have d: "\<forall>c \<in> set (show_word p). is_digit c"
    using show_nat_props [of "unat p"] by (simp add: show_word_def)
  then have "\<forall>c \<in> set (show_word p). c \<noteq> CHR '':''" by (auto simp: is_digit_def)
  then have q: "takeWhile (\<lambda>c. c \<noteq> CHR '':'') (show_word p) = show_word p"
    by (simp add: takeWhile_eq_all_conv)
  have h: "takeWhile (\<lambda>c. c \<noteq> CHR '':'') (host @ CHR '':'' # show_word p) = host"
    using assms(1) by (subst takeWhile_append2) auto
  show ?thesis
    using assms by (simp add: make_sockaddr_def h q make_sockaddr_host_def atoi_show_word)
qed

theorem make_sockaddr_reads_witness:
  "make_sockaddr (\<lambda>h. Some (if h = ''10.0.0.7'' then 7 else 1)) (\<lambda>_. None) ''10.0.0.7:3001'' = Inr (Sockaddr 7 (htons 3001))"
proof -
  let ?i = "\<lambda>h. Some (if h = ''10.0.0.7'' then 7 else 1 :: u32)"
  have w: "show_word (3001 :: u16) = ''3001''" by (simp add: show_word_def) code_simp
  show ?thesis
    using make_sockaddr_reads [of "''10.0.0.7''" ?i 7 1 "\<lambda>_. None" 3001] by (simp add: w)
qed

text \<open>\<open>make_sockaddr\<close> writes behind its buffer exactly when the host part has 200 characters or
  more; otherwise it returns an address, or exits when the host is unknown.\<close>

theorem make_sockaddr_overflow_iff:
  "make_sockaddr inet lookup s = Inl OutOfBounds \<longleftrightarrow>
    CHR '':'' \<in> set s \<and> 200 \<le> length (takeWhile (\<lambda>c. c \<noteq> CHR '':'') s)"
proof -
  have r: "make_sockaddr_host inet lookup h p \<noteq> Inl OutOfBounds" for h p
    by (simp add: make_sockaddr_host_def split: option.split)
  have "drop (length (takeWhile (\<lambda>c. c \<noteq> CHR '':'') s)) s = [] \<longleftrightarrow> CHR '':'' \<notin> set s"
    by (induction s) auto
  then show ?thesis using r by (auto simp: make_sockaddr_def Let_def)
qed

end
