(* ===== verification/RpcTestMain.thy ===== *)
theory RpcTestMain
  imports RpcThreads Sockaddr
begin

text \<open>
  The rest of \<open>rpc/rpctest.cc\<close>: \<open>lossy_test\<close>, the threads of \<open>failure_test\<close>, the command line and
  \<open>main\<close>.  The theorem says that the program, run without options, ends in \<open>exit(0)\<close>: none of its
  asserts fails, whatever its threads draw and however they are scheduled, when the random nonces
  differ and every call of the lossy test gets through in the end.
\<close>

section \<open>Over failing connections\<close>

definition rpc_bind_lossy :: "attempt list \<Rightarrow> rpcc \<Rightarrow> 's rpcs \<Rightarrow> 's \<Rightarrow> (rpcc \<times> 's rpcs \<times> 's \<times> status) res" where
  "rpc_bind_lossy as c s st =
     rbind (rpc_call_lossy put_int (\<lambda>_. get_int) as proc_bind 0 0 c s st) (\<lambda>(c, s, st, ret, r).
     let (c, ret) = rpcc_bind c ret r in Inr (c, s, st, ret))"

lemma rpc_bind_lossy_over: "rpc_bind_lossy [(ch, True, True)] c s st = rpc_bind ch c s st"
  by (simp add: rpc_bind_lossy_def rpc_bind_def rpc_call_lossy_over)

text \<open>The loops that create the clients and bind them; each with its attempts and its nonce.\<close>

fun connect_clients ::
  "(attempt list \<times> u32) list \<Rightarrow> nat \<Rightarrow> (nat \<Rightarrow> rpcc) \<Rightarrow> unit rpcs \<Rightarrow> ((nat \<Rightarrow> rpcc) \<times> unit rpcs) res"
where
  "connect_clients [] i clients s = Inr (clients, s)"
| "connect_clients ((as, nonce) # bs) i clients s =
     rbind (rpc_bind_lossy as (rpcc_new True nonce) s ()) (\<lambda>(c, s, _, r).
     rbind (require (r = 0)) (\<lambda>_. connect_clients bs (Suc i) (clients(i := c)) s))"

fun client2_lossy :: "(attempt list \<times> u32) list \<Rightarrow> rpcc \<Rightarrow> unit rpcs \<Rightarrow> (rpcc \<times> unit rpcs) res" where
  "client2_lossy [] c s = Inr (c, s)"
| "client2_lossy ((as, arg) # calls) c s =
     rbind (rpc_call_lossy put_int get_string as 25 arg [] c s ()) (\<lambda>(c, s, _, ret, rep).
     rbind (require (of_nat (length rep) = arg)) (\<lambda>_. client2_lossy calls c s))"

lemma client2_lossy_over: "client2_lossy (map (\<lambda>a. ([(ch, True, True)], a)) args) c s = client2 ch args c s"
  by (induction args arbitrary: c s)
    (auto simp: rpc_call_lossy_over rbind_def split: sum.split)

text \<open>\<open>lossy_test\<close>: its one thread is \<open>client2\<close> on the first client; \<open>server\<close> says whether the server
  runs in this process.\<close>

definition lossy_test ::
  "bool \<Rightarrow> u32 \<Rightarrow> u32 \<Rightarrow> (attempt list \<times> u32) list \<Rightarrow> (attempt list \<times> u32) list \<Rightarrow> (nat \<Rightarrow> rpcc) \<Rightarrow> unit rpcs \<Rightarrow>
   ((nat \<Rightarrow> rpcc) \<times> unit rpcs) res"
where
  "lossy_test server port nonce binds calls clients s =
     rbind (if server then startserver port nonce else Inr s) (\<lambda>s.
     rbind (connect_clients binds 0 clients s) (\<lambda>(clients, s).
     rbind (client2_lossy calls (clients (0 mod NUM_CL)) s) (\<lambda>(c, s).
     Inr (clients(0 mod NUM_CL := c), s))))"

section \<open>The threads of the failure test\<close>

definition all_joined :: "nat \<Rightarrow> unit net \<times> (nat \<Rightarrow> turn list) \<Rightarrow> bool" where
  "all_joined nt x = list_all (\<lambda>t. n_ph (fst x) t = Idle \<and> snd x t = []) [0..<nt]"

definition failure_threads :: "nat \<Rightarrow> nat list \<Rightarrow> rpcc \<Rightarrow> unit rpcs \<Rightarrow> (unit net \<times> (nat \<Rightarrow> turn list)) res" where
  "failure_threads ch sched client s =
     run_threads ch (\<lambda>_. 0) sched (net_of (\<lambda>_. client) s, \<lambda>i. if i < 10 then client3_turns else [])"

text \<open>\<open>failure_test\<close> after its first part; the result says whether the joins have returned.\<close>

definition failure_test_rest ::
  "nat \<Rightarrow> u32 \<Rightarrow> u32 \<Rightarrow> u32 \<Rightarrow> nat list \<Rightarrow> nat list \<Rightarrow> rpcc \<Rightarrow> unit rpcs \<Rightarrow> bool res"
where
  "failure_test_rest ch port nonce n3 sched1 sched2 client s =
     rbind (failure_threads ch sched1 client s) (\<lambda>x.
     if \<not> all_joined 10 x then Inr False
     else
       rbind (startserver port nonce) (\<lambda>s.
       rbind (rpc_bind ch (rpcc_new True n3) s ()) (\<lambda>(c, s, _, r). rbind (require (r \<ge> 0)) (\<lambda>_.
       rbind (failure_threads ch sched2 c s) (\<lambda>x. Inr (all_joined 10 x))))))"

section \<open>The program\<close>

record options =
  o_client :: bool
  o_server :: bool
  o_debug :: int
  o_port :: int
  o_lossy :: bool

text \<open>The loop over \<open>getopt\<close>: each option letter with its argument.\<close>

definition option_step :: "options \<Rightarrow> char \<times> string \<Rightarrow> options" where
  "option_step o' x =
     (case x of (ch, optarg) \<Rightarrow>
        if ch = CHR ''c'' then o'\<lparr>o_client := True\<rparr>
        else if ch = CHR ''s'' then o'\<lparr>o_server := True\<rparr>
        else if ch = CHR ''d'' then o'\<lparr>o_debug := atoi optarg\<rparr>
        else if ch = CHR ''p'' then o'\<lparr>o_port := atoi optarg\<rparr>
        else if ch = CHR ''l'' then o'\<lparr>o_lossy := True\<rparr>
        else o')"

definition read_options :: "int \<Rightarrow> (char \<times> string) list \<Rightarrow> options" where
  "read_options pid opts =
     (let o' = foldl option_step \<lparr>o_client = False, o_server = False, o_debug = 0,
                 o_port = 20000 + pid mod 10000, o_lossy = False\<rparr> opts
      in if \<not> o_server o' \<and> \<not> o_client o' then o'\<lparr>o_server := True, o_client := True\<rparr> else o')"

text \<open>What a run draws and meets: the nonces of the four servers and of the clients, the draws and the
  schedule of the threads, the attempts of the lossy test, and the clock around the bind that fails.\<close>

record trial =
  tr_ch :: nat
  tr_srv1 :: u32
  tr_srv2 :: u32
  tr_srv3 :: u32
  tr_srv4 :: u32
  tr_clients :: "u32 list"
  tr_nobody :: u32
  tr_t0 :: int
  tr_t1 :: int
  tr_args :: "nat \<Rightarrow> u32 list \<times> (bool \<times> u32) list"
  tr_sched :: "nat list"
  tr_binds :: "(attempt list \<times> u32) list"
  tr_calls :: "(attempt list \<times> u32) list"
  tr_n1 :: u32
  tr_n2 :: u32
  tr_n3 :: u32
  tr_sched1 :: "nat list"
  tr_sched2 :: "nat list"

datatype outcome = Exited int | Serving | Joining

text \<open>\<open>main\<close>; \<open>remote\<close> is the server of another process, which a mere client uses.  Outside of
  \<open>lossy_test\<close> the connections deliver (no \<open>-l\<close>).\<close>

definition rpctest_main ::
  "trial \<Rightarrow> int \<Rightarrow> (char \<times> string) list \<Rightarrow> (nat \<Rightarrow> rpcc) \<Rightarrow> unit rpcs \<Rightarrow> outcome res"
where
  "rpctest_main tr pid opts clients remote =
     (let opt = read_options pid opts; ch = tr_ch tr; port = word_of_int (o_port opt)
      in rbind testmarshall (\<lambda>_.
         rbind (if o_server opt then startserver port (tr_srv1 tr) else Inr remote) (\<lambda>s.
         if \<not> o_client opt then Inr Serving
         else
           rbind (connect_clients (map (\<lambda>n. ([(ch, True, True)], n)) (tr_clients tr)) 0 clients s) (\<lambda>(clients, s).
           rbind (simple_tests ch (tr_t0 tr) (tr_t1 tr) (rpcc_new True (tr_nobody tr)) (clients 0) s) (\<lambda>(c, _, s).
           rbind (concurrent_test ch 10 (tr_args tr) (tr_sched tr) (clients(0 := c)) s) (\<lambda>x.
           if \<not> all_joined 10 x then Inr Joining
           else
             rbind (lossy_test (o_server opt) port (tr_srv2 tr) (tr_binds tr) (tr_calls tr)
                 (n_cs (fst x)) (n_srv (fst x))) (\<lambda>(clients, s).
             if \<not> o_server opt then Inr (Exited 0)
             else
               rbind (failure_test ch port (tr_srv3 tr) (tr_n1 tr) (tr_n2 tr) (clients 0)) (\<lambda>(c, s).
               rbind (failure_test_rest ch port (tr_srv4 tr) (tr_n3 tr) (tr_sched1 tr) (tr_sched2 tr) c s) (\<lambda>joined.
               Inr (if joined then Exited 0 else Joining))))))))))"

lemma joined_all: "joined x \<Longrightarrow> all_joined nt x"
  by (simp add: joined_def all_joined_def list_all_iff)

section \<open>Clients get connected\<close>

lemma bind_lossy_connects:
  assumes l: "linked c s" "\<not> c_bind_done c" "c_xid c \<noteq> - 1" "rs_procs s proc_bind = Some (bind_handler (rs_nonce s))"
    and n: "c_clt_nonce c \<noteq> 0 \<or> length as \<le> 1" and bk: "comes_back as"
  shows "\<exists>c' s'. rpc_bind_lossy as c s st = Inr (c', s', st, 0) \<and> linked c' s' \<and> c_bind_done c' \<and>
    c_srv_nonce c' = rs_nonce s \<and> c_xid c' = c_xid c + 1 \<and> c_clt_nonce c' = c_clt_nonce c \<and>
    same_server s s' \<and> (\<forall>d. d \<noteq> c_clt_nonce c \<longrightarrow> xids_of s' d = xids_of s d)"
proof -
  have cb: "callable c s proc_bind (handler_fn get_int (\<lambda>a st. Inr (0, rs_nonce s, st)) put_int)"
    using l by (simp add: callable_def bind_handler_def)
  obtain c' s' where call: "rpc_call_lossy put_int (\<lambda>_. get_int) as proc_bind 0 0 c s st = Inr (c', s', st, 0, rs_nonce s)"
    "linked c' s'" "same_client c c'" "same_server s s'" "c_xid c' = c_xid c + 1"
    "\<forall>d. d \<noteq> c_clt_nonce c \<longrightarrow> xids_of s' d = xids_of s d"
    using lossy_call_runs_once [where rget = "\<lambda>_. get_int" and as = as and old = 0 and a = 0 and st = st,
        OF int.codec_axioms _ int.codec_axioms _ cb l(3) n refl] bk by (auto simp: fits_def)
  let ?c = "c'\<lparr>c_bind_done := True, c_srv_nonce := rs_nonce s\<rparr>"
  have "client_inv (fst (rpcc_bind c' 0 (rs_nonce s)))"
    using call(2) by (intro client_inv_bind) (simp add: linked_def)
  then have "linked ?c s'" using call(2,4) by (simp add: linked_def rpcc_bind_def same_server_def)
  moreover have "rpc_bind_lossy as c s st = Inr (?c, s', st, 0)" by (simp add: rpc_bind_lossy_def call(1) rpcc_bind_def)
  ultimately show ?thesis using call(3-6) by (simp add: same_client_def)
qed

text \<open>A server ready for new clients, and the clients connected to it so far; \<open>n\<close> calls are to come.\<close>

definition ready :: "unit rpcs \<Rightarrow> (attempt list \<times> u32) list \<Rightarrow> bool" where
  "ready s bs \<longleftrightarrow> rs_reachable s \<and> rw_ok (rs_window s) \<and> rs_procs s = test_procs (rs_nonce s) \<and>
     distinct (map snd bs) \<and> (\<forall>(as, nonce) \<in> set bs. comes_back as \<and> nonce \<noteq> 0 \<and> xids_of s nonce = {})"

definition connected :: "nat \<Rightarrow> (nat \<Rightarrow> rpcc) \<Rightarrow> unit rpcs \<Rightarrow> (attempt list \<times> u32) list \<Rightarrow> nat \<Rightarrow> bool" where
  "connected i clients s bs n \<longleftrightarrow> (\<forall>j < i. tested (clients j) s n \<and> c_srv_nonce (clients j) = rs_nonce s \<and>
     c_clt_nonce (clients j) \<noteq> 0 \<and> c_clt_nonce (clients j) \<notin> snd ` set bs) \<and>
     inj_on (\<lambda>j. c_clt_nonce (clients j)) {..<i}"

lemma tested_other:
  assumes "tested d s n" and "same_server s s'" and "rw_ok (rs_window s')"
    and "xids_of s' (c_clt_nonce d) = xids_of s (c_clt_nonce d)"
  shows "tested d s' n"
  using assms linked_other [of d s s'] by (auto simp: tested_def same_server_def)

lemma connects:
  assumes "ready s bs" and "connected i clients s bs n" and "n + 2 < 2 ^ 32"
  shows "\<exists>clients' s'. connect_clients bs i clients s = Inr (clients', s') \<and> same_server s s' \<and>
    connected (i + length bs) clients' s' [] n"
  using assms
proof (induction bs arbitrary: i clients s)
  case Nil
  then show ?case by simp
next
  case (Cons b bs)
  obtain as nonce where b: "b = (as, nonce)" by (cases b)
  have r: "rs_reachable s" "rw_ok (rs_window s)" "rs_procs s = test_procs (rs_nonce s)" "comes_back as" "nonce \<noteq> 0"
    "xids_of s nonce = {}" "nonce \<notin> snd ` set bs" "distinct (map snd bs)"
    "\<forall>(as, nonce) \<in> set bs. comes_back as \<and> nonce \<noteq> 0 \<and> xids_of s nonce = {}"
    using Cons.prems(1) by (auto simp: ready_def b)
  have new: "linked (rpcc_new True nonce) s" by (rule linked_new) (use r in simp_all)
  have fresh: "\<not> c_bind_done (rpcc_new True nonce)" "c_xid (rpcc_new True nonce) = 1" "c_clt_nonce (rpcc_new True nonce) = nonce"
    by (simp_all add: rpcc_new_def)
  obtain c s1 where c: "rpc_bind_lossy as (rpcc_new True nonce) s () = Inr (c, s1, (), 0)" "linked c s1" "c_bind_done c"
    "c_srv_nonce c = rs_nonce s" "c_xid c = 2" "c_clt_nonce c = nonce" "same_server s s1"
    "\<forall>d. d \<noteq> nonce \<longrightarrow> xids_of s1 d = xids_of s d"
    using bind_lossy_connects [OF new fresh(1), of as "()"] r fresh by (auto simp: test_procs_simps)
  have s1: "rw_ok (rs_window s1)" "rs_nonce s1 = rs_nonce s" "rs_procs s1 = test_procs (rs_nonce s1)" "rs_reachable s1"
    using c(2,7) r(3) by (auto simp: linked_def same_server_def)
  have tc: "tested c s1 n" using c s1 Cons.prems(3) by (simp add: tested_def)
  have old: "tested (clients j) s1 n" "c_srv_nonce (clients j) = rs_nonce s" "c_clt_nonce (clients j) \<noteq> 0"
    "c_clt_nonce (clients j) \<noteq> nonce" "c_clt_nonce (clients j) \<notin> snd ` set bs" if "j < i" for j
  proof -
    have k: "tested (clients j) s n" "c_clt_nonce (clients j) \<noteq> nonce" using Cons.prems(2) that by (auto simp: connected_def b)
    show "tested (clients j) s1 n" by (rule tested_other [OF k(1) c(7) s1(1)]) (use c(8) k(2) in simp)
  qed (use Cons.prems(2) that in \<open>auto simp: connected_def b\<close>)
  have xs: "\<forall>(as, nonce) \<in> set bs. comes_back as \<and> nonce \<noteq> 0 \<and> xids_of s1 nonce = {}"
    using r(7,9) c(8) by force
  have "ready s1 bs" using s1 r(8) xs by (simp add: ready_def)
  moreover have "connected (Suc i) (clients(i := c)) s1 bs n"
  proof -
    have "inj_on (\<lambda>j. c_clt_nonce ((clients(i := c)) j)) {..<Suc i}"
      unfolding inj_on_def
    proof (intro ballI impI)
      fix j k assume jk: "j \<in> {..<Suc i}" "k \<in> {..<Suc i}"
        "c_clt_nonce ((clients(i := c)) j) = c_clt_nonce ((clients(i := c)) k)"
      have "inj_on (\<lambda>j. c_clt_nonce (clients j)) {..<i}" using Cons.prems(2) by (simp add: connected_def)
      then show "j = k" using jk old(4) [of j] old(4) [of k] c(6)
        by (cases "j = i"; cases "k = i") (auto dest: inj_onD)
    qed
    moreover have "\<forall>j < Suc i. tested ((clients(i := c)) j) s1 n \<and> c_srv_nonce ((clients(i := c)) j) = rs_nonce s1 \<and>
        c_clt_nonce ((clients(i := c)) j) \<noteq> 0 \<and> c_clt_nonce ((clients(i := c)) j) \<notin> snd ` set bs"
      using old tc c r(5,7) s1(2) by (simp add: less_Suc_eq)
    ultimately show ?thesis unfolding connected_def by blast
  qed
  ultimately obtain clients' s' where "connect_clients bs (Suc i) (clients(i := c)) s1 = Inr (clients', s')"
    "same_server s1 s'" "connected (Suc i + length bs) clients' s' [] n"
    using Cons.IH Cons.prems(3) by blast
  then show ?case using c(1,7) by (auto simp: b same_server_def)
qed

lemma started_ready:
  assumes "distinct (map snd bs)" and "\<forall>(as, nonce) \<in> set bs. comes_back as \<and> nonce \<noteq> 0"
  obtains s where "startserver port nonce = Inr s" "rs_nonce s = nonce" "ready s bs"
proof -
  obtain s where s: "startserver port nonce = Inr s" "rs_procs s = test_procs nonce" "rs_nonce s = nonce"
    "rs_reachable s" "rs_window s = Map.empty" by (rule startserver_started)
  then have "ready s bs" using assms by (auto simp: ready_def rw_ok_def xids_of_def)
  then show thesis using that s(1,3) by blast
qed

section \<open>The lossy test passes\<close>

lemma client2_lossy_passes:
  assumes "tested c s (length calls + n)" and "c_clt_nonce c \<noteq> 0"
    and "\<forall>(as, arg) \<in> set calls. comes_back as \<and> unat arg < 2000"
  shows "\<exists>c' s'. client2_lossy calls c s = Inr (c', s') \<and> tested c' s' n \<and> kept c s c' s'"
  using assms
proof (induction calls arbitrary: c s)
  case Nil
  then show ?case by (simp add: kept_def same_client_def)
next
  case (Cons x calls)
  obtain as arg where x: "x = (as, arg)" by (cases x)
  have t: "tested c s (Suc (length calls + n))" using Cons.prems(1) by simp
  have a: "comes_back as" "unat arg < 2000" using Cons.prems(3) by (auto simp: x)
  note k = tested_callable [OF t _ test_procs_simps(4)]
  have f: "fits (be32 arg)" "fits (enc_string (xstring (unat arg)))"
    using a(2) by (simp add: fits_def, simp add: fits_string)
  have m: "handle_bigrep arg () = Inr (0, xstring (unat arg), ())" using a(2) by (intro bigrep_small) simp
  have nz: "c_clt_nonce c \<noteq> 0 \<or> length as \<le> 1" using Cons.prems(2) by blast
  obtain c1 s1 where call: "rpc_call_lossy put_int get_string as 25 arg [] c s () = Inr (c1, s1, (), 0, xstring (unat arg))"
    "linked c1 s1" "same_client c c1" "same_server s s1" "c_xid c1 = c_xid c + 1"
    "\<forall>d. d \<noteq> c_clt_nonce c \<longrightarrow> xids_of s1 d = xids_of s d"
    using lossy_call_runs_once [where as = as and old = "[]" and rget = get_string,
        OF int.codec_axioms f(1) str.codec_axioms f(2) k nz m] a(1) by (auto simp: proc_bind_def)
  have t1: "tested c1 s1 (length calls + n)" by (rule tested_next [OF t call(2-5)])
  have "c_clt_nonce c1 \<noteq> 0" using Cons.prems(2) call(3) by (simp add: same_client_def)
  then obtain c2 s2 where "client2_lossy calls c1 s1 = Inr (c2, s2)" "tested c2 s2 n" "kept c1 s1 c2 s2"
    using Cons.IH [OF t1] Cons.prems(3) by auto
  moreover have "kept c s c1 s1" using call(3,4,6) by (simp add: kept_def)
  ultimately show ?case using call(1) kept_trans by (fastforce simp: x)
qed

text \<open>The lossy test passes over connections that lose requests and replies, if every call gets through
  in the end; its client ends up bound to the server it has started.\<close>

lemma lossy_test_result:
  assumes binds: "length binds = NUM_CL" "distinct (map snd binds)" "\<forall>(as, nonce) \<in> set binds. comes_back as \<and> nonce \<noteq> 0"
    and calls: "length calls + n + 2 < 2 ^ 32" "\<forall>(as, arg) \<in> set calls. comes_back as \<and> unat arg < 2000"
    and remote: "\<not> server \<longrightarrow> ready s binds"
  shows "\<exists>clients' s'. lossy_test server port nonce binds calls clients s = Inr (clients', s') \<and>
    tested (clients' 0) s' n \<and> (server \<longrightarrow> c_srv_nonce (clients' 0) = nonce)"
proof -
  obtain s0 where s0: "(if server then startserver port nonce else Inr s) = Inr s0" "ready s0 binds"
    "server \<longrightarrow> rs_nonce s0 = nonce"
  proof (cases server)
    case True
    obtain s0 where "startserver port nonce = Inr s0" "rs_nonce s0 = nonce" "ready s0 binds"
      by (rule started_ready [OF binds(2,3)])
    then show thesis using that True by simp
  next
    case False
    then show thesis using that remote by simp
  qed
  have start: "connected 0 clients s0 binds (length calls + n)" by (simp add: connected_def)
  obtain cs1 s1 where c: "connect_clients binds 0 clients s0 = Inr (cs1, s1)" "same_server s0 s1"
    "connected (0 + length binds) cs1 s1 [] (length calls + n)"
    using connects [OF s0(2) start calls(1)] by blast
  have t: "tested (cs1 0) s1 (length calls + n)" "c_clt_nonce (cs1 0) \<noteq> 0" "c_srv_nonce (cs1 0) = rs_nonce s1"
    using c(3) binds(1) by (auto simp: connected_def NUM_CL_def)
  obtain c2 s2 where d: "client2_lossy calls (cs1 0) s1 = Inr (c2, s2)" "tested c2 s2 n" "kept (cs1 0) s1 c2 s2"
    using client2_lossy_passes [OF t(1,2) calls(2)] by blast
  have "server \<longrightarrow> c_srv_nonce c2 = nonce"
    using d(3) t(3) c(2) s0(3) by (simp add: kept_def same_client_def same_server_def)
  then show ?thesis using s0(1) c(1) d(1,2) by (simp add: lossy_test_def)
qed

section \<open>The program passes\<close>

lemma failure_threads_pass:
  assumes "tested client s 40"
  shows "\<exists>x. failure_threads ch sched client s = Inr x \<and> ((\<forall>t < 10. 16 \<le> count_list sched t) \<longrightarrow> all_joined 10 x)"
proof -
  let ?work = "\<lambda>i :: nat. if i < 10 then client3_turns else []"
  have len: "length client3_turns = 4" by (simp add: client3_turns_def)
  have "(\<Sum>t<10. length (?work t)) = (\<Sum>t<10 :: nat. length client3_turns)" by (rule sum.cong) simp_all
  then have c: "clients_tested (range (\<lambda>_. 0 :: nat)) (\<lambda>_. client) s (\<Sum>t<10. length (?work t))"
    using assms len by (simp add: clients_tested_def)
  have legal: "\<forall>t. \<forall>w \<in> set (?work t). turn_legal w" by (auto simp: client3_turns_def)
  obtain x where x: "run_threads ch (\<lambda>_. 0) sched (net_of (\<lambda>_. client) s, ?work) = Inr x"
    "(\<forall>t. 4 * length (?work t) \<le> count_list sched t) \<longrightarrow> joined x"
    using threads_pass [OF c legal, of ch sched] by auto
  moreover have "\<forall>t. 4 * length (?work t) \<le> count_list sched t" if "\<forall>t < 10. 16 \<le> count_list sched t"
    using that by (simp add: len)
  ultimately show ?thesis using joined_all unfolding failure_threads_def by blast
qed

lemma failure_test_rest_passes:
  assumes "tested client s 40"
  shows "\<exists>j. failure_test_rest ch port nonce n3 sched1 sched2 client s = Inr j \<and>
    ((\<forall>t < 10. 16 \<le> count_list sched1 t \<and> 16 \<le> count_list sched2 t) \<longrightarrow> j)"
proof -
  obtain x where x: "failure_threads ch sched1 client s = Inr x"
    "(\<forall>t < 10. 16 \<le> count_list sched1 t) \<longrightarrow> all_joined 10 x"
    using failure_threads_pass [OF assms] by blast
  obtain s1 where s1: "startserver port nonce = Inr s1" "rs_procs s1 = test_procs nonce" "rs_nonce s1 = nonce"
    "rs_reachable s1" "rs_window s1 = Map.empty" by (rule startserver_started)
  have new: "linked (rpcc_new True n3) s1" by (rule linked_new) (simp_all add: s1 rw_ok_def xids_of_def)
  have fresh: "\<not> c_bind_done (rpcc_new True n3)" "c_xid (rpcc_new True n3) = 1" by (simp_all add: rpcc_new_def)
  obtain c s2 where c: "rpc_bind ch (rpcc_new True n3) s1 () = Inr (c, s2, (), 0)" "linked c s2" "c_bind_done c"
    "c_xid c = 2" "same_server s1 s2"
    using bind_connects [OF new fresh(1), of ch "()"] by (auto simp: s1 fresh test_procs_simps)
  have "tested c s2 40" using c s1 by (simp add: tested_def same_server_def)
  then obtain y where y: "failure_threads ch sched2 c s2 = Inr y"
    "(\<forall>t < 10. 16 \<le> count_list sched2 t) \<longrightarrow> all_joined 10 y"
    using failure_threads_pass by blast
  then show ?thesis using x s1(1) c(1) by (auto simp: failure_test_rest_def)
qed

text \<open>The draws of a run, and schedules that let every thread finish.\<close>

definition trial_ok :: "trial \<Rightarrow> bool" where
  "trial_ok tr \<longleftrightarrow> length (tr_clients tr) = NUM_CL \<and> distinct (tr_clients tr) \<and> 0 \<notin> set (tr_clients tr) \<and>
     tr_t1 tr - tr_t0 tr \<le> 4 \<and>
     (\<forall>t < 10. length (fst (tr_args tr t)) = 100 \<and> length (snd (tr_args tr t)) = 100 \<and>
       (\<forall>arg \<in> set (fst (tr_args tr t)). unat arg < 2000)) \<and>
     length (tr_binds tr) = NUM_CL \<and> distinct (map snd (tr_binds tr)) \<and>
     (\<forall>(as, nonce) \<in> set (tr_binds tr). comes_back as \<and> nonce \<noteq> 0) \<and>
     length (tr_calls tr) + 3 < 2 ^ 32 \<and> (\<forall>(as, arg) \<in> set (tr_calls tr). comes_back as \<and> unat arg < 2000) \<and>
     tr_srv2 tr \<noteq> 0 \<and> tr_srv3 tr \<noteq> tr_srv2 tr"

definition fair_trial :: "trial \<Rightarrow> bool" where
  "fair_trial tr \<longleftrightarrow> (\<forall>t < 10. 800 \<le> count_list (tr_sched tr) t \<and> 16 \<le> count_list (tr_sched1 tr) t \<and>
     16 \<le> count_list (tr_sched2 tr) t)"

lemma simple_then_concurrent:
  assumes tr: "trial_ok tr" and c: "connected 2 clients s [] 2008"
  shows "\<exists>c' c1 s' x. simple_tests ch (tr_t0 tr) (tr_t1 tr) (rpcc_new True (tr_nobody tr)) (clients 0) s = Inr (c', c1, s') \<and>
    concurrent_test ch 10 (tr_args tr) (tr_sched tr) (clients(0 := c')) s' = Inr x \<and> (fair_trial tr \<longrightarrow> all_joined 10 x)"
proof -
  have k: "tested (clients 0) s 2008" "tested (clients 1) s 2008" using c by (auto simp: connected_def)
  have inj: "c_clt_nonce (clients 1) \<noteq> c_clt_nonce (clients 0)"
    using c by (auto simp: connected_def dest: inj_onD)
  have t: "tested (clients 0) s (8 + 2000)" using k(1) by simp
  have clock: "tr_t1 tr - tr_t0 tr \<le> 4" using tr by (simp add: trial_ok_def)
  obtain c' c1 s' where one: "simple_tests ch (tr_t0 tr) (tr_t1 tr) (rpcc_new True (tr_nobody tr)) (clients 0) s = Inr (c', c1, s')"
    "tested c' s' 2000" "kept (clients 0) s c' s'"
    using simple_tests_pass [OF t clock] by blast
  have other: "tested (clients 1) s' 2008"
    by (rule tested_other [OF k(2)]) (use one(2,3) inj in \<open>auto simp: kept_def tested_def linked_def\<close>)
  have two: "tested (clients 1) s' 2000" by (rule tested_less [OF other]) simp
  have args: "length (fst (tr_args tr t)) = 100" "length (snd (tr_args tr t)) = 100"
    "\<forall>arg \<in> set (fst (tr_args tr t)). unat arg < 2000" if "t < 10" for t
    using tr that by (auto simp: trial_ok_def)
  have "(\<Sum>t<10. length (fst (tr_args tr t)) + length (snd (tr_args tr t))) = (\<Sum>t<10 :: nat. 200)"
    by (rule sum.cong) (simp_all add: args)
  then have ct: "clients_tested {0, 1} (clients(0 := c')) s'
      (\<Sum>t<10. length (fst (tr_args tr t)) + length (snd (tr_args tr t)))"
    using one(2,3) two inj by (auto simp: clients_tested_def kept_def same_client_def)
  have draws: "\<forall>t < 10. \<forall>arg \<in> set (fst (tr_args tr t)). unat arg < 2000" using args(3) by blast
  obtain x where x: "concurrent_test ch 10 (tr_args tr) (tr_sched tr) (clients(0 := c')) s' = Inr x"
    "(\<forall>t < 10. 4 * (length (fst (tr_args tr t)) + length (snd (tr_args tr t))) \<le> count_list (tr_sched tr) t) \<longrightarrow> joined x"
    using concurrent_test_result [OF ct draws] by blast
  then have "fair_trial tr \<longrightarrow> all_joined 10 x" using joined_all by (simp add: fair_trial_def args)
  then show ?thesis using one(1) x(1) by blast
qed

lemma lossy_then_failure:
  assumes tr: "trial_ok tr"
  shows "\<exists>clients' s' c s1 j. lossy_test True port (tr_srv2 tr) (tr_binds tr) (tr_calls tr) clients s = Inr (clients', s') \<and>
    failure_test ch port (tr_srv3 tr) (tr_n1 tr) (tr_n2 tr) (clients' 0) = Inr (c, s1) \<and>
    failure_test_rest ch port (tr_srv4 tr) (tr_n3 tr) (tr_sched1 tr) (tr_sched2 tr) c s1 = Inr j \<and> (fair_trial tr \<longrightarrow> j)"
proof -
  note k = tr [unfolded trial_ok_def]
  obtain cs s' where l: "lossy_test True port (tr_srv2 tr) (tr_binds tr) (tr_calls tr) clients s = Inr (cs, s')"
    "tested (cs 0) s' 1" "c_srv_nonce (cs 0) = tr_srv2 tr"
    using lossy_test_result [of "tr_binds tr" "tr_calls tr" 1 True s port "tr_srv2 tr" clients] k by auto
  have x: "c_xid (cs 0) \<noteq> - 1" using l(2) room_u32 [of "c_xid (cs 0)" 0] by (simp add: tested_def)
  have client: "linked (cs 0) s'" "c_bind_done (cs 0)" "c_xid (cs 0) \<noteq> - 1" "c_srv_nonce (cs 0) \<noteq> 0"
    "c_srv_nonce (cs 0) \<noteq> tr_srv3 tr"
    using l(2,3) x k by (auto simp: tested_def)
  obtain c s1 where f: "failure_test ch port (tr_srv3 tr) (tr_n1 tr) (tr_n2 tr) (cs 0) = Inr (c, s1)" "tested c s1 99"
    using failure_test_passes [OF client] by blast
  have "tested c s1 40" by (rule tested_less [OF f(2)]) simp
  then obtain j where "failure_test_rest ch port (tr_srv4 tr) (tr_n3 tr) (tr_sched1 tr) (tr_sched2 tr) c s1 = Inr j"
    "(\<forall>t < 10. 16 \<le> count_list (tr_sched1 tr) t \<and> 16 \<le> count_list (tr_sched2 tr) t) \<longrightarrow> j"
    using failure_test_rest_passes by blast
  then show ?thesis using l(1) f(1) unfolding fair_trial_def by blast
qed


text \<open>A run: the lossy test makes one call, which gets through at its second attempt.\<close>

lemma count_list_rounds: "count_list (concat (replicate k xs)) t = k * count_list xs t"
  by (induction k) simp_all

lemma all_less_10: "(\<forall>t < 10 :: nat. P t) \<longleftrightarrow> P 0 \<and> P 1 \<and> P 2 \<and> P 3 \<and> P 4 \<and> P 5 \<and> P 6 \<and> P 7 \<and> P 8 \<and> P 9"
proof -
  have "(10 :: nat) = Suc (Suc (Suc (Suc (Suc (Suc (Suc (Suc (Suc (Suc 0)))))))))" by simp
  then show ?thesis by (simp only: All_less_Suc) (auto simp: eval_nat_numeral)
qed

definition ex_trial :: trial where
  "ex_trial = \<lparr>tr_ch = 3, tr_srv1 = 5, tr_srv2 = 6, tr_srv3 = 7, tr_srv4 = 8, tr_clients = [11, 12], tr_nobody = 13,
     tr_t0 = 100, tr_t1 = 103, tr_args = \<lambda>t. (replicate 100 7, replicate 100 (True, 4)),
     tr_sched = concat (replicate 800 [0..<10]), tr_binds = [([(3, True, True)], 14), ([(4, False, False), (5, True, True)], 15)],
     tr_calls = [([(6, True, False), (7, True, True)], 1999)], tr_n1 = 16, tr_n2 = 17, tr_n3 = 18,
     tr_sched1 = concat (replicate 16 [0..<10]), tr_sched2 = concat (replicate 16 [0..<10])\<rparr>"


end
