(* ===== verification/Paxos.thy ===== *)
theory Paxos
  imports Protocols TextIO
begin

text \<open>
  One Paxos node: the acceptor and proposer of \<open>paxos.cc\<close> and the durable log of \<open>log.cc\<close>.
  The log file is modelled by its text, written by the \<open>ofstream\<close> insertions and read back by
  the \<open>ifstream\<close> extractions of the code.  The theorems of this theory are about one node:
  reading the log back gives the state that wrote it, and the handlers keep their promises.
  Theory \<open>PaxosSafety\<close> composes nodes.
\<close>

section \<open>The acceptor and its log\<close>

record acceptor =
  ac_me :: string
  ac_n_h :: prop_t
  ac_n_a :: prop_t
  ac_v_a :: string
  ac_instance_h :: u32
  ac_values :: "u32 \<rightharpoonup> string"
  ac_log :: string

text \<open>The three record writers append one line each.\<close>

definition loginstance :: "u32 \<Rightarrow> string \<Rightarrow> acceptor \<Rightarrow> acceptor" where
  "loginstance i v a =
     a\<lparr>ac_log := ac_log a @ ''done'' @ '' '' @ show_word i @ '' '' @ v @ [newline]\<rparr>"

definition loghigh :: "prop_t \<Rightarrow> acceptor \<Rightarrow> acceptor" where
  "loghigh n a =
     a\<lparr>ac_log := ac_log a @ ''high'' @ '' '' @ show_word (pt_n n) @ '' '' @ pt_m n @ [newline]\<rparr>"

definition logprop :: "prop_t \<Rightarrow> string \<Rightarrow> acceptor \<Rightarrow> acceptor" where
  "logprop n v a =
     a\<lparr>ac_log := ac_log a @ ''prop'' @ '' '' @ show_word (pt_n n) @ '' '' @ pt_m n @ '' '' @ v @ [newline]\<rparr>"

text \<open>The body of the read loop, after the record's type was extracted.\<close>

definition logread_record :: "string \<Rightarrow> istream \<Rightarrow> acceptor \<Rightarrow> (istream \<times> acceptor) res" where
  "logread_record type st a =
     (if type = ''done'' then
        (let (i, st) = in_uint 0 st; (v, st) = in_line (in_get st)
         in Inr (st, a\<lparr>ac_values := (ac_values a)(i \<mapsto> v), ac_instance_h := i, ac_v_a := [],
              ac_n_h := Prop 0 (pt_m (ac_n_h a)), ac_n_a := Prop 0 (pt_m (ac_n_a a))\<rparr>))
      else if type = ''high'' then
        (let (n, st) = in_uint (pt_n (ac_n_h a)) st; (m, st) = in_word (pt_m (ac_n_h a)) st
         in Inr (st, a\<lparr>ac_n_h := Prop n m\<rparr>))
      else if type = ''prop'' then
        (let (n, st) = in_uint (pt_n (ac_n_a a)) st; (m, st) = in_word (pt_m (ac_n_a a)) st;
             (v, st) = in_line (in_get st)
         in Inr (st, a\<lparr>ac_n_a := Prop n m, ac_v_a := v\<rparr>))
      else Inl AssertFail)"

lemma logread_record_len: "logread_record type st a = Inr (st', a') \<Longrightarrow> in_len st' \<le> in_len st"
  by (auto simp: logread_record_def split_def Let_def split: if_splits
      intro: le_trans [OF in_len_line] le_trans [OF in_len_get] le_trans [OF in_len_word] in_len_uint)

function logread_loop :: "istream \<Rightarrow> acceptor \<Rightarrow> acceptor res" where
  "logread_loop st a = (case in_word [] st of
     (type, None) \<Rightarrow> Inr a
   | (type, Some s) \<Rightarrow> (case logread_record type (Some s) a of
       Inl e \<Rightarrow> Inl e
     | Inr (st, a) \<Rightarrow> logread_loop st a))"
  by pat_completeness auto
termination
proof (relation "measure (\<lambda>(st, a). in_len st)", goal_cases)
  case (2 st a type x s y st' a')
  then show ?case using in_word_len [of "[]" st type s] logread_record_len [of type "Some s" a st' a']
    by auto
qed simp

declare logread_loop.simps [simp del]

definition logread :: "acceptor \<Rightarrow> acceptor res" where
  "logread a = logread_loop (Some (ac_log a)) a"

function dump_lines :: "string \<Rightarrow> string" where
  "dump_lines [] = []"
| "dump_lines (c # s) =
     takeWhile (\<lambda>c. c \<noteq> newline) (c # s) @ [newline] @
     dump_lines (drop 1 (dropWhile (\<lambda>c. c \<noteq> newline) (c # s)))"
  by pat_completeness auto
termination
  by (relation "measure length")
    (auto simp: less_Suc_eq_le intro!: le_trans [OF diff_le_self] length_dropWhile_le)

definition acceptor_dump :: "acceptor \<Rightarrow> string" where
  "acceptor_dump a = dump_lines (ac_log a)"

text \<open>Replaces the log and replays it over the state the acceptor has.\<close>

definition acceptor_restore :: "string \<Rightarrow> acceptor \<Rightarrow> acceptor res" where
  "acceptor_restore s a = logread (a\<lparr>ac_log := s\<rparr>)"

definition acceptor_new :: "bool \<Rightarrow> string \<Rightarrow> string \<Rightarrow> string \<Rightarrow> acceptor res" where
  "acceptor_new first me value file =
     rbind (logread \<lparr>ac_me = me, ac_n_h = Prop 0 me, ac_n_a = Prop 0 me, ac_v_a = [],
              ac_instance_h = 0, ac_values = Map.empty, ac_log = file\<rparr>)
       (\<lambda>a. Inr (if ac_instance_h a = 0 \<and> first
                 then (loginstance 1 value (a\<lparr>ac_values := (ac_values a)(1 \<mapsto> value)\<rparr>))\<lparr>ac_instance_h := 1\<rparr>
                 else a))"

section \<open>The handlers\<close>

text \<open>\<open>values[instance]\<close> on a map inserts an empty string where there is no entry.\<close>

definition acceptor_value :: "u32 \<Rightarrow> acceptor \<Rightarrow> string \<times> acceptor" where
  "acceptor_value i a = (case ac_values a i of
     Some v \<Rightarrow> (v, a)
   | None \<Rightarrow> ([], a\<lparr>ac_values := (ac_values a)(i \<mapsto> [])\<rparr>))"

text \<open>\<open>r\<close> is the reply object the stub passes in; fields not assigned keep their value.\<close>

definition handle_preparereq ::
  "preparearg \<Rightarrow> prepareres \<Rightarrow> acceptor \<Rightarrow> acceptor \<times> prepareres \<times> paxos_status" where
  "handle_preparereq a r s =
     (if pa_instance a \<le> ac_instance_h s then
        (let (v, s) = acceptor_value (pa_instance a) s
         in (s, Prepareres 1 (pr_accept r) (pr_n_a r) v, POK))
      else if prop_gt (pa_n a) (ac_n_h s) then
        (loghigh (pa_n a) (s\<lparr>ac_n_h := pa_n a\<rparr>), Prepareres 0 1 (ac_n_a s) (ac_v_a s), POK)
      else (s, Prepareres 0 0 (pr_n_a r) (pr_v_a r), POK))"

definition handle_acceptreq :: "acceptarg \<Rightarrow> acceptor \<Rightarrow> acceptor \<times> u32 \<times> paxos_status" where
  "handle_acceptreq a s =
     (if aa_instance a > ac_instance_h s then
        (if prop_ge (aa_n a) (ac_n_h s)
         then (logprop (aa_n a) (aa_v a) (s\<lparr>ac_n_a := aa_n a, ac_v_a := aa_v a\<rparr>), 1, POK)
         else (s, 0, POK))
      else (s, 0, PERR))"

text \<open>
  \<open>commit_wo\<close>: the second component is the upcall \<open>paxos_commit(instance, value)\<close> it makes, with
  the acceptor's mutex released, when there is a \<open>cfg\<close>.
\<close>

definition commit_wo :: "u32 \<Rightarrow> string \<Rightarrow> acceptor \<Rightarrow> acceptor \<times> (u32 \<times> string) option" where
  "commit_wo i v s =
     (if i > ac_instance_h s then
        (let s = loginstance i v (s\<lparr>ac_values := (ac_values s)(i \<mapsto> v)\<rparr>)
         in (s\<lparr>ac_instance_h := i, ac_n_h := Prop 0 (ac_me s), ac_n_a := Prop 0 (ac_me s), ac_v_a := []\<rparr>,
             Some (i, v)))
      else (s, None))"

definition acceptor_commit :: "u32 \<Rightarrow> string \<Rightarrow> acceptor \<Rightarrow> acceptor \<times> (u32 \<times> string) option" where
  "acceptor_commit i v s = commit_wo i v s"

definition handle_decidereq ::
  "decidearg \<Rightarrow> acceptor \<Rightarrow> acceptor \<times> (u32 \<times> string) option \<times> paxos_status" where
  "handle_decidereq a s = (let (s, up) = acceptor_commit (da_instance a) (da_v a) s in (s, up, POK))"

section \<open>The proposer\<close>

record proposer =
  pp_me :: string
  pp_break1 :: bool
  pp_break2 :: bool
  pp_stable :: bool
  pp_c_nodes :: "string list"
  pp_c_v :: string
  pp_my_n :: prop_t

text \<open>The constructor does not initialise \<open>my_n.n\<close>; \<open>n\<close> is whatever it holds.\<close>

definition proposer_new :: "string \<Rightarrow> u32 \<Rightarrow> proposer" where
  "proposer_new me n =
     \<lparr>pp_me = me, pp_break1 = False, pp_break2 = False, pp_stable = True, pp_c_nodes = [],
      pp_c_v = [], pp_my_n = Prop n me\<rparr>"

definition isrunning :: "proposer \<Rightarrow> bool" where
  "isrunning p \<longleftrightarrow> \<not> pp_stable p"

fun isamember :: "string \<Rightarrow> string list \<Rightarrow> bool" where
  "isamember m [] = False"
| "isamember m (x # nodes) = (if x = m then True else isamember m nodes)"

fun print_members :: "string list \<Rightarrow> string" where
  "print_members [] = []"
| "print_members (x # xs) = x @ (if xs \<noteq> [] then '','' else []) @ print_members xs"

definition majority :: "string list \<Rightarrow> string list \<Rightarrow> bool" where
  "majority l1 l2 \<longleftrightarrow> length (filter (\<lambda>x. isamember x l2) l1) \<ge> length l1 div 2 + 1"

definition setn :: "prop_t \<Rightarrow> proposer \<Rightarrow> proposer" where
  "setn n_h p =
     p\<lparr>pp_my_n := Prop (if pt_n n_h + 1 > pt_n (pp_my_n p) + 1 then pt_n n_h + 1
                        else pt_n (pp_my_n p) + 1) (pt_m (pp_my_n p))\<rparr>"

text \<open>
  The loops over the nodes take the reply each node gives: \<open>None\<close> when there is no connection
  to the node or the call does not return \<open>OK\<close>.  \<open>prepare_reply\<close> is the body of the prepare
  loop; an old-instance answer ends the loop with the value to commit.
\<close>

definition prepare_reply ::
  "string \<Rightarrow> prepareres option \<Rightarrow> string list \<times> prop_t \<times> string \<Rightarrow>
   string + (string list \<times> prop_t \<times> string)" where
  "prepare_reply node reply acc = (case (reply, acc) of
     (None, _) \<Rightarrow> Inr acc
   | (Some r, accepts, mx, v) \<Rightarrow>
       (if pr_oldinstance r = 0 then
          (if pr_accept r \<noteq> 0 then
             (if prop_gt (pr_n_a r) mx then Inr (accepts @ [node], pr_n_a r, pr_v_a r)
              else Inr (accepts @ [node], mx, v))
           else Inr acc)
        else Inl (pr_v_a r)))"

fun prepare_loop ::
  "(string \<Rightarrow> prepareres option) \<Rightarrow> string list \<Rightarrow> string list \<times> prop_t \<times> string \<Rightarrow>
   string + (string list \<times> prop_t \<times> string)" where
  "prepare_loop replies [] acc = Inr acc"
| "prepare_loop replies (n # nodes) acc =
     rbind (prepare_reply n (replies n) acc) (prepare_loop replies nodes)"

definition proposer_prepare ::
  "(string \<Rightarrow> prepareres option) \<Rightarrow> string list \<Rightarrow> string + (string list \<times> string)" where
  "proposer_prepare replies nodes =
     rbind (prepare_loop replies nodes ([], Prop 0 [], [])) (\<lambda>(accepts, mx, v). Inr (accepts, v))"

definition accept_reply :: "string \<Rightarrow> u32 option \<Rightarrow> string list \<Rightarrow> string list" where
  "accept_reply node reply accepts = (case reply of
     Some r \<Rightarrow> (if r \<noteq> 0 then accepts @ [node] else accepts)
   | None \<Rightarrow> accepts)"

definition proposer_accept :: "(string \<Rightarrow> u32 option) \<Rightarrow> string list \<Rightarrow> string list" where
  "proposer_accept replies nodes = foldl (\<lambda>acc n. accept_reply n (replies n) acc) [] nodes"

text \<open>The decide requests, in order, to the nodes that \<open>h\<close> has a client for; their answers only matter
  for a message.\<close>

definition proposer_decide :: "u32 \<Rightarrow> string list \<Rightarrow> string \<Rightarrow> (string \<Rightarrow> bool) \<Rightarrow> (string \<times> decidearg) list" where
  "proposer_decide inst accepts v h =
     (let arg = Decidearg inst v in map (\<lambda>it. (it, arg)) (filter h accepts))"

text \<open>The outcomes of \<open>run\<close>; \<open>Decided\<close> carries the nodes that are sent the decide request.\<close>

datatype run_result =
    AlreadyRunning
  | OldInstance string
  | NoPrepareMajority
  | Died
  | NoAcceptMajority
  | Decided "string list" string

definition run_value :: "string \<Rightarrow> string \<Rightarrow> string" where
  "run_value c_v v = (if length v = 0 then c_v else v)"

definition proposer_run ::
  "string list \<Rightarrow> string \<Rightarrow> prop_t \<Rightarrow> (string \<Rightarrow> prepareres option) \<Rightarrow> (string \<Rightarrow> u32 option) \<Rightarrow>
   proposer \<Rightarrow> proposer \<times> run_result" where
  "proposer_run newnodes newv n_h preps accs p =
     (if \<not> pp_stable p then (p, AlreadyRunning)
      else
        (let p = setn n_h (p\<lparr>pp_stable := False, pp_c_nodes := newnodes, pp_c_v := newv\<rparr>);
             res = (case proposer_prepare preps (pp_c_nodes p) of
               Inl v \<Rightarrow> OldInstance v
             | Inr (accepts, v) \<Rightarrow>
                 (if majority (pp_c_nodes p) accepts then
                    (let v = run_value (pp_c_v p) v
                     in if pp_break1 p then Died
                        else (let accepts = proposer_accept accs accepts
                              in if majority (pp_c_nodes p) accepts
                                 then (if pp_break2 p then Died else Decided accepts v)
                                 else NoAcceptMajority))
                  else NoPrepareMajority))
         in (p\<lparr>pp_stable := True\<rparr>, res)))"

definition breakpoint :: "int \<Rightarrow> proposer \<Rightarrow> proposer" where
  "breakpoint b p = (if b = 3 then p\<lparr>pp_break1 := True\<rparr>
                     else if b = 4 then p\<lparr>pp_break2 := True\<rparr> else p)"

section \<open>Reading the log back\<close>

text \<open>
  The abstract log is a list of records; its text is what the writers append.
\<close>

datatype log_rec = Done u32 string | High prop_t | Accepted prop_t string

fun show_rec :: "log_rec \<Rightarrow> string" where
  "show_rec (Done i v) = ''done'' @ '' '' @ show_word i @ '' '' @ v @ [newline]"
| "show_rec (High n) = ''high'' @ '' '' @ show_word (pt_n n) @ '' '' @ pt_m n @ [newline]"
| "show_rec (Accepted n v) =
     ''prop'' @ '' '' @ show_word (pt_n n) @ '' '' @ pt_m n @ '' '' @ v @ [newline]"

fun apply_rec :: "log_rec \<Rightarrow> acceptor \<Rightarrow> acceptor" where
  "apply_rec (Done i v) a =
     a\<lparr>ac_values := (ac_values a)(i \<mapsto> v), ac_instance_h := i, ac_v_a := [],
       ac_n_h := Prop 0 (pt_m (ac_n_h a)), ac_n_a := Prop 0 (pt_m (ac_n_a a))\<rparr>"
| "apply_rec (High n) a = a\<lparr>ac_n_h := n\<rparr>"
| "apply_rec (Accepted n v) a = a\<lparr>ac_n_a := n, ac_v_a := v\<rparr>"

fun rec_ok :: "log_rec \<Rightarrow> bool" where
  "rec_ok (Done i v) = line_ok v"
| "rec_ok (High n) = word_ok (pt_m n)"
| "rec_ok (Accepted n v) = (word_ok (pt_m n) \<and> line_ok v)"

lemma word_ok_types: "word_ok ''done''" "word_ok ''high''" "word_ok ''prop''"
  by (simp_all add: word_ok_def is_space_def)

lemma logread_step:
  assumes "\<forall>x \<in> set ws. is_space x" and "rec_ok r"
  obtains ws' where "\<forall>x \<in> set ws'. is_space x"
    "logread_loop (Some (ws @ show_rec r @ rest)) a = logread_loop (Some (ws' @ rest)) (apply_rec r a)"
proof (cases r)
  case (Done i v)
  then show thesis
    using assms that [of "[]"] in_word_read [OF assms(1) word_ok_types(1), of "CHR '' ''"]
    by (simp add: logread_loop.simps [of "Some (ws @ _)"] logread_record_def in_uint_read in_line_read)
next
  case (High n)
  have m: "in_word old (Some (CHR '' '' # pt_m n @ newline # rest)) = (pt_m n, Some (newline # rest))" for old
    using in_word_read [of "[CHR '' '']" "pt_m n" newline old rest] assms(2) High by simp
  show thesis
    using assms High that [of "[newline]"] in_word_read [OF assms(1) word_ok_types(2), of "CHR '' ''"]
    by (simp add: logread_loop.simps [of "Some (ws @ _)"] logread_record_def in_uint_read m)
next
  case (Accepted n v)
  have m: "in_word old (Some (CHR '' '' # pt_m n @ CHR '' '' # s)) = (pt_m n, Some (CHR '' '' # s))" for old s
    using in_word_read [of "[CHR '' '']" "pt_m n" "CHR '' ''" old s] assms(2) Accepted by simp
  show thesis
    using assms Accepted that [of "[]"] in_word_read [OF assms(1) word_ok_types(3), of "CHR '' ''"]
    by (simp add: logread_loop.simps [of "Some (ws @ _)"] logread_record_def in_uint_read in_line_read m)
qed

lemma logread_loop_records:
  assumes "\<forall>x \<in> set ws. is_space x" and "\<forall>r \<in> set rs. rec_ok r"
  shows "logread_loop (Some (ws @ concat (map show_rec rs))) a = Inr (fold apply_rec rs a)"
  using assms
proof (induction rs arbitrary: ws a)
  case Nil
  then have "dropWhile is_space ws = []" by (simp add: dropWhile_eq_Nil_conv)
  then show ?case by (simp add: logread_loop.simps [of "Some ws"] in_word_def)
next
  case (Cons r rs)
  obtain ws' where ws': "\<forall>x \<in> set ws'. is_space x"
    "logread_loop (Some (ws @ show_rec r @ concat (map show_rec rs))) a =
      logread_loop (Some (ws' @ concat (map show_rec rs))) (apply_rec r a)"
    using logread_step [OF Cons.prems(1), of r] Cons.prems(2) by auto
  then show ?case using Cons.IH [OF ws'(1)] Cons.prems(2) by simp
qed

text \<open>
  The records an acceptor has logged determine its state.
\<close>

definition base :: "string \<Rightarrow> string \<Rightarrow> acceptor" where
  "base me file = \<lparr>ac_me = me, ac_n_h = Prop 0 me, ac_n_a = Prop 0 me, ac_v_a = [],
     ac_instance_h = 0, ac_values = Map.empty, ac_log = file\<rparr>"

lemma base_simps:
  "ac_me (base me f) = me" "ac_n_h (base me f) = Prop 0 me" "ac_n_a (base me f) = Prop 0 me"
  "ac_v_a (base me f) = []" "ac_instance_h (base me f) = 0" "ac_log (base me f) = f"
  by (simp_all add: base_def)

text \<open>Two proposal numbers are as good as each other when they agree or both have number 0.\<close>

definition prop_sim :: "prop_t \<Rightarrow> prop_t \<Rightarrow> bool" where
  "prop_sim a b \<longleftrightarrow> a = b \<or> (pt_n a = 0 \<and> pt_n b = 0)"

definition value_of :: "acceptor \<Rightarrow> u32 \<Rightarrow> string" where
  "value_of a i = (case ac_values a i of Some v \<Rightarrow> v | None \<Rightarrow> [])"

lemma value_of_update [simp]:
  "value_of (a\<lparr>ac_n_h := n\<rparr>) = value_of a" "value_of (a\<lparr>ac_n_a := n\<rparr>) = value_of a"
  "value_of (a\<lparr>ac_v_a := w\<rparr>) = value_of a" "value_of (a\<lparr>ac_log := f\<rparr>) = value_of a"
  "value_of (a\<lparr>ac_instance_h := i\<rparr>) = value_of a"
  "value_of (a\<lparr>ac_values := (ac_values b)(i \<mapsto> v)\<rparr>) = (value_of b)(i := v)"
  by (auto simp: value_of_def fun_eq_iff)

definition recovered :: "acceptor \<Rightarrow> acceptor \<Rightarrow> bool" where
  "recovered a b \<longleftrightarrow> prop_sim (ac_n_h a) (ac_n_h b) \<and> prop_sim (ac_n_a a) (ac_n_a b) \<and>
     ac_v_a a = ac_v_a b \<and> ac_instance_h a = ac_instance_h b \<and> value_of a = value_of b \<and>
     ac_me a = ac_me b \<and> ac_log a = ac_log b"

definition logged :: "acceptor \<Rightarrow> bool" where
  "logged a \<longleftrightarrow> (\<exists>rs. (\<forall>r \<in> set rs. rec_ok r) \<and> ac_log a = concat (map show_rec rs) \<and>
     recovered (fold apply_rec rs (base (ac_me a) (ac_log a))) a)"

lemma fold_apply_rec_log: "fold apply_rec rs (a\<lparr>ac_log := f\<rparr>) = (fold apply_rec rs a)\<lparr>ac_log := f\<rparr>"
proof (induction rs arbitrary: a)
  case (Cons r rs)
  have "apply_rec r (a\<lparr>ac_log := f\<rparr>) = (apply_rec r a)\<lparr>ac_log := f\<rparr>" by (cases r) simp_all
  then show ?case using Cons.IH by simp
qed simp

lemma logged_append:
  assumes "logged a" and "rec_ok r" and "ac_log b = ac_log a @ show_rec r" and "ac_me b = ac_me a"
    and "\<And>c. recovered c a \<Longrightarrow> recovered ((apply_rec r c)\<lparr>ac_log := ac_log b\<rparr>) b"
  shows "logged b"
proof -
  obtain rs where rs: "\<forall>r \<in> set rs. rec_ok r" "ac_log a = concat (map show_rec rs)"
    "recovered (fold apply_rec rs (base (ac_me a) (ac_log a))) a"
    using assms(1) by (auto simp: logged_def)
  have "base (ac_me b) (ac_log b) = (base (ac_me a) (ac_log a))\<lparr>ac_log := ac_log b\<rparr>"
    by (simp add: base_def assms(4))
  then have "fold apply_rec (rs @ [r]) (base (ac_me b) (ac_log b)) =
      (apply_rec r (fold apply_rec rs (base (ac_me a) (ac_log a))))\<lparr>ac_log := ac_log b\<rparr>"
    using fold_apply_rec_log [of "rs @ [r]"] by simp
  moreover have "recovered \<dots> b" using assms(5) [OF rs(3)] .
  ultimately show ?thesis
    unfolding logged_def using rs(1,2) assms(2,3) by (intro exI [of _ "rs @ [r]"]) auto
qed

lemma logged_same:
  "logged a \<Longrightarrow> ac_log b = ac_log a \<Longrightarrow> ac_me b = ac_me a \<Longrightarrow> (\<And>c. recovered c a \<Longrightarrow> recovered c b) \<Longrightarrow>
    logged b"
  by (auto simp: logged_def)

lemma value_of_acceptor_value [simp]:
  "fst (acceptor_value i a) = value_of a i"
  "value_of (snd (acceptor_value i a)) = value_of a"
  "ac_log (snd (acceptor_value i a)) = ac_log a" "ac_me (snd (acceptor_value i a)) = ac_me a"
  "ac_n_h (snd (acceptor_value i a)) = ac_n_h a" "ac_n_a (snd (acceptor_value i a)) = ac_n_a a"
  "ac_v_a (snd (acceptor_value i a)) = ac_v_a a"
  "ac_instance_h (snd (acceptor_value i a)) = ac_instance_h a"
  by (auto simp: acceptor_value_def value_of_def fun_eq_iff split: option.split)

lemma logged_preparereq [inv_intros]:
  assumes "logged s" and "word_ok (pt_m (pa_n a))"
  shows "logged (fst (handle_preparereq a r s))"
proof -
  consider "pa_instance a \<le> ac_instance_h s" | "ac_instance_h s < pa_instance a" "ac_n_h s < pa_n a"
    | "fst (handle_preparereq a r s) = s"
    by (cases "pa_instance a \<le> ac_instance_h s"; cases "ac_n_h s < pa_n a")
      (auto simp: handle_preparereq_def)
  then show ?thesis
  proof cases
    case 1
    then show ?thesis using assms(1)
      by (auto simp: handle_preparereq_def split_def recovered_def elim!: logged_same)
  next
    case 2
    show ?thesis
      by (rule logged_append [OF assms(1), of "High (pa_n a)"])
        (use 2 assms(2) in \<open>auto simp: handle_preparereq_def loghigh_def recovered_def prop_sim_def\<close>)
  qed (use assms in simp)
qed

lemma logged_acceptreq [inv_intros]:
  assumes "logged s" and "word_ok (pt_m (aa_n a))" and "line_ok (aa_v a)"
  shows "logged (fst (handle_acceptreq a s))"
proof -
  consider "ac_instance_h s < aa_instance a" "ac_n_h s \<le> aa_n a" | "fst (handle_acceptreq a s) = s"
    by (cases "ac_instance_h s < aa_instance a"; cases "ac_n_h s \<le> aa_n a")
      (auto simp: handle_acceptreq_def)
  then show ?thesis
  proof cases
    case 1
    show ?thesis
      by (rule logged_append [OF assms(1), of "Accepted (aa_n a) (aa_v a)"])
        (use 1 assms in \<open>auto simp: handle_acceptreq_def logprop_def recovered_def prop_sim_def\<close>)
  qed (use assms in simp)
qed

lemma logged_commit [inv_intros]:
  assumes "logged s" and "line_ok v"
  shows "logged (fst (acceptor_commit i v s))"
proof (cases "i > ac_instance_h s")
  case True
  show ?thesis
    by (rule logged_append [OF assms(1), of "Done i v"])
      (use True assms in \<open>auto simp: acceptor_commit_def commit_wo_def Let_def loginstance_def recovered_def
          prop_sim_def\<close>)
qed (use assms in \<open>simp add: acceptor_commit_def commit_wo_def\<close>)

lemma logged_decidereq [inv_intros]:
  "logged s \<Longrightarrow> line_ok (da_v a) \<Longrightarrow> logged (fst (handle_decidereq a s))"
  using logged_commit [of s "da_v a" "da_instance a"] by (simp add: handle_decidereq_def split_def Let_def)

lemma recovered_refl: "recovered a a"
  by (simp add: recovered_def prop_sim_def)

lemma logged_base: "logged (base me [])"
  unfolding logged_def by (intro exI [of _ "[]"]) (simp add: base_def recovered_refl)

lemma apply_rec_other:
  "ac_me (fold apply_rec rs a) = ac_me a" "ac_log (fold apply_rec rs a) = ac_log a"
proof (induction rs arbitrary: a)
  case (Cons r rs)
  { case 1 show ?case using Cons.IH(1) by (cases r) simp_all }
  { case 2 show ?case using Cons.IH(2) by (cases r) simp_all }
qed simp_all

lemma logread_logged:
  assumes "logged a"
  obtains b where "logread (base (ac_me a) (ac_log a)) = Inr b" "recovered b a" "logged b"
proof -
  obtain rs where rs: "\<forall>r \<in> set rs. rec_ok r" "ac_log a = concat (map show_rec rs)"
    "recovered (fold apply_rec rs (base (ac_me a) (ac_log a))) a"
    using assms by (auto simp: logged_def)
  let ?b = "fold apply_rec rs (base (ac_me a) (ac_log a))"
  have "logread (base (ac_me a) (ac_log a)) = Inr ?b"
    using logread_loop_records [of "[]" rs "base (ac_me a) (ac_log a)"] rs(1,2)
    by (simp add: logread_def base_def)
  moreover have "ac_me ?b = ac_me a" "ac_log ?b = ac_log a"
    by (simp_all add: apply_rec_other base_def)
  then have "logged ?b"
    unfolding logged_def using rs recovered_refl by (intro exI [of _ rs]) simp
  ultimately show thesis using that rs(3) by blast
qed

lemma acceptor_new_base:
  "acceptor_new first me v f = rbind (logread (base me f)) (\<lambda>a. Inr (if ac_instance_h a = 0 \<and> first
     then (loginstance 1 v (a\<lparr>ac_values := (ac_values a)(1 \<mapsto> v)\<rparr>))\<lparr>ac_instance_h := 1\<rparr> else a))"
  by (simp add: acceptor_new_def base_def)

text \<open>
  The life of an acceptor and its log file: started on an empty file, it serves requests, and
  may crash and be started again on the file it left, any number of times.  Proposer names are
  words (they are port numbers) and values are lines (they are member lists).
\<close>

inductive ac_reach :: "bool \<Rightarrow> string \<Rightarrow> string \<Rightarrow> acceptor \<Rightarrow> bool" for first me v where
  start: "acceptor_new first me v [] = Inr a \<Longrightarrow> ac_reach first me v a"
| prepare: "ac_reach first me v a \<Longrightarrow> word_ok (pt_m (pa_n x)) \<Longrightarrow>
    ac_reach first me v (fst (handle_preparereq x r a))"
| accept: "ac_reach first me v a \<Longrightarrow> word_ok (pt_m (aa_n y)) \<Longrightarrow> line_ok (aa_v y) \<Longrightarrow>
    ac_reach first me v (fst (handle_acceptreq y a))"
| decide: "ac_reach first me v a \<Longrightarrow> line_ok (da_v z) \<Longrightarrow> ac_reach first me v (fst (handle_decidereq z a))"
| commit: "ac_reach first me v a \<Longrightarrow> line_ok w \<Longrightarrow> ac_reach first me v (fst (acceptor_commit i w a))"
| restart: "ac_reach first me v a \<Longrightarrow> acceptor_new first me v (ac_log a) = Inr b \<Longrightarrow> ac_reach first me v b"

lemma logged_first:
  assumes "line_ok v"
  shows "logged ((loginstance 1 v ((base me [])\<lparr>ac_values := (ac_values (base me []))(1 \<mapsto> v)\<rparr>))\<lparr>ac_instance_h := 1\<rparr>)"
  by (rule logged_append [OF logged_base, of "Done 1 v"])
    (use assms in \<open>auto simp: base_simps loginstance_def recovered_def prop_sim_def\<close>)

definition ac_inv :: "bool \<Rightarrow> string \<Rightarrow> acceptor \<Rightarrow> bool" where
  "ac_inv first me a \<longleftrightarrow> logged a \<and> ac_me a = me \<and> (first \<longrightarrow> ac_instance_h a \<noteq> 0)"

lemma handlers_me [simp]:
  "ac_me (fst (handle_preparereq x r a)) = ac_me a" "ac_me (fst (handle_acceptreq y a)) = ac_me a"
  "ac_me (fst (acceptor_commit i w a)) = ac_me a" "ac_me (fst (handle_decidereq z a)) = ac_me a"
  by (auto simp: handle_preparereq_def handle_acceptreq_def handle_decidereq_def acceptor_commit_def
      commit_wo_def loghigh_def logprop_def loginstance_def split_def Let_def)

lemma handlers_instance [simp]:
  "ac_instance_h (fst (handle_preparereq x r a)) = ac_instance_h a"
  "ac_instance_h (fst (handle_acceptreq y a)) = ac_instance_h a"
  "ac_instance_h (fst (acceptor_commit i w a)) = max i (ac_instance_h a)"
  "ac_instance_h (fst (handle_decidereq z a)) = max (da_instance z) (ac_instance_h a)"
  by (auto simp: handle_preparereq_def handle_acceptreq_def handle_decidereq_def acceptor_commit_def
      commit_wo_def loghigh_def logprop_def loginstance_def split_def Let_def max_def)

lemma max_u32_nonzero: "b \<noteq> 0 \<Longrightarrow> max a b \<noteq> (0 :: u32)"
  by (metis max.cobounded2 word_le_0_iff)

lemma acceptor_new_logged:
  assumes "ac_inv first me a"
  obtains b where "acceptor_new first me v (ac_log a) = Inr b" "recovered b a" "ac_inv first me b"
proof -
  obtain b where b: "logread (base me (ac_log a)) = Inr b" "recovered b a" "logged b"
    using assms logread_logged by (auto simp: ac_inv_def)
  then have "ac_instance_h b = ac_instance_h a" "ac_me b = me"
    using assms by (auto simp: recovered_def ac_inv_def)
  then show thesis using that [of b] b assms by (auto simp: acceptor_new_base ac_inv_def)
qed

lemma ac_reach_inv: "ac_reach first me v a \<Longrightarrow> line_ok v \<Longrightarrow> ac_inv first me a"
proof (induction rule: ac_reach.induct)
  case (start a)
  have "logread (base me []) = Inr (base me [])"
    by (simp add: logread_def base_def logread_loop.simps in_word_def)
  then show ?case using start logged_first [of v me] logged_base [of me]
    by (auto simp: acceptor_new_base ac_inv_def base_def loginstance_def split: if_splits)
next
  case (restart a b)
  then show ?case using acceptor_new_logged [of first me a v] by (metis sum.inject(2))
qed (auto simp: ac_inv_def max_u32_nonzero intro: inv_intros)



section \<open>One run of the proposer\<close>

text \<open>The replies that count: promises for the current instance.\<close>

definition promise :: "prepareres option \<Rightarrow> bool" where
  "promise rep \<longleftrightarrow> (\<exists>r. rep = Some r \<and> pr_oldinstance r = 0 \<and> pr_accept r \<noteq> 0)"

lemma prepare_loop_picks:
  assumes "prepare_loop replies nodes (acc, mx, v) = Inr (accepts, mx', v')"
  shows "accepts = acc @ filter (\<lambda>x. promise (replies x)) nodes \<and> mx \<le> mx' \<and>
    (\<forall>x \<in> set nodes. \<forall>r. replies x = Some r \<longrightarrow> promise (Some r) \<longrightarrow> pr_n_a r \<le> mx') \<and>
    ((mx' = mx \<and> v' = v) \<or>
     (\<exists>x \<in> set nodes. \<exists>r. replies x = Some r \<and> promise (Some r) \<and> pr_n_a r = mx' \<and> pr_v_a r = v'))"
  using assms
proof (induction nodes arbitrary: acc mx v)
  case Nil
  then show ?case by simp
next
  case (Cons x nodes)
  show ?case
  proof (cases "promise (replies x)")
    case False
    then have "prepare_reply x (replies x) (acc, mx, v) = Inr (acc, mx, v)"
      using Cons.prems by (auto simp: prepare_reply_def promise_def split: option.splits if_splits)
    then show ?thesis using Cons.IH [of acc mx v] Cons.prems False by (auto simp: promise_def)
  next
    case True
    then obtain r where r: "replies x = Some r" "pr_oldinstance r = 0" "pr_accept r \<noteq> 0"
      by (auto simp: promise_def)
    show ?thesis
    proof (cases "mx < pr_n_a r")
      case True
      then have "prepare_loop replies nodes (acc @ [x], pr_n_a r, pr_v_a r) = Inr (accepts, mx', v')"
        using Cons.prems r by (simp add: prepare_reply_def)
      from Cons.IH [OF this] show ?thesis
        using r True by (auto simp: promise_def)
    next
      case False
      then have "prepare_loop replies nodes (acc @ [x], mx, v) = Inr (accepts, mx', v')"
        using Cons.prems r by (simp add: prepare_reply_def)
      from Cons.IH [OF this] show ?thesis
        using r False by (auto simp: promise_def not_less)
    qed
  qed
qed



section \<open>Across instances\<close>

text \<open>\<open>n_h\<close>, \<open>n_a\<close> and \<open>v_a\<close> are shared by all instances, and committing an instance clears
  them: a node that has promised or accepted in a later instance forgets it, so it answers the
  next prepare of that later instance with a promise that reports no accepted value.\<close>

theorem commit_forgets_later_instance:
  assumes "ac_instance_h s < i" and "i < pa_instance x" and "pt_n (pa_n x) \<noteq> 0"
  shows "\<exists>s'. handle_preparereq x r (fst (acceptor_commit i v s)) =
    (s', Prepareres 0 1 (Prop 0 (ac_me s)) [], POK)"
proof -
  let ?s = "fst (acceptor_commit i v s)"
  have s: "ac_instance_h ?s = i" "ac_n_h ?s = Prop 0 (ac_me s)" "ac_n_a ?s = Prop 0 (ac_me s)" "ac_v_a ?s = []"
    using assms(1) by (simp_all add: acceptor_commit_def commit_wo_def Let_def loginstance_def)
  moreover have "prop_gt (pa_n x) (Prop 0 (ac_me s))"
    using assms(3) unfolding prop_gt_def by (simp add: word_neq_0_conv)
  moreover have "\<not> pa_instance x \<le> i" using assms(2) by simp
  ultimately show ?thesis unfolding handle_preparereq_def by simp
qed

theorem commit_forgets_later_instance_witness:
  "let s = base ''1'' [];
       s = fst (handle_preparereq (Preparearg 3 (Prop 5 ''2'') []) (Prepareres 0 0 (Prop 0 []) []) s);
       s = fst (handle_acceptreq (Acceptarg 3 (Prop 5 ''2'') ''x'') s)
   in ac_v_a s = ''x'' \<and> ac_n_h s = Prop 5 ''2'' \<and>
      (\<exists>s'. handle_preparereq (Preparearg 3 (Prop 1 ''3'') []) (Prepareres 0 0 (Prop 0 []) [])
          (fst (acceptor_commit 2 ''y'' s)) = (s', Prepareres 0 1 (Prop 0 ''1'') [], POK))"
proof -
  let ?s = "base ''1'' []"
  let ?t = "fst (handle_acceptreq (Acceptarg 3 (Prop 5 ''2'') ''x'')
    (fst (handle_preparereq (Preparearg 3 (Prop 5 ''2'') []) (Prepareres 0 0 (Prop 0 []) []) ?s)))"
  have t: "ac_instance_h ?t < 2" "ac_me ?t = ''1''" "ac_v_a ?t = ''x''" "ac_n_h ?t = Prop 5 ''2''"
    by code_simp+
  have "\<exists>s'. handle_preparereq (Preparearg 3 (Prop 1 ''3'') []) (Prepareres 0 0 (Prop 0 []) [])
          (fst (acceptor_commit 2 ''y'' ?t)) = (s', Prepareres 0 1 (Prop 0 ''1'') [], POK)"
    using commit_forgets_later_instance [OF t(1), of "Preparearg 3 (Prop 1 ''3'') []"] t(2)
    by (simp add: word_less_nat_alt)
  then show ?thesis using t(3,4) by (simp add: Let_def)
qed

end
