(* ===== verification/PaxosSafety.thy ===== *)
theory PaxosSafety
  imports Paxos
begin

text \<open>
  One Paxos instance run by the nodes of \<open>paxos.cc\<close>: the handlers and the loop bodies of theory
  \<open>Paxos\<close> under a network that may lose, delay, reorder and duplicate calls and replies, with
  any number of proposers at once and with acceptors that crash and restart from their logs.
  The main theorem is agreement.  All messages belong to the instance \<open>i\<close>; what happens across
  instances is the subject of the last section.
\<close>

section \<open>Quorums\<close>

locale quorum_system =
  fixes quorum :: "'n list \<Rightarrow> bool"
  assumes quorum_meet: "quorum A \<Longrightarrow> quorum B \<Longrightarrow> \<exists>x \<in> set A. x \<in> set B"
begin

text \<open>
  The argument of the protocol: a value asked for in a round is justified by a quorum none of
  whose members voted before, or whose latest earlier vote was in a round with the same value.
\<close>

lemma chosen_value_kept:
  fixes voted :: "'n \<Rightarrow> 'r::linorder \<Rightarrow> bool" and asked :: "'r \<Rightarrow> 'v \<Rightarrow> bool"
  assumes fin: "finite R" and R: "\<And>n w. asked n w \<Longrightarrow> n \<in> R"
    and unique: "\<And>n w w'. asked n w \<Longrightarrow> asked n w' \<Longrightarrow> w = w'"
    and just: "\<And>n w. asked n w \<Longrightarrow> \<exists>Q. quorum Q \<and>
      ((\<forall>x \<in> set Q. \<forall>k < n. \<not> voted x k) \<or>
       (\<exists>m < n. asked m w \<and> (\<forall>x \<in> set Q. \<forall>k < n. voted x k \<longrightarrow> k \<le> m)))"
    and A: "quorum A" "\<forall>x \<in> set A. voted x n" "asked n w"
  shows "asked n' w' \<Longrightarrow> n \<le> n' \<Longrightarrow> w = w'"
proof (induction "card {r \<in> R. r < n'}" arbitrary: n' rule: less_induct)
  case less
  show ?case
  proof (cases "n = n'")
    case True
    then show ?thesis using unique A(3) less.prems by blast
  next
    case False
    then have lt: "n < n'" using less.prems by simp
    obtain Q where Q: "quorum Q" and
      or: "(\<forall>x \<in> set Q. \<forall>k < n'. \<not> voted x k) \<or>
       (\<exists>m < n'. asked m w' \<and> (\<forall>x \<in> set Q. \<forall>k < n'. voted x k \<longrightarrow> k \<le> m))"
      using just [OF less.prems(1)] by blast
    obtain x where x: "x \<in> set A" "x \<in> set Q" using quorum_meet [OF A(1) Q] by blast
    then obtain m where m: "m < n'" "asked m w'" "n \<le> m" using or A(2) lt by blast
    have "{r \<in> R. r < m} \<subset> {r \<in> R. r < n'}" using m(1,2) R by fastforce
    then have "card {r \<in> R. r < m} < card {r \<in> R. r < n'}" using fin by (simp add: psubset_card_mono)
    then show ?thesis using less.hyps m by blast
  qed
qed

lemma chosen_once:
  fixes voted :: "'n \<Rightarrow> 'r::linorder \<Rightarrow> bool" and asked :: "'r \<Rightarrow> 'v \<Rightarrow> bool"
  assumes "finite R" and "\<And>n w. asked n w \<Longrightarrow> n \<in> R"
    and "\<And>n w w'. asked n w \<Longrightarrow> asked n w' \<Longrightarrow> w = w'"
    and "\<And>n w. asked n w \<Longrightarrow> \<exists>Q. quorum Q \<and>
      ((\<forall>x \<in> set Q. \<forall>k < n. \<not> voted x k) \<or>
       (\<exists>m < n. asked m w \<and> (\<forall>x \<in> set Q. \<forall>k < n. voted x k \<longrightarrow> k \<le> m)))"
    and "quorum A" "\<forall>x \<in> set A. voted x n" "asked n w"
    and "quorum B" "\<forall>x \<in> set B. voted x n'" "asked n' w'"
  shows "w = w'"
proof (cases "n \<le> n'")
  case True
  show ?thesis
    by (rule chosen_value_kept [where R = R and asked = asked and voted = voted and A = A and n = n and n' = n'])
      (fact assms True)+
next
  case False
  then have le: "n' \<le> n" by simp
  have "w' = w"
    by (rule chosen_value_kept [where R = R and asked = asked and voted = voted and A = B and n = n' and n' = n])
      (fact assms le)+
  then show ?thesis by simp
qed

end

lemma isamember_iff [simp]: "isamember m nodes \<longleftrightarrow> m \<in> set nodes"
  by (induction nodes) auto

lemma filter_overlap:
  "length (filter P l) + length (filter Q l) > length l \<Longrightarrow> \<exists>x \<in> set l. P x \<and> Q x"
proof (induction l)
  case (Cons y l)
  then show ?case by (cases "P y"; cases "Q y") auto
qed simp

interpretation mj: quorum_system "majority nodes" for nodes
proof
  fix A B assume "majority nodes A" and "majority nodes B"
  then have "length (filter (\<lambda>x. x \<in> set A) nodes) + length (filter (\<lambda>x. x \<in> set B) nodes) > length nodes"
    by (simp add: majority_def)
  from filter_overlap [OF this] show "\<exists>x \<in> set A. x \<in> set B" by blast
qed

section \<open>The system\<close>

datatype phase =
    Idle
  | Preparing "string list" "string list \<times> prop_t \<times> string"
  | Accepting "string list" "string list" string

text \<open>The sets hold every request and reply that was ever sent; any may arrive at any time.\<close>

record px_sys =
  sy_acc :: "string \<Rightarrow> acceptor"
  sy_prop :: "string \<Rightarrow> proposer"
  sy_phase :: "string \<Rightarrow> phase"
  sy_preq :: "prop_t set"
  sy_prep :: "(string \<times> prop_t \<times> prepareres) set"
  sy_areq :: "(string \<times> prop_t \<times> string) set"
  sy_arep :: "(string \<times> prop_t \<times> u32) set"
  sy_dreq :: "string set"
  sy_started :: "string set"

definition reply_of :: "string \<Rightarrow> prop_t \<Rightarrow> 'r option \<Rightarrow> (string \<times> prop_t \<times> 'r) set \<Rightarrow> bool" where
  "reply_of x n rep R \<longleftrightarrow> (case rep of None \<Rightarrow> True | Some r \<Rightarrow> (x, n, r) \<in> R)"

abbreviation my_n :: "px_sys \<Rightarrow> string \<Rightarrow> prop_t" where
  "my_n s p \<equiv> pp_my_n (sy_prop s p)"

inductive px_step :: "u32 \<Rightarrow> string list \<Rightarrow> px_sys \<Rightarrow> px_sys \<Rightarrow> bool" for i nodes where
  run: "sy_phase s p = Idle \<Longrightarrow> v \<noteq> [] \<Longrightarrow>
    pt_n (ac_n_h (sy_acc s p)) \<noteq> - 1 \<Longrightarrow> pt_n (my_n s p) \<noteq> - 1 \<Longrightarrow>
    pp = setn (ac_n_h (sy_acc s p)) ((sy_prop s p)\<lparr>pp_stable := False, pp_c_nodes := nodes, pp_c_v := v\<rparr>) \<Longrightarrow>
    px_step i nodes s (s\<lparr>sy_prop := (sy_prop s)(p := pp), sy_started := insert v (sy_started s),
      sy_phase := (sy_phase s)(p := Preparing nodes ([], Prop 0 [], [])),
      sy_preq := insert (pp_my_n pp) (sy_preq s)\<rparr>)"
| serve_prepare: "n \<in> sy_preq s \<Longrightarrow>
    handle_preparereq (Preparearg i n v) old (sy_acc s a) = (a', r, POK) \<Longrightarrow>
    px_step i nodes s (s\<lparr>sy_acc := (sy_acc s)(a := a'), sy_prep := insert (a, n, r) (sy_prep s)\<rparr>)"
| prepare_answer: "sy_phase s p = Preparing (x # rest) acc \<Longrightarrow> reply_of x (my_n s p) rep (sy_prep s) \<Longrightarrow>
    prepare_reply x rep acc = Inr acc' \<Longrightarrow>
    px_step i nodes s (s\<lparr>sy_phase := (sy_phase s)(p := Preparing rest acc')\<rparr>)"
| prepare_old: "sy_phase s p = Preparing (x # rest) acc \<Longrightarrow> reply_of x (my_n s p) rep (sy_prep s) \<Longrightarrow>
    prepare_reply x rep acc = Inl v \<Longrightarrow>
    px_step i nodes s (s\<lparr>sy_acc := (sy_acc s)(p := fst (acceptor_commit i v (sy_acc s p))),
      sy_phase := (sy_phase s)(p := Idle)\<rparr>)"
| prepare_done: "sy_phase s p = Preparing [] (accepts, mx, v) \<Longrightarrow> majority nodes accepts \<Longrightarrow>
    w = run_value (pp_c_v (sy_prop s p)) v \<Longrightarrow>
    px_step i nodes s (s\<lparr>sy_phase := (sy_phase s)(p := Accepting accepts [] w),
      sy_areq := sy_areq s \<union> (\<lambda>a. (a, my_n s p, w)) ` set accepts\<rparr>)"
| serve_accept: "(a, n, w) \<in> sy_areq s \<Longrightarrow>
    handle_acceptreq (Acceptarg i n w) (sy_acc s a) = (a', r, POK) \<Longrightarrow>
    px_step i nodes s (s\<lparr>sy_acc := (sy_acc s)(a := a'), sy_arep := insert (a, n, r) (sy_arep s)\<rparr>)"
| accept_answer: "sy_phase s p = Accepting (x # rest) accepts w \<Longrightarrow>
    reply_of x (my_n s p) rep (sy_arep s) \<Longrightarrow>
    px_step i nodes s (s\<lparr>sy_phase := (sy_phase s)(p := Accepting rest (accept_reply x rep accepts) w)\<rparr>)"
| accept_done: "sy_phase s p = Accepting [] accepts w \<Longrightarrow> majority nodes accepts \<Longrightarrow>
    px_step i nodes s (s\<lparr>sy_phase := (sy_phase s)(p := Idle), sy_dreq := insert w (sy_dreq s)\<rparr>)"
| give_up: "px_step i nodes s (s\<lparr>sy_phase := (sy_phase s)(p := Idle)\<rparr>)"
| serve_decide: "w \<in> sy_dreq s \<Longrightarrow>
    px_step i nodes s (s\<lparr>sy_acc := (sy_acc s)(a := fst (handle_decidereq (Decidearg i w) (sy_acc s a)))\<rparr>)"
| crash: "recovered a' (sy_acc s a) \<Longrightarrow>
    px_step i nodes s (s\<lparr>sy_acc := (sy_acc s)(a := a')\<rparr>)"

text \<open>
  Initially no acceptor has reached the instance, promised or accepted anything in it, and the
  proposers' numbers are what their uninitialised memory holds.
\<close>

definition px_init :: "u32 \<Rightarrow> px_sys \<Rightarrow> bool" where
  "px_init i s \<longleftrightarrow> (\<forall>a. ac_instance_h (sy_acc s a) < i \<and> pt_n (ac_n_h (sy_acc s a)) = 0 \<and>
       pt_n (ac_n_a (sy_acc s a)) = 0 \<and> ac_v_a (sy_acc s a) = []) \<and>
     (\<forall>p. pt_m (my_n s p) = p \<and> sy_phase s p = Idle) \<and>
     sy_preq s = {} \<and> sy_prep s = {} \<and> sy_areq s = {} \<and> sy_arep s = {} \<and> sy_dreq s = {} \<and>
     sy_started s = {}"

inductive px_reach :: "u32 \<Rightarrow> string list \<Rightarrow> px_sys \<Rightarrow> bool" for i nodes where
  init: "px_init i s \<Longrightarrow> px_reach i nodes s"
| step: "px_reach i nodes s \<Longrightarrow> px_step i nodes s t \<Longrightarrow> px_reach i nodes t"

section \<open>The invariant\<close>

text \<open>An acceptor has voted in a round when it answered the accept request with 1.\<close>

definition voted :: "px_sys \<Rightarrow> string \<Rightarrow> prop_t \<Rightarrow> bool" where
  "voted s a n \<longleftrightarrow> (a, n, 1) \<in> sy_arep s"

definition asked :: "px_sys \<Rightarrow> prop_t \<Rightarrow> string \<Rightarrow> bool" where
  "asked s n w \<longleftrightarrow> (\<exists>a. (a, n, w) \<in> sy_areq s)"

definition promised :: "px_sys \<Rightarrow> string \<Rightarrow> prop_t \<Rightarrow> bool" where
  "promised s a n \<longleftrightarrow> (\<exists>r. (a, n, r) \<in> sy_prep s \<and> pr_oldinstance r = 0 \<and> pr_accept r \<noteq> 0)"

definition decided :: "u32 \<Rightarrow> px_sys \<Rightarrow> string \<Rightarrow> bool" where
  "decided i s a \<longleftrightarrow> i \<le> ac_instance_h (sy_acc s a)"

definition chosen :: "string list \<Rightarrow> px_sys \<Rightarrow> string \<Rightarrow> bool" where
  "chosen nodes s w \<longleftrightarrow> (\<exists>n Q. majority nodes Q \<and> (\<forall>x \<in> set Q. voted s x n) \<and> asked s n w)"

text \<open>Proposal numbers are used once.\<close>

definition inv_num :: "px_sys \<Rightarrow> bool" where
  "inv_num s \<longleftrightarrow> (\<forall>p. pt_m (my_n s p) = p) \<and> finite (sy_preq s) \<and>
     (\<forall>n \<in> sy_preq s. n \<le> my_n s (pt_m n) \<and> pt_n n \<noteq> 0) \<and>
     (\<forall>n w. asked s n w \<longrightarrow> n \<in> sy_preq s) \<and>
     (\<forall>a n. promised s a n \<longrightarrow> n \<in> sy_preq s) \<and>
     (\<forall>n w w'. asked s n w \<longrightarrow> asked s n w' \<longrightarrow> w = w') \<and>
     (\<forall>p rest acc. sy_phase s p = Preparing rest acc \<longrightarrow>
        my_n s p \<in> sy_preq s \<and> (\<forall>w. \<not> asked s (my_n s p) w)) \<and>
     (\<forall>p rest acc w. sy_phase s p = Accepting rest acc w \<longrightarrow> asked s (my_n s p) w)"

text \<open>What an undecided acceptor remembers.\<close>

definition inv_acc :: "u32 \<Rightarrow> px_sys \<Rightarrow> bool" where
  "inv_acc i s \<longleftrightarrow> (\<forall>a. \<not> decided i s a \<longrightarrow>
     (\<forall>n. promised s a n \<longrightarrow> n \<le> ac_n_h (sy_acc s a)) \<and>
     (\<forall>n. voted s a n \<longrightarrow> n \<le> ac_n_a (sy_acc s a)) \<and>
     ((pt_n (ac_n_a (sy_acc s a)) = 0 \<and> ac_v_a (sy_acc s a) = []) \<or>
      (voted s a (ac_n_a (sy_acc s a)) \<and> asked s (ac_n_a (sy_acc s a)) (ac_v_a (sy_acc s a)) \<and>
       ac_n_a (sy_acc s a) \<le> ac_n_h (sy_acc s a))))"

text \<open>What a promise says about the votes below it.\<close>

definition told :: "px_sys \<Rightarrow> string \<Rightarrow> prop_t \<Rightarrow> prop_t \<Rightarrow> string \<Rightarrow> bool" where
  "told s a n m v \<longleftrightarrow> promised s a n \<and> (\<forall>k < n. voted s a k \<longrightarrow> k \<le> m) \<and>
     ((pt_n m = 0 \<and> v = []) \<or> (asked s m v \<and> m < n))"

definition inv_prep :: "px_sys \<Rightarrow> bool" where
  "inv_prep s \<longleftrightarrow> (\<forall>a n r. (a, n, r) \<in> sy_prep s \<longrightarrow> pr_oldinstance r = 0 \<longrightarrow> pr_accept r \<noteq> 0 \<longrightarrow>
     told s a n (pr_n_a r) (pr_v_a r))"

text \<open>What a proposer knows in its two loops.\<close>

definition gathered :: "px_sys \<Rightarrow> prop_t \<Rightarrow> string list \<Rightarrow> prop_t \<Rightarrow> string \<Rightarrow> bool" where
  "gathered s n accepts mx v \<longleftrightarrow>
     (\<forall>x \<in> set accepts. promised s x n \<and> (\<forall>k < n. voted s x k \<longrightarrow> k \<le> mx)) \<and>
     ((pt_n mx = 0 \<and> v = []) \<or> (asked s mx v \<and> mx < n))"

definition inv_phase :: "px_sys \<Rightarrow> bool" where
  "inv_phase s \<longleftrightarrow>
     (\<forall>p rest accepts mx v. sy_phase s p = Preparing rest (accepts, mx, v) \<longrightarrow>
        gathered s (my_n s p) accepts mx v \<and> pp_c_v (sy_prop s p) \<in> sy_started s - {[]}) \<and>
     (\<forall>p rest accepts w. sy_phase s p = Accepting rest accepts w \<longrightarrow>
        (\<forall>x \<in> set accepts. voted s x (my_n s p)))"

definition justified :: "string list \<Rightarrow> px_sys \<Rightarrow> prop_t \<Rightarrow> string \<Rightarrow> bool" where
  "justified nodes s n w \<longleftrightarrow> (\<exists>Q. majority nodes Q \<and> (\<forall>x \<in> set Q. promised s x n) \<and>
     ((\<forall>x \<in> set Q. \<forall>k < n. \<not> voted s x k) \<or>
      (\<exists>m < n. asked s m w \<and> (\<forall>x \<in> set Q. \<forall>k < n. voted s x k \<longrightarrow> k \<le> m))))"

definition inv_req :: "string list \<Rightarrow> px_sys \<Rightarrow> bool" where
  "inv_req nodes s \<longleftrightarrow>
     (\<forall>a n w. (a, n, w) \<in> sy_areq s \<longrightarrow> promised s a n \<and> w \<in> sy_started s - {[]}) \<and>
     (\<forall>n w. asked s n w \<longrightarrow> justified nodes s n w) \<and>
     (\<forall>a n r. (a, n, r) \<in> sy_arep s \<longrightarrow> (\<exists>w. asked s n w) \<and> (r = 0 \<or> r = 1))"

definition inv_dec :: "u32 \<Rightarrow> string list \<Rightarrow> px_sys \<Rightarrow> bool" where
  "inv_dec i nodes s \<longleftrightarrow> (\<forall>w \<in> sy_dreq s. chosen nodes s w) \<and>
     (\<forall>a. ac_instance_h (sy_acc s a) \<le> i) \<and>
     (\<forall>a. decided i s a \<longrightarrow> chosen nodes s (value_of (sy_acc s a) i)) \<and>
     (\<forall>a n r. (a, n, r) \<in> sy_prep s \<longrightarrow> pr_oldinstance r \<noteq> 0 \<longrightarrow> chosen nodes s (pr_v_a r))"

definition px_inv :: "u32 \<Rightarrow> string list \<Rightarrow> px_sys \<Rightarrow> bool" where
  "px_inv i nodes s \<longleftrightarrow> inv_num s \<and> inv_acc i s \<and> inv_prep s \<and> inv_phase s \<and> inv_req nodes s \<and>
     inv_dec i nodes s"

section \<open>Preservation\<close>

lemma view_simps [simp]:
  "voted (s\<lparr>sy_acc := A\<rparr>) = voted s" "voted (s\<lparr>sy_prop := P\<rparr>) = voted s"
  "voted (s\<lparr>sy_phase := H\<rparr>) = voted s" "voted (s\<lparr>sy_preq := N\<rparr>) = voted s"
  "voted (s\<lparr>sy_prep := R\<rparr>) = voted s" "voted (s\<lparr>sy_areq := Q\<rparr>) = voted s"
  "voted (s\<lparr>sy_dreq := D\<rparr>) = voted s" "voted (s\<lparr>sy_started := V\<rparr>) = voted s"
  "asked (s\<lparr>sy_acc := A\<rparr>) = asked s" "asked (s\<lparr>sy_prop := P\<rparr>) = asked s"
  "asked (s\<lparr>sy_phase := H\<rparr>) = asked s" "asked (s\<lparr>sy_preq := N\<rparr>) = asked s"
  "asked (s\<lparr>sy_prep := R\<rparr>) = asked s" "asked (s\<lparr>sy_arep := Y\<rparr>) = asked s"
  "asked (s\<lparr>sy_dreq := D\<rparr>) = asked s" "asked (s\<lparr>sy_started := V\<rparr>) = asked s"
  "promised (s\<lparr>sy_acc := A\<rparr>) = promised s" "promised (s\<lparr>sy_prop := P\<rparr>) = promised s"
  "promised (s\<lparr>sy_phase := H\<rparr>) = promised s" "promised (s\<lparr>sy_preq := N\<rparr>) = promised s"
  "promised (s\<lparr>sy_areq := Q\<rparr>) = promised s" "promised (s\<lparr>sy_arep := Y\<rparr>) = promised s"
  "promised (s\<lparr>sy_dreq := D\<rparr>) = promised s" "promised (s\<lparr>sy_started := V\<rparr>) = promised s"
  by (simp_all add: voted_def asked_def promised_def fun_eq_iff)

definition grows :: "px_sys \<Rightarrow> px_sys \<Rightarrow> bool" where
  "grows s t \<longleftrightarrow> (\<forall>a n. voted s a n \<longrightarrow> voted t a n) \<and> (\<forall>n w. asked s n w \<longrightarrow> asked t n w) \<and>
     (\<forall>a n. promised s a n \<longrightarrow> promised t a n) \<and>
     (\<forall>a k m. voted t a k \<longrightarrow> \<not> voted s a k \<longrightarrow> promised s a m \<longrightarrow> m \<le> k)"

lemma grows_same:
  "voted t = voted s \<Longrightarrow> asked t = asked s \<Longrightarrow> promised t = promised s \<Longrightarrow> grows s t"
  by (simp add: grows_def)

lemma grows_keeps:
  assumes "grows s t"
  shows "told s a n m v \<Longrightarrow> told t a n m v"
    and "gathered s n acc mx w \<Longrightarrow> gathered t n acc mx w"
    and "justified nodes s n w \<Longrightarrow> justified nodes t n w"
    and "chosen nodes s w \<Longrightarrow> chosen nodes t w"
proof -
  have g: "\<And>a n. voted s a n \<Longrightarrow> voted t a n" "\<And>n w. asked s n w \<Longrightarrow> asked t n w"
    "\<And>a n. promised s a n \<Longrightarrow> promised t a n"
    "\<And>a k m. voted t a k \<Longrightarrow> \<not> voted s a k \<Longrightarrow> promised s a m \<Longrightarrow> m \<le> k"
    using assms by (auto simp: grows_def)
  have old: "voted s x k" if "promised s x n" "k < n" "voted t x k" for x k
    using g that by (meson leD)
  show "told s a n m v \<Longrightarrow> told t a n m v"
    using g(2,3) old by (auto simp: told_def)
  show "gathered s n acc mx w \<Longrightarrow> gathered t n acc mx w"
    using g(2,3) old by (auto simp: gathered_def)
  show "justified nodes t n w" if just: "justified nodes s n w"
  proof -
    obtain Q where Q: "majority nodes Q" "\<forall>x \<in> set Q. promised s x n"
      and or: "(\<forall>x \<in> set Q. \<forall>k < n. \<not> voted s x k) \<or>
        (\<exists>m < n. asked s m w \<and> (\<forall>x \<in> set Q. \<forall>k < n. voted s x k \<longrightarrow> k \<le> m))"
      using just by (auto simp: justified_def)
    have "(\<forall>x \<in> set Q. \<forall>k < n. \<not> voted t x k) \<or>
        (\<exists>m < n. asked t m w \<and> (\<forall>x \<in> set Q. \<forall>k < n. voted t x k \<longrightarrow> k \<le> m))"
      using or Q(2) old g(2) by blast
    then show ?thesis using Q g(3) by (auto simp: justified_def)
  qed
  show "chosen nodes s w \<Longrightarrow> chosen nodes t w"
    using g(1,2) unfolding chosen_def by blast
qed

lemma setn_fresh:
  assumes "pt_n n_h \<noteq> - 1" and "pt_n (pp_my_n p) \<noteq> - 1"
  shows "pp_my_n p < pp_my_n (setn n_h p)" "pt_m (pp_my_n (setn n_h p)) = pt_m (pp_my_n p)"
    "pt_n n_h < pt_n (pp_my_n (setn n_h p))" "pt_n (pp_my_n (setn n_h p)) \<noteq> 0"
proof -
  have "x < x + 1" if "x \<noteq> - 1" for x :: u32 using less_succ_u32 [OF that] by simp
  note a = this [OF assms(1)] and b = this [OF assms(2)]
  have lt: "pt_n (pp_my_n p) < pt_n (pp_my_n (setn n_h p)) \<and> pt_n n_h < pt_n (pp_my_n (setn n_h p))"
  proof (cases "pt_n n_h + 1 > pt_n (pp_my_n p) + 1")
    case True
    then show ?thesis using a less_trans [OF b] by (simp add: setn_def)
  next
    case False
    then show ?thesis using b less_le_trans [OF a] by (auto simp: setn_def not_less)
  qed
  then show "pp_my_n p < pp_my_n (setn n_h p)" "pt_n n_h < pt_n (pp_my_n (setn n_h p))"
    by (auto simp: less_prop_t_def prop_gt_def simp del: prop_gt_iff)
  show "pt_m (pp_my_n (setn n_h p)) = pt_m (pp_my_n p)" by (simp add: setn_def)
  show "pt_n (pp_my_n (setn n_h p)) \<noteq> 0" using lt by (metis word_not_simps(1))
qed

text \<open>The steps of a proposer that only concern itself.\<close>

lemma px_inv_local:
  assumes inv: "px_inv i nodes s" and "sy_acc t = sy_acc s" and "sy_prep t = sy_prep s"
    and "sy_areq t = sy_areq s" and "sy_arep t = sy_arep s" and "sy_dreq t \<subseteq> sy_dreq s \<union> Collect (chosen nodes s)"
    and "sy_started s \<subseteq> sy_started t" and num: "inv_num t" and ph: "inv_phase t"
  shows "px_inv i nodes t"
proof -
  have same: "voted t = voted s" "asked t = asked s" "promised t = promised s"
    using assms by (simp_all add: voted_def asked_def promised_def fun_eq_iff)
  have "chosen nodes t = chosen nodes s" "justified nodes t = justified nodes s" "told t = told s"
    "decided i t = decided i s"
    using same assms(2) by (simp_all add: chosen_def justified_def told_def decided_def fun_eq_iff)
  then show ?thesis
    using assms same by (auto simp: px_inv_def inv_acc_def inv_prep_def inv_req_def inv_dec_def)
qed

lemma px_inv_run:
  assumes inv: "px_inv i nodes s" and idle: "sy_phase s p = Idle" and v: "v \<noteq> []"
    and "pt_n (ac_n_h (sy_acc s p)) \<noteq> - 1" "pt_n (my_n s p) \<noteq> - 1"
    and pp: "pp = setn (ac_n_h (sy_acc s p)) ((sy_prop s p)\<lparr>pp_stable := False, pp_c_nodes := nodes, pp_c_v := v\<rparr>)"
  shows "px_inv i nodes (s\<lparr>sy_prop := (sy_prop s)(p := pp), sy_started := insert v (sy_started s),
      sy_phase := (sy_phase s)(p := Preparing nodes ([], Prop 0 [], [])),
      sy_preq := insert (pp_my_n pp) (sy_preq s)\<rparr>)" (is "px_inv i nodes ?t")
proof (rule px_inv_local [OF inv])
  have new: "my_n s p < pp_my_n pp" "pt_m (pp_my_n pp) = pt_m (my_n s p)" "pt_n (pp_my_n pp) \<noteq> 0"
    "pp_c_v pp = v"
    using setn_fresh [of "ac_n_h (sy_acc s p)" "(sy_prop s p)\<lparr>pp_stable := False, pp_c_nodes := nodes, pp_c_v := v\<rparr>"]
      assms(4,5) pp by (auto simp: setn_def)
  have num: "inv_num s" using inv by (simp add: px_inv_def)
  then have m: "pt_m (pp_my_n pp) = p" using new(2) by (simp add: inv_num_def)
  have fresh: "pp_my_n pp \<notin> sy_preq s" using num new(1) m by (auto simp: inv_num_def)
  have "n \<le> my_n ?t (pt_m n)" if "n \<in> sy_preq ?t" for n
    using that num new(1) m by (auto simp: inv_num_def intro: less_imp_le less_le_trans order_trans)
  moreover have "\<not> asked s (pp_my_n pp) w" for w using fresh num by (auto simp: inv_num_def)
  ultimately show "inv_num ?t"
    using num m new(3) by (auto simp: inv_num_def)
  show "inv_phase ?t"
    using inv v new(4) by (fastforce simp: px_inv_def inv_phase_def gathered_def)
qed auto

lemma px_inv_give_up: "px_inv i nodes s \<Longrightarrow> px_inv i nodes (s\<lparr>sy_phase := (sy_phase s)(p := Idle)\<rparr>)"
  by (rule px_inv_local) (auto simp: px_inv_def inv_num_def inv_phase_def gathered_def)

lemma voted_nonzero: "inv_num s \<Longrightarrow> inv_req nodes s \<Longrightarrow> voted s a n \<Longrightarrow> pt_n n \<noteq> 0"
  by (auto simp: inv_num_def inv_req_def voted_def)

lemma asked_nonempty: "inv_req nodes s \<Longrightarrow> asked s n w \<Longrightarrow> w \<in> sy_started s \<and> w \<noteq> []"
  unfolding inv_req_def asked_def by blast

lemma le_zero_num: "k \<le> m \<Longrightarrow> pt_n m = 0 \<Longrightarrow> pt_n k = 0"
  by (auto simp: less_eq_prop_t_def prop_ge_def simp del: prop_ge_iff)

lemma gathered_reply:
  assumes g: "gathered s n accepts mx v" and "inv_prep s" and "reply_of x n rep (sy_prep s)"
    and "prepare_reply x rep (accepts, mx, v) = Inr (accepts', mx', v')"
  shows "gathered s n accepts' mx' v'"
proof (cases rep)
  case None
  then show ?thesis using assms by (simp add: prepare_reply_def)
next
  case (Some r)
  then have r: "(x, n, r) \<in> sy_prep s" using assms(3) by (simp add: reply_of_def)
  show ?thesis
  proof (cases "pr_oldinstance r = 0 \<and> pr_accept r \<noteq> 0")
    case False
    then show ?thesis using assms(1,4) Some by (auto simp: prepare_reply_def split: if_splits)
  next
    case True
    then have t: "told s x n (pr_n_a r) (pr_v_a r)" using r assms(2) by (auto simp: inv_prep_def)
    show ?thesis
    proof (cases "mx < pr_n_a r")
      case True
      then have "accepts' = accepts @ [x]" "mx' = pr_n_a r" "v' = pr_v_a r"
        using assms(4) Some \<open>pr_oldinstance r = 0 \<and> pr_accept r \<noteq> 0\<close> by (simp_all add: prepare_reply_def)
      moreover have "\<forall>y \<in> set accepts. \<forall>k < n. voted s y k \<longrightarrow> k \<le> pr_n_a r"
        using g True unfolding gathered_def by (meson less_imp_le order_trans)
      ultimately show ?thesis using t g unfolding gathered_def told_def by auto
    next
      case False
      then have "accepts' = accepts @ [x]" "mx' = mx" "v' = v"
        using assms(4) Some \<open>pr_oldinstance r = 0 \<and> pr_accept r \<noteq> 0\<close> by (simp_all add: prepare_reply_def)
      moreover have "\<forall>k < n. voted s x k \<longrightarrow> k \<le> mx"
        using t False unfolding told_def by (meson not_less order_trans)
      ultimately show ?thesis using t g unfolding gathered_def told_def by auto
    qed
  qed
qed

lemma px_inv_prepare_answer:
  assumes inv: "px_inv i nodes s" and ph: "sy_phase s p = Preparing (x # rest) acc"
    and rep: "reply_of x (my_n s p) rep (sy_prep s)" and acc': "prepare_reply x rep acc = Inr acc'"
  shows "px_inv i nodes (s\<lparr>sy_phase := (sy_phase s)(p := Preparing rest acc')\<rparr>)" (is "px_inv i nodes ?t")
proof (rule px_inv_local [OF inv])
  obtain l m v l' m' v' where acc: "acc = (l, m, v)" "acc' = (l', m', v')" by (metis prod_cases3)
  show "inv_num ?t" using inv ph acc(1) by (auto simp: px_inv_def inv_num_def)
  have old: "gathered s (my_n s p) l m v" and prep: "inv_prep s"
    using inv ph acc(1) by (auto simp: px_inv_def inv_phase_def)
  have "gathered s (my_n s p) l' m' v'"
    using gathered_reply [OF old prep rep] acc' acc by simp
  moreover have "gathered ?t = gathered s" by (simp add: gathered_def fun_eq_iff)
  ultimately show "inv_phase ?t"
    using inv ph acc by (auto simp: px_inv_def inv_phase_def)
qed auto

lemma px_inv_accept_answer:
  assumes inv: "px_inv i nodes s" and ph: "sy_phase s p = Accepting (x # rest) accepts w"
    and rep: "reply_of x (my_n s p) rep (sy_arep s)"
  shows "px_inv i nodes (s\<lparr>sy_phase := (sy_phase s)(p := Accepting rest (accept_reply x rep accepts) w)\<rparr>)"
    (is "px_inv i nodes ?t")
proof (rule px_inv_local [OF inv])
  show "inv_num ?t" using inv ph by (auto simp: px_inv_def inv_num_def)
  have "r = 0 \<or> voted s x (my_n s p)" if "rep = Some r" for r
  proof -
    have "(x, my_n s p, r) \<in> sy_arep s" using rep that by (simp add: reply_of_def)
    then show ?thesis using inv unfolding px_inv_def inv_req_def voted_def by blast
  qed
  then have "\<forall>y \<in> set (accept_reply x rep accepts). voted s y (my_n s p)"
    using inv ph by (auto simp: px_inv_def inv_phase_def accept_reply_def split: option.splits)
  moreover have "gathered ?t = gathered s" by (simp add: gathered_def fun_eq_iff)
  ultimately show "inv_phase ?t"
    using inv ph by (auto simp: px_inv_def inv_phase_def)
qed auto

lemma px_inv_accept_done:
  assumes inv: "px_inv i nodes s" and ph: "sy_phase s p = Accepting [] accepts w"
    and mj: "majority nodes accepts"
  shows "px_inv i nodes (s\<lparr>sy_phase := (sy_phase s)(p := Idle), sy_dreq := insert w (sy_dreq s)\<rparr>)"
    (is "px_inv i nodes ?t")
proof (rule px_inv_local [OF inv])
  show "inv_num ?t" using inv ph by (auto simp: px_inv_def inv_num_def)
  have "\<forall>x \<in> set accepts. voted s x (my_n s p)" using inv ph by (auto simp: px_inv_def inv_phase_def)
  moreover have "asked s (my_n s p) w" using inv ph by (auto simp: px_inv_def inv_num_def)
  ultimately have "chosen nodes s w" using mj unfolding chosen_def by blast
  then show "sy_dreq ?t \<subseteq> sy_dreq s \<union> Collect (chosen nodes s)" by auto
  have "gathered ?t = gathered s" by (simp add: gathered_def fun_eq_iff)
  then show "inv_phase ?t" using inv by (auto simp: px_inv_def inv_phase_def)
qed auto

lemma majority_nonempty: "majority nodes l \<Longrightarrow> l \<noteq> []"
  by (auto simp: majority_def)

lemma px_inv_prepare_done:
  assumes inv: "px_inv i nodes s" and ph: "sy_phase s p = Preparing [] (accepts, mx, v)"
    and mj: "majority nodes accepts" and w: "w = run_value (pp_c_v (sy_prop s p)) v"
  shows "px_inv i nodes (s\<lparr>sy_phase := (sy_phase s)(p := Accepting accepts [] w),
      sy_areq := sy_areq s \<union> (\<lambda>a. (a, my_n s p, w)) ` set accepts\<rparr>)" (is "px_inv i nodes ?t")
proof -
  let ?n = "my_n s p"
  have num: "inv_num s" and req: "inv_req nodes s" using inv by (auto simp: px_inv_def)
  have g: "gathered s ?n accepts mx v" and cv: "pp_c_v (sy_prop s p) \<in> sy_started s - {[]}"
    using inv ph by (auto simp: px_inv_def inv_phase_def)
  have fresh: "\<not> asked s ?n u" "?n \<in> sy_preq s" for u using num ph by (auto simp: inv_num_def)
  have ask: "asked ?t n u \<longleftrightarrow> asked s n u \<or> (n = ?n \<and> u = w)" for n u
    using majority_nonempty [OF mj] by (cases accepts) (auto simp: asked_def)
  have same: "voted ?t = voted s" "promised ?t = promised s"
    by (simp_all add: voted_def promised_def fun_eq_iff)
  have grow: "grows s ?t" using ask same by (auto simp: grows_def)
  have wv: "w \<in> sy_started s - {[]}" "v = [] \<or> w = v"
    using g cv w asked_nonempty [OF req, of mx v] by (auto simp: run_value_def gathered_def)
  have nov: "voted s x k \<Longrightarrow> k \<le> mx \<Longrightarrow> pt_n mx \<noteq> 0" for x k
    using voted_nonzero [OF num req] le_zero_num by blast
  have votes: "\<forall>x \<in> set accepts. \<forall>k < ?n. voted s x k \<longrightarrow> k \<le> mx"
    and prom: "\<forall>x \<in> set accepts. promised s x ?n"
    and or: "(pt_n mx = 0 \<and> v = []) \<or> (asked s mx v \<and> mx < ?n)"
    using g by (auto simp: gathered_def)
  have alt: "(\<forall>x \<in> set accepts. \<forall>k < ?n. \<not> voted s x k) \<or>
      (\<exists>m < ?n. asked s m w \<and> (\<forall>x \<in> set accepts. \<forall>k < ?n. voted s x k \<longrightarrow> k \<le> m))"
    using or
  proof
    assume "pt_n mx = 0 \<and> v = []"
    then show ?thesis using votes nov by blast
  next
    assume a: "asked s mx v \<and> mx < ?n"
    then have "w = v" using wv(2) asked_nonempty [OF req, of mx v] by blast
    then show ?thesis using a votes by blast
  qed
  have just: "justified nodes ?t ?n w"
    unfolding justified_def same ask using mj prom alt by (intro exI [of _ accepts]) blast
  have "inv_num ?t"
    using num fresh ask same(2) ph unfolding inv_num_def by (auto split: if_splits) metis+
  moreover have "inv_acc i ?t"
    using inv same ask by (auto simp: px_inv_def inv_acc_def decided_def)
  moreover have "inv_prep ?t"
    using inv grows_keeps(1) [OF grow] by (auto simp: px_inv_def inv_prep_def)
  moreover have "inv_phase ?t"
    using inv grows_keeps(2) [OF grow] same by (auto simp: px_inv_def inv_phase_def)
  moreover have "inv_req nodes ?t"
    unfolding inv_req_def
  proof (intro conjI allI impI)
    fix a n u assume "(a, n, u) \<in> sy_areq ?t"
    then show "promised ?t a n" "u \<in> sy_started ?t - {[]}"
      using req prom wv(1) by (auto simp: inv_req_def)
  next
    fix n u assume "asked ?t n u"
    then show "justified nodes ?t n u"
      unfolding ask using just grows_keeps(3) [OF grow, of nodes n u] req by (auto simp: inv_req_def)
  next
    fix a n r assume "(a, n, r) \<in> sy_arep ?t"
    then have "(\<exists>u. asked s n u) \<and> (r = 0 \<or> r = 1)" using req unfolding inv_req_def by simp
    then show "\<exists>u. asked ?t n u" "r = 0 \<or> r = 1" unfolding ask by blast+
  qed
  moreover have "inv_dec i nodes ?t"
    using inv grows_keeps(4) [OF grow] by (auto simp: px_inv_def inv_dec_def decided_def)
  ultimately show ?thesis by (simp add: px_inv_def)
qed

lemma px_inv_serve_prepare:
  assumes inv: "px_inv i nodes s" and n: "n \<in> sy_preq s"
    and h: "handle_preparereq (Preparearg i n v) r0 (sy_acc s a) = (a', r, POK)"
  shows "px_inv i nodes (s\<lparr>sy_acc := (sy_acc s)(a := a'), sy_prep := insert (a, n, r) (sy_prep s)\<rparr>)"
    (is "px_inv i nodes ?t")
proof -
  let ?s = "sy_acc s a"
  have num: "inv_num s" and acc: "inv_acc i s" and dec: "inv_dec i nodes s"
    using inv by (auto simp: px_inv_def)
  have a': "ac_instance_h a' = ac_instance_h ?s" "ac_n_a a' = ac_n_a ?s" "ac_v_a a' = ac_v_a ?s"
    "value_of a' = value_of ?s" "ac_n_h ?s \<le> ac_n_h a'"
    using h by (auto simp: handle_preparereq_def loghigh_def split_def Let_def split: if_splits)
  have yes: "\<not> decided i s a \<and> ac_n_h ?s < n \<and> ac_n_h a' = n \<and> pr_n_a r = ac_n_a ?s \<and> pr_v_a r = ac_v_a ?s"
    if "pr_oldinstance r = 0" "pr_accept r \<noteq> 0"
    using h that by (auto simp: handle_preparereq_def loghigh_def split_def Let_def decided_def split: if_splits)
  have old: "decided i s a \<and> pr_v_a r = value_of ?s i" if "pr_oldinstance r \<noteq> 0"
    using h that by (auto simp: handle_preparereq_def split_def Let_def decided_def split: if_splits)
  have same: "voted ?t = voted s" "asked ?t = asked s" "decided i ?t = decided i s"
    by (auto simp: voted_def asked_def decided_def fun_eq_iff a'(1))
  have prom: "promised ?t x k \<longleftrightarrow> promised s x k \<or>
      (x = a \<and> k = n \<and> pr_oldinstance r = 0 \<and> pr_accept r \<noteq> 0)" for x k
    by (auto simp: promised_def)
  have grow: "grows s ?t" using same prom by (auto simp: grows_def)
  have "inv_num ?t" using num n unfolding inv_num_def same prom by auto
  moreover have "inv_acc i ?t"
    unfolding inv_acc_def same prom
  proof (intro allI impI)
    fix x assume und: "\<not> decided i s x"
    show "(\<forall>k. promised s x k \<or> x = a \<and> k = n \<and> pr_oldinstance r = 0 \<and> pr_accept r \<noteq> 0 \<longrightarrow>
        k \<le> ac_n_h (sy_acc ?t x)) \<and> (\<forall>k. voted s x k \<longrightarrow> k \<le> ac_n_a (sy_acc ?t x)) \<and>
      (pt_n (ac_n_a (sy_acc ?t x)) = 0 \<and> ac_v_a (sy_acc ?t x) = [] \<or>
       voted s x (ac_n_a (sy_acc ?t x)) \<and> asked s (ac_n_a (sy_acc ?t x)) (ac_v_a (sy_acc ?t x)) \<and>
       ac_n_a (sy_acc ?t x) \<le> ac_n_h (sy_acc ?t x))"
      using acc und yes a'(5) unfolding inv_acc_def
      by (cases "x = a") (auto simp: a'(2,3) intro: order_trans)
  qed
  moreover have "inv_prep ?t"
    unfolding inv_prep_def
  proof (intro allI impI)
    fix x k q assume q: "(x, k, q) \<in> sy_prep ?t" "pr_oldinstance q = 0" "pr_accept q \<noteq> 0"
    show "told ?t x k (pr_n_a q) (pr_v_a q)"
    proof (cases "(x, k, q) \<in> sy_prep s")
      case True
      then show ?thesis using q inv grows_keeps(1) [OF grow] by (auto simp: px_inv_def inv_prep_def)
    next
      case False
      then have new: "x = a" "k = n" "q = r" using q(1) by auto
      then have y: "\<not> decided i s a" "ac_n_h ?s < n" "pr_n_a q = ac_n_a ?s" "pr_v_a q = ac_v_a ?s"
        using yes q(2,3) by auto
      then have "(\<forall>k. voted s a k \<longrightarrow> k \<le> ac_n_a ?s)" "(pt_n (ac_n_a ?s) = 0 \<and> ac_v_a ?s = []) \<or>
          (asked s (ac_n_a ?s) (ac_v_a ?s) \<and> ac_n_a ?s < n)"
        using acc unfolding inv_acc_def by (blast intro: le_less_trans)+
      then show ?thesis unfolding told_def same prom using new y q by auto
    qed
  qed
  moreover have "inv_phase ?t"
    using inv grows_keeps(2) [OF grow] same by (auto simp: px_inv_def inv_phase_def)
  moreover have "inv_req nodes ?t"
    using inv grows_keeps(3) [OF grow] same prom by (auto simp: px_inv_def inv_req_def)
  moreover have "inv_dec i nodes ?t"
    using dec grows_keeps(4) [OF grow] old a'(1,4) same(3) by (auto simp: inv_dec_def)
  ultimately show ?thesis by (simp add: px_inv_def)
qed

lemma px_inv_serve_accept:
  assumes inv: "px_inv i nodes s" and q: "(a, n, w) \<in> sy_areq s"
    and h: "handle_acceptreq (Acceptarg i n w) (sy_acc s a) = (a', r, POK)"
  shows "px_inv i nodes (s\<lparr>sy_acc := (sy_acc s)(a := a'), sy_arep := insert (a, n, r) (sy_arep s)\<rparr>)"
    (is "px_inv i nodes ?t")
proof -
  let ?s = "sy_acc s a"
  have num: "inv_num s" and acc: "inv_acc i s" and req: "inv_req nodes s"
    using inv by (auto simp: px_inv_def)
  have und: "\<not> decided i s a"
    using h by (auto simp: handle_acceptreq_def decided_def split: if_splits)
  have a': "ac_instance_h a' = ac_instance_h ?s" "ac_n_h a' = ac_n_h ?s" "value_of a' = value_of ?s"
    using h by (auto simp: handle_acceptreq_def logprop_def split: if_splits)
  have cs: "(r = 1 \<and> ac_n_h ?s \<le> n \<and> ac_n_a a' = n \<and> ac_v_a a' = w) \<or> (r = 0 \<and> a' = ?s)"
    using h by (auto simp: handle_acceptreq_def logprop_def split: if_splits)
  have ask: "asked s n w" "promised s a n" using q req by (auto simp: asked_def inv_req_def)
  have low: "k \<le> ac_n_a ?s" "k \<le> ac_n_h ?s" if "voted s a k" for k
  proof -
    show "k \<le> ac_n_a ?s" using acc und that by (auto simp: inv_acc_def)
    then have "pt_n (ac_n_a ?s) \<noteq> 0" using le_zero_num voted_nonzero [OF num req that] by blast
    then show "k \<le> ac_n_h ?s" using acc und \<open>k \<le> ac_n_a ?s\<close> unfolding inv_acc_def by (blast intro: order_trans)
  qed
  have pr: "m \<le> ac_n_h ?s" if "promised s a m" for m using acc und that by (auto simp: inv_acc_def)
  have same: "promised ?t = promised s" "asked ?t = asked s" "decided i ?t = decided i s"
    by (auto simp: promised_def asked_def decided_def fun_eq_iff a'(1))
  have vote: "voted ?t x k \<longleftrightarrow> voted s x k \<or> (x = a \<and> k = n \<and> r = 1)" for x k
    by (auto simp: voted_def)
  have grow: "grows s ?t"
    using cs pr unfolding grows_def same vote by (auto intro: order_trans)
  have "inv_num ?t" using num unfolding inv_num_def same by simp
  moreover have "inv_acc i ?t"
    unfolding inv_acc_def same vote
  proof (intro allI impI)
    fix x assume ux: "\<not> decided i s x"
    show "(\<forall>k. promised s x k \<longrightarrow> k \<le> ac_n_h (sy_acc ?t x)) \<and>
      (\<forall>k. voted s x k \<or> x = a \<and> k = n \<and> r = 1 \<longrightarrow> k \<le> ac_n_a (sy_acc ?t x)) \<and>
      (pt_n (ac_n_a (sy_acc ?t x)) = 0 \<and> ac_v_a (sy_acc ?t x) = [] \<or>
       (voted s x (ac_n_a (sy_acc ?t x)) \<or> x = a \<and> ac_n_a (sy_acc ?t x) = n \<and> r = 1) \<and>
       asked s (ac_n_a (sy_acc ?t x)) (ac_v_a (sy_acc ?t x)) \<and>
       ac_n_a (sy_acc ?t x) \<le> ac_n_h (sy_acc ?t x))"
    proof (cases "x = a \<and> r = 1")
      case True
      then have "ac_n_h ?s \<le> n" "ac_n_a a' = n" "ac_v_a a' = w" using cs by auto
      moreover have "k \<le> n" if "voted s a k" for k using low(2) [OF that] \<open>ac_n_h ?s \<le> n\<close> by simp
      ultimately show ?thesis using True pr ask by (simp add: a'(2)) 
    next
      case False
      then have "sy_acc ?t x = sy_acc s x" using cs by auto
      then show ?thesis using False acc ux unfolding inv_acc_def by auto
    qed
  qed
  moreover have "inv_prep ?t"
    using inv grows_keeps(1) [OF grow] by (auto simp: px_inv_def inv_prep_def)
  moreover have "inv_phase ?t"
    using inv grows_keeps(2) [OF grow] vote by (auto simp: px_inv_def inv_phase_def)
  moreover have "inv_req nodes ?t"
    using req grows_keeps(3) [OF grow] same cs ask by (auto simp: inv_req_def)
  moreover have "inv_dec i nodes ?t"
    using inv grows_keeps(4) [OF grow] a' same(3) by (auto simp: px_inv_def inv_dec_def)
  ultimately show ?thesis by (simp add: px_inv_def)
qed

text \<open>An acceptor that learns a chosen value, and one that comes back from its log.\<close>

lemma px_inv_acceptor:
  assumes inv: "px_inv i nodes s"
    and "ac_instance_h (sy_acc s a) \<le> ac_instance_h a'" and "ac_instance_h a' \<le> i"
    and dec: "i \<le> ac_instance_h a' \<Longrightarrow> chosen nodes s (value_of a' i)"
    and und: "ac_instance_h a' < i \<Longrightarrow> recovered a' (sy_acc s a)"
  shows "px_inv i nodes (s\<lparr>sy_acc := (sy_acc s)(a := a')\<rparr>)" (is "px_inv i nodes ?t")
proof -
  have same: "promised ?t = promised s" "asked ?t = asked s" "voted ?t = voted s" by simp_all
  then have same': "told ?t = told s" "gathered ?t = gathered s" "justified nodes ?t = justified nodes s"
    "chosen nodes ?t = chosen nodes s"
    by (simp_all add: told_def gathered_def justified_def chosen_def fun_eq_iff)
  have num: "inv_num s" and acc: "inv_acc i s" and req: "inv_req nodes s"
    using inv by (auto simp: px_inv_def)
  have d: "decided i ?t x \<longleftrightarrow> (if x = a then i \<le> ac_instance_h a' else decided i s x)" for x
    by (simp add: decided_def)
  have old: "\<not> decided i s a" if "ac_instance_h a' < i"
    using that assms(2) by (auto simp: decided_def)
  have nz: "pt_n k \<noteq> 0" if "promised s x k \<or> voted s x k" for x k
    using that num voted_nonzero [OF num req] by (auto simp: inv_num_def)
  have "(\<forall>n. promised s a n \<longrightarrow> n \<le> ac_n_h a') \<and> (\<forall>n. voted s a n \<longrightarrow> n \<le> ac_n_a a') \<and>
     ((pt_n (ac_n_a a') = 0 \<and> ac_v_a a' = []) \<or>
      (voted s a (ac_n_a a') \<and> asked s (ac_n_a a') (ac_v_a a') \<and> ac_n_a a' \<le> ac_n_h a'))"
    if lt: "ac_instance_h a' < i"
  proof -
    let ?s = "sy_acc s a"
    have sim: "prop_sim (ac_n_h a') (ac_n_h ?s)" "prop_sim (ac_n_a a') (ac_n_a ?s)" "ac_v_a a' = ac_v_a ?s"
      using und [OF lt] by (auto simp: recovered_def)
    have a: "\<forall>n. promised s a n \<longrightarrow> n \<le> ac_n_h ?s" "\<forall>n. voted s a n \<longrightarrow> n \<le> ac_n_a ?s"
      "(pt_n (ac_n_a ?s) = 0 \<and> ac_v_a ?s = []) \<or>
       (voted s a (ac_n_a ?s) \<and> asked s (ac_n_a ?s) (ac_v_a ?s) \<and> ac_n_a ?s \<le> ac_n_h ?s)"
      using acc old [OF lt] by (auto simp: inv_acc_def)
    have h: "k \<le> ac_n_h a'" if "k \<le> ac_n_h ?s" "pt_n k \<noteq> 0" for k
      using sim(1) that le_zero_num unfolding prop_sim_def by metis
    have n: "k \<le> ac_n_a a'" if "k \<le> ac_n_a ?s" "pt_n k \<noteq> 0" for k
      using sim(2) that le_zero_num unfolding prop_sim_def by metis
    show ?thesis
      using a sim(2,3) h n nz unfolding prop_sim_def by metis
  qed
  then have "inv_acc i ?t" using acc unfolding inv_acc_def same d by auto
  moreover have "inv_num ?t" using num unfolding inv_num_def same by simp
  moreover have "inv_dec i nodes ?t"
    using inv dec assms(3) unfolding px_inv_def inv_dec_def same' d by auto
  ultimately show ?thesis
    using inv unfolding px_inv_def inv_prep_def inv_phase_def inv_req_def same same' by auto
qed

lemma commit_learns:
  assumes inv: "px_inv i nodes s" and v: "chosen nodes s v"
  shows "px_inv i nodes (s\<lparr>sy_acc := (sy_acc s)(a := fst (acceptor_commit i v (sy_acc s a)))\<rparr>)"
proof (rule px_inv_acceptor [OF inv])
  have le: "ac_instance_h (sy_acc s a) \<le> i" using inv by (simp add: px_inv_def inv_dec_def)
  then show "ac_instance_h (fst (acceptor_commit i v (sy_acc s a))) \<le> i" by simp
  have "value_of (fst (acceptor_commit i v (sy_acc s a))) i = v" if "ac_instance_h (sy_acc s a) < i"
    using that by (simp add: acceptor_commit_def commit_wo_def Let_def loginstance_def)
  moreover have "chosen nodes s (value_of (fst (acceptor_commit i v (sy_acc s a))) i)"
    if "\<not> ac_instance_h (sy_acc s a) < i"
    using that inv le by (simp add: acceptor_commit_def commit_wo_def px_inv_def inv_dec_def decided_def)
  ultimately show "chosen nodes s (value_of (fst (acceptor_commit i v (sy_acc s a))) i)"
    using v by metis
qed simp_all

lemma px_inv_old_value:
  assumes "px_inv i nodes s" and "reply_of x n rep (sy_prep s)" and "prepare_reply x rep acc = Inl v"
  shows "chosen nodes s v"
  using assms by (auto simp: prepare_reply_def reply_of_def px_inv_def inv_dec_def
      split: option.splits prod.splits if_splits)

lemma px_inv_step: "px_step i nodes s t \<Longrightarrow> px_inv i nodes s \<Longrightarrow> px_inv i nodes t"
proof (induction rule: px_step.induct)
  case (prepare_old s p x rest acc rep v)
  then have "chosen nodes s v" using px_inv_old_value by blast
  then have "px_inv i nodes (s\<lparr>sy_acc := (sy_acc s)(p := fst (acceptor_commit i v (sy_acc s p)))\<rparr>)"
    using commit_learns prepare_old by blast
  from px_inv_give_up [OF this, of p] show ?case by simp
next
  case (serve_decide w s a)
  then have "chosen nodes s w" by (auto simp: px_inv_def inv_dec_def)
  then show ?case using commit_learns serve_decide by (simp add: handle_decidereq_def split_def Let_def)
next
  case (crash a' s a)
  then show ?case
    by (intro px_inv_acceptor) (auto simp: recovered_def px_inv_def inv_dec_def decided_def)
qed (auto intro: px_inv_run px_inv_serve_prepare px_inv_prepare_answer px_inv_prepare_done
    px_inv_serve_accept px_inv_accept_answer px_inv_accept_done px_inv_give_up)

lemma px_inv_init: "px_init i s \<Longrightarrow> px_inv i nodes s"
  unfolding px_init_def px_inv_def inv_num_def inv_acc_def inv_prep_def inv_phase_def inv_req_def
    inv_dec_def asked_def promised_def voted_def decided_def
  by (auto simp: less_imp_le dest: leD)

lemma px_reach_inv: "px_reach i nodes s \<Longrightarrow> px_inv i nodes s"
  by (induction rule: px_reach.induct) (auto intro: px_inv_init px_inv_step)

lemma chosen_unique:
  assumes "px_inv i nodes s" and "chosen nodes s v" and "chosen nodes s w"
  shows "v = w"
proof -
  obtain n A where A: "majority nodes A" "\<forall>x \<in> set A. voted s x n" "asked s n v"
    using assms(2) by (auto simp: chosen_def)
  obtain m B where B: "majority nodes B" "\<forall>x \<in> set B. voted s x m" "asked s m w"
    using assms(3) by (auto simp: chosen_def)
  have num: "inv_num s" and req: "inv_req nodes s" using assms(1) by (auto simp: px_inv_def)
  show ?thesis
  proof (rule mj.chosen_once [where R = "sy_preq s" and asked = "asked s" and voted = "voted s" and
        A = A and n = n and B = B and n' = m])
    show "finite (sy_preq s)" using num by (simp add: inv_num_def)
    show "\<And>n w. asked s n w \<Longrightarrow> n \<in> sy_preq s" using num by (auto simp: inv_num_def)
    show "\<And>n w w'. asked s n w \<Longrightarrow> asked s n w' \<Longrightarrow> w = w'" using num unfolding inv_num_def by blast
    show "\<And>n w. asked s n w \<Longrightarrow> \<exists>Q. majority nodes Q \<and> ((\<forall>x \<in> set Q. \<forall>k < n. \<not> voted s x k) \<or>
       (\<exists>m < n. asked s m w \<and> (\<forall>x \<in> set Q. \<forall>k < n. voted s x k \<longrightarrow> k \<le> m)))"
      using req unfolding inv_req_def justified_def by blast
  qed (fact A B)+
qed

section \<open>Agreement\<close>


text \<open>
  An execution in which proposer 1 of three nodes is run, nodes 1 and 2 answer it, and both
  learn its value.
\<close>

lemma px_reach_step: "px_reach i nodes s \<Longrightarrow> px_step i nodes s t' \<Longrightarrow> t' = t \<Longrightarrow> px_reach i nodes t"
  using px_reach.step by blast

definition ex_acc :: "string \<Rightarrow> acceptor" where
  "ex_acc a = \<lparr>ac_me = a, ac_n_h = Prop 0 a, ac_n_a = Prop 0 a, ac_v_a = [], ac_instance_h = 1,
     ac_values = [1 \<mapsto> ''m''], ac_log = []\<rparr>"

definition ex_n :: prop_t where "ex_n = Prop 1 ''1''"

definition ex_acc1 :: "string \<Rightarrow> acceptor" where
  "ex_acc1 a = loghigh ex_n ((ex_acc a)\<lparr>ac_n_h := ex_n\<rparr>)"

definition ex_acc2 :: "string \<Rightarrow> acceptor" where
  "ex_acc2 a = logprop ex_n ''1 2 3 4 '' ((ex_acc1 a)\<lparr>ac_n_a := ex_n, ac_v_a := ''1 2 3 4 ''\<rparr>)"

definition ex_pp :: proposer where
  "ex_pp = (proposer_new ''1'' 1)\<lparr>pp_stable := False, pp_c_nodes := [''1'', ''2'', ''3''], pp_c_v := ''1 2 3 4 ''\<rparr>"

lemma ex_prepare:
  "handle_preparereq (Preparearg 2 ex_n []) (Prepareres 0 0 ex_n []) (ex_acc a) =
     (ex_acc1 a, Prepareres 0 1 (Prop 0 a) [], POK)"
proof -
  have "\<not> (2 :: u32) \<le> 1" by (simp add: word_le_nat_alt)
  moreover have "prop_gt ex_n (Prop 0 a)" unfolding prop_gt_def by (simp add: ex_n_def)
  ultimately show ?thesis by (simp add: handle_preparereq_def ex_acc_def ex_acc1_def)
qed

lemma ex_accept: "handle_acceptreq (Acceptarg 2 ex_n ''1 2 3 4 '') (ex_acc1 a) = (ex_acc2 a, 1, POK)"
  by (simp add: handle_acceptreq_def ex_acc_def ex_acc1_def ex_acc2_def loghigh_def)

abbreviation ex_state ::
  "(string \<Rightarrow> acceptor) \<Rightarrow> proposer \<Rightarrow> phase \<Rightarrow> prop_t set \<Rightarrow> (string \<times> prop_t \<times> prepareres) set \<Rightarrow>
   (string \<times> prop_t \<times> string) set \<Rightarrow> (string \<times> prop_t \<times> u32) set \<Rightarrow> string set \<Rightarrow> string set \<Rightarrow> px_sys"
where
  "ex_state A P ph pq pr aq ar dq st \<equiv>
     \<lparr>sy_acc = A, sy_prop = (\<lambda>p. proposer_new p 0)(''1'' := P), sy_phase = (\<lambda>_. Idle)(''1'' := ph),
      sy_preq = pq, sy_prep = pr, sy_areq = aq, sy_arep = ar, sy_dreq = dq, sy_started = st\<rparr>"

abbreviation ex_reach :: "px_sys \<Rightarrow> bool" where
  "ex_reach \<equiv> px_reach 2 [''1'', ''2'', ''3'']"

abbreviation ex_prs :: "(string \<times> prop_t \<times> prepareres) set" where
  "ex_prs \<equiv> {(''2'', ex_n, Prepareres 0 1 (Prop 0 ''2'') []), (''1'', ex_n, Prepareres 0 1 (Prop 0 ''1'') [])}"

abbreviation ex_ars :: "(string \<times> prop_t \<times> u32) set" where
  "ex_ars \<equiv> {(''2'', ex_n, 1), (''1'', ex_n, 1)}"

lemma ex_prepared:
  "ex_reach (ex_state (ex_acc(''1'' := ex_acc1 ''1'', ''2'' := ex_acc1 ''2'')) ex_pp
     (Preparing [''1'', ''2'', ''3''] ([], Prop 0 [], [])) {ex_n} ex_prs {} {} {} {''1 2 3 4 ''})"
proof -
  let ?I = "Preparing [''1'', ''2'', ''3''] ([], Prop 0 [], [])"
  have r0: "ex_reach (ex_state ex_acc (proposer_new ''1'' 0) Idle {} {} {} {} {} {})"
    by (rule px_reach.init) (auto simp: px_init_def ex_acc_def proposer_new_def)
  have r1: "ex_reach (ex_state ex_acc ex_pp ?I {ex_n} {} {} {} {} {''1 2 3 4 ''})"
    by (rule px_reach_step [OF r0 px_step.run [where p = "''1''" and v = "''1 2 3 4 ''", OF _ _ _ _ refl]])
      (simp_all add: ex_acc_def proposer_new_def setn_def ex_pp_def ex_n_def)
  have r2: "ex_reach (ex_state (ex_acc(''1'' := ex_acc1 ''1'')) ex_pp ?I {ex_n}
      {(''1'', ex_n, Prepareres 0 1 (Prop 0 ''1'') [])} {} {} {} {''1 2 3 4 ''})"
    by (rule px_reach_step [OF r1 px_step.serve_prepare [where a = "''1''" and n = ex_n and v = "[]" and
          old = "Prepareres 0 0 ex_n []"]]) (simp_all add: ex_prepare)
  show ?thesis
    by (rule px_reach_step [OF r2 px_step.serve_prepare [where a = "''2''" and n = ex_n and v = "[]" and
          old = "Prepareres 0 0 ex_n []"]]) (simp_all add: ex_prepare)
qed

lemma ex_asked:
  "ex_reach (ex_state (ex_acc(''1'' := ex_acc1 ''1'', ''2'' := ex_acc1 ''2'')) ex_pp
     (Accepting [''1'', ''2''] [] ''1 2 3 4 '') {ex_n} ex_prs {(''1'', ex_n, ''1 2 3 4 ''), (''2'', ex_n, ''1 2 3 4 '')} {} {} {''1 2 3 4 ''})"
proof -
  have n: "pp_my_n ex_pp = ex_n" "pp_c_v ex_pp = ''1 2 3 4 ''" by (simp_all add: ex_pp_def proposer_new_def ex_n_def)
  have gt: "prop_gt (Prop 0 ''1'') (Prop 0 [])" "\<not> prop_gt (Prop 0 [a]) (Prop 0 [a])"
    "prop_gt (Prop 0 ''2'') (Prop 0 ''1'')" for a
    unfolding prop_gt_def by (simp_all add: less_char_def)
  let ?A = "ex_acc(''1'' := ex_acc1 ''1'', ''2'' := ex_acc1 ''2'')"
  have r1: "ex_reach (ex_state ?A ex_pp (Preparing [''2'', ''3''] ([''1''], Prop 0 ''1'', [])) {ex_n} ex_prs {} {} {} {''1 2 3 4 ''})"
    by (rule px_reach_step [OF ex_prepared px_step.prepare_answer [where p = "''1''" and
          rep = "Some (Prepareres 0 1 (Prop 0 ''1'') [])" and acc' = "([''1''], Prop 0 ''1'', [])"]])
      (simp add: reply_of_def n prepare_reply_def gt split_def del: prop_gt_iff)+
  have r2: "ex_reach (ex_state ?A ex_pp (Preparing [''3''] ([''1'', ''2''], Prop 0 ''2'', [])) {ex_n} ex_prs {} {} {} {''1 2 3 4 ''})"
    by (rule px_reach_step [OF r1 px_step.prepare_answer [where p = "''1''" and
          rep = "Some (Prepareres 0 1 (Prop 0 ''2'') [])" and acc' = "([''1'', ''2''], Prop 0 ''2'', [])"]])
      (simp add: reply_of_def n prepare_reply_def gt split_def del: prop_gt_iff)+
  have r3: "ex_reach (ex_state ?A ex_pp (Preparing [] ([''1'', ''2''], Prop 0 ''2'', [])) {ex_n} ex_prs {} {} {} {''1 2 3 4 ''})"
    by (rule px_reach_step [OF r2 px_step.prepare_answer [where p = "''1''" and rep = None and
          acc' = "([''1'', ''2''], Prop 0 ''2'', [])"]])
      (simp add: reply_of_def n prepare_reply_def)+
  show ?thesis
    by (rule px_reach_step [OF r3 px_step.prepare_done [where p = "''1''", OF _ _ refl]])
      (simp add: majority_def run_value_def n)+
qed

lemma ex_decided:
  "ex_reach (ex_state (ex_acc(''1'' := fst (handle_decidereq (Decidearg 2 ''1 2 3 4 '') (ex_acc2 ''1'')),
       ''2'' := fst (handle_decidereq (Decidearg 2 ''1 2 3 4 '') (ex_acc2 ''2'')))) ex_pp
     Idle {ex_n} ex_prs {(''1'', ex_n, ''1 2 3 4 ''), (''2'', ex_n, ''1 2 3 4 '')} ex_ars {''1 2 3 4 ''} {''1 2 3 4 ''})"
proof -
  have n: "pp_my_n ex_pp = ex_n" by (simp add: ex_pp_def proposer_new_def ex_n_def)
  let ?P = "Accepting [''1'', ''2''] [] ''1 2 3 4 ''" and ?Q = "{(''1'', ex_n, ''1 2 3 4 ''), (''2'', ex_n, ''1 2 3 4 '')}"
  let ?A = "ex_acc(''1'' := ex_acc2 ''1'', ''2'' := ex_acc2 ''2'')"
  have r1: "ex_reach (ex_state (ex_acc(''2'' := ex_acc1 ''2'', ''1'' := ex_acc2 ''1'')) ex_pp ?P {ex_n}
      ex_prs ?Q {(''1'', ex_n, 1)} {} {''1 2 3 4 ''})"
    by (rule px_reach_step [OF ex_asked px_step.serve_accept [where a = "''1''" and n = ex_n and w = "''1 2 3 4 ''"]])
      (simp add: ex_accept)+
  have r2: "ex_reach (ex_state ?A ex_pp ?P {ex_n} ex_prs ?Q ex_ars {} {''1 2 3 4 ''})"
    by (rule px_reach_step [OF r1 px_step.serve_accept [where a = "''2''" and n = ex_n and w = "''1 2 3 4 ''"]])
      (simp add: ex_accept)+
  have r3: "ex_reach (ex_state ?A ex_pp (Accepting [''2''] [''1''] ''1 2 3 4 '') {ex_n} ex_prs ?Q ex_ars {} {''1 2 3 4 ''})"
    by (rule px_reach_step [OF r2 px_step.accept_answer [where p = "''1''" and rep = "Some 1"]])
      (simp add: reply_of_def n accept_reply_def)+
  have r4: "ex_reach (ex_state ?A ex_pp (Accepting [] [''1'', ''2''] ''1 2 3 4 '') {ex_n} ex_prs ?Q ex_ars {} {''1 2 3 4 ''})"
    by (rule px_reach_step [OF r3 px_step.accept_answer [where p = "''1''" and rep = "Some 1"]])
      (simp add: reply_of_def n accept_reply_def)+
  have r5: "ex_reach (ex_state ?A ex_pp Idle {ex_n} ex_prs ?Q ex_ars {''1 2 3 4 ''} {''1 2 3 4 ''})"
    by (rule px_reach_step [OF r4 px_step.accept_done [where p = "''1''"]])
      (simp add: majority_def)+
  have r6: "ex_reach (ex_state (ex_acc(''2'' := ex_acc2 ''2'',
      ''1'' := fst (handle_decidereq (Decidearg 2 ''1 2 3 4 '') (ex_acc2 ''1'')))) ex_pp Idle {ex_n} ex_prs ?Q ex_ars {''1 2 3 4 ''} {''1 2 3 4 ''})"
    by (rule px_reach_step [OF r5 px_step.serve_decide [where a = "''1''" and w = "''1 2 3 4 ''"]])
      simp+
  show ?thesis
    by (rule px_reach_step [OF r6 px_step.serve_decide [where a = "''2''" and w = "''1 2 3 4 ''"]]) simp+
qed

lemma ex_value:
  "ac_instance_h (fst (handle_decidereq (Decidearg 2 ''1 2 3 4 '') (ex_acc2 a))) = 2 \<and>
   value_of (fst (handle_decidereq (Decidearg 2 ''1 2 3 4 '') (ex_acc2 a))) 2 = ''1 2 3 4 ''"
proof -
  have "ac_instance_h (ex_acc2 a) = 1"
    by (simp add: ex_acc2_def ex_acc1_def ex_acc_def loghigh_def logprop_def)
  moreover have "(1 :: u32) < 2" by (simp add: word_less_nat_alt)
  ultimately show ?thesis
    by (simp add: handle_decidereq_def acceptor_commit_def commit_wo_def loginstance_def Let_def)
qed




section \<open>The loops of the proposer are runs of the system\<close>

lemma prepare_loop_steps:
  assumes "prepare_loop replies rest acc = Inr acc'" and "sy_phase s p = Preparing rest acc"
    and "\<And>x. reply_of x (my_n s p) (replies x) (sy_prep s)"
  shows "(px_step i nodes)\<^sup>*\<^sup>* s (s\<lparr>sy_phase := (sy_phase s)(p := Preparing [] acc')\<rparr>)"
  using assms
proof (induction rest arbitrary: s acc)
  case Nil
  then have "s\<lparr>sy_phase := (sy_phase s)(p := Preparing [] acc')\<rparr> = s" by (auto simp: fun_upd_idem)
  then show ?case by (metis rtranclp.rtrancl_refl)
next
  case (Cons x rest)
  then obtain acc1 where a: "prepare_reply x (replies x) acc = Inr acc1"
    "prepare_loop replies rest acc1 = Inr acc'" by (auto simp: rbind_eq_Inr_iff)
  let ?s = "s\<lparr>sy_phase := (sy_phase s)(p := Preparing rest acc1)\<rparr>"
  have "px_step i nodes s ?s" by (rule px_step.prepare_answer [OF Cons.prems(2,3) a(1)])
  moreover have "(px_step i nodes)\<^sup>*\<^sup>* ?s (?s\<lparr>sy_phase := (sy_phase ?s)(p := Preparing [] acc')\<rparr>)"
    by (rule Cons.IH [OF a(2)]) (use Cons.prems(3) in simp_all)
  moreover have "?s\<lparr>sy_phase := (sy_phase ?s)(p := Z)\<rparr> = s\<lparr>sy_phase := (sy_phase s)(p := Z)\<rparr>" for Z
    by simp
  ultimately show ?case by (metis converse_rtranclp_into_rtranclp)
qed

lemma accept_loop_steps:
  assumes "sy_phase s p = Accepting rest acc w"
    and "\<And>x. reply_of x (my_n s p) (replies x) (sy_arep s)"
  shows "(px_step i nodes)\<^sup>*\<^sup>* s (s\<lparr>sy_phase := (sy_phase s)(p :=
    Accepting [] (foldl (\<lambda>acc n. accept_reply n (replies n) acc) acc rest) w)\<rparr>)"
  using assms
proof (induction rest arbitrary: s acc)
  case Nil
  then have "s\<lparr>sy_phase := (sy_phase s)(p := Accepting [] acc w)\<rparr> = s" by (auto simp: fun_upd_idem)
  then show ?case by (metis foldl_Nil rtranclp.rtrancl_refl)
next
  case (Cons x rest)
  let ?s = "s\<lparr>sy_phase := (sy_phase s)(p := Accepting rest (accept_reply x (replies x) acc) w)\<rparr>"
  have step: "px_step i nodes s ?s" by (rule px_step.accept_answer [OF Cons.prems])
  have run: "(px_step i nodes)\<^sup>*\<^sup>* ?s (?s\<lparr>sy_phase := (sy_phase ?s)(p :=
      Accepting [] (foldl (\<lambda>acc n. accept_reply n (replies n) acc) (accept_reply x (replies x) acc) rest) w)\<rparr>)"
    by (rule Cons.IH) (use Cons.prems(2) in simp_all)
  have eq: "?s\<lparr>sy_phase := (sy_phase ?s)(p := Z)\<rparr> = s\<lparr>sy_phase := (sy_phase s)(p := Z)\<rparr>" for Z
    by simp
  show ?case unfolding foldl.simps using converse_rtranclp_into_rtranclp [of "px_step i nodes", OF step run [unfolded eq]] .
qed

text \<open>the accept loop of \<open>proposer::accept\<close>, run to its end on replies the network has
  carried, is a sequence of steps of the system that ends with the same list of accepting nodes;
  so agreement covers the code's sequential loops.\<close>

theorem proposer_accept_refines:
  assumes "sy_phase s p = Accepting rest [] w"
    and "\<forall>x. reply_of x (my_n s p) (replies x) (sy_arep s)"
  shows "(px_step i nodes)\<^sup>*\<^sup>* s
    (s\<lparr>sy_phase := (sy_phase s)(p := Accepting [] (proposer_accept replies rest) w)\<rparr>)"
  using accept_loop_steps [of s p rest "[]" w replies i nodes] assms by (simp add: proposer_accept_def)

theorem proposer_accept_refines_witness:
  "\<exists>s t. sy_phase s ''1'' = Accepting [''1'', ''2''] [] ''x'' \<and> (px_step 2 [''1'', ''2'', ''3''])\<^sup>*\<^sup>* s t \<and>
    sy_phase t ''1'' = Accepting [] [] ''x''"
proof -
  let ?s = "ex_state ex_acc ex_pp (Accepting [''1'', ''2''] [] ''x'') {} {} {} {} {} {}"
  have "(px_step 2 [''1'', ''2'', ''3''])\<^sup>*\<^sup>* ?s (?s\<lparr>sy_phase := (sy_phase ?s)(''1'' :=
      Accepting [] (proposer_accept (\<lambda>_. None) [''1'', ''2'']) ''x'')\<rparr>)"
    by (rule proposer_accept_refines) (simp_all add: reply_of_def)
  then show ?thesis
    by (intro exI [of _ ?s] exI conjI) (auto simp: proposer_accept_def accept_reply_def)
qed

end
