(* ===== verification/Handle.thy ===== *)
theory Handle
  imports Prelude "HOL-Library.Multiset"
begin

text \<open>
  The table of RPC clients that the Paxos, configuration and replication modules share
  (\<open>handle.cc\<close>): one entry per node name with a reference count, dropped at once or, while
  handles on it are out, when the last of them is given back.
\<close>

section \<open>The table\<close>

text \<open>
  A \<open>handle\<close> holds a pointer into the map, which stays valid until its entry is erased, so
  entries have addresses: \<open>hm_map\<close> is the index of the map and \<open>hm_nodes\<close> the entries that are
  allocated.  \<open>hm_cls\<close> holds the \<open>rpcc\<close> objects that were created and not yet deleted, \<open>hm_next\<close>
  the next fresh address.  The mutex makes each operation one step.
\<close>

record hinfo =
  hi_cl :: nat
  hi_refcnt :: int
  hi_del :: bool
  hi_m :: string

record handle_mgr =
  hm_map :: "string \<rightharpoonup> nat"
  hm_nodes :: "nat \<rightharpoonup> hinfo"
  hm_cls :: "nat set"
  hm_next :: nat

definition handle_mgr_new :: handle_mgr where
  "handle_mgr_new = \<lparr>hm_map = Map.empty, hm_nodes = Map.empty, hm_cls = {}, hm_next = 0\<rparr>"

text \<open>
  \<open>ret\<close> is the result of \<open>bind\<close> on the new client.  The result is the entry's address, or
  \<open>None\<close> for the null pointer.
\<close>

definition get_handle :: "string \<Rightarrow> int \<Rightarrow> handle_mgr \<Rightarrow> handle_mgr \<times> nat option" where
  "get_handle m ret s = (case hm_map s m of
     None \<Rightarrow>
       (let cl = hm_next s; s = s\<lparr>hm_cls := insert cl (hm_cls s), hm_next := hm_next s + 1\<rparr>
        in if ret < 0 then (s, None)
           else (s\<lparr>hm_map := (hm_map s)(m \<mapsto> cl),
                    hm_nodes := (hm_nodes s)(cl \<mapsto>
                      \<lparr>hi_cl = cl, hi_refcnt = 1, hi_del = False, hi_m = m\<rparr>)\<rparr>, Some cl))
   | Some a \<Rightarrow> (case hm_nodes s a of
       None \<Rightarrow> (s, None)
     | Some h \<Rightarrow>
         (if \<not> hi_del h
          then (s\<lparr>hm_nodes := (hm_nodes s)(a \<mapsto> h\<lparr>hi_refcnt := hi_refcnt h + 1\<rparr>)\<rparr>, Some a)
          else (s, None))))"

definition delete_handle_wo :: "string \<Rightarrow> handle_mgr \<Rightarrow> handle_mgr" where
  "delete_handle_wo m s = (case hm_map s m of
     None \<Rightarrow> s
   | Some a \<Rightarrow> (case hm_nodes s a of
       None \<Rightarrow> s
     | Some h \<Rightarrow>
         (if hi_refcnt h = 0
          then s\<lparr>hm_cls := hm_cls s - {hi_cl h}, hm_map := (hm_map s)(m := None),
                 hm_nodes := (hm_nodes s)(a := None)\<rparr>
          else s\<lparr>hm_nodes := (hm_nodes s)(a \<mapsto> h\<lparr>hi_del := True\<rparr>)\<rparr>)))"

definition delete_handle :: "string \<Rightarrow> handle_mgr \<Rightarrow> handle_mgr" where
  "delete_handle m s = delete_handle_wo m s"

text \<open>Using a pointer to an erased entry is an access outside the allocated memory.\<close>

definition done_handle :: "nat \<Rightarrow> handle_mgr \<Rightarrow> handle_mgr res" where
  "done_handle a s = (case hm_nodes s a of
     None \<Rightarrow> Inl OutOfBounds
   | Some h \<Rightarrow>
       (let h = h\<lparr>hi_refcnt := hi_refcnt h - 1\<rparr>; s = s\<lparr>hm_nodes := (hm_nodes s)(a \<mapsto> h)\<rparr>
        in Inr (if hi_refcnt h \<le> 0 \<and> hi_del h then delete_handle_wo (hi_m h) s else s)))"

text \<open>The class \<open>handle\<close>: a pointer or null, and the client behind it.\<close>

definition get_rpcc :: "nat option \<Rightarrow> handle_mgr \<Rightarrow> nat option res" where
  "get_rpcc h s = (case h of
     None \<Rightarrow> Inr None
   | Some a \<Rightarrow> (case hm_nodes s a of None \<Rightarrow> Inl OutOfBounds | Some i \<Rightarrow> Inr (Some (hi_cl i))))"

definition handle_dtor :: "nat option \<Rightarrow> handle_mgr \<Rightarrow> handle_mgr res" where
  "handle_dtor h s = (case h of None \<Rightarrow> Inr s | Some a \<Rightarrow> done_handle a s)"

section \<open>Users of the table\<close>

text \<open>
  Any number of threads open handles, close them and delete names, in any order.  The second
  component collects the handles that are out.
\<close>

type_synonym hsys = "handle_mgr \<times> nat multiset"

inductive hstep :: "hsys \<Rightarrow> hsys \<Rightarrow> bool" where
  open_null: "get_handle m ret s = (s', None) \<Longrightarrow> hstep (s, out) (s', out)"
| open_handle: "get_handle m ret s = (s', Some a) \<Longrightarrow> hstep (s, out) (s', add_mset a out)"
| close: "a \<in># out \<Longrightarrow> handle_dtor (Some a) s = Inr s' \<Longrightarrow> hstep (s, out) (s', out - {#a#})"
| delete: "hstep (s, out) (delete_handle m s, out)"

inductive hreach :: "hsys \<Rightarrow> bool" where
  hreach_init: "hreach (handle_mgr_new, {#})"
| hreach_step: "hreach x \<Longrightarrow> hstep x y \<Longrightarrow> hreach y"

text \<open>
  The invariant: index and entries correspond, the reference count of an entry is the number
  of its handles, an entry is marked for deletion only while it has some, and every entry has
  a client of its own that is not deleted.
\<close>

definition node_ok :: "handle_mgr \<Rightarrow> nat multiset \<Rightarrow> nat \<Rightarrow> hinfo \<Rightarrow> bool" where
  "node_ok s out a h \<longleftrightarrow> hm_map s (hi_m h) = Some a \<and> hi_cl h = a \<and> a \<in> hm_cls s \<and>
     hi_refcnt h = int (count out a) \<and> (hi_del h \<longrightarrow> a \<in># out)"

definition hinv :: "hsys \<Rightarrow> bool" where
  "hinv = (\<lambda>(s, out).
     (\<forall>m a. hm_map s m = Some a \<longrightarrow> (\<exists>h. hm_nodes s a = Some h \<and> hi_m h = m)) \<and>
     (\<forall>a h. hm_nodes s a = Some h \<longrightarrow> node_ok s out a h) \<and>
     (\<forall>a \<in># out. hm_nodes s a \<noteq> None) \<and>
     (\<forall>a \<in> hm_cls s. a < hm_next s))"

lemma hinvI:
  assumes "\<And>m a. hm_map s m = Some a \<Longrightarrow> \<exists>h. hm_nodes s a = Some h \<and> hi_m h = m"
    and "\<And>a h. hm_nodes s a = Some h \<Longrightarrow> node_ok s out a h"
    and "\<And>a. a \<in># out \<Longrightarrow> hm_nodes s a \<noteq> None"
    and "\<And>a. a \<in> hm_cls s \<Longrightarrow> a < hm_next s"
  shows "hinv (s, out)"
  using assms unfolding hinv_def by blast

lemma hinvD:
  assumes "hinv (s, out)"
  shows "hm_map s m = Some a \<Longrightarrow> \<exists>h. hm_nodes s a = Some h \<and> hi_m h = m"
    and "hm_nodes s a = Some h \<Longrightarrow> node_ok s out a h"
    and "a \<in># out \<Longrightarrow> \<exists>h. hm_nodes s a = Some h"
    and "a \<in> hm_cls s \<Longrightarrow> a < hm_next s"
  using assms unfolding hinv_def by blast+

lemma hinv_fresh: "hinv (s, out) \<Longrightarrow> hm_nodes s (hm_next s) = None \<and> hm_next s \<notin># out"
  by (metis hinvD(2,3,4) less_irrefl node_ok_def not_None_eq)

lemma hinv_get_new:
  assumes inv: "hinv (s, out)" and m: "hm_map s m = None"
  shows "get_handle m ret s = (s', None) \<Longrightarrow> hinv (s', out)"
    and "get_handle m ret s = (s', Some a) \<Longrightarrow> hinv (s', add_mset a out)"
proof -
  assume g: "get_handle m ret s = (s', None)"
  then have s': "s' = s\<lparr>hm_cls := insert (hm_next s) (hm_cls s), hm_next := hm_next s + 1\<rparr>"
    using m by (auto simp: get_handle_def Let_def split: if_splits)
  show "hinv (s', out)" unfolding s'
    using hinvD [OF inv] by (intro hinvI) (fastforce simp: node_ok_def)+
next
  assume g: "get_handle m ret s = (s', Some a)"
  then have a: "a = hm_next s" and
    s': "s' = s\<lparr>hm_cls := insert a (hm_cls s), hm_next := a + 1, hm_map := (hm_map s)(m \<mapsto> a),
           hm_nodes := (hm_nodes s)(a \<mapsto> \<lparr>hi_cl = a, hi_refcnt = 1, hi_del = False, hi_m = m\<rparr>)\<rparr>"
    using m by (auto simp: get_handle_def Let_def split: if_splits)
  have fresh: "hm_nodes s a = None" "a \<notin># out" using hinv_fresh [OF inv] a by auto
  then have c: "count out a = 0" by (simp add: not_in_iff)
  show "hinv (s', add_mset a out)" unfolding s'
  proof (rule hinvI, goal_cases)
    case (1 k b)
    then show ?case using hinvD(1) [OF inv, of k b] fresh by (auto split: if_splits)
  next
    case (2 b h)
    then show ?case
      using hinvD(2) [OF inv, of b h] c m by (auto simp: node_ok_def split: if_splits)
  next
    case (3 b)
    then show ?case using hinvD(3) [OF inv, of b] by auto
  next
    case (4 b)
    then show ?case using hinvD(4) [OF inv, of b] a by auto
  qed
qed

lemma hinv_get_old:
  assumes inv: "hinv (s, out)" and m: "hm_map s m = Some b"
  shows "get_handle m ret s = (s', None) \<Longrightarrow> hinv (s', out)"
    and "get_handle m ret s = (s', Some a) \<Longrightarrow> hinv (s', add_mset a out)"
proof -
  obtain h where h: "hm_nodes s b = Some h" "hi_m h = m" using hinvD(1) [OF inv m] by blast
  note ok = hinvD(2) [OF inv h(1)]
  show "get_handle m ret s = (s', None) \<Longrightarrow> hinv (s', out)"
    using inv m h by (auto simp: get_handle_def split: if_splits)
  assume "get_handle m ret s = (s', Some a)"
  then have a: "a = b" "\<not> hi_del h" and
    s': "s' = s\<lparr>hm_nodes := (hm_nodes s)(b \<mapsto> h\<lparr>hi_refcnt := hi_refcnt h + 1\<rparr>)\<rparr>"
    using m h by (auto simp: get_handle_def split: if_splits)
  show "hinv (s', add_mset a out)" unfolding s' a(1)
  proof (rule hinvI, goal_cases)
    case (1 k c)
    then show ?case using hinvD(1) [OF inv, of k c] h by auto
  next
    case (2 c g)
    then show ?case using hinvD(2) [OF inv, of c g] ok a(2) by (auto simp: node_ok_def split: if_splits)
  next
    case (3 c)
    then show ?case using hinvD(3) [OF inv, of c] by auto
  next
    case (4 c)
    then show ?case using hinvD(4) [OF inv, of c] by auto
  qed
qed

text \<open>
  Deleting a name keeps the invariant also when the entry's mark is the one thing that is not
  yet right, as it is inside \<open>done_handle\<close> after the last handle was counted down.
\<close>

definition hinv_but :: "nat \<Rightarrow> hsys \<Rightarrow> bool" where
  "hinv_but d = (\<lambda>(s, out).
     (\<forall>m a. hm_map s m = Some a \<longrightarrow> (\<exists>h. hm_nodes s a = Some h \<and> hi_m h = m)) \<and>
     (\<forall>a h. hm_nodes s a = Some h \<longrightarrow>
        node_ok s out a (if a = d then h\<lparr>hi_del := False\<rparr> else h)) \<and>
     (\<forall>a \<in># out. hm_nodes s a \<noteq> None) \<and>
     (\<forall>a \<in> hm_cls s. a < hm_next s))"

lemma hinv_imp_but: "hinv x \<Longrightarrow> hinv_but d x"
  unfolding hinv_def hinv_but_def node_ok_def by (auto split: prod.splits)

lemma hinv_delete_but:
  assumes inv: "hinv_but d (s, out)" and m: "hm_map s m = Some d"
  shows "hinv (delete_handle_wo m s, out)"
proof -
  obtain h where h: "hm_nodes s d = Some h" "hi_m h = m"
    using inv m unfolding hinv_but_def by blast
  have ok: "node_ok s out d (h\<lparr>hi_del := False\<rparr>)"
    using inv h unfolding hinv_but_def by fastforce
  have other: "node_ok s out a g" if "hm_nodes s a = Some g" "a \<noteq> d" for a g
    using inv that unfolding hinv_but_def by fastforce
  have map: "hm_map s k = Some a \<Longrightarrow> \<exists>h. hm_nodes s a = Some h \<and> hi_m h = k" for k a
    using inv unfolding hinv_but_def by blast
  have out: "a \<in># out \<Longrightarrow> hm_nodes s a \<noteq> None" and cls: "a \<in> hm_cls s \<Longrightarrow> a < hm_next s" for a
    using inv unfolding hinv_but_def by blast+
  show ?thesis
  proof (cases "hi_refcnt h = 0")
    case True
    then have nd: "d \<notin># out" using ok by (simp add: node_ok_def not_in_iff)
    have s': "delete_handle_wo m s = s\<lparr>hm_cls := hm_cls s - {d}, hm_map := (hm_map s)(m := None),
                hm_nodes := (hm_nodes s)(d := None)\<rparr>"
      using True m h ok by (simp add: delete_handle_wo_def node_ok_def)
    show ?thesis unfolding s'
    proof (rule hinvI, goal_cases)
      case (1 k a)
      then have k: "k \<noteq> m" "hm_map s k = Some a" by (auto split: if_splits)
      then show ?case using map [OF k(2)] h by auto
    next
      case (2 a g)
      then have "a \<noteq> d" "hm_nodes s a = Some g" by (auto split: if_splits)
      then show ?case using other [of a g] m by (auto simp: node_ok_def)
    next
      case (3 a)
      then show ?case using out nd by auto
    next
      case (4 a)
      then show ?case using cls by auto
    qed
  next
    case False
    then have od: "d \<in># out" using ok by (auto simp: node_ok_def not_in_iff intro: ccontr)
    have s': "delete_handle_wo m s = s\<lparr>hm_nodes := (hm_nodes s)(d \<mapsto> h\<lparr>hi_del := True\<rparr>)\<rparr>"
      using False m h by (simp add: delete_handle_wo_def)
    show ?thesis unfolding s'
    proof (rule hinvI, goal_cases)
      case (1 k a)
      then show ?case using map [of k a] h by auto
    next
      case (2 a g)
      then show ?case using other [of a g] ok od by (auto simp: node_ok_def split: if_splits)
    next
      case (3 a)
      then show ?case using out by auto
    next
      case (4 a)
      then show ?case using cls by auto
    qed
  qed
qed

lemma hinv_delete: "hinv (s, out) \<Longrightarrow> hinv (delete_handle_wo m s, out)"
  by (cases "hm_map s m")
    (simp add: delete_handle_wo_def, rule hinv_delete_but [OF hinv_imp_but])

lemma done_handle_ok:
  assumes inv: "hinv (s, out)" and a: "a \<in># out"
  shows "\<exists>s'. done_handle a s = Inr s' \<and> hinv (s', out - {#a#})"
proof -
  obtain h where h: "hm_nodes s a = Some h" using hinvD(3) [OF inv a] by blast
  note ok = hinvD(2) [OF inv h]
  define g where "g = h\<lparr>hi_refcnt := hi_refcnt h - 1\<rparr>"
  define t where "t = s\<lparr>hm_nodes := (hm_nodes s)(a \<mapsto> g)\<rparr>"
  have d: "done_handle a s =
      Inr (if hi_refcnt g \<le> 0 \<and> hi_del g then delete_handle_wo (hi_m g) t else t)"
    using h by (simp add: done_handle_def g_def t_def Let_def)
  have cnt: "int (count out a) - 1 = int (count (out - {#a#}) a)"
    using a by (auto simp: Suc_le_eq of_nat_diff)
  have node: "node_ok t (out - {#a#}) b f" if "hm_nodes s b = Some f" "b \<noteq> a" for b f
    using hinvD(2) [OF inv that(1)] that by (auto simp: node_ok_def t_def in_diff_count)
  have nodea: "node_ok t (out - {#a#}) a (g\<lparr>hi_del := False\<rparr>)"
    using ok cnt by (auto simp: node_ok_def g_def t_def)
  have but: "hinv_but a (t, out - {#a#})"
    unfolding hinv_but_def prod.case
  proof (intro conjI allI impI ballI, goal_cases)
    case (1 m b)
    then show ?case using hinvD(1) [OF inv, of m b] h by (auto simp: t_def g_def)
  next
    case (2 b f)
    then show ?case using node [of b f] nodea by (auto simp: t_def split: if_splits)
  next
    case (3 b)
    then show ?case using hinvD(3) [OF inv, of b] in_diffD by (fastforce simp: t_def)
  next
    case (4 b)
    then show ?case using hinvD(4) [OF inv, of b] by (auto simp: t_def)
  qed
  have mp: "hm_map t (hi_m g) = Some a" using ok by (simp add: node_ok_def t_def g_def)
  show ?thesis
  proof (cases "hi_refcnt g \<le> 0 \<and> hi_del g")
    case True
    then show ?thesis using hinv_delete_but [OF but mp] d by simp
  next
    case False
    have "node_ok t (out - {#a#}) a g"
      using nodea False by (auto simp: node_ok_def not_in_iff intro: ccontr)
    then have "hinv (t, out - {#a#})"
      using but node by (intro hinvI) (auto simp: hinv_but_def t_def split: if_splits)
    then show ?thesis using d False by simp
  qed
qed

lemma hinv_hstep: "hstep x y \<Longrightarrow> hinv x \<Longrightarrow> hinv y"
proof (induction rule: hstep.induct)
  case (open_null m ret s s' out)
  then show ?case using hinv_get_new(1) hinv_get_old(1) by (cases "hm_map s m") blast+
next
  case (open_handle m ret s s' a out)
  then show ?case using hinv_get_new(2) hinv_get_old(2) by (cases "hm_map s m") blast+
next
  case (close a out s s')
  then show ?case using done_handle_ok [of s out a] by (auto simp: handle_dtor_def)
next
  case (delete s out m)
  then show ?case by (simp add: delete_handle_def hinv_delete)
qed

lemma hinv_init: "hinv (handle_mgr_new, {#})"
  by (simp add: hinv_def handle_mgr_new_def)

lemma hreach_hinv: "hreach x \<Longrightarrow> hinv x"
  by (induction rule: hreach.induct) (auto intro: hinv_init hinv_hstep)

text \<open>C33: 
  While a handle is out, its entry and its client are not deleted, the reference count is the
  number of handles out, and giving it back does not touch freed memory.
\<close>

theorem handles_stay_valid:
  assumes "hreach (s, out)" and "a \<in># out"
  shows "\<exists>h s'. hm_nodes s a = Some h \<and> hi_refcnt h = int (count out a) \<and>
    get_rpcc (Some a) s = Inr (Some (hi_cl h)) \<and> hi_cl h \<in> hm_cls s \<and>
    handle_dtor (Some a) s = Inr s'"
proof -
  note inv = hreach_hinv [OF assms(1)]
  obtain h where h: "hm_nodes s a = Some h" using hinvD(3) [OF inv assms(2)] by blast
  then show ?thesis
    using hinvD(2) [OF inv h] done_handle_ok [OF inv assms(2)]
    by (auto simp: node_ok_def get_rpcc_def handle_dtor_def)
qed

lemma handles_stay_valid_witness:
  "\<exists>s. hreach (s, {#0#}) \<and> (\<exists>h s'. hm_nodes s 0 = Some h \<and> hi_refcnt h = int (count {#0 :: nat#} 0) \<and>
    get_rpcc (Some 0) s = Inr (Some (hi_cl h)) \<and> hi_cl h \<in> hm_cls s \<and>
    handle_dtor (Some 0) s = Inr s')"
proof -
  define s where "s = fst (get_handle ''a'' 0 handle_mgr_new)"
  have "get_handle ''a'' 0 handle_mgr_new = (s, Some 0)"
    by (simp add: s_def get_handle_def handle_mgr_new_def Let_def)
  then have r: "hreach (s, {#0#})"
    using hreach_step [OF hreach_init open_handle, of "''a''" 0 s 0] by simp
  show ?thesis using handles_stay_valid [OF r, of 0] r by auto
qed

text \<open>
  An entry that was deleted by name goes away for good: with the last handle on it given back
  the name is free again, and the next \<open>get_handle\<close> makes a new client.
\<close>

theorem deleted_handle_is_released:
  assumes "hreach (s, {#a#})" and "hm_map s m = Some a"
    and "handle_dtor (Some a) (delete_handle m s) = Inr s'"
  shows "hm_map s' m = None \<and> hm_nodes s' a = None \<and> a \<notin> hm_cls s' \<and>
    snd (get_handle m 0 s') = Some (hm_next s')"
proof -
  note inv = hreach_hinv [OF assms(1)]
  obtain h where h: "hm_nodes s a = Some h" "hi_m h = m" using hinvD(1) [OF inv assms(2)] by blast
  have "hi_refcnt h = 1" "hi_cl h = a" using hinvD(2) [OF inv h(1)] by (auto simp: node_ok_def)
  then have "s' = s\<lparr>hm_cls := hm_cls s - {a}, hm_map := (hm_map s)(m := None),
      hm_nodes := ((hm_nodes s)(a := None))\<rparr>"
    using assms(2,3) h
    by (auto simp: delete_handle_def delete_handle_wo_def handle_dtor_def done_handle_def Let_def)
  then show ?thesis by (simp add: get_handle_def Let_def)
qed

lemma deleted_handle_is_released_witness:
  "\<exists>s s'. hreach (s, {#0#}) \<and> handle_dtor (Some 0) (delete_handle ''a'' s) = Inr s' \<and>
    hm_map s' ''a'' = None \<and> hm_nodes s' 0 = None \<and> 0 \<notin> hm_cls s' \<and>
    snd (get_handle ''a'' 0 s') = Some (hm_next s')"
proof -
  define s where "s = fst (get_handle ''a'' 0 handle_mgr_new)"
  have g: "get_handle ''a'' 0 handle_mgr_new = (s, Some 0)" "hm_map s ''a'' = Some 0"
    by (simp_all add: s_def get_handle_def handle_mgr_new_def Let_def)
  then have r: "hreach (s, {#0#})"
    using hreach_step [OF hreach_init open_handle, of "''a''" 0 s 0] by simp
  have "\<exists>s'. handle_dtor (Some 0) (delete_handle ''a'' s) = Inr s'"
    by (simp add: s_def get_handle_def handle_mgr_new_def Let_def delete_handle_def
        delete_handle_wo_def handle_dtor_def done_handle_def)
  then obtain s' where d: "handle_dtor (Some 0) (delete_handle ''a'' s) = Inr s'" by blast
  show ?thesis using deleted_handle_is_released [OF r g(2) d] r d by blast
qed

text \<open>
  A client whose \<open>bind\<close> fails is created and never deleted: no entry refers to it.
\<close>

theorem failed_bind_leaks:
  assumes "hreach (s, out)" and "hm_map s m = None" and "ret < 0"
    and "get_handle m ret s = (s', h)"
  shows "h = None \<and> hm_next s \<in> hm_cls s' \<and> hm_nodes s' = hm_nodes s \<and> hm_nodes s (hm_next s) = None"
  using assms hinv_fresh [OF hreach_hinv [OF assms(1)]]
  by (auto simp: get_handle_def Let_def)

lemma failed_bind_leaks_witness:
  "\<exists>s' h. get_handle ''a'' (- 1) handle_mgr_new = (s', h) \<and>
    (h = None \<and> hm_next handle_mgr_new \<in> hm_cls s' \<and> hm_nodes s' = hm_nodes handle_mgr_new \<and>
     hm_nodes handle_mgr_new (hm_next handle_mgr_new) = None)"
proof -
  obtain s' h where g: "get_handle ''a'' (- 1) handle_mgr_new = (s', h)" by fastforce
  moreover have "hm_map handle_mgr_new ''a'' = None" by (simp add: handle_mgr_new_def)
  ultimately show ?thesis using failed_bind_leaks [OF hreach_init _ _ g] by auto
qed

end
