(* ===== verification/Config.thy ===== *)
theory Config
  imports PaxosSafety Handle
begin

text \<open>
  The configuration module (\<open>config.cc\<close>): it turns Paxos values into views, proposes views with
  one node more or less, and removes nodes that do not answer its heartbeats.
\<close>

section \<open>Views as text\<close>

function members_loop :: "istream \<Rightarrow> string list" where
  "members_loop st = (case in_word [] st of
     (m, None) \<Rightarrow> []
   | (m, Some s) \<Rightarrow> m # members_loop (Some s))"
  by pat_completeness auto
termination
proof (relation "measure in_len", goal_cases)
  case (2 st m x s)
  then show ?case using in_word_len [of "[]" st m s] by auto
qed simp

declare members_loop.simps [simp del]

definition members :: "string \<Rightarrow> string list" where
  "members v = members_loop (Some v)"

definition config_value :: "string list \<Rightarrow> string" where
  "config_value ms = concat (map (\<lambda>m. m @ '' '') ms)"

lemma in_word_last:
  assumes "\<forall>x \<in> set ws. is_space x" and "word_ok w"
  shows "in_word old (Some (ws @ w)) = (w, Some [])"
proof -
  have "dropWhile is_space (ws @ w) = w"
    using assms by (intro dropWhile_blank) (cases w; simp add: word_ok_def)+
  moreover have "takeWhile (\<lambda>c. \<not> is_space c) w = w" "dropWhile (\<lambda>c. \<not> is_space c) w = []"
    using assms(2) by (auto simp: word_ok_def takeWhile_eq_all_conv dropWhile_eq_Nil_conv)
  ultimately show ?thesis using assms(2) by (simp add: in_word_def word_ok_def)
qed

lemma members_loop_end: "\<forall>x \<in> set ws. is_space x \<Longrightarrow> members_loop (Some ws) = []"
proof -
  assume "\<forall>x \<in> set ws. is_space x"
  then have "dropWhile is_space ws = []" by (simp add: dropWhile_eq_Nil_conv)
  then show ?thesis by (subst members_loop.simps) (simp add: in_word_def)
qed

lemma members_word: "word_ok m \<Longrightarrow> members m = [m]"
  using in_word_last [of "[]" m "[]"] members_loop_end [of "[]"]
  unfolding members_def by (subst members_loop.simps) simp

lemma members_Nil [simp]: "members [] = []"
  by (simp add: members_def members_loop_end)

lemma members_loop_value:
  assumes "\<forall>m \<in> set ms. word_ok m" and "\<forall>x \<in> set ws. is_space x"
  shows "members_loop (Some (ws @ config_value ms)) = ms"
  using assms
proof (induction ms arbitrary: ws)
  case Nil
  then show ?case by (simp add: config_value_def members_loop_end)
next
  case (Cons m ms)
  have v: "config_value (m # ms) = m @ CHR '' '' # config_value ms" by (simp add: config_value_def)
  show ?case
    using Cons.IH [of "[CHR '' '']"] Cons.prems in_word_read [of ws m "CHR '' ''" "[]" "config_value ms"]
    unfolding v by (subst members_loop.simps) simp
qed

lemma members_value: "\<forall>m \<in> set ms. word_ok m \<Longrightarrow> members (config_value ms) = ms"
  using members_loop_value [of ms "[]"] by (simp add: members_def)

text \<open>A member list survives being written as a Paxos value and read back.\<close>

theorem members_value_roundtrip:
  assumes "\<forall>m \<in> set ms. word_ok m"
  shows "members (config_value ms) = ms"
  by (rule members_value [OF assms])

lemma word_ok_digits: "word_ok ''3001''" "word_ok ''3002''" "word_ok ''3003''"
  by (simp_all add: word_ok_def is_space_def)

lemma members_value_roundtrip_witness:
  "config_value [''3001'', ''3002''] = ''3001 3002 '' \<and> members ''3001 3002 '' = [''3001'', ''3002'']"
  using members_value_roundtrip [of "[''3001'', ''3002'']"] word_ok_digits
  by (simp add: config_value_def)

section \<open>The module\<close>

text \<open>
  \<open>cf_vc\<close> tells whether there is an upper layer to inform.  The acceptor and the proposer are
  objects of the module.
\<close>

record config =
  cf_acc :: acceptor
  cf_pro :: proposer
  cf_myvid :: u32
  cf_first :: string
  cf_me :: string
  cf_vc :: bool
  cf_mems :: "string list"

definition get_view :: "u32 \<Rightarrow> config \<Rightarrow> string list \<times> config" where
  "get_view i c = (let (v, acc) = acceptor_value i (cf_acc c) in (members v, c\<lparr>cf_acc := acc\<rparr>))"

definition reconstruct :: "config \<Rightarrow> config" where
  "reconstruct c =
     (if ac_instance_h (cf_acc c) > 0 then
        (let c = c\<lparr>cf_myvid := ac_instance_h (cf_acc c)\<rparr>; (v, c) = get_view (cf_myvid c) c
         in c\<lparr>cf_mems := v\<rparr>)
      else c)"

text \<open>\<open>file\<close> is the content of the Paxos log, \<open>n\<close> the proposer's uninitialised number.\<close>

definition config_new :: "string \<Rightarrow> string \<Rightarrow> bool \<Rightarrow> string \<Rightarrow> u32 \<Rightarrow> config res" where
  "config_new first me vc file n =
     rbind (acceptor_new (me = first) me me file)
       (\<lambda>a. Inr (reconstruct \<lparr>cf_acc = a, cf_pro = proposer_new me n, cf_myvid = 0, cf_first = first,
          cf_me = me, cf_vc = vc, cf_mems = []\<rparr>))"

definition config_restore :: "string \<Rightarrow> config \<Rightarrow> config res" where
  "config_restore s c =
     rbind (acceptor_restore s (cf_acc c)) (\<lambda>a. Inr (reconstruct (c\<lparr>cf_acc := a\<rparr>)))"

definition config_dump :: "config \<Rightarrow> string" where
  "config_dump c = acceptor_dump (cf_acc c)"

text \<open>
  The upcall of the acceptor: the handles of nodes that left are deleted.  The last component
  is set when \<open>commit_change\<close> of the upper layer is called (with the mutex released).
\<close>

fun delete_gone :: "string \<Rightarrow> string list \<Rightarrow> string list \<Rightarrow> handle_mgr \<Rightarrow> handle_mgr" where
  "delete_gone me newmem [] hm = hm"
| "delete_gone me newmem (x # xs) hm =
     delete_gone me newmem xs (if \<not> isamember x newmem \<and> me \<noteq> x then delete_handle x hm else hm)"

definition paxos_commit :: "u32 \<Rightarrow> string \<Rightarrow> config \<Rightarrow> handle_mgr \<Rightarrow> config \<times> handle_mgr \<times> bool" where
  "paxos_commit i v c hm =
     (let newmem = members v; hm = delete_gone (cf_me c) newmem (cf_mems c) hm
      in (c\<lparr>cf_mems := newmem, cf_myvid := i\<rparr>, hm, cf_vc c))"

definition ismember :: "string \<Rightarrow> config \<Rightarrow> bool" where
  "ismember m c = isamember m (cf_mems c)"

definition get_curview :: "config \<Rightarrow> string list \<times> config" where
  "get_curview c = get_view (cf_myvid c) c"

definition get_prevview :: "config \<Rightarrow> string list \<times> config" where
  "get_prevview c = get_view (cf_myvid c - 1) c"

definition print_curview :: "config \<Rightarrow> string" where
  "print_curview c = print_members (cf_mems c)"

text \<open>
  A proposal runs the proposer for the next instance over the current members.  When a node
  reports the instance as decided, the value is committed here, which makes the upcall in the
  third component; otherwise nodes learn from the decide requests.
\<close>

definition config_run ::
  "string \<Rightarrow> (string \<Rightarrow> prepareres option) \<Rightarrow> (string \<Rightarrow> u32 option) \<Rightarrow> config \<Rightarrow>
   config \<times> run_result \<times> (u32 \<times> string) option" where
  "config_run v preps accs c =
     (let (p, res) = proposer_run (cf_mems c) v (ac_n_h (cf_acc c)) preps accs (cf_pro c);
          c = c\<lparr>cf_pro := p\<rparr>
      in (case res of
            OldInstance w \<Rightarrow>
              (let (a, up) = acceptor_commit (cf_myvid c + 1) w (cf_acc c) in (c\<lparr>cf_acc := a\<rparr>, res, up))
          | _ \<Rightarrow> (c, res, None)))"

definition add_value :: "string \<Rightarrow> string list \<Rightarrow> string" where
  "add_value m mems = config_value (mems @ [m])"

definition remove_value :: "string \<Rightarrow> string list \<Rightarrow> string" where
  "remove_value m mems = config_value (filter (\<lambda>x. x \<noteq> m) mems)"

definition run_ok :: "run_result \<Rightarrow> bool" where
  "run_ok r = (case r of Decided _ _ \<Rightarrow> True | _ \<Rightarrow> False)"

definition config_add ::
  "string \<Rightarrow> (string \<Rightarrow> prepareres option) \<Rightarrow> (string \<Rightarrow> u32 option) \<Rightarrow> config \<Rightarrow>
   config \<times> run_result \<times> (u32 \<times> string) option" where
  "config_add m preps accs c = config_run (add_value m (cf_mems c)) preps accs c"

definition remove_wo ::
  "string \<Rightarrow> (string \<Rightarrow> prepareres option) \<Rightarrow> (string \<Rightarrow> u32 option) \<Rightarrow> config \<Rightarrow>
   config \<times> run_result \<times> (u32 \<times> string) option" where
  "remove_wo m preps accs c = config_run (remove_value m (cf_mems c)) preps accs c"

section \<open>Heartbeats\<close>

datatype heartbeat_t = HB_OK | HB_VIEWERR | HB_FAILURE

text \<open>The handler; the second component is the reply \<open>r\<close>.\<close>

definition config_heartbeat :: "u32 \<Rightarrow> config \<Rightarrow> (paxos_status \<times> u32) res" where
  "config_heartbeat vid c =
     (if vid = cf_myvid c then Inr (POK, cf_myvid c)
      else if isrunning (cf_pro c) then
        (if vid = cf_myvid c + 1 \<or> vid + 1 = cf_myvid c then Inr (POK, cf_myvid c)
         else Inl AssertFail)
      else Inr (PERR, cf_myvid c))"

text \<open>
  \<open>doheartbeat\<close> is split at its RPC.  \<open>bindret\<close> is the result of binding a new client, \<open>ret\<close>
  the result of the call.
\<close>

definition doheartbeat_begin :: "string \<Rightarrow> int \<Rightarrow> handle_mgr \<Rightarrow> handle_mgr \<times> nat option" where
  "doheartbeat_begin m bindret hm = get_handle m bindret hm"

definition doheartbeat_end :: "string \<Rightarrow> nat option \<Rightarrow> int \<Rightarrow> handle_mgr \<Rightarrow> (heartbeat_t \<times> handle_mgr) res" where
  "doheartbeat_end m h ret hm =
     (let ret = (if h = None then rpc_timeout_failure else ret);
          (res, hm) =
            (if ret \<noteq> 0 then
               (if ret = rpc_atmostonce_failure \<or> ret = rpc_oldsrv_failure then (HB_OK, delete_handle m hm)
                else (if ret < 0 then HB_FAILURE else HB_VIEWERR, hm))
             else (HB_OK, hm))
      in rbind (handle_dtor h hm) (\<lambda>hm. Inr (res, hm)))"

text \<open>
  One turn of the heartbeat thread: whom to remove, if anybody.  \<open>hb\<close> gives the results of
  \<open>doheartbeat\<close>; the member list is the one at the start of the turn.
\<close>

fun smallest :: "string \<Rightarrow> string list \<Rightarrow> string" where
  "smallest m [] = m"
| "smallest m (x # xs) = smallest (if m > x then x else m) xs"

fun ping :: "(string \<Rightarrow> heartbeat_t) \<Rightarrow> string \<Rightarrow> string list \<Rightarrow> string option" where
  "ping hb me [] = None"
| "ping hb me (x # xs) = (if x \<noteq> me \<and> hb x \<noteq> HB_OK then Some x else ping hb me xs)"

definition heartbeater :: "(string \<Rightarrow> heartbeat_t) \<Rightarrow> config \<Rightarrow> string option" where
  "heartbeater hb c =
     (if \<not> isamember (cf_me c) (cf_mems c) then None
      else (let m = smallest (cf_me c) (cf_mems c)
            in if m = cf_me c then ping hb (cf_me c) (cf_mems c)
               else if hb m \<noteq> HB_OK then Some m else None))"

lemma smallest_props:
  "smallest m xs \<in> insert m (set xs) \<and> (\<forall>x \<in> insert m (set xs). smallest m xs \<le> x)"
proof (induction xs arbitrary: m)
  case (Cons x xs)
  show ?case using Cons.IH [of "if m > x then x else m"]
    by (cases "m > x") (auto simp: not_less intro: less_imp_le order_trans)
qed simp

lemma ping_Some: "ping hb me xs = Some m \<Longrightarrow> m \<in> set xs \<and> m \<noteq> me \<and> hb m \<noteq> HB_OK"
  by (induction xs) (auto split: if_splits)

lemma ping_None: "ping hb me xs = None \<longleftrightarrow> (\<forall>x \<in> set xs. x \<noteq> me \<longrightarrow> hb x = HB_OK)"
  by (induction xs) auto

text \<open>
  A turn of the heartbeat thread of a member removes nobody exactly when the nodes it watches
  answer (all others for the smallest member, the smallest member for the others); whom it
  removes is a member other than itself that did not answer, and the view it then proposes
  loses exactly that node and keeps the proposer.
\<close>

theorem heartbeater_removes_silent_member:
  assumes "\<forall>x \<in> set (cf_mems c). word_ok x" and "cf_me c \<in> set (cf_mems c)"
  shows "(heartbeater hb c = None \<longleftrightarrow>
      (if \<forall>x \<in> set (cf_mems c). cf_me c \<le> x
       then \<forall>x \<in> set (cf_mems c). x \<noteq> cf_me c \<longrightarrow> hb x = HB_OK
       else \<forall>x \<in> set (cf_mems c). (\<forall>y \<in> set (cf_mems c). x \<le> y) \<longrightarrow> hb x = HB_OK)) \<and>
    (\<forall>m. heartbeater hb c = Some m \<longrightarrow> m \<in> set (cf_mems c) \<and> m \<noteq> cf_me c \<and> hb m \<noteq> HB_OK \<and>
      set (members (remove_value m (cf_mems c))) = set (cf_mems c) - {m} \<and>
      cf_me c \<in> set (members (remove_value m (cf_mems c))))"
proof -
  let ?s = "smallest (cf_me c) (cf_mems c)"
  have s: "?s \<in> set (cf_mems c)" "\<forall>x \<in> set (cf_mems c). ?s \<le> x"
    using smallest_props [of "cf_me c" "cf_mems c"] assms(2) by (auto simp: insert_absorb)
  have me: "?s = cf_me c \<longleftrightarrow> (\<forall>x \<in> set (cf_mems c). cf_me c \<le> x)"
    using s assms(2) by (metis order_antisym)
  have uniq: "x = ?s" if "x \<in> set (cf_mems c)" "\<forall>y \<in> set (cf_mems c). x \<le> y" for x
    using s that by (meson order_antisym)
  have none: "heartbeater hb c = None \<longleftrightarrow>
      (if \<forall>x \<in> set (cf_mems c). cf_me c \<le> x
       then \<forall>x \<in> set (cf_mems c). x \<noteq> cf_me c \<longrightarrow> hb x = HB_OK
       else \<forall>x \<in> set (cf_mems c). (\<forall>y \<in> set (cf_mems c). x \<le> y) \<longrightarrow> hb x = HB_OK)"
  proof (cases "?s = cf_me c")
    case True
    then show ?thesis using me assms(2) by (simp add: heartbeater_def ping_None)
  next
    case False
    then have "heartbeater hb c = None \<longleftrightarrow> hb ?s = HB_OK"
      using assms(2) by (simp add: heartbeater_def Let_def)
    then show ?thesis using False me s uniq by metis
  qed
  have some: "m \<in> set (cf_mems c) \<and> m \<noteq> cf_me c \<and> hb m \<noteq> HB_OK" if "heartbeater hb c = Some m" for m
    using that assms(2) s(1) ping_Some [of hb "cf_me c" "cf_mems c" m]
    by (auto simp: heartbeater_def Let_def split: if_splits)
  have "members (remove_value m (cf_mems c)) = filter (\<lambda>x. x \<noteq> m) (cf_mems c)" for m
    unfolding remove_value_def by (rule members_value) (use assms(1) in simp)
  then show ?thesis using none some assms(2) by auto
qed

definition ex_config :: config where
  "ex_config = \<lparr>cf_acc = base ''3001'' [], cf_pro = proposer_new ''3001'' 0, cf_myvid = 2,
     cf_first = ''3001'', cf_me = ''3001'', cf_vc = True, cf_mems = [''3001'', ''3002'', ''3003'']\<rparr>"

lemma heartbeater_removes_silent_member_witness:
  "heartbeater (\<lambda>m. if m = ''3003'' then HB_FAILURE else HB_OK) ex_config = Some ''3003'' \<and>
   set (members (remove_value ''3003'' (cf_mems ex_config))) = {''3001'', ''3002''}"
proof -
  let ?hb = "\<lambda>m. if m = ''3003'' then HB_FAILURE else HB_OK"
  have w: "\<forall>x \<in> set (cf_mems ex_config). word_ok x" "cf_me ex_config \<in> set (cf_mems ex_config)"
    by (simp_all add: ex_config_def word_ok_digits)
  have h: "heartbeater ?hb ex_config = Some ''3003''" by code_simp
  show ?thesis
    using heartbeater_removes_silent_member [OF w, of ?hb] h by (auto simp: ex_config_def)
qed

text \<open>
  The heartbeat handler stops the program exactly when a node more than one view away asks
  while the proposer is running.
\<close>

theorem heartbeat_aborts_iff:
  "config_heartbeat vid c = Inl e \<longleftrightarrow>
    e = AssertFail \<and> isrunning (cf_pro c) \<and> vid \<notin> {cf_myvid c - 1, cf_myvid c, cf_myvid c + 1}"
  by (auto simp: config_heartbeat_def eq_diff_eq)

end
