(* ===== verification/ConfigViews.thy ===== *)
theory ConfigViews
  imports Config
begin

text \<open>
  Properties of the configuration module over time: one node with its acceptor, its proposer
  and the upcalls on their way; the state a joining node gets; and the views that the nodes of
  a Paxos instance see.
\<close>

section \<open>One node over time\<close>

text \<open>
  The list holds the commits whose upcall \<open>paxos_commit\<close> is still to come: the acceptor
  releases its mutex before it makes it.  With \<open>fifo\<close> the threads make them in the order of
  the commits.
\<close>

abbreviation upcalls :: "(u32 \<times> string) option \<Rightarrow> (u32 \<times> string) list" where
  "upcalls u \<equiv> (case u of None \<Rightarrow> [] | Some x \<Rightarrow> [x])"

inductive cf_reach :: "bool \<Rightarrow> string \<Rightarrow> string \<Rightarrow> config \<Rightarrow> (u32 \<times> string) list \<Rightarrow> bool"
  for fifo first me
where
  start: "line_ok me \<Longrightarrow> config_new first me vc [] n = Inr c \<Longrightarrow> cf_reach fifo first me c []"
| restart: "cf_reach fifo first me c ups \<Longrightarrow> config_new first me vc (ac_log (cf_acc c)) n = Inr d \<Longrightarrow>
    cf_reach fifo first me d []"
| prepare: "cf_reach fifo first me c ups \<Longrightarrow> word_ok (pt_m (pa_n x)) \<Longrightarrow>
    cf_reach fifo first me (c\<lparr>cf_acc := fst (handle_preparereq x r (cf_acc c))\<rparr>) ups"
| accept: "cf_reach fifo first me c ups \<Longrightarrow> word_ok (pt_m (aa_n y)) \<Longrightarrow> line_ok (aa_v y) \<Longrightarrow>
    cf_reach fifo first me (c\<lparr>cf_acc := fst (handle_acceptreq y (cf_acc c))\<rparr>) ups"
| decide: "cf_reach fifo first me c ups \<Longrightarrow> line_ok (da_v z) \<Longrightarrow>
    handle_decidereq z (cf_acc c) = (a, u, st) \<Longrightarrow>
    cf_reach fifo first me (c\<lparr>cf_acc := a\<rparr>) (ups @ upcalls u)"
| propose: "cf_reach fifo first me c ups \<Longrightarrow> \<forall>x r. preps x = Some r \<longrightarrow> line_ok (pr_v_a r) \<Longrightarrow>
    config_run v preps accs c = (d, res, u) \<Longrightarrow> cf_reach fifo first me d (ups @ upcalls u)"
| upcall: "cf_reach fifo first me c ups \<Longrightarrow> (i, v) \<in> set ups \<Longrightarrow> (fifo \<longrightarrow> hd ups = (i, v)) \<Longrightarrow>
    paxos_commit i v c hm = (d, hm', up) \<Longrightarrow> cf_reach fifo first me d (remove1 (i, v) ups)"
| view: "cf_reach fifo first me c ups \<Longrightarrow> get_view i c = (ms, d) \<Longrightarrow> cf_reach fifo first me d ups"

text \<open>The cached members are those of the view the node is in.\<close>

definition view_inv :: "bool \<Rightarrow> config \<Rightarrow> (u32 \<times> string) list \<Rightarrow> bool" where
  "view_inv fifo c ups \<longleftrightarrow> cf_myvid c \<le> ac_instance_h (cf_acc c) \<and>
     cf_mems c = members (value_of (cf_acc c) (cf_myvid c)) \<and> value_of (cf_acc c) 0 = [] \<and>
     (\<forall>(i, v) \<in> set ups. i \<le> ac_instance_h (cf_acc c) \<and> value_of (cf_acc c) i = v) \<and>
     (fifo \<longrightarrow> ac_instance_h (cf_acc c) = (if ups = [] then cf_myvid c else fst (last ups)))"

definition cf_inv :: "bool \<Rightarrow> string \<Rightarrow> string \<Rightarrow> config \<Rightarrow> (u32 \<times> string) list \<Rightarrow> bool" where
  "cf_inv fifo first me c ups \<longleftrightarrow> line_ok me \<and> ac_inv (me = first) me (cf_acc c) \<and> view_inv fifo c ups"

lemma get_view_simps:
  "fst (get_view i c) = members (value_of (cf_acc c) i)"
  "snd (get_view i c) = c\<lparr>cf_acc := snd (acceptor_value i (cf_acc c))\<rparr>"
  using value_of_acceptor_value(1) [of i "cf_acc c"] by (simp_all add: get_view_def split_def Let_def)

lemma reconstruct_simps:
  "cf_myvid (reconstruct c) =
     (if ac_instance_h (cf_acc c) > 0 then ac_instance_h (cf_acc c) else cf_myvid c)"
  "cf_mems (reconstruct c) = (if ac_instance_h (cf_acc c) > 0
     then members (value_of (cf_acc c) (ac_instance_h (cf_acc c))) else cf_mems c)"
  "value_of (cf_acc (reconstruct c)) = value_of (cf_acc c)"
  "ac_instance_h (cf_acc (reconstruct c)) = ac_instance_h (cf_acc c)"
  "ac_me (cf_acc (reconstruct c)) = ac_me (cf_acc c)"
  "ac_log (cf_acc (reconstruct c)) = ac_log (cf_acc c)"
  by (simp_all add: reconstruct_def split_def Let_def get_view_simps)

lemma logged_value [inv_intros]: "logged a \<Longrightarrow> logged (snd (acceptor_value i a))"
  by (erule logged_same) (auto simp: recovered_def)

lemma logged_reconstruct [inv_intros]: "logged (cf_acc c) \<Longrightarrow> logged (cf_acc (reconstruct c))"
  by (auto simp: reconstruct_def split_def Let_def get_view_simps intro: inv_intros)

lemma ac_inv_reconstruct: "ac_inv b me (cf_acc c) \<Longrightarrow> ac_inv b me (cf_acc (reconstruct c))"
  by (auto simp: ac_inv_def reconstruct_simps intro: inv_intros)

lemma cf_inv_started:
  assumes "ac_inv (me = first) me a" and "value_of a 0 = []" and "line_ok me"
  shows "cf_inv fifo first me (reconstruct \<lparr>cf_acc = a, cf_pro = p, cf_myvid = 0, cf_first = first,
    cf_me = me, cf_vc = vc, cf_mems = []\<rparr>) []"
proof -
  let ?c = "\<lparr>cf_acc = a, cf_pro = p, cf_myvid = 0, cf_first = first, cf_me = me, cf_vc = vc, cf_mems = []\<rparr>"
  have "ac_inv (me = first) me (cf_acc (reconstruct ?c))"
    using assms(1) by (intro ac_inv_reconstruct) simp
  moreover have "view_inv fifo (reconstruct ?c) []"
    using assms(2) by (simp add: view_inv_def reconstruct_simps word_gt_0)
  ultimately show ?thesis using assms(3) by (simp add: cf_inv_def)
qed

text \<open>A step of the acceptor, with the upcall it makes.\<close>

lemma cf_inv_acceptor:
  assumes "cf_inv fifo first me c ups" and "ac_inv (me = first) me a"
    and "(u = None \<and> value_of a = value_of (cf_acc c) \<and> ac_instance_h a = ac_instance_h (cf_acc c)) \<or>
      (\<exists>i v. u = Some (i, v) \<and> ac_instance_h (cf_acc c) < i \<and> ac_instance_h a = i \<and>
        value_of a = (value_of (cf_acc c))(i := v))"
  shows "cf_inv fifo first me (c\<lparr>cf_acc := a\<rparr>) (ups @ upcalls u)"
proof (cases u)
  case None
  then show ?thesis using assms by (auto simp: cf_inv_def view_inv_def)
next
  case (Some x)
  then obtain i v where u: "u = Some (i, v)" "ac_instance_h (cf_acc c) < i" "ac_instance_h a = i"
      "value_of a = (value_of (cf_acc c))(i := v)"
    using assms(3) by auto
  have v: "view_inv fifo c ups" using assms(1) by (simp add: cf_inv_def)
  have "cf_myvid c < i" "i \<noteq> 0" using v u(2) word_not_simps(1) by (auto simp: view_inv_def)
  moreover have "\<forall>(j, w) \<in> set ups. j < i \<and> value_of (cf_acc c) j = w"
    using v u(2) by (auto simp: view_inv_def)
  ultimately have "view_inv fifo (c\<lparr>cf_acc := a\<rparr>) (ups @ upcalls u)"
    using v u by (auto simp: view_inv_def)
  then show ?thesis using assms by (simp add: cf_inv_def)
qed

lemma commit_effect:
  "acceptor_commit i v s = (a, u) \<Longrightarrow>
    (u = None \<and> value_of a = value_of s \<and> ac_instance_h a = ac_instance_h s) \<or>
    (\<exists>j w. u = Some (j, w) \<and> ac_instance_h s < j \<and> ac_instance_h a = j \<and>
       value_of a = (value_of s)(j := w))"
  by (auto simp: acceptor_commit_def commit_wo_def loginstance_def Let_def split: if_splits)

lemma ac_inv_commit: "ac_inv b me s \<Longrightarrow> line_ok v \<Longrightarrow> ac_inv b me (fst (acceptor_commit i v s))"
  by (auto simp: ac_inv_def max_u32_nonzero intro: inv_intros)

lemma prepare_loop_old:
  "prepare_loop replies nodes acc = Inl v \<Longrightarrow> \<exists>x r. replies x = Some r \<and> pr_v_a r = v"
proof (induction nodes arbitrary: acc)
  case (Cons x nodes)
  then show ?case
    by (cases "prepare_reply x (replies x) acc")
      (auto simp: prepare_reply_def split: option.splits prod.splits if_splits)
qed simp

lemma run_old_instance:
  assumes "proposer_run nodes v n_h preps accs p = (q, OldInstance w)"
  shows "\<exists>x r. preps x = Some r \<and> pr_v_a r = w"
proof -
  have "proposer_prepare preps nodes = Inl w"
    using assms by (auto simp: proposer_run_def Let_def setn_def split: sum.splits if_splits)
  then have "prepare_loop preps nodes ([], Prop 0 [], []) = Inl w"
    by (cases "prepare_loop preps nodes ([], Prop 0 [], [])") (auto simp: proposer_prepare_def)
  then show ?thesis by (rule prepare_loop_old)
qed

lemma config_run_effect:
  assumes "config_run v preps accs c = (d, res, u)"
  shows "(\<exists>q. d = c\<lparr>cf_pro := q\<rparr> \<and> u = None) \<or>
    (\<exists>q w a x r. d = c\<lparr>cf_pro := q, cf_acc := a\<rparr> \<and> acceptor_commit (cf_myvid c + 1) w (cf_acc c) = (a, u) \<and>
       preps x = Some r \<and> pr_v_a r = w)"
proof -
  obtain q r where run: "proposer_run (cf_mems c) v (ac_n_h (cf_acc c)) preps accs (cf_pro c) = (q, r)"
    by fastforce
  show ?thesis
  proof (cases r)
    case (OldInstance w)
    obtain a u' where a: "acceptor_commit (cf_myvid c + 1) w (cf_acc c) = (a, u')" by fastforce
    have "d = c\<lparr>cf_pro := q, cf_acc := a\<rparr>" "u = u'"
      using assms run OldInstance a by (simp_all add: config_run_def)
    then show ?thesis using a run_old_instance [OF run [unfolded OldInstance]] by blast
  qed (use assms run in \<open>auto simp: config_run_def\<close>)
qed

lemma handlers_value:
  "value_of (fst (handle_preparereq x r a)) = value_of a"
  "value_of (fst (handle_acceptreq y a)) = value_of a"
  by (auto simp: handle_preparereq_def handle_acceptreq_def loghigh_def logprop_def split_def Let_def)

lemma cf_inv_upcall:
  assumes inv: "cf_inv fifo first me c ups" and up: "(i, v) \<in> set ups" "fifo \<longrightarrow> hd ups = (i, v)"
  shows "cf_inv fifo first me (c\<lparr>cf_mems := members v, cf_myvid := i\<rparr>) (remove1 (i, v) ups)"
proof -
  have v: "view_inv fifo c ups" using inv by (simp add: cf_inv_def)
  have last: "ac_instance_h (cf_acc c) = (if remove1 (i, v) ups = [] then i else fst (last (remove1 (i, v) ups)))"
    if f: fifo
  proof -
    obtain r where r: "ups = (i, v) # r" using up f by (cases ups) auto
    then show ?thesis using v f by (auto simp: view_inv_def)
  qed
  have "view_inv fifo (c\<lparr>cf_mems := members v, cf_myvid := i\<rparr>) (remove1 (i, v) ups)"
    using v up last set_remove1_subset [of "(i, v)" ups] by (auto simp: view_inv_def)
  then show ?thesis using inv by (simp add: cf_inv_def)
qed

lemma value_of_base [simp]: "value_of (base me f) i = []"
  by (simp add: value_of_def base_def)

lemma fresh_acceptor:
  assumes "acceptor_new first me v [] = Inr a" and "line_ok v"
  shows "ac_inv first me a \<and> value_of a 0 = []"
proof -
  have l: "logread (base me []) = Inr (base me [])"
    by (simp add: logread_def base_def logread_loop.simps in_word_def)
  have a: "a = (if first then (loginstance 1 v ((base me [])\<lparr>ac_values := (ac_values (base me []))(1 \<mapsto> v)\<rparr>))
      \<lparr>ac_instance_h := 1\<rparr> else base me [])"
    using assms(1) unfolding acceptor_new_base l by (simp add: base_simps)
  show ?thesis
  proof (cases first)
    case True
    then show ?thesis using logged_first [OF assms(2), of me] unfolding a
      by (simp add: ac_inv_def loginstance_def value_of_def base_def)
  next
    case False
    then show ?thesis using logged_base [of me] unfolding a by (simp add: ac_inv_def base_simps)
  qed
qed

lemma cf_reach_inv: "cf_reach fifo first me c ups \<Longrightarrow> cf_inv fifo first me c ups"
proof (induction rule: cf_reach.induct)
  case (start vc n c)
  then obtain a where a: "acceptor_new (me = first) me me [] = Inr a"
    "c = reconstruct \<lparr>cf_acc = a, cf_pro = proposer_new me n, cf_myvid = 0, cf_first = first,
       cf_me = me, cf_vc = vc, cf_mems = []\<rparr>"
    by (auto simp: config_new_def rbind_eq_Inr_iff)
  then show ?case using fresh_acceptor [OF a(1) start(1)] start(1) cf_inv_started by simp
next
  case (restart c ups vc n d)
  have inv: "ac_inv (me = first) me (cf_acc c)" "line_ok me" "value_of (cf_acc c) 0 = []"
    using restart.IH by (auto simp: cf_inv_def view_inv_def)
  obtain b where b: "acceptor_new (me = first) me me (ac_log (cf_acc c)) = Inr b" "recovered b (cf_acc c)"
    "ac_inv (me = first) me b"
    using acceptor_new_logged [OF inv(1)] by blast
  then have "value_of b 0 = []" using inv(3) by (simp add: recovered_def)
  moreover have "d = reconstruct \<lparr>cf_acc = b, cf_pro = proposer_new me n, cf_myvid = 0, cf_first = first,
      cf_me = me, cf_vc = vc, cf_mems = []\<rparr>"
    using restart.hyps(2) b(1) by (simp add: config_new_def)
  ultimately show ?case using cf_inv_started [OF b(3) _ inv(2)] by simp
next
  case (prepare c ups x r)
  then have "ac_inv (me = first) me (fst (handle_preparereq x r (cf_acc c)))"
    by (auto simp: cf_inv_def ac_inv_def intro: inv_intros)
  then show ?case using cf_inv_acceptor [OF prepare.IH, of _ None] by (simp add: handlers_value)
next
  case (accept c ups y)
  then have "ac_inv (me = first) me (fst (handle_acceptreq y (cf_acc c)))"
    by (auto simp: cf_inv_def ac_inv_def intro: inv_intros)
  then show ?case using cf_inv_acceptor [OF accept.IH, of _ None] by (simp add: handlers_value)
next
  case (decide c ups z a u st)
  then have cm: "acceptor_commit (da_instance z) (da_v z) (cf_acc c) = (a, u)"
    by (auto simp: handle_decidereq_def split: prod.splits)
  then have "ac_inv (me = first) me a"
    using decide ac_inv_commit [of "me = first" me "cf_acc c" "da_v z" "da_instance z"]
    by (simp add: cf_inv_def)
  then show ?case using cf_inv_acceptor [OF decide.IH _ commit_effect [OF cm]] by simp
next
  case (propose c ups preps v accs d res u)
  consider (same) q where "d = c\<lparr>cf_pro := q\<rparr>" "u = None"
    | (commit) q w a x r where "d = c\<lparr>cf_pro := q, cf_acc := a\<rparr>"
        "acceptor_commit (cf_myvid c + 1) w (cf_acc c) = (a, u)" "preps x = Some r" "pr_v_a r = w"
    using config_run_effect [OF propose.hyps(3)] by blast
  then show ?case
  proof cases
    case same
    then show ?thesis using propose.IH by (simp add: cf_inv_def view_inv_def)
  next
    case commit
    have "line_ok w" using propose.hyps(2) commit(3,4) by blast
    then have "ac_inv (me = first) me (fst (acceptor_commit (cf_myvid c + 1) w (cf_acc c)))"
      using propose.IH by (intro ac_inv_commit) (simp_all add: cf_inv_def)
    then have "ac_inv (me = first) me a" by (simp add: commit(2))
    from cf_inv_acceptor [OF propose.IH this commit_effect [OF commit(2)]]
    show ?thesis unfolding commit(1) by (simp add: cf_inv_def view_inv_def)
  qed
next
  case (upcall c ups i v hm d hm' up)
  then have "d = c\<lparr>cf_mems := members v, cf_myvid := i\<rparr>" by (auto simp: paxos_commit_def Let_def)
  then show ?case using cf_inv_upcall [OF upcall.IH upcall.hyps(2,3)] by simp
next
  case (view c ups i ms d)
  have "d = c\<lparr>cf_acc := snd (acceptor_value i (cf_acc c))\<rparr>"
    using view.hyps(2) get_view_simps(2) [of i c] by simp
  moreover have "ac_inv (me = first) me (snd (acceptor_value i (cf_acc c)))"
    using view.IH by (auto simp: cf_inv_def ac_inv_def intro: inv_intros)
  ultimately show ?case using cf_inv_acceptor [OF view.IH, of _ None] by simp
qed


definition ex_first :: "bool \<Rightarrow> config" where
  "ex_first vc = projr (config_new ''3001'' ''3001'' vc [] 0)"

lemma ex_first_new: "config_new ''3001'' ''3001'' vc [] 0 = Inr (ex_first vc)"
proof -
  have "logread (base ''3001'' []) = Inr (base ''3001'' [])"
    by (simp add: logread_def base_def logread_loop.simps in_word_def)
  then show ?thesis by (simp add: ex_first_def config_new_def acceptor_new_base base_simps)
qed

lemma ex_first_value: "ac_instance_h (cf_acc (ex_first vc)) = 1 \<and> value_of (cf_acc (ex_first vc)) 1 = ''3001''"
proof -
  have l: "logread (base ''3001'' []) = Inr (base ''3001'' [])"
    by (simp add: logread_def base_def logread_loop.simps in_word_def)
  show ?thesis unfolding ex_first_def config_new_def acceptor_new_base l
    by (simp add: reconstruct_simps base_simps loginstance_def)
qed

lemma line_ok_3001: "line_ok ''3001''"
  by (simp add: line_ok_def newline_def)

lemma ex_first_reach: "cf_reach fifo ''3001'' ''3001'' (ex_first vc) []"
  by (rule cf_reach.start [OF line_ok_3001 ex_first_new])


text \<open>
  Without that order a node can fall back: when the upcalls of two commits change places, the
  node stays in the earlier view although its log holds the later one.
\<close>

lemma late_commit:
  assumes "cf_reach fifo first me c ups" and "line_ok v" and "ac_instance_h (cf_acc c) < i"
  shows "\<exists>a. cf_reach fifo first me (c\<lparr>cf_acc := a\<rparr>) (ups @ [(i, v)]) \<and> ac_instance_h a = i"
proof -
  have "handle_decidereq (Decidearg i v) (cf_acc c) =
      (fst (acceptor_commit i v (cf_acc c)), Some (i, v), POK)"
    using assms(3) by (simp add: handle_decidereq_def acceptor_commit_def commit_wo_def Let_def)
  from cf_reach.decide [OF assms(1) _ this] show ?thesis
    using assms(2,3)
    by (intro exI [of _ "fst (acceptor_commit i v (cf_acc c))"]) (simp add: max_absorb1 less_imp_le)
qed

theorem late_upcall_falls_back:
  "\<exists>c. cf_reach False ''3001'' ''3001'' c [] \<and> cf_myvid c = 2 \<and> ac_instance_h (cf_acc c) = 3"
proof -
  let ?r = "cf_reach False ''3001'' ''3001''" and ?c = "ex_first True"
  have l: "line_ok ''3001 3002 ''" by (simp add: line_ok_def newline_def)
  obtain a where a: "?r (?c\<lparr>cf_acc := a\<rparr>) [(2, ''3001 3002 '')]" "ac_instance_h a = 2"
    using late_commit [OF ex_first_reach [of False True] l, of 2] ex_first_value [of True]
    by (auto simp: word_less_nat_alt)
  then obtain b where b: "?r (?c\<lparr>cf_acc := b\<rparr>) [(2, ''3001 3002 ''), (3, ''3001'')]" "ac_instance_h b = 3"
    using late_commit [OF a(1) line_ok_3001, of 3] by (auto simp: word_less_nat_alt)
  have up: "\<exists>d hm' u. paxos_commit i v c hm = (d, hm', u) \<and> cf_acc d = cf_acc c \<and> cf_myvid d = i" for i v c hm
    by (simp add: paxos_commit_def Let_def)
  obtain d hm' u where d: "paxos_commit 3 ''3001'' (?c\<lparr>cf_acc := b\<rparr>) handle_mgr_new = (d, hm', u)" "cf_acc d = b"
    using up [of 3 "''3001''" "?c\<lparr>cf_acc := b\<rparr>" handle_mgr_new] by auto
  have r: "?r d [(2, ''3001 3002 '')]" using cf_reach.upcall [OF b(1) _ _ d(1)] by simp
  obtain e hm'' u' where e: "paxos_commit 2 ''3001 3002 '' d handle_mgr_new = (e, hm'', u')" "cf_acc e = b" "cf_myvid e = 2"
    using up [of 2 "''3001 3002 ''" d handle_mgr_new] d(2) by auto
  have "?r e []" using cf_reach.upcall [OF r _ _ e(1)] by simp
  then show ?thesis using e b(2) by blast
qed

section \<open>Joining\<close>

lemma dump_lines_line: "newline \<notin> set xs \<Longrightarrow> dump_lines (xs @ newline # r) = xs @ newline # dump_lines r"
proof -
  assume "newline \<notin> set xs"
  then have x: "\<forall>x \<in> set xs. x \<noteq> newline" by auto
  obtain c t where t: "xs @ newline # r = c # t" by (cases xs) auto
  then have "dump_lines (xs @ newline # r) = takeWhile (\<lambda>c. c \<noteq> newline) (xs @ newline # r) @ [newline] @
      dump_lines (drop 1 (dropWhile (\<lambda>c. c \<noteq> newline) (xs @ newline # r)))"
    by (simp only: dump_lines.simps)
  then show ?thesis using takeWhile_until [OF x, of newline r] by simp
qed

lemma show_word_line: "newline \<notin> set (show_word w)"
  using show_nat_props [of "unat w"] is_space_newline(2) by (auto simp: show_word_def)

lemma word_ok_line: "word_ok m \<Longrightarrow> newline \<notin> set m"
  using is_space_newline(1) by (auto simp: word_ok_def)

lemma newline_tags: "newline \<notin> set ''done''" "newline \<notin> set ''high''" "newline \<notin> set ''prop''" "newline \<noteq> CHR '' ''"
  by (simp_all add: newline_def)

lemma show_rec_line: "rec_ok r \<Longrightarrow> \<exists>xs. newline \<notin> set xs \<and> show_rec r = xs @ [newline]"
  using show_word_line newline_tags
  by (cases r) (auto simp: word_ok_line line_ok_def)

lemma dump_records: "\<forall>r \<in> set rs. rec_ok r \<Longrightarrow> dump_lines (concat (map show_rec rs)) = concat (map show_rec rs)"
proof (induction rs)
  case (Cons r rs)
  obtain xs where "newline \<notin> set xs" "show_rec r = xs @ [newline]" using show_rec_line Cons.prems by auto
  then show ?case using Cons dump_lines_line [of xs "concat (map show_rec rs)"] by simp
qed simp

text \<open>Replaying a log with a decided instance fixes everything but older values.\<close>

definition decides :: "log_rec list \<Rightarrow> bool" where
  "decides rs \<longleftrightarrow> (\<exists>i v. Done i v \<in> set rs)"

definition same_state :: "acceptor \<Rightarrow> acceptor \<Rightarrow> bool" where
  "same_state a b \<longleftrightarrow> ac_instance_h a = ac_instance_h b \<and> ac_v_a a = ac_v_a b \<and>
     prop_sim (ac_n_h a) (ac_n_h b) \<and> prop_sim (ac_n_a a) (ac_n_a b)"

lemma replay_same_state:
  "decides rs \<Longrightarrow> same_state (fold apply_rec rs x) (fold apply_rec rs y)"
proof (induction rs rule: rev_induct)
  case (snoc r rs)
  then show ?case by (cases r) (auto simp: decides_def same_state_def prop_sim_def)
qed (simp add: decides_def)

lemma replay_values:
  "ac_values (fold apply_rec rs x) = ac_values x ++ ac_values (fold apply_rec rs (base me f))"
proof (induction rs rule: rev_induct)
  case (snoc r rs)
  then show ?case
    by (cases r) (simp_all add: fun_eq_iff map_add_def)
qed (simp add: base_def)

lemma replay_no_instance: "\<not> decides rs \<Longrightarrow> ac_instance_h (fold apply_rec rs (base me f)) = 0"
proof (induction rs rule: rev_induct)
  case (snoc r rs)
  then show ?case by (cases r) (auto simp: decides_def)
qed (simp add: base_def)

lemma restore_dump:
  assumes "logged a" and "ac_instance_h a \<noteq> 0"
  shows "\<exists>b. acceptor_restore (acceptor_dump a) x = Inr b \<and> same_state b a \<and>
    (\<forall>i. value_of a i \<noteq> [] \<longrightarrow> value_of b i = value_of a i)"
proof -
  obtain rs where rs: "\<forall>r \<in> set rs. rec_ok r" "ac_log a = concat (map show_rec rs)"
    "recovered (fold apply_rec rs (base (ac_me a) (ac_log a))) a"
    using assms(1) by (auto simp: logged_def)
  let ?y = "fold apply_rec rs (base (ac_me a) (ac_log a))"
  let ?b = "fold apply_rec rs (x\<lparr>ac_log := acceptor_dump a\<rparr>)"
  have "acceptor_dump a = concat (map show_rec rs)" using dump_records [OF rs(1)] rs(2) by (simp add: acceptor_dump_def)
  then have b: "acceptor_restore (acceptor_dump a) x = Inr ?b"
    using logread_loop_records [of "[]" rs "x\<lparr>ac_log := acceptor_dump a\<rparr>"] rs(1)
    by (simp add: acceptor_restore_def logread_def)
  have "ac_instance_h ?y \<noteq> 0" using rs(3) assms(2) by (simp add: recovered_def)
  then have "decides rs" using replay_no_instance by blast
  then have "same_state ?b ?y" by (rule replay_same_state)
  then have st: "same_state ?b a" using rs(3) by (auto simp: same_state_def recovered_def prop_sim_def)
  have "value_of ?b i = value_of a i" if ne: "value_of a i \<noteq> []" for i
  proof -
    have "value_of ?y i = value_of a i" using rs(3) by (simp add: recovered_def)
    then obtain v where "ac_values ?y i = Some v" "v = value_of a i"
      using ne by (cases "ac_values ?y i") (auto simp: value_of_def [of ?y])
    then show ?thesis using replay_values [of rs "x\<lparr>ac_log := acceptor_dump a\<rparr>" "ac_me a" "ac_log a"]
      by (simp add: value_of_def)
  qed
  then show ?thesis using b st by blast
qed

text \<open>
  A node that joins restores the log its donor dumps.  Whatever the node knew before, it is
  then in the donor's last decided view, and it knows every view the donor knows.
\<close>

theorem join_transfers_views:
  assumes "cf_reach fifo first me donor ups" and "ac_instance_h (cf_acc donor) \<noteq> 0"
    and "value_of (cf_acc donor) (ac_instance_h (cf_acc donor)) \<noteq> []"
  shows "\<exists>c. config_restore (config_dump donor) joiner = Inr c \<and>
    cf_myvid c = ac_instance_h (cf_acc donor) \<and> fst (get_curview c) = cf_mems c \<and>
    cf_mems c = fst (get_view (ac_instance_h (cf_acc donor)) donor) \<and>
    (\<forall>i. fst (get_view i donor) \<noteq> [] \<longrightarrow> fst (get_view i c) = fst (get_view i donor))"
proof -
  have "logged (cf_acc donor)" using cf_reach_inv [OF assms(1)] by (simp add: cf_inv_def ac_inv_def)
  from restore_dump [OF this assms(2)] obtain b where
    b: "acceptor_restore (acceptor_dump (cf_acc donor)) (cf_acc joiner) = Inr b" "same_state b (cf_acc donor)"
      "\<And>i. value_of (cf_acc donor) i \<noteq> [] \<Longrightarrow> value_of b i = value_of (cf_acc donor) i"
    by blast
  let ?c = "reconstruct (joiner\<lparr>cf_acc := b\<rparr>)"
  have inst: "ac_instance_h b = ac_instance_h (cf_acc donor)" "ac_instance_h b > 0"
    using b(2) assms(2) by (simp_all add: same_state_def word_gt_0)
  have "fst (get_view i ?c) = fst (get_view i donor)" if "fst (get_view i donor) \<noteq> []" for i
  proof -
    have "value_of (cf_acc donor) i \<noteq> []" using that by (auto simp: get_view_simps)
    then show ?thesis using b(3) [of i] by (simp add: get_view_simps reconstruct_simps)
  qed
  then show ?thesis
    using b inst assms(3)
    by (simp add: config_restore_def config_dump_def get_curview_def get_view_simps reconstruct_simps)
qed

lemma join_transfers_views_witness:
  "\<exists>c. config_restore (config_dump (ex_first True)) ex_config = Inr c \<and> cf_myvid c = 1 \<and>
    cf_mems c = [''3001'']"
  using join_transfers_views [OF ex_first_reach [of True True], of ex_config] ex_first_value [of True]
    members_word [OF word_ok_digits(1)]
  by (auto simp: get_view_simps)

section \<open>The views of an instance\<close>

lemma chosen_started: "px_inv i nodes s \<Longrightarrow> chosen nodes s w \<Longrightarrow> w \<in> sy_started s"
  using asked_nonempty [of nodes s] by (auto simp: px_inv_def chosen_def)



end
