(* ===== verification/Rsm.thy ===== *)
theory Rsm
  imports ConfigViews
begin

text \<open>
  The replicated state machine module (\<open>rsm.cc\<close>): it picks the primary of each view, lets nodes
  join, and answers the clients' question for the members.  Replication itself is a stub in this
  code, and modelled as one.
\<close>

section \<open>The state\<close>

text \<open>\<open>rs_reachable\<close> is the reachability switch of the server \<open>rsmrpc\<close>.\<close>

record rsm =
  rs_cfg :: config
  rs_myvs :: viewstamp
  rs_last_myvs :: viewstamp
  rs_primary :: string
  rs_insync :: bool
  rs_inviewchange :: bool
  rs_nbackup :: u32
  rs_partitioned :: bool
  rs_dopartition :: bool
  rs_break1 :: bool
  rs_break2 :: bool
  rs_reachable :: bool

definition rsm_new :: "string \<Rightarrow> string \<Rightarrow> string \<Rightarrow> u32 \<Rightarrow> rsm res" where
  "rsm_new first me file n =
     rbind (config_new first me True file n) (\<lambda>c. Inr
       \<lparr>rs_cfg = c, rs_myvs = Viewstamp 0 1, rs_last_myvs = Viewstamp 0 0, rs_primary = first,
        rs_insync = False, rs_inviewchange = False, rs_nbackup = 0, rs_partitioned = False,
        rs_dopartition = False, rs_break1 = False, rs_break2 = False, rs_reachable = True\<rparr>)"

abbreviation rs_me :: "rsm \<Rightarrow> string" where
  "rs_me s \<equiv> cf_me (rs_cfg s)"

section \<open>View changes\<close>

fun first_member :: "string list \<Rightarrow> string list \<Rightarrow> string option" where
  "first_member c [] = None"
| "first_member c (x # p) = (if isamember x c then Some x else first_member c p)"

definition set_primary :: "rsm \<Rightarrow> rsm res" where
  "set_primary s =
     (let (c, cfg) = get_curview (rs_cfg s); (p, cfg) = get_prevview cfg; s = s\<lparr>rs_cfg := cfg\<rparr>
      in if \<not> length c > 0 then Inl AssertFail
         else if isamember (rs_primary s) c then Inr s
         else if \<not> length p > 0 then Inl AssertFail
         else (case first_member c p of Some x \<Rightarrow> Inr (s\<lparr>rs_primary := x\<rparr>) | None \<Rightarrow> Inl AssertFail))"

definition breakpoint1 :: "rsm \<Rightarrow> rsm res" where
  "breakpoint1 s = (if rs_break1 s then Inl Exit else Inr s)"

definition breakpoint2 :: "rsm \<Rightarrow> rsm res" where
  "breakpoint2 s = (if rs_break2 s then Inl Exit else Inr s)"

text \<open>
  The upcall of the configuration module.  \<open>insync\<close> is set from a number of backups; the
  recovery thread is signalled.
\<close>

definition commit_change :: "rsm \<Rightarrow> rsm res" where
  "commit_change s = rbind (set_primary s) (\<lambda>s.
     (let s = (if rs_me s = rs_primary s then
                 (let (c, cfg) = get_curview (rs_cfg s); vid = cf_myvid cfg
                  in s\<lparr>rs_cfg := cfg, rs_insync := (length c - 1 \<noteq> 0),
                       rs_last_myvs := Viewstamp vid (vs_seqno (rs_last_myvs s)),
                       rs_myvs := Viewstamp vid (vs_seqno (rs_myvs s))\<rparr>)
               else s)
      in if ismember (rs_me s) (rs_cfg s) then breakpoint2 s else Inr s))"

text \<open>A decide request as the whole node handles it, with the upcalls made at once.\<close>

definition rsm_paxos_commit :: "u32 \<Rightarrow> string \<Rightarrow> rsm \<Rightarrow> rsm res" where
  "rsm_paxos_commit i v s =
     (let (c, hm, up) = paxos_commit i v (rs_cfg s) handle_mgr_new; s = s\<lparr>rs_cfg := c\<rparr>
      in if up then commit_change s else Inr s)"

definition rsm_decidereq :: "decidearg \<Rightarrow> rsm \<Rightarrow> rsm res" where
  "rsm_decidereq z s =
     (let (a, up, st) = handle_decidereq z (cf_acc (rs_cfg s));
          s = s\<lparr>rs_cfg := (rs_cfg s)\<lparr>cf_acc := a\<rparr>\<rparr>
      in (case up of None \<Rightarrow> Inr s | Some (i, v) \<Rightarrow> rsm_paxos_commit i v s))"

section \<open>Joining\<close>

text \<open>
  \<open>have\<close> tells whether a client for the node was bound, \<open>ret\<close> is the result of the call and
  \<open>log\<close> its reply.
\<close>

definition rsm_join :: "bool \<Rightarrow> int \<Rightarrow> string \<Rightarrow> rsm \<Rightarrow> (bool \<times> rsm) res" where
  "rsm_join have_cl ret log s =
     (if \<not> have_cl \<or> ret \<noteq> 0 then Inr (False, s)
      else rbind (config_restore log (rs_cfg s)) (\<lambda>c. Inr (True, s\<lparr>rs_cfg := c\<rparr>)))"

text \<open>
  A turn of the recovery thread: it joins through the primary while it is not a member, waits
  30 seconds when that failed, and sleeps until it is signalled otherwise.  Its variable \<open>r\<close>
  stays false, so \<open>inviewchange\<close> is left alone.
\<close>

datatype recovery_next = RetryJoin | Sleep30 | AwaitSignal

definition recovery :: "bool \<Rightarrow> int \<Rightarrow> string \<Rightarrow> rsm \<Rightarrow> (recovery_next \<times> rsm) res" where
  "recovery have_cl ret log s =
     (if \<not> ismember (rs_me s) (rs_cfg s) then
        rbind (rsm_join have_cl ret log s) (\<lambda>(ok, s). Inr (if ok then RetryJoin else Sleep30, s))
      else (let r = False in Inr (AwaitSignal, if r then s\<lparr>rs_inviewchange := False\<rparr> else s)))"

text \<open>
  \<open>joinreq\<close> is split at \<open>cfg->add\<close>: the first part answers at once or asks for the node to be
  added, the second answers with what \<open>add\<close> returned and the log the node has then.
\<close>

definition joinreq_begin :: "string \<Rightarrow> rsm \<Rightarrow> (rsm_status \<times> joinres) option" where
  "joinreq_begin m s =
     (if ismember m (rs_cfg s) then Some (ROK, Joinres (config_dump (rs_cfg s)))
      else if rs_me s \<noteq> rs_primary s then Some (RBUSY, Joinres [])
      else None)"

definition joinreq_end :: "bool \<Rightarrow> rsm \<Rightarrow> rsm_status \<times> joinres" where
  "joinreq_end r s = (if r then (ROK, Joinres (config_dump (rs_cfg s))) else (RERR, Joinres []))"

definition client_members :: "rsm \<Rightarrow> (rsm_client_status \<times> string list) \<times> rsm" where
  "client_members s = (let (m, c) = get_curview (rs_cfg s)
     in ((COK, m @ [rs_primary s]), s\<lparr>rs_cfg := c\<rparr>))"

definition amiprimary_wo :: "rsm \<Rightarrow> bool" where
  "amiprimary_wo s \<longleftrightarrow> rs_primary s = rs_me s \<and> \<not> rs_inviewchange s"

definition amiprimary :: "rsm \<Rightarrow> bool" where
  "amiprimary s = amiprimary_wo s"

section \<open>Stubs\<close>

definition sync_with_backups :: "rsm \<Rightarrow> bool \<times> rsm" where "sync_with_backups s = (True, s)"
definition sync_with_primary :: "rsm \<Rightarrow> bool \<times> rsm" where "sync_with_primary s = (True, s)"
definition statetransfer :: "string \<Rightarrow> rsm \<Rightarrow> bool \<times> rsm" where "statetransfer m s = (True, s)"
definition statetransferdone :: "string \<Rightarrow> rsm \<Rightarrow> bool \<times> rsm" where "statetransferdone m s = (True, s)"

definition client_invoke :: "int \<Rightarrow> string \<Rightarrow> string \<Rightarrow> rsm \<Rightarrow> (rsm_client_status \<times> string) \<times> rsm" where
  "client_invoke procno req r s = ((COK, r), s)"

definition rsm_invoke :: "int \<Rightarrow> viewstamp \<Rightarrow> string \<Rightarrow> rsm \<Rightarrow> rsm_status \<times> rsm" where
  "rsm_invoke proc vs req s = (ROK, s)"

definition transferreq :: "string \<Rightarrow> viewstamp \<Rightarrow> transferres \<Rightarrow> rsm \<Rightarrow> (rsm_status \<times> transferres) \<times> rsm" where
  "transferreq src lastvs r s = ((ROK, r), s)"

definition transferdonereq :: "string \<Rightarrow> rsm \<Rightarrow> rsm_status \<times> rsm" where
  "transferdonereq m s = (ROK, s)"

section \<open>Testing interface\<close>

text \<open>The first component lists the nodes whose clients are switched to \<open>heal\<close>, if they can be bound.\<close>

definition net_repair_wo :: "bool \<Rightarrow> rsm \<Rightarrow> string list \<times> rsm" where
  "net_repair_wo heal s = (let (m, c) = get_curview (rs_cfg s)
     in (filter (\<lambda>x. x \<noteq> rs_me s) m, s\<lparr>rs_cfg := c, rs_reachable := heal\<rparr>))"

definition test_net_repairreq :: "int \<Rightarrow> rsm \<Rightarrow> (rsm_test_status \<times> string list) \<times> rsm" where
  "test_net_repairreq heal s =
     (if heal \<noteq> 0 then (let (xs, s) = net_repair_wo True s in ((TOK, xs), s\<lparr>rs_partitioned := False\<rparr>))
      else ((TOK, []), s\<lparr>rs_dopartition := True, rs_partitioned := False\<rparr>))"

definition partition1 :: "rsm \<Rightarrow> string list \<times> rsm" where
  "partition1 s =
     (if rs_dopartition s then (let (xs, s) = net_repair_wo False s
        in (xs, s\<lparr>rs_dopartition := False, rs_partitioned := True\<rparr>))
      else ([], s))"

definition breakpointreq :: "int \<Rightarrow> rsm \<Rightarrow> rsm_test_status \<times> rsm" where
  "breakpointreq b s =
     (if b = 1 then (TOK, s\<lparr>rs_break1 := True\<rparr>)
      else if b = 2 then (TOK, s\<lparr>rs_break2 := True\<rparr>)
      else if b = 3 \<or> b = 4 then
        (TOK, s\<lparr>rs_cfg := (rs_cfg s)\<lparr>cf_pro := breakpoint b (cf_pro (rs_cfg s))\<rparr>\<rparr>)
      else (TERR, s))"

section \<open>Choosing the primary\<close>

text \<open>The views \<open>set_primary\<close> consults, as lists.\<close>

definition cur_list :: "rsm \<Rightarrow> string list" where
  "cur_list s = members (value_of (cf_acc (rs_cfg s)) (cf_myvid (rs_cfg s)))"

definition prev_list :: "rsm \<Rightarrow> string list" where
  "prev_list s = members (value_of (cf_acc (rs_cfg s)) (cf_myvid (rs_cfg s) - 1))"

lemma first_member_None: "first_member c p = None \<longleftrightarrow> set p \<inter> set c = {}"
  by (induction p) auto

lemma first_member_Some:
  "first_member c p = Some x \<Longrightarrow> x \<in> set c \<and> (\<exists>q r. p = q @ x # r \<and> set q \<inter> set c = {})"
proof (induction p)
  case (Cons y p)
  show ?case
  proof (cases "y \<in> set c")
    case True
    then have "y = x" using Cons.prems by simp
    then show ?thesis using True by (intro conjI exI [of _ "[]"] exI [of _ p]) auto
  next
    case False
    then obtain q r where "p = q @ x # r" "set q \<inter> set c = {}" "x \<in> set c" using Cons by auto
    then have "x \<in> set c" "y # p = (y # q) @ x # r \<and> set (y # q) \<inter> set c = {}" using False by auto
    then show ?thesis by blast
  qed
qed simp

text \<open>Reading a view leaves everything as it is but for empty entries in the map of values.\<close>

definition same_config :: "config \<Rightarrow> config \<Rightarrow> bool" where
  "same_config c d \<longleftrightarrow> (\<exists>a. d = c\<lparr>cf_acc := a\<rparr> \<and> value_of a = value_of (cf_acc c) \<and>
     ac_instance_h a = ac_instance_h (cf_acc c) \<and> ac_me a = ac_me (cf_acc c) \<and>
     (logged (cf_acc c) \<longrightarrow> logged a))"

lemma same_config_refl [simp]: "same_config c c"
  unfolding same_config_def by (intro exI [of _ "cf_acc c"]) simp

lemma same_config_trans: "same_config c d \<Longrightarrow> same_config d e \<Longrightarrow> same_config c e"
  by (auto simp: same_config_def)

lemma same_config_view: "get_view i c = (m, d) \<Longrightarrow> same_config c d \<and> m = members (value_of (cf_acc c) i)"
  using get_view_simps [of i c] logged_value unfolding same_config_def
  by (intro conjI exI [of _ "snd (acceptor_value i (cf_acc c))"]) auto

lemma same_configD:
  assumes "same_config c d"
  shows "value_of (cf_acc d) = value_of (cf_acc c)" "ac_instance_h (cf_acc d) = ac_instance_h (cf_acc c)"
    "cf_myvid d = cf_myvid c" "cf_mems d = cf_mems c" "cf_me d = cf_me c" "cf_vc d = cf_vc c"
    "cf_pro d = cf_pro c" "ac_me (cf_acc d) = ac_me (cf_acc c)"
    "logged (cf_acc c) \<Longrightarrow> logged (cf_acc d)"
  using assms by (auto simp: same_config_def)

lemma set_primary_cases:
  "\<exists>c. same_config (rs_cfg s) c \<and> set_primary s =
    (if cur_list s = [] then Inl AssertFail
     else if rs_primary s \<in> set (cur_list s) then Inr (s\<lparr>rs_cfg := c\<rparr>)
     else (case first_member (cur_list s) (prev_list s) of
         Some x \<Rightarrow> Inr (s\<lparr>rs_cfg := c, rs_primary := x\<rparr>) | None \<Rightarrow> Inl AssertFail))"
proof -
  obtain m c where m: "get_curview (rs_cfg s) = (m, c)" by fastforce
  obtain p d where p: "get_prevview c = (p, d)" by fastforce
  have c: "same_config (rs_cfg s) c" "m = cur_list s"
    using same_config_view m by (auto simp: get_curview_def cur_list_def)
  have d: "same_config c d" "p = members (value_of (cf_acc c) (cf_myvid c - 1))"
    using same_config_view p by (auto simp: get_prevview_def)
  then have "p = prev_list s" using same_configD [OF c(1)] by (simp add: prev_list_def)
  moreover have "same_config (rs_cfg s) d" by (rule same_config_trans [OF c(1) d(1)])
  ultimately show ?thesis using m p c(2)
    by (intro exI [of _ d]) (auto simp: set_primary_def split: option.split)
qed

text \<open>
  \<open>set_primary\<close> keeps a primary that is in the new view, and else takes the first node of the
  previous view, in the order of that view, which is in the new one; it stops the program
  exactly when the view is unknown or empty, or no node of the previous view is left to take over.
\<close>

theorem set_primary_correct:
  "(set_primary s = Inl e \<longleftrightarrow> e = AssertFail \<and> (cur_list s = [] \<or>
      (rs_primary s \<notin> set (cur_list s) \<and> set (prev_list s) \<inter> set (cur_list s) = {}))) \<and>
   (\<forall>t. set_primary s = Inr t \<longrightarrow> rs_primary t \<in> set (cur_list s) \<and>
      (if rs_primary s \<in> set (cur_list s) then rs_primary t = rs_primary s
       else \<exists>q r. prev_list s = q @ rs_primary t # r \<and> set q \<inter> set (cur_list s) = {}))"
proof -
  obtain c where c: "set_primary s =
    (if cur_list s = [] then Inl AssertFail
     else if rs_primary s \<in> set (cur_list s) then Inr (s\<lparr>rs_cfg := c\<rparr>)
     else (case first_member (cur_list s) (prev_list s) of
         Some x \<Rightarrow> Inr (s\<lparr>rs_cfg := c, rs_primary := x\<rparr>) | None \<Rightarrow> Inl AssertFail))"
    using set_primary_cases by blast
  show ?thesis
  proof (cases "first_member (cur_list s) (prev_list s)")
    case None
    then have "set (prev_list s) \<inter> set (cur_list s) = {}" by (rule first_member_None [THEN iffD1])
    then show ?thesis using c unfolding None by (auto split: if_splits)
  next
    case (Some x)
    then show ?thesis
      using c first_member_Some [OF Some] first_member_None [of "cur_list s" "prev_list s"]
      by (auto split: if_splits)
  qed
qed

section \<open>A node that learns views\<close>

text \<open>The choice as a function of the old primary and the two views.\<close>

definition choose_primary :: "string \<Rightarrow> string list \<Rightarrow> string list \<Rightarrow> string option" where
  "choose_primary x c p =
     (if c = [] then None else if x \<in> set c then Some x else first_member c p)"

lemma choose_primary_member: "choose_primary x c p = Some y \<Longrightarrow> y \<in> set c"
  using first_member_Some by (auto simp: choose_primary_def split: if_splits)

definition learnt :: "u32 \<Rightarrow> string \<Rightarrow> string \<Rightarrow> rsm \<Rightarrow> rsm \<Rightarrow> bool" where
  "learnt i v x s t \<longleftrightarrow> rs_primary t = x \<and> rs_me t = rs_me s \<and> cf_vc (rs_cfg t) = cf_vc (rs_cfg s) \<and>
     cf_myvid (rs_cfg t) = i \<and> cf_mems (rs_cfg t) = members v \<and>
     ac_instance_h (cf_acc (rs_cfg t)) = i \<and>
     value_of (cf_acc (rs_cfg t)) = (value_of (cf_acc (rs_cfg s)))(i := v) \<and>
     rs_break2 t = rs_break2 s \<and> rs_inviewchange t = rs_inviewchange s \<and>
     ac_me (cf_acc (rs_cfg t)) = ac_me (cf_acc (rs_cfg s)) \<and>
     (logged (cf_acc (rs_cfg s)) \<longrightarrow> line_ok v \<longrightarrow> logged (cf_acc (rs_cfg t)))"

lemma commit_change_cases:
  assumes "cf_mems (rs_cfg s) = cur_list s"
  shows "(case choose_primary (rs_primary s) (cur_list s) (prev_list s) of
      None \<Rightarrow> commit_change s = Inl AssertFail
    | Some x \<Rightarrow> if rs_me s \<in> set (cur_list s) \<and> rs_break2 s then commit_change s = Inl Exit
        else \<exists>t. commit_change s = Inr t \<and> rs_primary t = x \<and> same_config (rs_cfg s) (rs_cfg t) \<and>
          rs_break2 t = rs_break2 s \<and> rs_inviewchange t = rs_inviewchange s)"
proof -
  obtain c where c: "same_config (rs_cfg s) c" "set_primary s =
    (if cur_list s = [] then Inl AssertFail
     else if rs_primary s \<in> set (cur_list s) then Inr (s\<lparr>rs_cfg := c\<rparr>)
     else (case first_member (cur_list s) (prev_list s) of
         Some x \<Rightarrow> Inr (s\<lparr>rs_cfg := c, rs_primary := x\<rparr>) | None \<Rightarrow> Inl AssertFail))"
    using set_primary_cases by blast
  show ?thesis
  proof (cases "choose_primary (rs_primary s) (cur_list s) (prev_list s)")
    case None
    then show ?thesis using c(2)
      by (auto simp: commit_change_def choose_primary_def split: if_splits option.splits)
  next
    case (Some x)
    define u where "u = s\<lparr>rs_cfg := c, rs_primary := x\<rparr>"
    have sp: "set_primary s = Inr u"
      using Some c(2) unfolding u_def by (cases "rs_primary s \<in> set (cur_list s)")
        (auto simp: choose_primary_def split: if_splits)
    define w where "w = (if rs_me u = rs_primary u then
        (let (c, cfg) = get_curview (rs_cfg u); vid = cf_myvid cfg
         in u\<lparr>rs_cfg := cfg, rs_insync := (length c - 1 \<noteq> 0),
              rs_last_myvs := Viewstamp vid (vs_seqno (rs_last_myvs u)),
              rs_myvs := Viewstamp vid (vs_seqno (rs_myvs u))\<rparr>) else u)"
    obtain m d where d: "get_curview (rs_cfg u) = (m, d)" by fastforce
    then have "same_config (rs_cfg u) d" using same_config_view by (simp add: get_curview_def)
    then have sc: "same_config (rs_cfg s) (rs_cfg w)"
      using d c(1) same_config_trans by (auto simp: w_def u_def Let_def)
    have other: "rs_primary w = x" "rs_break2 w = rs_break2 s" "rs_inviewchange w = rs_inviewchange s"
      using d by (auto simp: w_def u_def Let_def)
    have "commit_change s = (if ismember (rs_me w) (rs_cfg w) then breakpoint2 w else Inr w)"
      by (simp add: commit_change_def sp w_def)
    then show ?thesis
      using Some sc other same_configD(4,5) [OF sc] assms
      by (auto simp: ismember_def breakpoint2_def)
  qed
qed

lemma rsm_decide_new:
  assumes new: "ac_instance_h (cf_acc (rs_cfg s)) < i" and vc: "cf_vc (rs_cfg s)"
  shows "(case choose_primary (rs_primary s) (members v) (members (value_of (cf_acc (rs_cfg s)) (i - 1))) of
      None \<Rightarrow> rsm_decidereq (Decidearg i v) s = Inl AssertFail
    | Some x \<Rightarrow> if rs_me s \<in> set (members v) \<and> rs_break2 s then rsm_decidereq (Decidearg i v) s = Inl Exit
        else \<exists>t. rsm_decidereq (Decidearg i v) s = Inr t \<and> learnt i v x s t)"
proof -
  obtain a where a: "handle_decidereq (Decidearg i v) (cf_acc (rs_cfg s)) = (a, Some (i, v), POK)"
    "value_of a = (value_of (cf_acc (rs_cfg s)))(i := v)" "ac_instance_h a = i"
    "ac_me a = ac_me (cf_acc (rs_cfg s))"
    using new by (simp add: handle_decidereq_def acceptor_commit_def commit_wo_def loginstance_def Let_def)
  have lg: "logged a" if "logged (cf_acc (rs_cfg s))" "line_ok v"
    using logged_decidereq [of "cf_acc (rs_cfg s)" "Decidearg i v"] that a(1) by simp
  define u where "u = s\<lparr>rs_cfg := (rs_cfg s)\<lparr>cf_acc := a, cf_mems := members v, cf_myvid := i\<rparr>\<rparr>"
  have d: "rsm_decidereq (Decidearg i v) s = commit_change u"
    using a vc by (simp add: rsm_decidereq_def rsm_paxos_commit_def paxos_commit_def Let_def u_def)
  have cur: "cur_list u = members v" "prev_list u = members (value_of (cf_acc (rs_cfg s)) (i - 1))"
    "cf_mems (rs_cfg u) = cur_list u" "rs_primary u = rs_primary s" "rs_me u = rs_me s"
    "rs_break2 u = rs_break2 s" "rs_inviewchange u = rs_inviewchange s"
    using a by (simp_all add: cur_list_def prev_list_def u_def)
  show ?thesis
  proof (cases "choose_primary (rs_primary s) (members v) (members (value_of (cf_acc (rs_cfg s)) (i - 1)))")
    case None
    then show ?thesis using commit_change_cases [OF cur(3)] cur d by simp
  next
    case (Some x)
    show ?thesis
    proof (cases "rs_me s \<in> set (members v) \<and> rs_break2 s")
      case True
      then show ?thesis using commit_change_cases [OF cur(3)] cur d Some by simp
    next
      case False
      then obtain t where t: "commit_change u = Inr t" "rs_primary t = x" "same_config (rs_cfg u) (rs_cfg t)"
        "rs_break2 t = rs_break2 s" "rs_inviewchange t = rs_inviewchange s"
        using commit_change_cases [OF cur(3)] cur Some by auto
      have "learnt i v x s t"
        using t same_configD [OF t(3)] a lg by (simp add: learnt_def u_def)
      then show ?thesis using t(1) d Some False by auto
    qed
  qed
qed

lemma rsm_decide_old:
  "i \<le> ac_instance_h (cf_acc (rs_cfg s)) \<Longrightarrow> rsm_decidereq (Decidearg i v) s = Inr s"
  by (auto simp: rsm_decidereq_def handle_decidereq_def acceptor_commit_def commit_wo_def not_less)

text \<open>C32: 
  When the next view is the current one with one node more or less, as the configuration module
  proposes it, and is not empty, no assertion fails and the new primary is a node of both views;
  it is the old primary when that is still a member.
\<close>

theorem view_change_keeps_primary:
  assumes "cf_vc (rs_cfg s) \<and> \<not> rs_break2 s" and "\<forall>x \<in> set nodes. word_ok x" and "word_ok m"
    and "members (value_of (cf_acc (rs_cfg s)) (ac_instance_h (cf_acc (rs_cfg s)))) = nodes"
    and "rs_primary s \<in> set nodes" and "ac_instance_h (cf_acc (rs_cfg s)) \<noteq> - 1"
    and "v = add_value m nodes \<or> (v = remove_value m nodes \<and> set nodes \<noteq> {m})"
  shows "\<exists>t. rsm_decidereq (Decidearg (ac_instance_h (cf_acc (rs_cfg s)) + 1) v) s = Inr t \<and>
    rs_primary t \<in> set nodes \<inter> set (members v) \<and>
    (rs_primary s \<in> set (members v) \<longrightarrow> rs_primary t = rs_primary s) \<and> cf_mems (rs_cfg t) = members v"
proof -
  let ?i = "ac_instance_h (cf_acc (rs_cfg s)) + 1"
  have new: "ac_instance_h (cf_acc (rs_cfg s)) < ?i" using less_succ_u32 [OF assms(6) order_refl] .
  have mem: "members (add_value m nodes) = nodes @ [m]" "members (remove_value m nodes) = filter (\<lambda>x. x \<noteq> m) nodes"
    unfolding add_value_def remove_value_def using assms(2,3) by (auto intro!: members_value)
  have "set (members v) \<inter> set nodes \<noteq> {}" using assms(5,7) mem by fastforce
  then have "choose_primary (rs_primary s) (members v) nodes \<noteq> None"
    using first_member_None [of "members v" nodes] by (auto simp: choose_primary_def split: if_splits)
  then obtain x where x: "choose_primary (rs_primary s) (members v) nodes = Some x" by blast
  have xn: "x \<in> set nodes" "x \<in> set (members v)" "rs_primary s \<in> set (members v) \<Longrightarrow> x = rs_primary s"
    using x assms(5) choose_primary_member [OF x] first_member_Some [of "members v" nodes x]
    by (auto simp: choose_primary_def split: if_splits)
  obtain t where "rsm_decidereq (Decidearg ?i v) s = Inr t" "learnt ?i v x s t"
    using rsm_decide_new [OF new, of v] assms(1,4) x by auto
  then show ?thesis using xn by (auto simp: learnt_def)
qed

text \<open>
  A node that misses a view cannot choose: the previous view is unknown to it, and when the
  primary has left the program stops.
\<close>

theorem missed_view_aborts:
  assumes "cf_vc (rs_cfg s)" and "ac_instance_h (cf_acc (rs_cfg s)) < i"
    and "value_of (cf_acc (rs_cfg s)) (i - 1) = []" and "rs_primary s \<notin> set (members v)"
  shows "rsm_decidereq (Decidearg i v) s = Inl AssertFail"
proof -
  have "choose_primary (rs_primary s) (members v) (members (value_of (cf_acc (rs_cfg s)) (i - 1))) = None"
    using assms(3,4) by (simp add: choose_primary_def)
  then show ?thesis using rsm_decide_new [OF assms(2,1), of v] by simp
qed

section \<open>Examples\<close>

definition ex_rsm :: "string \<Rightarrow> rsm" where
  "ex_rsm me = projr (rsm_new ''3001'' me [] 0)"

lemma ex_rsm_new: "me \<noteq> ''3001'' \<Longrightarrow> rsm_new ''3001'' me [] 0 = Inr (ex_rsm me) \<and>
    cf_acc (rs_cfg (ex_rsm me)) = base me [] \<and> rs_primary (ex_rsm me) = ''3001'' \<and>
    rs_me (ex_rsm me) = me \<and> cf_vc (rs_cfg (ex_rsm me)) \<and> \<not> rs_break2 (ex_rsm me)"
proof -
  assume me: "me \<noteq> ''3001''"
  have "logread (base me []) = Inr (base me [])"
    by (simp add: logread_def base_def logread_loop.simps in_word_def)
  then show ?thesis
    using me by (simp add: ex_rsm_def rsm_new_def config_new_def acceptor_new_base reconstruct_def base_simps)
qed

definition ex_v1 :: string where "ex_v1 = ''3001 3002 3003 ''"
definition ex_v2 :: string where "ex_v2 = ''3002 3003 ''"
definition ex_v3 :: string where "ex_v3 = ''3002 3003 3001 ''"

lemma ex_vs:
  "members ex_v1 = [''3001'', ''3002'', ''3003'']" "members ex_v2 = [''3002'', ''3003'']"
  "members ex_v3 = [''3002'', ''3003'', ''3001'']"
  using members_value [of "[''3001'', ''3002'', ''3003'']"] members_value [of "[''3002'', ''3003'']"]
    members_value [of "[''3002'', ''3003'', ''3001'']"] word_ok_digits
  by (simp_all add: ex_v1_def ex_v2_def ex_v3_def config_value_def)

lemma ex_lines: "line_ok ex_v1" "line_ok ex_v2" "line_ok ex_v3"
  by (simp_all add: ex_v1_def ex_v2_def ex_v3_def line_ok_def newline_def)

lemma learn_step:
  assumes "ac_instance_h (cf_acc (rs_cfg s)) < i" and "cf_vc (rs_cfg s)" and "\<not> rs_break2 s"
    and "choose_primary (rs_primary s) (members v) (members (value_of (cf_acc (rs_cfg s)) (i - 1))) = Some x"
  obtains t where "rsm_decidereq (Decidearg i v) s = Inr t" "learnt i v x s t"
  using rsm_decide_new [OF assms(1,2), of v] assms(3,4) by auto

lemma ex_three_views:
  assumes "me \<noteq> ''3001''"
  obtains t where "rbind (rsm_decidereq (Decidearg 1 ex_v1) (ex_rsm me)) (\<lambda>s.
      rbind (rsm_decidereq (Decidearg 2 ex_v2) s) (rsm_decidereq (Decidearg 3 ex_v3))) = Inr t"
    "rs_primary t = ''3002''" "value_of (cf_acc (rs_cfg t)) 3 = ex_v3" "cf_myvid (rs_cfg t) = 3"
    "ac_instance_h (cf_acc (rs_cfg t)) = 3" "logged (cf_acc (rs_cfg t))" "ac_me (cf_acc (rs_cfg t)) = me"
    "rs_me t = me"
proof -
  note new = ex_rsm_new [OF assms]
  have "choose_primary ''3001'' (members ex_v1) p = Some ''3001''" for p
    by (simp add: choose_primary_def ex_vs)
  then obtain t1 where t1: "rsm_decidereq (Decidearg 1 ex_v1) (ex_rsm me) = Inr t1" "learnt 1 ex_v1 ''3001'' (ex_rsm me) t1"
    using learn_step [of "ex_rsm me" 1 ex_v1 "''3001''"] new by (auto simp: base_simps)
  have "choose_primary ''3001'' (members ex_v2) (members ex_v1) = Some ''3002''"
    by (simp add: choose_primary_def ex_vs)
  then obtain t2 where t2: "rsm_decidereq (Decidearg 2 ex_v2) t1 = Inr t2" "learnt 2 ex_v2 ''3002'' t1 t2"
    using learn_step [of t1 2 ex_v2 "''3002''"] t1(2) new by (auto simp: learnt_def word_less_nat_alt)
  have "choose_primary ''3002'' (members ex_v3) (members ex_v2) = Some ''3002''"
    by (simp add: choose_primary_def ex_vs)
  then obtain t3 where t3: "rsm_decidereq (Decidearg 3 ex_v3) t2 = Inr t3" "learnt 3 ex_v3 ''3002'' t2 t3"
    using learn_step [of t2 3 ex_v3 "''3002''"] t1(2) t2(2) new by (auto simp: learnt_def word_less_nat_alt)
  have "logged (base me [])" by (rule logged_base)
  then show thesis
    using that [of t3] t1 t2 t3 new ex_lines by (auto simp: learnt_def base_simps)
qed

text \<open>
  A member that restarts from its log is in the view it was in, but takes the node it was started
  with for the primary, whoever the primary of that view is: here node 3002 has taken over from
  3001, which has since joined again, and after its restart no longer knows that.
\<close>

theorem restart_forgets_primary:
  "\<exists>s t. rbind (rsm_decidereq (Decidearg 1 ex_v1) (ex_rsm ''3002'')) (\<lambda>s.
      rbind (rsm_decidereq (Decidearg 2 ex_v2) s) (rsm_decidereq (Decidearg 3 ex_v3))) = Inr s \<and>
    rsm_new ''3001'' ''3002'' (ac_log (cf_acc (rs_cfg s))) 0 = Inr t \<and>
    cur_list t = cur_list s \<and> rs_primary s = ''3002'' \<and> rs_primary t = ''3001'' \<and>
    (\<forall>have_cl ret log. recovery have_cl ret log t = Inr (AwaitSignal, t))"
proof -
  obtain s where s: "rbind (rsm_decidereq (Decidearg 1 ex_v1) (ex_rsm ''3002'')) (\<lambda>s.
      rbind (rsm_decidereq (Decidearg 2 ex_v2) s) (rsm_decidereq (Decidearg 3 ex_v3))) = Inr s"
    "rs_primary s = ''3002''" "value_of (cf_acc (rs_cfg s)) 3 = ex_v3" "cf_myvid (rs_cfg s) = 3"
    "ac_instance_h (cf_acc (rs_cfg s)) = 3" "logged (cf_acc (rs_cfg s))" "ac_me (cf_acc (rs_cfg s)) = ''3002''"
    "rs_me s = ''3002''"
    using ex_three_views [of "''3002''"] by auto
  have "ac_inv False ''3002'' (cf_acc (rs_cfg s))" using s by (simp add: ac_inv_def)
  then obtain b where b: "acceptor_new False ''3002'' ''3002'' (ac_log (cf_acc (rs_cfg s))) = Inr b"
    "recovered b (cf_acc (rs_cfg s))"
    using acceptor_new_logged [of False "''3002''" "cf_acc (rs_cfg s)" "''3002''"] by blast
  define c where "c = reconstruct \<lparr>cf_acc = b, cf_pro = proposer_new ''3002'' 0, cf_myvid = 0,
    cf_first = ''3001'', cf_me = ''3002'', cf_vc = True, cf_mems = []\<rparr>"
  have new: "config_new ''3001'' ''3002'' True (ac_log (cf_acc (rs_cfg s))) 0 = Inr c"
    using b(1) by (simp add: config_new_def c_def)
  have inst: "ac_instance_h b = 3" "value_of b 3 = ex_v3" using b(2) s by (simp_all add: recovered_def)
  have c: "cf_myvid c = 3" "value_of (cf_acc c) 3 = ex_v3" "cf_mems c = members ex_v3" "cf_me c = ''3002''"
    using inst by (simp_all add: c_def reconstruct_simps reconstruct_def get_view_simps split_def Let_def)
  obtain t where t: "rsm_new ''3001'' ''3002'' (ac_log (cf_acc (rs_cfg s))) 0 = Inr t" "rs_cfg t = c" "rs_primary t = ''3001''"
    using new by (simp add: rsm_new_def)
  have "recovery have_cl ret log t = Inr (AwaitSignal, t)" for have_cl ret log
    using t(2) c by (simp add: recovery_def ismember_def ex_vs)
  moreover have "cur_list t = cur_list s" using t(2) c s by (simp add: cur_list_def)
  ultimately show ?thesis using s(1,2) t(1,3) by blast
qed

lemma ex_second_view:
  obtains t where "rsm_decidereq (Decidearg 1 ex_v1) (ex_rsm ''3002'') = Inr t" "learnt 1 ex_v1 ''3001'' (ex_rsm ''3002'') t"
    "rs_primary t = ''3001''" "ac_instance_h (cf_acc (rs_cfg t)) = 1" "value_of (cf_acc (rs_cfg t)) 1 = ex_v1"
    "cf_vc (rs_cfg t)" "\<not> rs_break2 t" "\<forall>i. i \<noteq> 1 \<longrightarrow> value_of (cf_acc (rs_cfg t)) i = []"
proof -
  note new = ex_rsm_new [of "''3002''", simplified]
  have "choose_primary ''3001'' (members ex_v1) p = Some ''3001''" for p
    by (simp add: choose_primary_def ex_vs)
  then obtain t1 where "rsm_decidereq (Decidearg 1 ex_v1) (ex_rsm ''3002'') = Inr t1"
    "learnt 1 ex_v1 ''3001'' (ex_rsm ''3002'') t1"
    using learn_step [of "ex_rsm ''3002''" 1 ex_v1 "''3001''"] new by (auto simp: base_simps)
  then show thesis using that [of t1] new by (auto simp: learnt_def base_simps)
qed

lemma set_primary_correct_witness:
  "\<exists>s t. cur_list s = [''3002'', ''3003''] \<and> prev_list s = [''3001'', ''3002'', ''3003''] \<and>
    rs_primary s = ''3001'' \<and> set_primary s = Inr t \<and> rs_primary t = ''3002''"
proof -
  obtain t where r1: "rsm_decidereq (Decidearg 1 ex_v1) (ex_rsm ''3002'') = Inr t" "learnt 1 ex_v1 ''3001'' (ex_rsm ''3002'') t"
    and t: "rs_primary t = ''3001''" "ac_instance_h (cf_acc (rs_cfg t)) = 1" "value_of (cf_acc (rs_cfg t)) 1 = ex_v1"
    "cf_vc (rs_cfg t)" "\<not> rs_break2 t" "\<forall>i. i \<noteq> 1 \<longrightarrow> value_of (cf_acc (rs_cfg t)) i = []"
    by (rule ex_second_view) (rule that; assumption)
  define s where "s = t\<lparr>rs_cfg := (rs_cfg t)\<lparr>cf_acc := (cf_acc (rs_cfg t))\<lparr>ac_values :=
    (ac_values (cf_acc (rs_cfg t)))(2 \<mapsto> ex_v2)\<rparr>, cf_myvid := 2\<rparr>\<rparr>"
  have l: "cur_list s = [''3002'', ''3003'']" "prev_list s = [''3001'', ''3002'', ''3003'']" "rs_primary s = ''3001''"
    using t(1,3) by (simp_all add: s_def cur_list_def prev_list_def ex_vs)
  then have "set_primary s \<noteq> Inl e" for e using set_primary_correct [of s e] by auto
  then obtain u where u: "set_primary s = Inr u" by (cases "set_primary s") auto
  then have m: "rs_primary u \<in> {''3002'', ''3003''}"
    "\<exists>q r. [''3001'', ''3002'', ''3003''] = q @ rs_primary u # r \<and> set q \<inter> {''3002'', ''3003''} = {}"
    using set_primary_correct [of s AssertFail] l by auto
  then obtain q r where q: "[''3001'', ''3002'', ''3003''] = q @ rs_primary u # r" "set q \<inter> {''3002'', ''3003''} = {}"
    by blast
  have "rs_primary u = ''3002''"
    using m(1) q by (cases q; cases "tl q") auto
  then show ?thesis using l u by blast
qed

lemma view_change_keeps_primary_witness:
  "\<exists>s t. rsm_decidereq (Decidearg 2 ex_v2) s = Inr t \<and> rs_primary s = ''3001'' \<and>
    rs_primary t \<in> {''3002'', ''3003''}"
proof -
  obtain s where r1: "rsm_decidereq (Decidearg 1 ex_v1) (ex_rsm ''3002'') = Inr s" "learnt 1 ex_v1 ''3001'' (ex_rsm ''3002'') s"
    and t: "rs_primary s = ''3001''" "ac_instance_h (cf_acc (rs_cfg s)) = 1" "value_of (cf_acc (rs_cfg s)) 1 = ex_v1"
    "cf_vc (rs_cfg s)" "\<not> rs_break2 s" "\<forall>i. i \<noteq> 1 \<longrightarrow> value_of (cf_acc (rs_cfg s)) i = []"
    by (rule ex_second_view) (rule that; assumption)
  have v: "ex_v2 = remove_value ''3001'' [''3001'', ''3002'', ''3003'']"
    by (simp add: ex_v2_def remove_value_def config_value_def)
  have "\<exists>u. rsm_decidereq (Decidearg (ac_instance_h (cf_acc (rs_cfg s)) + 1) ex_v2) s = Inr u \<and>
      rs_primary u \<in> set [''3001'', ''3002'', ''3003''] \<inter> set (members ex_v2) \<and>
      (rs_primary s \<in> set (members ex_v2) \<longrightarrow> rs_primary u = rs_primary s) \<and> cf_mems (rs_cfg u) = members ex_v2"
    by (rule view_change_keeps_primary [of s "[''3001'', ''3002'', ''3003'']" "''3001''" ex_v2])
      (use t v word_ok_digits ex_vs in simp_all)
  then show ?thesis using t(1,2) ex_vs(2) by auto
qed

lemma missed_view_aborts_witness:
  "\<exists>s. rsm_decidereq (Decidearg 1 ex_v1) (ex_rsm ''3002'') = Inr s \<and>
    rsm_decidereq (Decidearg 3 ex_v2) s = Inl AssertFail"
proof -
  obtain s where r1: "rsm_decidereq (Decidearg 1 ex_v1) (ex_rsm ''3002'') = Inr s" "learnt 1 ex_v1 ''3001'' (ex_rsm ''3002'') s"
    and t: "rs_primary s = ''3001''" "ac_instance_h (cf_acc (rs_cfg s)) = 1" "value_of (cf_acc (rs_cfg s)) 1 = ex_v1"
    "cf_vc (rs_cfg s)" "\<not> rs_break2 s" "\<forall>i. i \<noteq> 1 \<longrightarrow> value_of (cf_acc (rs_cfg s)) i = []"
    by (rule ex_second_view) (rule that; assumption)
  have "rsm_decidereq (Decidearg 3 ex_v2) s = Inl AssertFail"
    by (rule missed_view_aborts) (use t ex_vs in \<open>simp_all add: word_less_nat_alt\<close>)
  then show ?thesis using r1(1) by blast
qed

section \<open>One primary per view\<close>

text \<open>
  The primary a node has after \<open>n\<close> further views: nodes that start from one primary and learn
  the views in order compute the same function of the views.
\<close>

fun primary_at :: "(u32 \<Rightarrow> string) \<Rightarrow> u32 \<Rightarrow> string \<Rightarrow> nat \<Rightarrow> string option" where
  "primary_at val k x 0 = Some x"
| "primary_at val k x (Suc n) = (case primary_at val k x n of None \<Rightarrow> None
     | Some y \<Rightarrow> choose_primary y (members (val (k + of_nat n + 1))) (members (val (k + of_nat n))))"

fun rsm_decides :: "decidearg list \<Rightarrow> rsm \<Rightarrow> rsm res" where
  "rsm_decides [] s = Inr s"
| "rsm_decides (z # zs) s = rbind (rsm_decidereq z s) (rsm_decides zs)"

text \<open>Decide requests that carry the decided values and skip no view; they may be repeated.\<close>

fun in_order :: "(u32 \<Rightarrow> string) \<Rightarrow> u32 \<Rightarrow> decidearg list \<Rightarrow> bool" where
  "in_order val k [] \<longleftrightarrow> True"
| "in_order val k (z # zs) \<longleftrightarrow> da_v z = val (da_instance z) \<and> da_instance z \<le> k + 1 \<and>
     in_order val (max (da_instance z) k) zs"

definition at_view :: "(u32 \<Rightarrow> string) \<Rightarrow> u32 \<Rightarrow> string \<Rightarrow> nat \<Rightarrow> rsm \<Rightarrow> bool" where
  "at_view val k x n s \<longleftrightarrow> ac_instance_h (cf_acc (rs_cfg s)) = k + of_nat n \<and> unat k + n < 2 ^ 32 \<and>
     value_of (cf_acc (rs_cfg s)) (k + of_nat n) = val (k + of_nat n) \<and>
     primary_at val k x n = Some (rs_primary s) \<and> cf_vc (rs_cfg s)"

lemma at_view_step:
  assumes "at_view val k x n s" and "rsm_decidereq (Decidearg j (val j)) s = Inr t"
    and "j \<le> ac_instance_h (cf_acc (rs_cfg s)) + 1"
  shows "\<exists>m. at_view val k x m t \<and> rs_me t = rs_me s \<and>
    ac_instance_h (cf_acc (rs_cfg t)) = max j (ac_instance_h (cf_acc (rs_cfg s)))"
proof (cases "j \<le> ac_instance_h (cf_acc (rs_cfg s))")
  case True
  then show ?thesis using assms rsm_decide_old [OF True] by (auto simp: max_def)
next
  case False
  let ?i = "ac_instance_h (cf_acc (rs_cfg s))"
  have i: "?i = k + of_nat n" "unat k + n < 2 ^ 32" using assms(1) by (auto simp: at_view_def)
  have ne: "?i \<noteq> - 1" using False assms(3) by auto
  have un: "unat ?i = unat k + n" using i by (simp add: unat_word_ariths unat_of_nat)
  have u1: "unat (?i + 1) = unat ?i + 1" using ne by (metis add_eq_0_iff2 unatSuc Suc_eq_plus1 add.commute)
  then have j: "j = ?i + 1" "?i < j"
    using False assms(3) by (auto simp: word_le_nat_alt word_less_nat_alt intro: word_unat_eq_iff [THEN iffD2])
  have bound: "unat k + Suc n < 2 ^ 32" using u1 un unsigned_less [of "?i + 1", where ?'a = nat] by simp
  obtain y where y: "choose_primary (rs_primary s) (members (val j)) (members (value_of (cf_acc (rs_cfg s)) (j - 1))) = Some y"
    "learnt j (val j) y s t"
    using rsm_decide_new [OF j(2), of "val j"] assms(1,2)
    by (auto simp: at_view_def split: option.splits if_splits)
  have "at_view val k x (Suc n) t"
    using y assms(1) j(1) i(1) bound
    by (auto simp: at_view_def learnt_def algebra_simps)
  then show ?thesis using y(2) j(2) by (auto simp: learnt_def max_def)
qed

lemma at_view_decides:
  "at_view val k x n s \<Longrightarrow> in_order val (ac_instance_h (cf_acc (rs_cfg s))) zs \<Longrightarrow>
    rsm_decides zs s = Inr t \<Longrightarrow> \<exists>m. at_view val k x m t \<and> rs_me t = rs_me s"
proof (induction zs arbitrary: s n)
  case (Cons z zs)
  obtain u where u: "rsm_decidereq z s = Inr u" "rsm_decides zs u = Inr t"
    using Cons.prems(3) by (auto simp: rbind_eq_Inr_iff)
  have z: "z = Decidearg (da_instance z) (val (da_instance z))" using Cons.prems(2) by (cases z) simp
  obtain m where "at_view val k x m u" "rs_me u = rs_me s"
    "ac_instance_h (cf_acc (rs_cfg u)) = max (da_instance z) (ac_instance_h (cf_acc (rs_cfg s)))"
    using at_view_step [OF Cons.prems(1), of "da_instance z" u] u(1) z Cons.prems(2) by auto
  then show ?case using Cons.IH [of m u] u(2) Cons.prems(2) by auto
qed auto

text \<open>C18: 
  Nodes that start in one view with one primary and then learn the decided views, none left out,
  have the same primary whenever they are in the same view; so two of them never both take
  themselves for the primary of it.
\<close>

theorem one_primary_per_view:
  assumes "cf_vc (rs_cfg s) \<and> cf_vc (rs_cfg t) \<and> rs_primary s = rs_primary t"
    and "ac_instance_h (cf_acc (rs_cfg s)) = k \<and> value_of (cf_acc (rs_cfg s)) k = val k"
    and "ac_instance_h (cf_acc (rs_cfg t)) = k \<and> value_of (cf_acc (rs_cfg t)) k = val k"
    and "in_order val k zs" and "rsm_decides zs s = Inr s'"
    and "in_order val k zs'" and "rsm_decides zs' t = Inr t'"
    and "ac_instance_h (cf_acc (rs_cfg s')) = ac_instance_h (cf_acc (rs_cfg t'))"
  shows "rs_primary s' = rs_primary t' \<and> (rs_me s \<noteq> rs_me t \<longrightarrow> \<not> (amiprimary s' \<and> amiprimary t'))"
proof -
  let ?x = "rs_primary s"
  have s: "at_view val k ?x 0 s" and t: "at_view val k ?x 0 t"
    using assms(1-3) unsigned_less [of k, where ?'a = nat] by (auto simp: at_view_def)
  obtain m where m: "at_view val k ?x m s'" "rs_me s' = rs_me s"
    using at_view_decides [OF s _ assms(5)] assms(2,4) by auto
  obtain n where n: "at_view val k ?x n t'" "rs_me t' = rs_me t"
    using at_view_decides [OF t _ assms(7)] assms(3,6) by auto
  have un: "unat (ac_instance_h (cf_acc (rs_cfg r))) = unat k + j" if "at_view val k ?x j r" for j r
    using that unfolding at_view_def by (simp add: unat_word_ariths unat_of_nat)
  have "m = n" using un [OF m(1)] un [OF n(1)] unfolding assms(8) by simp
  then have "Some (rs_primary s') = Some (rs_primary t')" using m(1) n(1) unfolding at_view_def by metis
  then have "rs_primary s' = rs_primary t'" by simp
  then show ?thesis using m(2) n(2) by (auto simp: amiprimary_def amiprimary_wo_def)
qed

definition ex_val :: "u32 \<Rightarrow> string" where
  "ex_val i = (if i = 1 then ex_v1 else if i = 2 then ex_v2 else if i = 3 then ex_v3 else [])"

abbreviation ex_msgs :: "decidearg list" where
  "ex_msgs \<equiv> [Decidearg 1 ex_v1, Decidearg 2 ex_v2, Decidearg 3 ex_v3]"

lemma ex_decides:
  assumes "me \<noteq> ''3001''"
  shows "\<exists>t. rsm_decides ex_msgs (ex_rsm me) = Inr t \<and> ac_instance_h (cf_acc (rs_cfg t)) = 3 \<and>
    rs_primary t = ''3002''"
proof -
  obtain t where t: "rbind (rsm_decidereq (Decidearg 1 ex_v1) (ex_rsm me)) (\<lambda>s.
      rbind (rsm_decidereq (Decidearg 2 ex_v2) s) (rsm_decidereq (Decidearg 3 ex_v3))) = Inr t"
    "rs_primary t = ''3002''" "ac_instance_h (cf_acc (rs_cfg t)) = 3"
    by (rule ex_three_views [OF assms]) (rule that; assumption)
  have "rsm_decides ex_msgs (ex_rsm me) = Inr t" using t(1) by (auto simp: rbind_eq_Inr_iff)
  then show ?thesis using t by blast
qed

lemma one_primary_per_view_witness:
  "\<exists>s t. rsm_decides ex_msgs (ex_rsm ''3002'') = Inr s \<and> rsm_decides ex_msgs (ex_rsm ''3003'') = Inr t \<and>
    rs_primary s = rs_primary t \<and> \<not> (amiprimary s \<and> amiprimary t)"
proof -
  let ?s = "ex_rsm ''3002''" and ?t = "ex_rsm ''3003''"
  note a = ex_rsm_new [of "''3002''", simplified] and b = ex_rsm_new [of "''3003''", simplified]
  obtain s where s: "rsm_decides ex_msgs ?s = Inr s" "ac_instance_h (cf_acc (rs_cfg s)) = 3"
    using ex_decides [of "''3002''"] by auto
  obtain t where t: "rsm_decides ex_msgs ?t = Inr t" "ac_instance_h (cf_acc (rs_cfg t)) = 3"
    using ex_decides [of "''3003''"] by auto
  have ord: "in_order ex_val 0 ex_msgs"
    by (simp add: ex_val_def word_le_nat_alt max_def)
  have h: "cf_vc (rs_cfg ?s) \<and> cf_vc (rs_cfg ?t) \<and> rs_primary ?s = rs_primary ?t"
    "ac_instance_h (cf_acc (rs_cfg ?s)) = 0 \<and> value_of (cf_acc (rs_cfg ?s)) 0 = ex_val 0"
    "ac_instance_h (cf_acc (rs_cfg ?t)) = 0 \<and> value_of (cf_acc (rs_cfg ?t)) 0 = ex_val 0"
    using a b by (simp_all add: base_simps ex_val_def)
  have i: "ac_instance_h (cf_acc (rs_cfg s)) = ac_instance_h (cf_acc (rs_cfg t))" using s(2) t(2) by simp
  have "rs_me ?s \<noteq> rs_me ?t" using a b by simp
  then show ?thesis
    using one_primary_per_view [OF h ord s(1) ord t(1) i] s(1) t(1) by blast
qed

section \<open>Joining a running group\<close>

text \<open>
  A node that asks to join is answered with the log by any member that still counts it in, and
  by the primary once \<open>add\<close> has succeeded; when the view in that log contains the node, it has
  that view after \<open>join\<close>, and its recovery thread goes to sleep.
\<close>

theorem join_makes_member:
  assumes "cf_reach fifo first me (rs_cfg donor) ups" and "ac_instance_h (cf_acc (rs_cfg donor)) \<noteq> 0"
    and "rs_me s \<in> set (members (value_of (cf_acc (rs_cfg donor)) (ac_instance_h (cf_acc (rs_cfg donor)))))"
    and "joinreq_begin (rs_me s) donor = Some (ROK, r) \<or> joinreq_end ok donor = (ROK, r)"
  shows "\<exists>t. rsm_join True 0 (jr_log r) s = Inr (True, t) \<and> rs_me t = rs_me s \<and>
    cf_myvid (rs_cfg t) = ac_instance_h (cf_acc (rs_cfg donor)) \<and> ismember (rs_me t) (rs_cfg t) \<and>
    rs_primary t = rs_primary s \<and> recovery have_cl ret log t = Inr (AwaitSignal, t)"
proof -
  have r: "jr_log r = config_dump (rs_cfg donor)"
    using assms(4) by (auto simp: joinreq_begin_def joinreq_end_def split: if_splits)
  have "logged (cf_acc (rs_cfg donor))" using cf_reach_inv [OF assms(1)] by (simp add: cf_inv_def ac_inv_def)
  from restore_dump [OF this assms(2)] obtain b where
    b: "acceptor_restore (acceptor_dump (cf_acc (rs_cfg donor))) (cf_acc (rs_cfg s)) = Inr b"
      "same_state b (cf_acc (rs_cfg donor))"
      "\<And>i. value_of (cf_acc (rs_cfg donor)) i \<noteq> [] \<Longrightarrow> value_of b i = value_of (cf_acc (rs_cfg donor)) i"
    by blast
  let ?i = "ac_instance_h (cf_acc (rs_cfg donor))"
  have i: "ac_instance_h b = ?i" "?i > 0" using b(2) assms(2) by (simp_all add: same_state_def word_gt_0)
  have "value_of (cf_acc (rs_cfg donor)) ?i \<noteq> []" using assms(3) by auto
  then have v: "value_of b ?i = value_of (cf_acc (rs_cfg donor)) ?i" by (rule b(3))
  let ?c = "reconstruct ((rs_cfg s)\<lparr>cf_acc := b\<rparr>)"
  have me: "cf_me ?c = rs_me s" by (simp add: reconstruct_def get_view_simps split_def Let_def)
  have "rsm_join True 0 (jr_log r) s = Inr (True, s\<lparr>rs_cfg := ?c\<rparr>)"
    using b(1) r by (simp add: rsm_join_def config_restore_def config_dump_def)
  moreover have "ismember (rs_me s) ?c" "cf_myvid ?c = ?i"
    using i v assms(3) by (simp_all add: ismember_def reconstruct_simps)
  ultimately show ?thesis using me by (simp add: recovery_def)
qed

lemma join_makes_member_witness:
  "\<exists>(donor :: rsm) s t. rs_cfg donor = ex_first True \<and> rs_me s = ''3001'' \<and>
    rsm_join True 0 (jr_log (Joinres (config_dump (rs_cfg donor)))) s = Inr (True, t) \<and>
    ismember (rs_me t) (rs_cfg t)"
proof -
  define donor where "donor = (ex_rsm ''3002'')\<lparr>rs_cfg := ex_first True\<rparr>"
  define s where "s = (ex_rsm ''3002'')\<lparr>rs_cfg := ex_config\<rparr>"
  have c: "rs_cfg donor = ex_first True" "rs_me s = ''3001''"
    by (simp_all add: donor_def s_def ex_config_def)
  have r: "cf_reach True ''3001'' ''3001'' (rs_cfg donor) []" unfolding c by (rule ex_first_reach)
  have i: "ac_instance_h (cf_acc (rs_cfg donor)) \<noteq> 0" "value_of (cf_acc (rs_cfg donor)) (ac_instance_h (cf_acc (rs_cfg donor))) = ''3001''"
    using ex_first_value [of True] unfolding c by simp_all
  have m: "rs_me s \<in> set (members (value_of (cf_acc (rs_cfg donor)) (ac_instance_h (cf_acc (rs_cfg donor)))))"
    unfolding i(2) using members_word [OF word_ok_digits(1)] c(2) by simp
  have "joinreq_end True donor = (ROK, Joinres (config_dump (rs_cfg donor)))" by (simp add: joinreq_end_def)
  from join_makes_member [OF r i(1) m disjI2 [OF this], of True 0 "[]"] obtain t where
    "rsm_join True 0 (jr_log (Joinres (config_dump (rs_cfg donor)))) s = Inr (True, t)" "ismember (rs_me t) (rs_cfg t)"
    by (elim exE conjE)
  then show ?thesis using c by (intro exI [of _ donor] exI [of _ s] exI [of _ t]) simp
qed

end
