(* ===== verification/LockServer.thy ===== *)
theory LockServer
  imports Protocols
begin

text \<open>
  The first lock server, class \<open>lock_server\<close> of \<open>lock_server.cc\<close>, whose acquire blocks on the
  server, and the stub \<open>lock_client.cc\<close>.  The iterator \<open>it\<close> is a member of the class, so all
  request threads share it; the blocking acquire is therefore modelled by its atomic sections.
\<close>

section \<open>State and atomic sections\<close>

type_synonym lockid = u64

text \<open>\<open>sv_it\<close> is the lock the shared iterator points at, \<open>None\<close> when it is \<open>end()\<close>.\<close>

record lock_server =
  sv_locks :: "lockid \<rightharpoonup> bool"
  sv_it :: "lockid option"
  sv_nacquire :: int

definition lock_server_new :: lock_server where
  "lock_server_new = \<lparr>sv_locks = Map.empty, sv_it = None, sv_nacquire = 0\<rparr>"

definition lock_server_stat :: "lock_server \<Rightarrow> lock_status \<times> int" where
  "lock_server_stat s = (LOK, sv_nacquire s)"

text \<open>The section of acquire under \<open>mutex_\<close>; it returns whether the lock existed before.\<close>

definition acquire_find :: "lockid \<Rightarrow> lock_server \<Rightarrow> bool \<times> lock_server" where
  "acquire_find lid s =
     (case sv_locks s lid of
        Some g \<Rightarrow> (True, s\<lparr>sv_it := Some lid\<rparr>)
      | None \<Rightarrow> (False, s\<lparr>sv_it := None, sv_locks := (sv_locks s)(lid \<mapsto> True)\<rparr>))"

text \<open>
  One test of the wait loop, with the lock's own mutex held: the thread either waits or takes
  the lock \<open>it\<close> points at.
\<close>

definition acquire_test :: "lock_server \<Rightarrow> (bool \<times> lock_server) res" where
  "acquire_test s =
     (case sv_it s of
        None \<Rightarrow> Inl OutOfBounds
      | Some l \<Rightarrow>
          (case sv_locks s l of
             None \<Rightarrow> Inl OutOfBounds
           | Some g \<Rightarrow> Inr (if g then (False, s)
                           else (True, s\<lparr>sv_locks := (sv_locks s)(l \<mapsto> True)\<rparr>))))"

definition lock_server_release :: "lockid \<Rightarrow> lock_server \<Rightarrow> lock_server \<times> lock_status \<times> int" where
  "lock_server_release lid s =
     (case sv_locks s lid of
        Some g \<Rightarrow> (s\<lparr>sv_it := Some lid, sv_locks := (sv_locks s)(lid \<mapsto> False)\<rparr>, LOK, sv_nacquire s)
      | None \<Rightarrow> (s\<lparr>sv_it := None\<rparr>, LRPCERR, sv_nacquire s))"

text \<open>
  An acquire that no other thread interrupts: \<open>None\<close> when it would have to wait.
\<close>

definition lock_server_acquire :: "lockid \<Rightarrow> lock_server \<Rightarrow> (lock_server \<times> lock_status \<times> int) option res" where
  "lock_server_acquire lid s =
     (let (found, s) = acquire_find lid s
      in if found
         then rbind (acquire_test s) (\<lambda>(got, s). Inr (if got then Some (s, LOK, sv_nacquire s) else None))
         else Inr (Some (s, LOK, sv_nacquire s)))"

text \<open>The client stub: every call that does not return \<open>OK\<close> fails an assert.\<close>

definition lock_client_call :: "lock_status \<Rightarrow> int \<Rightarrow> int res" where
  "lock_client_call ret r = (if ret = LOK then Inr r else Inl AssertFail)"

section \<open>Uninterrupted requests\<close>

definition held :: "lock_server \<Rightarrow> lockid \<Rightarrow> bool" where
  "held s lid \<longleftrightarrow> sv_locks s lid = Some True"

text \<open>when requests do not interleave, acquire grants a lock exactly when it is not held and
  blocks otherwise, never touches another lock, and release frees the lock it names.\<close>

theorem lock_server_sequential:
  "(held s lid \<longrightarrow> lock_server_acquire lid s = Inr None) \<and>
   (\<not> held s lid \<longrightarrow> (\<exists>s' r. lock_server_acquire lid s = Inr (Some (s', LOK, r)) \<and>
      held s' = (held s)(lid := True))) \<and>
   held (fst (lock_server_release lid s)) = (held s)(lid := False)"
  by (cases "sv_locks s lid")
    (auto simp: lock_server_acquire_def acquire_find_def acquire_test_def lock_server_release_def
      held_def fun_eq_iff)

theorem lock_server_sequential_witness:
  "\<exists>s' r. lock_server_acquire 7 (fst (lock_server_release 7 \<lparr>sv_locks = [7 \<mapsto> True], sv_it = None, sv_nacquire = 0\<rparr>))
    = Inr (Some (s', LOK, r)) \<and> held s' 7"
proof -
  let ?s = "fst (lock_server_release 7 \<lparr>sv_locks = [7 \<mapsto> True], sv_it = None, sv_nacquire = 0\<rparr>)"
  have "\<not> held ?s 7" by (simp add: held_def lock_server_release_def)
  then show ?thesis using lock_server_sequential [of ?s 7] by (metis fun_upd_same)
qed

section \<open>Interleaved requests\<close>

text \<open>
  Request threads and their sections in any order.  A waiting thread remembers the lock it was
  called for only in its stack frame; the loop reads the shared iterator.
\<close>

datatype thread = Waiting lockid | Holding lockid

inductive ls_step :: "lock_server \<times> (nat \<rightharpoonup> thread) \<Rightarrow> lock_server \<times> (nat \<rightharpoonup> thread) \<Rightarrow> bool" where
  find_new: "T t = None \<Longrightarrow> acquire_find lid s = (False, s') \<Longrightarrow> ls_step (s, T) (s', T(t \<mapsto> Holding lid))"
| find_old: "T t = None \<Longrightarrow> acquire_find lid s = (True, s') \<Longrightarrow> ls_step (s, T) (s', T(t \<mapsto> Waiting lid))"
| test: "T t = Some (Waiting lid) \<Longrightarrow> acquire_test s = Inr (got, s') \<Longrightarrow>
    ls_step (s, T) (s', if got then T(t \<mapsto> Holding lid) else T)"
| released: "T t = Some (Holding lid) \<Longrightarrow> lock_server_release lid s = (s', LOK, r) \<Longrightarrow>
    ls_step (s, T) (s', T(t := None))"

text \<open>the shared iterator breaks mutual exclusion.  There is an execution in which two request
  threads hold the same lock at the same time: a thread that waits for lock 1 wakes up while the
  iterator points at the free lock 2 and returns successfully for lock 1.\<close>

theorem shared_iterator_breaks_exclusion:
  "\<exists>s T. ls_step\<^sup>*\<^sup>* (lock_server_new, Map.empty) (s, T) \<and>
    T 3 = Some (Holding 1) \<and> T 5 = Some (Holding 1)"
proof -
  let ?sv = "\<lambda>l1 l2 it. \<lparr>sv_locks = [1 \<mapsto> l1, 2 \<mapsto> l2], sv_it = it, sv_nacquire = 0\<rparr> :: lock_server"
  note step = rtranclp.rtrancl_into_rtrancl [where r = ls_step]
  have s1: "ls_step\<^sup>*\<^sup>* (lock_server_new, Map.empty)
      (\<lparr>sv_locks = [1 \<mapsto> True], sv_it = None, sv_nacquire = 0\<rparr>, [1 \<mapsto> Holding 1])"
    by (intro r_into_rtranclp ls_step.find_new) (simp_all add: acquire_find_def lock_server_new_def)
  have s2: "ls_step\<^sup>*\<^sup>* (lock_server_new, Map.empty) (?sv True True None, [1 \<mapsto> Holding 1, 2 \<mapsto> Holding 2])"
    by (rule step [OF s1 ls_step.find_new]) (simp_all add: acquire_find_def)
  have s3: "ls_step\<^sup>*\<^sup>* (lock_server_new, Map.empty)
      (?sv True True (Some 1), [1 \<mapsto> Holding 1, 2 \<mapsto> Holding 2, 3 \<mapsto> Waiting 1])"
    by (rule step [OF s2 ls_step.find_old]) (simp_all add: acquire_find_def)
  have s4: "ls_step\<^sup>*\<^sup>* (lock_server_new, Map.empty)
      (?sv False True (Some 1), [2 \<mapsto> Holding 2, 3 \<mapsto> Waiting 1])"
    using step [OF s3 ls_step.released [where t = 1 and lid = 1 and r = 0 and s' = "?sv False True (Some 1)"]]
    by (simp add: lock_server_release_def fun_upd_twist)
  have s5: "ls_step\<^sup>*\<^sup>* (lock_server_new, Map.empty) (?sv False False (Some 2), [3 \<mapsto> Waiting 1])"
    using step [OF s4 ls_step.released [where t = 2 and lid = 2 and r = 0 and s' = "?sv False False (Some 2)"]]
    by (simp add: lock_server_release_def fun_upd_twist)
  have s6: "ls_step\<^sup>*\<^sup>* (lock_server_new, Map.empty) (?sv False True (Some 2), [3 \<mapsto> Holding 1])"
    using step [OF s5 ls_step.test [where t = 3 and lid = 1 and got = True and s' = "?sv False True (Some 2)"]]
    by (simp add: acquire_test_def fun_upd_twist)
  have s7: "ls_step\<^sup>*\<^sup>* (lock_server_new, Map.empty) (?sv False True (Some 1), [3 \<mapsto> Holding 1, 5 \<mapsto> Waiting 1])"
    by (rule step [OF s6 ls_step.find_old]) (simp_all add: acquire_find_def)
  have s8: "ls_step\<^sup>*\<^sup>* (lock_server_new, Map.empty) (?sv True True (Some 1), [3 \<mapsto> Holding 1, 5 \<mapsto> Holding 1])"
    using step [OF s7 ls_step.test [where t = 5 and lid = 1 and got = True and s' = "?sv True True (Some 1)"]]
    by (simp add: acquire_test_def fun_upd_twist)
  then show ?thesis by (intro exI conjI) (rule s8, simp_all)
qed

end
