(* ===== verification/NodeService.thy ===== *)
theory NodeService
  imports RpcCall Rsm LockServer Sockaddr
begin

text \<open>
  The lock server program as it is built, \<open>lock_smain.cc\<close>: a node of the replicated state machine with
  the procedures that \<open>paxos.cc\<close>, \<open>config.cc\<close> and \<open>rsm.cc\<close> register, and its test server; and the
  programs \<open>rsm_tester.cc\<close> and \<open>lock_demo.cc\<close> that call such servers.  The theorems say that calls
  of a node's procedures over RPC are calls of its handlers, what the tester does to a node, and
  that the demo cannot work with this server.
\<close>

section \<open>The procedures of a node\<close>

definition pnum :: "paxos_status \<Rightarrow> status" where
  "pnum st = (case st of POK \<Rightarrow> 0 | PERR \<Rightarrow> 1)"

definition rnum :: "rsm_status \<Rightarrow> status" where
  "rnum st = (case st of ROK \<Rightarrow> 0 | RERR \<Rightarrow> 1 | RBUSY \<Rightarrow> 2)"

definition cnum :: "rsm_client_status \<Rightarrow> status" where
  "cnum st = (case st of COK \<Rightarrow> 0 | CERR \<Rightarrow> 1 | CNOTPRIMARY \<Rightarrow> 2 | CBUSY \<Rightarrow> 3 | CDELAY \<Rightarrow> 4)"

definition tnum :: "rsm_test_status \<Rightarrow> status" where
  "tnum st = (case st of TOK \<Rightarrow> 0 | TERR \<Rightarrow> 1)"

definition proc_preparereq :: u32 where "proc_preparereq = 0x11001"
definition proc_acceptreq :: u32 where "proc_acceptreq = 0x11002"
definition proc_decidereq :: u32 where "proc_decidereq = 0x11003"
definition proc_heartbeat :: u32 where "proc_heartbeat = 0x11004"
definition proc_client_invoke :: u32 where "proc_client_invoke = 0x9001"
definition proc_members :: u32 where "proc_members = 0x9002"
definition proc_invoke :: u32 where "proc_invoke = 0x10001"
definition proc_transferreq :: u32 where "proc_transferreq = 0x10002"
definition proc_transferdonereq :: u32 where "proc_transferdonereq = 0x10003"
definition proc_joinreq :: u32 where "proc_joinreq = 0x10004"
definition proc_net_repair :: u32 where "proc_net_repair = 0x12001"
definition proc_breakpoint :: u32 where "proc_breakpoint = 0x12002"
definition proc_lock_stat :: u32 where "proc_lock_stat = 0x7005"

text \<open>
  The handlers on the state of the whole node.  A result variable that a handler does not set holds
  what it happens to: \<open>j\<close> for an integer, \<open>r0\<close> for a prepare result.  \<open>add\<close> is what \<open>config::add\<close>
  does, with the runs of Paxos it makes.
\<close>

definition set_acc :: "acceptor \<Rightarrow> rsm \<Rightarrow> rsm" where
  "set_acc a s = s\<lparr>rs_cfg := (rs_cfg s)\<lparr>cf_acc := a\<rparr>\<rparr>"

definition srv_preparereq :: "prepareres \<Rightarrow> string \<times> preparearg \<Rightarrow> rsm \<Rightarrow> (status \<times> prepareres \<times> rsm) res" where
  "srv_preparereq r0 x s =
     (let (a, r, st) = handle_preparereq (snd x) r0 (cf_acc (rs_cfg s)) in Inr (pnum st, r, set_acc a s))"

definition srv_acceptreq :: "string \<times> acceptarg \<Rightarrow> rsm \<Rightarrow> (status \<times> u32 \<times> rsm) res" where
  "srv_acceptreq x s =
     (let (a, r, st) = handle_acceptreq (snd x) (cf_acc (rs_cfg s)) in Inr (pnum st, r, set_acc a s))"

definition srv_decidereq :: "u32 \<Rightarrow> string \<times> decidearg \<Rightarrow> rsm \<Rightarrow> (status \<times> u32 \<times> rsm) res" where
  "srv_decidereq j x s =
     rbind (rsm_decidereq (snd x) s) (\<lambda>t. Inr (pnum (snd (snd (handle_decidereq (snd x) (cf_acc (rs_cfg s))))), j, t))"

definition srv_heartbeat :: "string \<times> u32 \<Rightarrow> rsm \<Rightarrow> (status \<times> u32 \<times> rsm) res" where
  "srv_heartbeat x s = rbind (config_heartbeat (snd x) (rs_cfg s)) (\<lambda>(st, r). Inr (pnum st, r, s))"

definition srv_joinreq ::
  "(string \<Rightarrow> rsm \<Rightarrow> bool \<times> rsm) \<Rightarrow> string \<times> viewstamp \<Rightarrow> rsm \<Rightarrow> (status \<times> joinres \<times> rsm) res" where
  "srv_joinreq add x s =
     (case joinreq_begin (fst x) s of
        Some (st, r) \<Rightarrow> Inr (rnum st, r, s)
      | None \<Rightarrow> (let (ok, s) = add (fst x) s; (st, r) = joinreq_end ok s in Inr (rnum st, r, s)))"

definition srv_members :: "u32 \<Rightarrow> rsm \<Rightarrow> (status \<times> string list \<times> rsm) res" where
  "srv_members i s = (let ((st, v), s) = client_members s in Inr (cnum st, v, s))"

definition srv_client_invoke :: "u32 \<times> string \<Rightarrow> rsm \<Rightarrow> (status \<times> string \<times> rsm) res" where
  "srv_client_invoke x s = (let ((st, r), s) = client_invoke (sint (fst x)) (snd x) [] s in Inr (cnum st, r, s))"

definition srv_invoke :: "u32 \<Rightarrow> u32 \<times> viewstamp \<times> string \<Rightarrow> rsm \<Rightarrow> (status \<times> u32 \<times> rsm) res" where
  "srv_invoke j x s = (case x of (proc, vs, req) \<Rightarrow> let (st, s) = rsm_invoke (sint proc) vs req s in Inr (rnum st, j, s))"

definition srv_transferreq :: "string \<times> viewstamp \<Rightarrow> rsm \<Rightarrow> (status \<times> transferres \<times> rsm) res" where
  "srv_transferreq x s =
     (let ((st, r), s) = transferreq (fst x) (snd x) (Transferres [] (Viewstamp 0 0)) s in Inr (rnum st, r, s))"

definition srv_transferdonereq :: "u32 \<Rightarrow> string \<Rightarrow> rsm \<Rightarrow> (status \<times> u32 \<times> rsm) res" where
  "srv_transferdonereq j m s = (let (st, s) = transferdonereq m s in Inr (rnum st, j, s))"

definition srv_net_repair :: "u32 \<Rightarrow> rsm \<Rightarrow> (status \<times> u32 \<times> rsm) res" where
  "srv_net_repair heal s =
     (let ((st, _), s) = test_net_repairreq (sint heal) s in Inr (tnum st, word_of_int (tnum st), s))"

definition srv_breakpoint :: "u32 \<Rightarrow> rsm \<Rightarrow> (status \<times> u32 \<times> rsm) res" where
  "srv_breakpoint b s = (let (st, s) = breakpointreq (sint b) s in Inr (tnum st, word_of_int (tnum st), s))"

text \<open>Arguments are read into fresh variables.\<close>

abbreviation get_str :: "unmarshall \<Rightarrow> (string \<times> unmarshall) res" where
  "get_str \<equiv> get_string []"

definition get_prepare_args :: "unmarshall \<Rightarrow> ((string \<times> preparearg) \<times> unmarshall) res" where
  "get_prepare_args = get_pair get_str (get_preparearg (Preparearg 0 (Prop 0 []) []))"

definition get_accept_args :: "unmarshall \<Rightarrow> ((string \<times> acceptarg) \<times> unmarshall) res" where
  "get_accept_args = get_pair get_str (get_acceptarg (Acceptarg 0 (Prop 0 []) []))"

definition get_decide_args :: "unmarshall \<Rightarrow> ((string \<times> decidearg) \<times> unmarshall) res" where
  "get_decide_args = get_pair get_str (get_decidearg (Decidearg 0 []))"

section \<open>The servers\<close>

text \<open>What the constructors of the acceptor, the configuration module and the state machine register.\<close>

definition acceptor_server :: "string \<Rightarrow> u32 \<Rightarrow> prepareres \<Rightarrow> u32 \<Rightarrow> rsm rpcs res" where
  "acceptor_server me nonce r0 j =
     rbind (rpcs_new (word_of_int (atoi me)) nonce 0) (\<lambda>pxs.
     rbind (reg1 pxs proc_preparereq (handler_fn get_prepare_args (srv_preparereq r0) put_prepareres)) (\<lambda>pxs.
     rbind (reg1 pxs proc_acceptreq (handler_fn get_accept_args srv_acceptreq put_int)) (\<lambda>pxs.
     reg1 pxs proc_decidereq (handler_fn get_decide_args (srv_decidereq j) put_int))))"

definition config_server :: "rsm rpcs \<Rightarrow> rsm rpcs res" where
  "config_server pxsrpc = reg1 pxsrpc proc_heartbeat (handler_fn (get_pair get_str get_u32) srv_heartbeat put_int)"

definition rsm_server :: "(string \<Rightarrow> rsm \<Rightarrow> bool \<times> rsm) \<Rightarrow> u32 \<Rightarrow> rsm rpcs \<Rightarrow> rsm rpcs res" where
  "rsm_server add j rsmrpc =
     rbind (reg1 rsmrpc proc_client_invoke (handler_fn (get_pair get_int get_str) srv_client_invoke put_string)) (\<lambda>rsmrpc.
     rbind (reg1 rsmrpc proc_members (handler_fn get_int srv_members (put_vector put_string))) (\<lambda>rsmrpc.
     rbind (reg1 rsmrpc proc_invoke
       (handler_fn (get_pair get_int (get_pair get_viewstamp get_str)) (srv_invoke j) put_int)) (\<lambda>rsmrpc.
     rbind (reg1 rsmrpc proc_transferreq (handler_fn (get_pair get_str get_viewstamp) srv_transferreq put_transferres)) (\<lambda>rsmrpc.
     rbind (reg1 rsmrpc proc_transferdonereq (handler_fn get_str (srv_transferdonereq j) put_int)) (\<lambda>rsmrpc.
     reg1 rsmrpc proc_joinreq (handler_fn (get_pair get_str get_viewstamp) (srv_joinreq add) put_joinres))))))"

definition test_server :: "string \<Rightarrow> u32 \<Rightarrow> rsm rpcs res" where
  "test_server me nonce =
     rbind (rpcs_new (word_of_int (atoi me) + 1) nonce 0) (\<lambda>testsvr.
     rbind (reg1 testsvr proc_net_repair (handler_fn get_int srv_net_repair put_int)) (\<lambda>testsvr.
     reg1 testsvr proc_breakpoint (handler_fn get_int srv_breakpoint put_int)))"

text \<open>\<open>main\<close>; \<open>file\<close> is the log on disk and \<open>n\<close> what an integer that the log reader leaves unset holds.\<close>

definition lock_smain ::
  "string list \<Rightarrow> string \<Rightarrow> u32 \<Rightarrow> (string \<Rightarrow> rsm \<Rightarrow> bool \<times> rsm) \<Rightarrow> u32 \<Rightarrow> u32 \<Rightarrow> prepareres \<Rightarrow> u32 \<Rightarrow>
   (rsm \<times> rsm rpcs \<times> rsm rpcs) res"
where
  "lock_smain argv file n add nonce1 nonce2 r0 j =
     (if length argv \<noteq> 3 then Inl Exit
      else
        rbind (rsm_new (argv ! 1) (argv ! 2) file n) (\<lambda>s.
        rbind (acceptor_server (argv ! 2) nonce1 r0 j) (\<lambda>rsmrpc.
        rbind (config_server rsmrpc) (\<lambda>rsmrpc.
        rbind (rsm_server add j rsmrpc) (\<lambda>rsmrpc.
        rbind (test_server (argv ! 2) nonce2) (\<lambda>testsvr. Inr (s, rsmrpc, testsvr)))))))"

definition node_procs :: "(string \<Rightarrow> rsm \<Rightarrow> bool \<times> rsm) \<Rightarrow> u32 \<Rightarrow> prepareres \<Rightarrow> u32 \<Rightarrow> u32 \<rightharpoonup> rsm handler" where
  "node_procs add nonce r0 j = [proc_bind \<mapsto> bind_handler nonce,
     proc_preparereq \<mapsto> handler_fn get_prepare_args (srv_preparereq r0) put_prepareres,
     proc_acceptreq \<mapsto> handler_fn get_accept_args srv_acceptreq put_int,
     proc_decidereq \<mapsto> handler_fn get_decide_args (srv_decidereq j) put_int,
     proc_heartbeat \<mapsto> handler_fn (get_pair get_str get_u32) srv_heartbeat put_int,
     proc_client_invoke \<mapsto> handler_fn (get_pair get_int get_str) srv_client_invoke put_string,
     proc_members \<mapsto> handler_fn get_int srv_members (put_vector put_string),
     proc_invoke \<mapsto> handler_fn (get_pair get_int (get_pair get_viewstamp get_str)) (srv_invoke j) put_int,
     proc_transferreq \<mapsto> handler_fn (get_pair get_str get_viewstamp) srv_transferreq put_transferres,
     proc_transferdonereq \<mapsto> handler_fn get_str (srv_transferdonereq j) put_int,
     proc_joinreq \<mapsto> handler_fn (get_pair get_str get_viewstamp) (srv_joinreq add) put_joinres]"

definition test_server_procs :: "u32 \<Rightarrow> u32 \<rightharpoonup> rsm handler" where
  "test_server_procs nonce = [proc_bind \<mapsto> bind_handler nonce,
     proc_net_repair \<mapsto> handler_fn get_int srv_net_repair put_int,
     proc_breakpoint \<mapsto> handler_fn get_int srv_breakpoint put_int]"

lemmas node_proc_defs = proc_preparereq_def proc_acceptreq_def proc_decidereq_def proc_heartbeat_def
  proc_client_invoke_def proc_members_def proc_invoke_def proc_transferreq_def proc_transferdonereq_def
  proc_joinreq_def proc_net_repair_def proc_breakpoint_def proc_lock_stat_def proc_bind_def

text \<open>A server that has just been set up.\<close>

definition fresh_server :: "'s rpcs \<Rightarrow> u32 \<Rightarrow> bool" where
  "fresh_server s nonce \<longleftrightarrow> rs_nonce s = nonce \<and> rpcs.rs_reachable s \<and> rs_window s = Map.empty"

lemma reg1_fresh:
  "fresh_server s nonce \<Longrightarrow> rs_procs s proc = None \<Longrightarrow>
    \<exists>t. reg1 s proc f = Inr t \<and> fresh_server t nonce \<and> rs_procs t = (rs_procs s)(proc \<mapsto> f)"
  by (simp add: reg1_new fresh_server_def)

lemma rpcs_new_fresh: "\<exists>s. rpcs_new port nonce k = Inr s \<and> fresh_server s nonce \<and> rs_procs s = [proc_bind \<mapsto> bind_handler nonce]"
  using rpcs_new_eq [of port nonce k] by (auto simp: fresh_server_def)

text \<open>The program serves all procedures of a node.\<close>

lemma lock_smain_serves:
  assumes "length argv = 3" and "rsm_new (argv ! 1) (argv ! 2) file n = Inr s"
  shows "\<exists>srv tst. lock_smain argv file n add nonce1 nonce2 r0 j = Inr (s, srv, tst) \<and>
    fresh_server srv nonce1 \<and> rs_procs srv = node_procs add nonce1 r0 j \<and>
    fresh_server tst nonce2 \<and> rs_procs tst = test_server_procs nonce2"
proof -
  obtain s0 :: "rsm rpcs" where a: "rpcs_new (word_of_int (atoi (argv ! 2))) nonce1 0 = Inr s0" "fresh_server s0 nonce1"
    "rs_procs s0 = [proc_bind \<mapsto> bind_handler nonce1]"
    using rpcs_new_fresh by metis
  obtain t0 :: "rsm rpcs" where t: "rpcs_new (word_of_int (atoi (argv ! 2)) + 1) nonce2 0 = Inr t0" "fresh_server t0 nonce2"
    "rs_procs t0 = [proc_bind \<mapsto> bind_handler nonce2]"
    using rpcs_new_fresh by metis
  show ?thesis
    using a(2) t(2) assms
    by (simp add: lock_smain_def acceptor_server_def config_server_def rsm_server_def test_server_def a(1,3) t(1,3)
        reg1_new node_proc_defs node_procs_def test_server_procs_def fresh_server_def)
qed

section \<open>Calls of the other nodes\<close>

text \<open>The calls a proposer, a heartbeat thread and a joining node make, and what they get back.\<close>

datatype node_op =
    PrepareReq string preparearg
  | AcceptReq string acceptarg
  | DecideReq string decidearg
  | HeartbeatReq string u32
  | JoinReq string viewstamp

datatype node_result = Prepared status prepareres | Answered status u32 | Joined status joinres

fun node_call ::
  "nat \<Rightarrow> node_op \<Rightarrow> rpcc \<Rightarrow> rsm rpcs \<Rightarrow> rsm \<Rightarrow> (rpcc \<times> rsm rpcs \<times> rsm \<times> node_result) res"
where
  "node_call ch (PrepareReq me arg) c s st =
     rbind (rpc_call (put_pair put_string put_preparearg) get_prepareres ch proc_preparereq (me, arg)
         (Prepareres 0 0 (Prop 0 []) []) c s st)
       (\<lambda>(c, s, st, ret, r). Inr (c, s, st, Prepared ret r))"
| "node_call ch (AcceptReq me arg) c s st =
     rbind (rpc_call (put_pair put_string put_acceptarg) (\<lambda>_. get_int) ch proc_acceptreq (me, arg) 0 c s st)
       (\<lambda>(c, s, st, ret, r). Inr (c, s, st, Answered ret r))"
| "node_call ch (DecideReq me arg) c s st =
     rbind (rpc_call (put_pair put_string put_decidearg) (\<lambda>_. get_int) ch proc_decidereq (me, arg) 0 c s st)
       (\<lambda>(c, s, st, ret, r). Inr (c, s, st, Answered ret r))"
| "node_call ch (HeartbeatReq me vid) c s st =
     rbind (rpc_call (put_pair put_string put_u32) (\<lambda>_. get_int) ch proc_heartbeat (me, vid) 0 c s st)
       (\<lambda>(c, s, st, ret, r). Inr (c, s, st, Answered ret r))"
| "node_call ch (JoinReq me lst) c s st =
     rbind (rpc_call (put_pair put_string put_viewstamp) get_joinres ch proc_joinreq (me, lst) (Joinres []) c s st)
       (\<lambda>(c, s, st, ret, r). Inr (c, s, st, Joined ret r))"

fun node_method ::
  "(string \<Rightarrow> rsm \<Rightarrow> bool \<times> rsm) \<Rightarrow> prepareres \<Rightarrow> u32 \<Rightarrow> node_op \<Rightarrow> rsm \<Rightarrow> (rsm \<times> node_result) res"
where
  "node_method add r0 j (PrepareReq me arg) st =
     rbind (srv_preparereq r0 (me, arg) st) (\<lambda>(ret, r, st). Inr (st, Prepared ret r))"
| "node_method add r0 j (AcceptReq me arg) st = rbind (srv_acceptreq (me, arg) st) (\<lambda>(ret, r, st). Inr (st, Answered ret r))"
| "node_method add r0 j (DecideReq me arg) st = rbind (srv_decidereq j (me, arg) st) (\<lambda>(ret, r, st). Inr (st, Answered ret r))"
| "node_method add r0 j (HeartbeatReq me vid) st = rbind (srv_heartbeat (me, vid) st) (\<lambda>(ret, r, st). Inr (st, Answered ret r))"
| "node_method add r0 j (JoinReq me lst) st = rbind (srv_joinreq add (me, lst) st) (\<lambda>(ret, r, st). Inr (st, Joined ret r))"

fun node_calls :: "(nat \<times> node_op) list \<Rightarrow> (nat \<Rightarrow> rpcc) \<Rightarrow> rsm rpcs \<Rightarrow> rsm \<Rightarrow> (rsm \<times> node_result list) res" where
  "node_calls [] cs s st = Inr (st, [])"
| "node_calls ((i, op) # ops) cs s st =
     rbind (node_call i op (cs i) s st) (\<lambda>(c, s, st, r).
     rbind (node_calls ops (cs(i := c)) s st) (\<lambda>(st, rs). Inr (st, r # rs)))"

fun node_methods ::
  "(string \<Rightarrow> rsm \<Rightarrow> bool \<times> rsm) \<Rightarrow> prepareres \<Rightarrow> u32 \<Rightarrow> (nat \<times> node_op) list \<Rightarrow> rsm \<Rightarrow> (rsm \<times> node_result list) res"
where
  "node_methods add r0 j [] st = Inr (st, [])"
| "node_methods add r0 j ((i, op) # ops) st =
     rbind (node_method add r0 j op st) (\<lambda>(st, r).
     rbind (node_methods add r0 j ops st) (\<lambda>(st, rs). Inr (st, r # rs)))"

text \<open>Arguments and results that fit a message.\<close>

abbreviation enc_preparearg :: "preparearg \<Rightarrow> byte list" where
  "enc_preparearg a \<equiv> enc_pair be32 enc_prop_string (pa_instance a, pa_n a, pa_v a)"

abbreviation enc_acceptarg :: "acceptarg \<Rightarrow> byte list" where
  "enc_acceptarg a \<equiv> enc_pair be32 enc_prop_string (aa_instance a, aa_n a, aa_v a)"

abbreviation enc_decidearg :: "decidearg \<Rightarrow> byte list" where
  "enc_decidearg a \<equiv> enc_pair be32 enc_string (da_instance a, da_v a)"

abbreviation enc_viewstamp :: "viewstamp \<Rightarrow> byte list" where
  "enc_viewstamp v \<equiv> enc_pair be32 be32 (vs_vid v, vs_seqno v)"

abbreviation enc_prepareres :: "prepareres \<Rightarrow> byte list" where
  "enc_prepareres r \<equiv> enc_pair be32 (enc_pair be32 enc_prop_string) (pr_oldinstance r, pr_accept r, pr_n_a r, pr_v_a r)"

fun op_fits :: "node_op \<Rightarrow> bool" where
  "op_fits (PrepareReq me arg) = fits (enc_pair enc_string enc_preparearg (me, arg))"
| "op_fits (AcceptReq me arg) = fits (enc_pair enc_string enc_acceptarg (me, arg))"
| "op_fits (DecideReq me arg) = fits (enc_pair enc_string enc_decidearg (me, arg))"
| "op_fits (HeartbeatReq me vid) = fits (enc_pair enc_string be32 (me, vid))"
| "op_fits (JoinReq me lst) = fits (enc_pair enc_string enc_viewstamp (me, lst))"

fun result_fits :: "node_result \<Rightarrow> bool" where
  "result_fits (Prepared ret r) = fits (enc_prepareres r)"
| "result_fits (Answered ret r) = True"
| "result_fits (Joined ret r) = fits (enc_string (jr_log r))"

lemmas pair_codecI = codec2.pair_codec [OF codec2.intro]

lemma node_codecs:
  "codec (put_pair put_string put_preparearg) get_prepare_args (enc_pair enc_string enc_preparearg)"
  "codec (put_pair put_string put_acceptarg) get_accept_args (enc_pair enc_string enc_acceptarg)"
  "codec (put_pair put_string put_decidearg) get_decide_args (enc_pair enc_string enc_decidearg)"
  "codec (put_pair put_string put_u32) (get_pair get_str get_u32) (enc_pair enc_string be32)"
  "codec (put_pair put_string put_viewstamp) (get_pair get_str get_viewstamp) (enc_pair enc_string enc_viewstamp)"
  unfolding get_prepare_args_def get_accept_args_def get_decide_args_def
  by (rule pair_codecI [OF str.codec_axioms preparearg_c.struct.codec_axioms],
    rule pair_codecI [OF str.codec_axioms acceptarg_c.struct.codec_axioms],
    rule pair_codecI [OF str.codec_axioms decidearg_c.struct.codec_axioms],
    rule pair_codecI [OF str.codec_axioms u32.codec_axioms],
    rule pair_codecI [OF str.codec_axioms viewstamp_c.struct.codec_axioms])

lemma nums: "0 \<le> pnum a \<and> pnum a < 2 ^ 31" "0 \<le> rnum b \<and> rnum b < 2 ^ 31"
  unfolding pnum_def rnum_def by (cases a; simp) (cases b; simp)

text \<open>A call that has run.\<close>

definition called :: "rpcc \<Rightarrow> 's rpcs \<Rightarrow> rpcc \<Rightarrow> 's rpcs \<Rightarrow> bool" where
  "called c s c' s' \<longleftrightarrow> linked c' s' \<and> same_client c c' \<and> same_server s s' \<and> c_xid c' = c_xid c + 1 \<and>
     (\<forall>d. d \<noteq> c_clt_nonce c \<longrightarrow> xids_of s' d = xids_of s d)"

lemma method_called:
  assumes "linked c s" "c_bind_done c" "c_xid c \<noteq> - 1" "proc \<noteq> proc_bind" "rs_procs s proc = Some (handler_fn get meth rput)"
    and "codec put get enc" "fits (enc a)" "\<And>old. codec rput (rget old) renc" "fits (renc r)"
    and "meth a st = Inr (b, r, st')" "0 \<le> b" "b < 2 ^ 31"
  shows "\<exists>c' s'. rpc_call put rget ch proc a old c s st = Inr (c', s', st', b, r) \<and> called c s c' s'"
proof -
  have "callable c s proc (handler_fn get meth rput)" using assms(1-5) by (simp add: callable_def)
  from rpc_call_is_method_call [OF assms(6,7,8,9) this assms(3,10,11,12)] show ?thesis by (simp add: called_def)
qed

lemma node_call_runs:
  assumes l: "linked c s" "c_bind_done c" "c_xid c \<noteq> - 1" and p: "rs_procs s = node_procs add nonce r0 j"
    and x: "op_fits op" and m: "node_method add r0 j op st = Inr (st', r)" and f: "result_fits r"
  shows "\<exists>c' s'. node_call ch op c s st = Inr (c', s', st', r) \<and> called c s c' s'"
proof (cases op)
  case (PrepareReq me arg)
  obtain ret q where q: "srv_preparereq r0 (me, arg) st = Inr (ret, q, st')" "r = Prepared ret q"
    using m PrepareReq by (auto simp: rbind_eq_Inr_iff)
  have b: "0 \<le> ret" "ret < 2 ^ 31" using q(1) nums(1) by (auto simp: srv_preparereq_def split_def Let_def)
  have fits: "fits (enc_pair enc_string enc_preparearg (me, arg))" "fits (enc_prepareres q)"
    using x f q(2) PrepareReq by simp_all
  have "\<exists>c' s'. rpc_call (put_pair put_string put_preparearg) get_prepareres ch proc_preparereq (me, arg)
      (Prepareres 0 0 (Prop 0 []) []) c s st = Inr (c', s', st', ret, q) \<and> called c s c' s'"
    by (rule method_called [where a = "(me, arg)" and meth = "srv_preparereq r0" and enc = "enc_pair enc_string enc_preparearg"
          and renc = "\<lambda>r. enc_prepareres r" and rget = "get_prepareres", OF l _ _ node_codecs(1) fits(1) prepareres_c.struct.codec_axioms fits(2) q(1) b])
      (simp_all add: p node_procs_def node_proc_defs)
  then show ?thesis using PrepareReq q(2) by auto
next
  case (AcceptReq me arg)
  obtain ret q where q: "srv_acceptreq (me, arg) st = Inr (ret, q, st')" "r = Answered ret q"
    using m AcceptReq by (auto simp: rbind_eq_Inr_iff)
  have b: "0 \<le> ret" "ret < 2 ^ 31" using q(1) nums(1) by (auto simp: srv_acceptreq_def split_def Let_def)
  have fits: "fits (enc_pair enc_string enc_acceptarg (me, arg))" "fits (be32 q)"
    using x AcceptReq by (simp, simp add: fits_def)
  have "\<exists>c' s'. rpc_call (put_pair put_string put_acceptarg) (\<lambda>_. get_int) ch proc_acceptreq (me, arg) 0 c s st =
      Inr (c', s', st', ret, q) \<and> called c s c' s'"
    by (rule method_called [where a = "(me, arg)" and meth = "srv_acceptreq" and enc = "enc_pair enc_string enc_acceptarg"
          and renc = "be32" and rget = "\<lambda>_. get_int", OF l _ _ node_codecs(2) fits(1) int.codec_axioms fits(2) q(1) b])
      (simp_all add: p node_procs_def node_proc_defs)
  then show ?thesis using AcceptReq q(2) by auto
next
  case (DecideReq me arg)
  obtain ret q where q: "srv_decidereq j (me, arg) st = Inr (ret, q, st')" "r = Answered ret q"
    using m DecideReq by (auto simp: rbind_eq_Inr_iff)
  have b: "0 \<le> ret" "ret < 2 ^ 31" using q(1) nums(1) by (auto simp: srv_decidereq_def rbind_eq_Inr_iff)
  have fits: "fits (enc_pair enc_string enc_decidearg (me, arg))" "fits (be32 q)"
    using x DecideReq by (simp, simp add: fits_def)
  have "\<exists>c' s'. rpc_call (put_pair put_string put_decidearg) (\<lambda>_. get_int) ch proc_decidereq (me, arg) 0 c s st =
      Inr (c', s', st', ret, q) \<and> called c s c' s'"
    by (rule method_called [where a = "(me, arg)" and meth = "srv_decidereq j" and enc = "enc_pair enc_string enc_decidearg"
          and renc = "be32" and rget = "\<lambda>_. get_int", OF l _ _ node_codecs(3) fits(1) int.codec_axioms fits(2) q(1) b])
      (simp_all add: p node_procs_def node_proc_defs)
  then show ?thesis using DecideReq q(2) by auto
next
  case (HeartbeatReq me vid)
  obtain ret q where q: "srv_heartbeat (me, vid) st = Inr (ret, q, st')" "r = Answered ret q"
    using m HeartbeatReq by (auto simp: rbind_eq_Inr_iff)
  have b: "0 \<le> ret" "ret < 2 ^ 31" using q(1) nums(1) by (auto simp: srv_heartbeat_def rbind_eq_Inr_iff)
  have fits: "fits (enc_pair enc_string be32 (me, vid))" "fits (be32 q)"
    using x HeartbeatReq by (simp, simp add: fits_def)
  have "\<exists>c' s'. rpc_call (put_pair put_string put_u32) (\<lambda>_. get_int) ch proc_heartbeat (me, vid) 0 c s st =
      Inr (c', s', st', ret, q) \<and> called c s c' s'"
    by (rule method_called [where a = "(me, vid)" and meth = "srv_heartbeat" and enc = "enc_pair enc_string be32"
          and renc = "be32" and rget = "\<lambda>_. get_int", OF l _ _ node_codecs(4) fits(1) int.codec_axioms fits(2) q(1) b])
      (simp_all add: p node_procs_def node_proc_defs)
  then show ?thesis using HeartbeatReq q(2) by auto
next
  case (JoinReq me lst)
  obtain ret q where q: "srv_joinreq add (me, lst) st = Inr (ret, q, st')" "r = Joined ret q"
    using m JoinReq by (auto simp: rbind_eq_Inr_iff)
  have b: "0 \<le> ret" "ret < 2 ^ 31"
    using q(1) nums(2) by (auto simp: srv_joinreq_def split_def Let_def split: option.splits)
  have fits: "fits (enc_pair enc_string enc_viewstamp (me, lst))" "fits (enc_string (jr_log q))"
    using x f q(2) JoinReq by simp_all
  have "\<exists>c' s'. rpc_call (put_pair put_string put_viewstamp) get_joinres ch proc_joinreq (me, lst) (Joinres []) c s st =
      Inr (c', s', st', ret, q) \<and> called c s c' s'"
    by (rule method_called [where a = "(me, lst)" and meth = "srv_joinreq add" and enc = "enc_pair enc_string enc_viewstamp"
          and renc = "\<lambda>r. enc_string (jr_log r)" and rget = "get_joinres", OF l _ _ node_codecs(5) fits(1) joinres_c.struct.codec_axioms fits(2) q(1) b])
      (simp_all add: p node_procs_def node_proc_defs)
  then show ?thesis using JoinReq q(2) by auto
qed

lemma node_calls_local:
  assumes "clients_ok I cs s (length ops)" and "rs_procs s = node_procs add (rs_nonce s) r0 j"
    and "\<forall>(i, op) \<in> set ops. i \<in> I \<and> op_fits op"
    and "node_methods add r0 j ops st = Inr (st', rs)" and "\<forall>r \<in> set rs. result_fits r"
  shows "node_calls ops cs s st = Inr (st', rs)"
  using assms
proof (induction ops arbitrary: cs s st rs)
  case Nil
  then show ?case by simp
next
  case (Cons o1 ops)
  obtain i op where o1: "o1 = (i, op)" by (cases o1)
  obtain st1 r rs1 where m: "node_method add r0 j op st = Inr (st1, r)" "node_methods add r0 j ops st1 = Inr (st', rs1)"
    "rs = r # rs1"
    using Cons.prems(4) by (auto simp: o1 rbind_eq_Inr_iff)
  have i: "i \<in> I" "op_fits op" using Cons.prems(3) by (simp_all add: o1)
  have c: "linked (cs i) s" "c_bind_done (cs i)" "unat (c_xid (cs i)) + Suc (length ops) < 2 ^ 32"
    using Cons.prems(1) i(1) by (simp_all add: clients_ok_def)
  have fit: "result_fits r" using Cons.prems(5) m(3) by simp
  obtain c' s' where call: "node_call i op (cs i) s st = Inr (c', s', st1, r)" "called (cs i) s c' s'"
    using node_call_runs [OF c(1,2) _ Cons.prems(2) i(2) m(1) fit] room_u32 [OF c(3)] by blast
  have ok: "clients_ok I (cs(i := c')) s' (length ops)"
    by (rule clients_ok_step [where cs = cs and i = i and s = s, OF _ i(1)])
      (use call(2) Cons.prems(1) in \<open>simp_all add: called_def\<close>)
  have p: "rs_procs s' = node_procs add (rs_nonce s') r0 j"
    using call(2) Cons.prems(2) by (simp add: called_def same_server_def)
  have "node_calls ops (cs(i := c')) s' st1 = Inr (st', rs1)"
    by (rule Cons.IH [OF ok p _ m(2)]) (use Cons.prems(3,5) m(3) in simp_all)
  then show ?case using call(1) by (simp add: o1 m(3))
qed

text \<open>C7: prepare, accept, decide, heartbeat and join requests that any number of nodes send to the lock server
  program over RPC, in any order, have the replies and the effect of its handlers called locally.\<close>

theorem node_service_is_local:
  assumes "lock_smain argv file n add nonce1 nonce2 r0 j = Inr (st0, srv, tst)" and "same_server srv s"
    and "clients_ok I cs s (length ops)" and "\<forall>(i, op) \<in> set ops. i \<in> I \<and> op_fits op"
    and "node_methods add r0 j ops st = Inr (st', rs)" and "\<forall>r \<in> set rs. result_fits r"
  shows "node_calls ops cs s st = Inr (st', rs)"
proof -
  have "length argv = 3" "rsm_new (argv ! 1) (argv ! 2) file n = Inr st0"
    using assms(1) by (auto simp: lock_smain_def rbind_eq_Inr_iff split: if_splits)
  from lock_smain_serves [OF this, where add = add and ?r0.0 = r0 and j = j and ?nonce1.0 = nonce1 and ?nonce2.0 = nonce2] assms(1)
  have "rs_procs srv = node_procs add nonce1 r0 j" "rs_nonce srv = nonce1" by (auto simp: fresh_server_def)
  then have p: "rs_procs s = node_procs add (rs_nonce s) r0 j" using assms(2) by (simp add: same_server_def)
  show ?thesis by (rule node_calls_local [OF assms(3) p assms(4,5,6)])
qed

text \<open>Two nodes call a third, which is a node with an empty log.\<close>

definition ex_add :: "string \<Rightarrow> rsm \<Rightarrow> bool \<times> rsm" where
  "ex_add m s = (False, s)"

theorem node_service_is_local_witness:
  "\<exists>srv tst st'. lock_smain [''lock_server'', ''3001'', ''3002''] [] 0 ex_add 5 6 (Prepareres 0 0 (Prop 0 []) []) 7 =
      Inr (ex_rsm ''3002'', srv, tst) \<and>
    node_calls [(1, PrepareReq ''3001'' (Preparearg 1 (Prop 1 ''3001'') [])), (2, JoinReq ''3003'' (Viewstamp 0 0)),
        (1, AcceptReq ''3001'' (Acceptarg 1 (Prop 1 ''3001'') ''3001 ''))] (\<lambda>i. ex_clt (of_nat i)) srv (ex_rsm ''3002'') =
      Inr (st', [Prepared 0 (Prepareres 0 1 (Prop 0 ''3002'') []), Joined 2 (Joinres []), Answered 0 1])"
proof -
  let ?r0 = "Prepareres 0 0 (Prop 0 []) []"
  have new: "rsm_new ''3001'' ''3002'' [] 0 = Inr (ex_rsm ''3002'')" "cf_acc (rs_cfg (ex_rsm ''3002'')) = base ''3002'' []"
    "rs_primary (ex_rsm ''3002'') = ''3001''" "rs_me (ex_rsm ''3002'') = ''3002''"
    using ex_rsm_new [of "''3002''"] by simp_all
  obtain srv tst where sv: "lock_smain [''lock_server'', ''3001'', ''3002''] [] 0 ex_add 5 6 ?r0 7 = Inr (ex_rsm ''3002'', srv, tst)"
    "fresh_server srv 5" "rs_procs srv = node_procs ex_add 5 ?r0 7"
    using lock_smain_serves [of "[''lock_server'', ''3001'', ''3002'']" "[]" 0 "ex_rsm ''3002''" ex_add 5 6 ?r0 7] new(1)
    by auto
  let ?ops = "[(1, PrepareReq ''3001'' (Preparearg 1 (Prop 1 ''3001'') [])), (2, JoinReq ''3003'' (Viewstamp 0 0)),
        (1, AcceptReq ''3001'' (Acceptarg 1 (Prop 1 ''3001'') ''3001 ''))]"
  have l: "linked (ex_clt n) srv" for n
    using ex_linked [of n] sv(2) by (auto simp: linked_def fresh_server_def ex_srv_simps rw_ok_def xids_of_def)
  then have ok: "clients_ok {1, 2} (\<lambda>i. ex_clt (of_nat i)) srv (length ?ops)" by (simp add: clients_ok_def ex_clt_simps)
  have fit: "\<forall>(i, op) \<in> set ?ops. i \<in> {1, 2} \<and> op_fits op"
    by (simp add: fits_def enc_pair_def enc_string_def)
  let ?n = "Prop 1 ''3001''" and ?b = "base ''3002'' []" and ?s0 = "ex_rsm ''3002''"
  have mems: "cf_mems (rs_cfg ?s0) = []"
  proof -
    have "logread ?b = Inr ?b" by (simp add: logread_def base_def logread_loop.simps in_word_def)
    then show ?thesis by (simp add: ex_rsm_def rsm_new_def config_new_def acceptor_new_base reconstruct_def base_simps)
  qed
  define a1 where "a1 = loghigh ?n (?b\<lparr>ac_n_h := ?n\<rparr>)"
  define s1 where "s1 = set_acc a1 ?s0"
  have gt: "Prop 0 ''3002'' < ?n" by (simp add: less_prop_t_def prop_gt_def del: prop_gt_iff)
  have m1: "node_method ex_add ?r0 7 (PrepareReq ''3001'' (Preparearg 1 ?n [])) ?s0 =
      Inr (s1, Prepared 0 (Prepareres 0 1 (Prop 0 ''3002'') []))"
    using gt by (simp add: srv_preparereq_def handle_preparereq_def new base_simps pnum_def a1_def s1_def)
  have s1: "cf_acc (rs_cfg s1) = a1" "rs_primary s1 = ''3001''" "rs_me s1 = ''3002''" "cf_mems (rs_cfg s1) = []"
    by (simp_all add: s1_def set_acc_def new mems)
  have m2: "node_method ex_add ?r0 7 (JoinReq ''3003'' (Viewstamp 0 0)) s1 = Inr (s1, Joined 2 (Joinres []))"
    by (simp add: srv_joinreq_def joinreq_begin_def ismember_def s1 rnum_def)
  have a1: "ac_instance_h a1 = 0" "ac_n_h a1 = ?n" by (simp_all add: a1_def loghigh_def base_simps)
  obtain s2 where m3: "node_method ex_add ?r0 7 (AcceptReq ''3001'' (Acceptarg 1 ?n ''3001 '')) s1 = Inr (s2, Answered 0 1)"
    using gt by (simp add: srv_acceptreq_def handle_acceptreq_def s1 a1 pnum_def)
  have m: "node_methods ex_add ?r0 7 ?ops ?s0 =
      Inr (s2, [Prepared 0 (Prepareres 0 1 (Prop 0 ''3002'') []), Joined 2 (Joinres []), Answered 0 1])"
    unfolding node_methods.simps m1 rbind_simps prod.case m2 m3 by simp
  show ?thesis
    using node_service_is_local [OF sv(1) same_server_simps(6) ok fit m] sv(1) by (auto simp: fits_def enc_pair_def enc_string_def)
qed

section \<open>The tester of the state machine\<close>

text \<open>\<open>rsmtest_client\<close>: its constructor only reports a bind that fails; its calls assert success.\<close>

definition rsmtest_client_new :: "nat \<Rightarrow> u32 \<Rightarrow> rsm rpcs \<Rightarrow> rsm \<Rightarrow> (rpcc \<times> rsm rpcs \<times> rsm) res" where
  "rsmtest_client_new ch nonce s st = rbind (rpc_bind ch (rpcc_new True nonce) s st) (\<lambda>(c, s, st, _). Inr (c, s, st))"

definition rsmtest_net_repair :: "nat \<Rightarrow> u32 \<Rightarrow> u32 \<Rightarrow> rpcc \<Rightarrow> rsm rpcs \<Rightarrow> rsm \<Rightarrow> (int \<times> rsm) res" where
  "rsmtest_net_repair ch heal j c s st =
     rbind (rpc_call put_int (\<lambda>_. get_int) ch proc_net_repair heal j c s st) (\<lambda>(c, s, st, ret, r).
     if ret = tnum TOK then Inr (sint r, st) else Inl AssertFail)"

definition rsmtest_breakpoint :: "nat \<Rightarrow> u32 \<Rightarrow> u32 \<Rightarrow> rpcc \<Rightarrow> rsm rpcs \<Rightarrow> rsm \<Rightarrow> (int \<times> rsm) res" where
  "rsmtest_breakpoint ch b j c s st =
     rbind (rpc_call put_int (\<lambda>_. get_int) ch proc_breakpoint b j c s st) (\<lambda>(c, s, st, ret, r).
     if ret = tnum TOK then Inr (sint r, st) else Inl AssertFail)"

text \<open>The line that \<open>main\<close> prints.\<close>

datatype tester_line = NetRepairReturned int | BreakpointReturned int int | UnknownCommand string

definition rsm_tester_main ::
  "string list \<Rightarrow> nat \<Rightarrow> u32 \<Rightarrow> u32 \<Rightarrow> rsm rpcs \<Rightarrow> rsm \<Rightarrow> (tester_line \<times> rsm) res"
where
  "rsm_tester_main argv ch nonce j s st =
     (if length argv \<noteq> 4 then Inl Exit
      else
        rbind (rsmtest_client_new ch nonce s st) (\<lambda>(lc, s, st).
        if argv ! 2 = ''partition'' then
          rbind (rsmtest_net_repair ch (word_of_int (atoi (argv ! 3))) j lc s st) (\<lambda>(r, st). Inr (NetRepairReturned r, st))
        else if argv ! 2 = ''breakpoint'' then
          (let b = word_of_int (atoi (argv ! 3)) in
           rbind (rsmtest_breakpoint ch b j lc s st) (\<lambda>(r, st). Inr (BreakpointReturned (sint b) r, st)))
        else Inr (UnknownCommand (argv ! 2), st)))"

text \<open>A new client of a server that has just been set up binds.\<close>

lemma fresh_binds:
  assumes "fresh_server s n" and "rs_procs s proc_bind = Some (bind_handler n)"
  obtains c s' where "rpc_bind ch (rpcc_new True nonce) s st = Inr (c, s', st, 0)" "linked c s'" "c_bind_done c"
    "c_xid c \<noteq> - 1" "same_server s s'"
proof -
  have "linked (rpcc_new True nonce) s"
    by (rule linked_new) (use assms(1) in \<open>simp_all add: fresh_server_def rw_ok_def xids_of_def\<close>)
  moreover have "\<not> c_bind_done (rpcc_new True nonce)" "c_xid (rpcc_new True nonce) = 1" by (simp_all add: rpcc_new_def)
  moreover have "rs_procs s proc_bind = Some (bind_handler (rs_nonce s))" using assms by (simp add: fresh_server_def)
  ultimately show thesis using bind_connects [of "rpcc_new True nonce" s ch st] that by fastforce
qed

lemma test_call:
  assumes "linked c s" "c_bind_done c" "c_xid c \<noteq> - 1" and "rs_procs s = test_server_procs n"
  shows "\<exists>c' s'. rpc_call put_int (\<lambda>_. get_int) ch proc_net_repair a j c s st =
      Inr (c', s', snd (test_net_repairreq (sint a) st), 0, 0)"
    and "\<exists>c' s'. rpc_call put_int (\<lambda>_. get_int) ch proc_breakpoint a j c s st =
      Inr (c', s', snd (breakpointreq (sint a) st), tnum (fst (breakpointreq (sint a) st)),
        word_of_int (tnum (fst (breakpointreq (sint a) st))))"
proof -
  have fit: "fits (be32 x)" for x by (simp add: fits_def)
  have m1: "srv_net_repair a st = Inr (0, 0, snd (test_net_repairreq (sint a) st))"
    by (simp add: srv_net_repair_def test_net_repairreq_def split_def Let_def tnum_def)
  have c1: "callable c s proc_net_repair (handler_fn get_int srv_net_repair put_int)"
    using assms by (simp add: callable_def test_server_procs_def node_proc_defs)
  from rpc_call_is_method_call [where ch = ch and old = j and rget = "\<lambda>_. get_int",
      OF int.codec_axioms fit int.codec_axioms fit c1 assms(3) m1]
  show "\<exists>c' s'. rpc_call put_int (\<lambda>_. get_int) ch proc_net_repair a j c s st =
      Inr (c', s', snd (test_net_repairreq (sint a) st), 0, 0)" by auto
  let ?t = "tnum (fst (breakpointreq (sint a) st))"
  have m2: "srv_breakpoint a st = Inr (?t, word_of_int ?t, snd (breakpointreq (sint a) st))"
    by (simp add: srv_breakpoint_def split_def Let_def)
  have t: "0 \<le> ?t" "?t < 2 ^ 31" by (simp_all add: tnum_def split: rsm_test_status.split)
  have c2: "callable c s proc_breakpoint (handler_fn get_int srv_breakpoint put_int)"
    using assms by (simp add: callable_def test_server_procs_def node_proc_defs)
  from rpc_call_is_method_call [where ch = ch and old = j and rget = "\<lambda>_. get_int",
      OF int.codec_axioms fit int.codec_axioms fit c2 assms(3) m2 t]
  show "\<exists>c' s'. rpc_call put_int (\<lambda>_. get_int) ch proc_breakpoint a j c s st =
      Inr (c', s', snd (breakpointreq (sint a) st), ?t, word_of_int ?t)" by auto
qed

text \<open>What the tester does to a node through its test server: a partition command repairs the network or has
  it partitioned, a breakpoint command from 1 to 4 sets that breakpoint, another number stops the
  tester in its assert, and another command does nothing.\<close>

theorem rsm_tester_commands:
  assumes argv: "argv = [prog, dst, cmd, arg]" and s: "fresh_server s n" "rs_procs s = test_server_procs n"
    and b: "b = sint (word_of_int (atoi arg) :: u32)"
  shows "rsm_tester_main argv ch nonce j s st =
    (if cmd = ''partition'' then Inr (NetRepairReturned 0, snd (test_net_repairreq b st))
     else if cmd = ''breakpoint'' then
       (if 1 \<le> b \<and> b \<le> 4 then Inr (BreakpointReturned b 0, snd (breakpointreq b st)) else Inl AssertFail)
     else Inr (UnknownCommand cmd, st))"
proof -
  have "rs_procs s proc_bind = Some (bind_handler n)" using s(2) by (simp add: test_server_procs_def node_proc_defs)
  then obtain c s' where c: "rpc_bind ch (rpcc_new True nonce) s st = Inr (c, s', st, 0)" "linked c s'" "c_bind_done c"
    "c_xid c \<noteq> - 1" "same_server s s'"
    using fresh_binds [OF s(1)] by blast
  have p: "rs_procs s' = test_server_procs n" using c(5) s(2) by (simp add: same_server_def)
  have "fst (breakpointreq b st) = (if 1 \<le> b \<and> b \<le> 4 then TOK else TERR)"
    by (auto simp: breakpointreq_def)
  then show ?thesis
    using test_call [OF c(2-4) p, of ch "word_of_int (atoi arg)" j st] c(1)
    by (auto simp: argv rsm_tester_main_def rsmtest_client_new_def rsmtest_net_repair_def rsmtest_breakpoint_def b tnum_def Let_def)
qed

section \<open>The lock demo\<close>

text \<open>\<open>lock_client\<close> and the demo; the client sends its nonce as its id.\<close>

definition lock_client_new :: "nat \<Rightarrow> u32 \<Rightarrow> 's rpcs \<Rightarrow> 's \<Rightarrow> (rpcc \<times> 's rpcs \<times> 's) res" where
  "lock_client_new ch nonce s st = rbind (rpc_bind ch (rpcc_new True nonce) s st) (\<lambda>(c, s, st, _). Inr (c, s, st))"

definition lock_client_stat :: "nat \<Rightarrow> u64 \<Rightarrow> u32 \<Rightarrow> rpcc \<Rightarrow> 's rpcs \<Rightarrow> 's \<Rightarrow> (int \<times> 's) res" where
  "lock_client_stat ch lid j c s st =
     rbind (rpc_call (put_pair put_u32 put_u64) (\<lambda>_. get_int) ch proc_lock_stat (c_clt_nonce c, lid) j c s st)
       (\<lambda>(c, s, st, ret, r). if ret = 0 then Inr (sint r, st) else Inl AssertFail)"

definition lock_demo_main :: "string list \<Rightarrow> nat \<Rightarrow> u32 \<Rightarrow> u32 \<Rightarrow> 's rpcs \<Rightarrow> 's \<Rightarrow> (int \<times> 's) res" where
  "lock_demo_main argv ch nonce j s st =
     (if length argv \<noteq> 2 then Inl Exit
      else rbind (lock_client_new ch nonce s st) (\<lambda>(lc, s, st). lock_client_stat ch 1 j lc s st))"

text \<open>The registrations that \<open>lock_smain.cc\<close> keeps in a comment: the plain lock server's.\<close>

definition srv_lock_stat :: "u32 \<times> u64 \<Rightarrow> lock_server \<Rightarrow> (status \<times> u32 \<times> lock_server) res" where
  "srv_lock_stat x s = (let (st, r) = lock_server_stat s in Inr (if st = LOK then 0 else 2, word_of_int r, s))"

text \<open>A procedure that is not registered is not answered, so the call times out.\<close>

lemma unknown_procedure:
  assumes l: "linked c s" "c_bind_done c" "c_xid c \<noteq> - 1" and p: "proc \<noteq> proc_bind" "rs_procs s proc = None"
    and args: "codec put get enc" "fits (enc a)"
  shows "\<exists>c' s'. rpc_call put rget ch proc a old c s st = Inr (c', s', st, rpc_timeout_failure, old)"
proof -
  let ?m = "put marshall_new a" and ?x = "c_xid c"
  note m = stub_buffer [OF args]
  have k: "client_inv c" "\<not> c_destroy_wait c" "c_bind_done c \<longleftrightarrow> proc \<noteq> proc_bind" "c_calls c = Map.empty"
    using l p(1) by (auto simp: linked_def)
  obtain c1 h where b: "call1_begin c proc = (c1, Inr h)" "client_inv c1" "same_client c c1" "c_xid c1 = ?x + 1"
    "c_calls c1 = [?x \<mapsto> \<lparr>ca_xid = ?x, ca_un = unmarshall_empty, ca_intret = 0, ca_done = False\<rparr>]"
    and h: "h_xid h = ?x" "h_proc h = proc" "h_clt_nonce h = c_clt_nonce c" "h_srv_nonce h = c_srv_nonce c"
    by (rule call_starts [OF k l(3)]) blast
  obtain c3 where e: "call1_end c1 ?x = (c3, rpc_timeout_failure)" by (rule silence_completes [OF b(2,5)])
  obtain u where u: "unpack_req_header (unmarshall_buf (m_pdu (pack_req_header ?m h))) = (h, u)" "u_ok u"
    using request_unpacked [OF m(1-3)] by blast
  have "serve ch (m_pdu (pack_req_header ?m h)) s st = Inr (decref ch (incref ch s), st, None)"
    using u l(1) p(2) h by (auto simp: serve_def rpcs_got_pdu_def dispatch_begin_def linked_def)
  then have "\<exists>un. call1_over ch proc ?m c s st = Inr (c3, decref ch (incref ch s), st, rpc_timeout_failure, un)"
    using b(1) e by (simp add: call1_over_def h(1) Let_def)
  then show ?thesis by (auto simp: rpc_call_def rpcc_call_args_def rpcc_call_m_def rpc_const_defs)
qed

text \<open>The demo with the lock server as it is built, and as the comment would have it.\<close>

theorem lock_demo_fails_on_node:
  assumes "fresh_server s n" and "rs_procs s = node_procs add n r0 k" and "length argv = 2"
  shows "lock_demo_main argv ch nonce j s st = Inl AssertFail"
proof -
  have p: "rs_procs s proc_bind = Some (bind_handler n)" "rs_procs s proc_lock_stat = None"
    using assms(2) by (simp_all add: node_procs_def node_proc_defs)
  obtain c s' where c: "rpc_bind ch (rpcc_new True nonce) s st = Inr (c, s', st, 0)" "linked c s'" "c_bind_done c"
    "c_xid c \<noteq> - 1" "same_server s s'"
    by (rule fresh_binds [OF assms(1) p(1)])
  have none: "rs_procs s' proc_lock_stat = None" using p(2) c(5) by (simp add: same_server_def)
  have cd: "codec (put_pair put_u32 put_u64) (get_pair get_u32 get_u64) (enc_pair be32 enc_u64)"
    by (rule pair_codecI [OF u32.codec_axioms u64.codec_axioms])
  have "\<exists>c2 s2. rpc_call (put_pair put_u32 put_u64) (\<lambda>_. get_int) ch proc_lock_stat (c_clt_nonce c, 1) j c s' st =
      Inr (c2, s2, st, rpc_timeout_failure, j)"
    by (rule unknown_procedure [OF c(2-4) _ none cd]) (simp_all add: node_proc_defs fits_def enc_pair_def enc_u64_def)
  then show ?thesis
    using assms(3) c(1) by (auto simp: lock_demo_main_def lock_client_new_def lock_client_stat_def rpc_const_defs)
qed

lemma lock_demo_prints_count:
  assumes s: "fresh_server s n" "rs_procs s proc_bind = Some (bind_handler n)"
      "rs_procs s proc_lock_stat = Some (handler_fn (get_pair get_u32 get_u64) srv_lock_stat put_int)"
    and "length argv = 2"
  shows "lock_demo_main argv ch nonce j s st = Inr (sint (word_of_int (sv_nacquire st) :: u32), st)"
proof -
  obtain c s' where c: "rpc_bind ch (rpcc_new True nonce) s st = Inr (c, s', st, 0)" "linked c s'" "c_bind_done c"
    "c_xid c \<noteq> - 1" "same_server s s'"
    by (rule fresh_binds [OF s(1,2)])
  have cb: "callable c s' proc_lock_stat (handler_fn (get_pair get_u32 get_u64) srv_lock_stat put_int)"
    using c(2,3,5) s(3) by (simp add: callable_def same_server_def node_proc_defs)
  have cd: "codec (put_pair put_u32 put_u64) (get_pair get_u32 get_u64) (enc_pair be32 enc_u64)"
    by (rule pair_codecI [OF u32.codec_axioms u64.codec_axioms])
  have fit: "fits (enc_pair be32 enc_u64 (c_clt_nonce c, 1))" "fits (be32 (word_of_int (sv_nacquire st)))"
    by (simp_all add: fits_def enc_pair_def enc_u64_def)
  have m: "srv_lock_stat (c_clt_nonce c, 1) st = Inr (0, word_of_int (sv_nacquire st), st)"
    by (simp add: srv_lock_stat_def lock_server_stat_def)
  from rpc_call_is_method_call [where ch = ch and old = j and rget = "\<lambda>_. get_int",
      OF cd fit(1) int.codec_axioms fit(2) cb c(4) m]
  show ?thesis
    using c(1) assms(4) by (auto simp: lock_demo_main_def lock_client_new_def lock_client_stat_def)
qed

end
