(* ===== verification/PaxosRun.thy ===== *)
theory PaxosRun
  imports ConfigViews
begin

text \<open>
  Runs of the proposer over nodes that answer their RPCs at once: when a run decides, and what
  becomes of agreement when nodes work on one instance before they have learnt the previous one.
\<close>

section \<open>A run over a network\<close>

text \<open>
  \<open>up\<close> tells which nodes can be reached, \<open>A\<close> and \<open>P\<close> are the acceptor and the proposer of each
  node.  The replies the proposer of node \<open>p\<close> gets are those the handlers give, and the nodes
  are left in the state the handlers leave them in.
\<close>

abbreviation no_reply :: prepareres where
  "no_reply \<equiv> Prepareres 0 0 (Prop 0 []) []"

definition ask_prepare :: "u32 \<Rightarrow> prop_t \<Rightarrow> acceptor \<Rightarrow> acceptor \<times> prepareres option" where
  "ask_prepare i n a = (let (a, r, st) = handle_preparereq (Preparearg i n []) no_reply a
     in (a, if st = POK then Some r else None))"

definition ask_accept :: "u32 \<Rightarrow> prop_t \<Rightarrow> string \<Rightarrow> acceptor \<Rightarrow> acceptor \<times> u32 option" where
  "ask_accept i n v a = (let (a, r, st) = handle_acceptreq (Acceptarg i n v) a
     in (a, if st = POK then Some r else None))"

definition net_prepare ::
  "u32 \<Rightarrow> prop_t \<Rightarrow> string list \<Rightarrow> (string \<Rightarrow> bool) \<Rightarrow> (string \<Rightarrow> acceptor) \<Rightarrow>
   (string \<Rightarrow> acceptor) \<times> (string \<Rightarrow> prepareres option)" where
  "net_prepare i n nodes up A =
     (\<lambda>x. if x \<in> set nodes \<and> up x then fst (ask_prepare i n (A x)) else A x,
      \<lambda>x. if up x then snd (ask_prepare i n (A x)) else None)"

definition net_accept ::
  "u32 \<Rightarrow> prop_t \<Rightarrow> string \<Rightarrow> string list \<Rightarrow> (string \<Rightarrow> bool) \<Rightarrow> (string \<Rightarrow> acceptor) \<Rightarrow>
   (string \<Rightarrow> acceptor) \<times> (string \<Rightarrow> u32 option)" where
  "net_accept i n v nodes up A =
     (\<lambda>x. if x \<in> set nodes \<and> up x then fst (ask_accept i n v (A x)) else A x,
      \<lambda>x. if up x then snd (ask_accept i n v (A x)) else None)"

text \<open>The nodes asked to accept and the value they are asked to accept, when there are any.\<close>

definition accept_phase :: "string list \<Rightarrow> string \<Rightarrow> (string \<Rightarrow> prepareres option) \<Rightarrow> proposer \<Rightarrow> string list \<times> string" where
  "accept_phase nodes newv preps p = (case proposer_prepare preps nodes of
     Inl w \<Rightarrow> ([], [])
   | Inr (accepts, v) \<Rightarrow>
       (if majority nodes accepts \<and> \<not> pp_break1 p then accepts else [], run_value newv v))"

definition net_run ::
  "u32 \<Rightarrow> string list \<Rightarrow> string \<Rightarrow> (string \<Rightarrow> bool) \<Rightarrow> string \<Rightarrow>
   (string \<Rightarrow> acceptor) \<times> (string \<Rightarrow> proposer) \<Rightarrow>
   ((string \<Rightarrow> acceptor) \<times> (string \<Rightarrow> proposer)) \<times> run_result" where
  "net_run i nodes newv up p = (\<lambda>(A, P).
     if \<not> pp_stable (P p) then ((A, P), AlreadyRunning)
     else
       (let n_h = ac_n_h (A p); n = pp_my_n (setn n_h (P p));
            (A, preps) = net_prepare i n nodes up A;
            (nodes1, v) = accept_phase nodes newv preps (P p);
            (A, accs) = net_accept i n v nodes1 up A;
            (q, res) = proposer_run nodes newv n_h preps accs (P p);
            A = (case res of OldInstance w \<Rightarrow> A(p := fst (acceptor_commit i w (A p))) | _ \<Rightarrow> A)
        in ((A, P(p := q)), res)))"

text \<open>Nodes that are ready for a proposal: they have not reached the instance or promised a higher number.\<close>

definition ready :: "u32 \<Rightarrow> prop_t \<Rightarrow> acceptor \<Rightarrow> bool" where
  "ready i n a \<longleftrightarrow> ac_instance_h a < i \<and> ac_n_h a < n"

definition prepared :: "prop_t \<Rightarrow> acceptor \<Rightarrow> acceptor" where
  "prepared n a = loghigh n (a\<lparr>ac_n_h := n\<rparr>)"

definition accepted :: "prop_t \<Rightarrow> string \<Rightarrow> acceptor \<Rightarrow> acceptor" where
  "accepted n v a = logprop n v (a\<lparr>ac_n_a := n, ac_v_a := v\<rparr>)"

lemma ask_prepare_ready:
  "ready i n a \<Longrightarrow> ask_prepare i n a = (prepared n a, Some (Prepareres 0 1 (ac_n_a a) (ac_v_a a)))"
  by (auto simp: ask_prepare_def handle_preparereq_def ready_def prepared_def not_le)

lemma ask_accept_prepared:
  "ready i n a \<Longrightarrow> ask_accept i n v (prepared n a) = (accepted n v (prepared n a), Some 1)"
  by (auto simp: ask_accept_def handle_acceptreq_def ready_def prepared_def accepted_def loghigh_def)

lemma prepare_loop_answers:
  "\<forall>x r. replies x = Some r \<longrightarrow> pr_oldinstance r = 0 \<Longrightarrow> \<exists>y. prepare_loop replies nodes acc = Inr y"
proof (induction nodes arbitrary: acc)
  case (Cons x nodes)
  have "\<exists>z. prepare_reply x (replies x) acc = Inr z"
    using Cons.prems by (cases acc rule: prod_cases3) (auto simp: prepare_reply_def split: option.split)
  then show ?case using Cons by auto
qed (intro exI, rule prepare_loop.simps(1))

lemma proposer_accept_filter:
  "proposer_accept replies nodes = filter (\<lambda>x. \<exists>r. replies x = Some r \<and> r \<noteq> 0) nodes"
proof -
  have "foldl (\<lambda>acc n. accept_reply n (replies n) acc) xs nodes =
      xs @ filter (\<lambda>x. \<exists>r. replies x = Some r \<and> r \<noteq> 0) nodes" for xs
    by (induction nodes arbitrary: xs) (auto simp: accept_reply_def split: option.split)
  then show ?thesis by (simp add: proposer_accept_def)
qed

text \<open>The replies of a network whose reachable nodes are ready.\<close>

definition promises :: "(string \<Rightarrow> bool) \<Rightarrow> (string \<Rightarrow> acceptor) \<Rightarrow> string \<Rightarrow> prepareres option" where
  "promises up A x = (if up x then Some (Prepareres 0 1 (ac_n_a (A x)) (ac_v_a (A x))) else None)"

lemma promises_prepare:
  "\<exists>mx v. prepare_loop (promises up A) nodes ([], Prop 0 [], []) = Inr (filter up nodes, mx, v) \<and>
    proposer_prepare (promises up A) nodes = Inr (filter up nodes, v)"
proof -
  have "\<forall>x r. promises up A x = Some r \<longrightarrow> pr_oldinstance r = 0" by (simp add: promises_def)
  from prepare_loop_answers [OF this] obtain y where
    y: "prepare_loop (promises up A) nodes ([], Prop 0 [], []) = Inr y" by blast
  obtain acc mx v where eq: "y = (acc, mx, v)" by (cases y) blast
  have "(\<lambda>x. promise (promises up A x)) = up" by (auto simp: promise_def promises_def)
  then have "acc = filter up nodes" using prepare_loop_picks [OF y [unfolded eq]] by simp
  then show ?thesis using y eq by (auto simp: proposer_prepare_def)
qed

text \<open>
  The run when every reachable member is ready: all of them promise, accept and are told.
\<close>

lemma net_run_ready:
  assumes n: "n = pp_my_n (setn (ac_n_h (A p)) (P p))"
    and ready: "\<And>x. x \<in> set nodes \<Longrightarrow> up x \<Longrightarrow> ready i n (A x)" and only: "\<And>x. up x \<Longrightarrow> x \<in> set nodes"
    and maj: "majority nodes (filter up nodes)"
    and p: "pp_stable (P p)" "\<not> pp_break1 (P p)" "\<not> pp_break2 (P p)"
    and v: "proposer_prepare (promises up A) nodes = Inr (filter up nodes, u)" "w = run_value newv u"
  shows "\<exists>q. net_run i nodes newv up p (A, P) =
    ((\<lambda>x. if up x then accepted n w (prepared n (A x)) else A x, P(p := q)),
     Decided (filter up nodes) w) \<and> pp_stable q \<and> pp_my_n q = n \<and>
     pp_break1 q = pp_break1 (P p) \<and> pp_break2 q = pp_break2 (P p)"
proof -
  let ?A1 = "\<lambda>x. if up x then prepared n (A x) else A x"
  let ?accs = "\<lambda>x. if up x then Some (1 :: u32) else None"
  have prep: "net_prepare i n nodes up A = (?A1, promises up A)"
    using ready only by (auto simp: net_prepare_def promises_def ask_prepare_ready fun_eq_iff)
  have phase: "accept_phase nodes newv (promises up A) (P p) = (filter up nodes, w)"
    using v maj p by (simp add: accept_phase_def)
  have acc: "net_accept i n w (filter up nodes) up ?A1 =
      (\<lambda>x. if up x then accepted n w (prepared n (A x)) else A x, ?accs)"
    using ready only by (auto simp: net_accept_def ask_accept_prepared fun_eq_iff)
  have "filter (\<lambda>x. \<exists>r. ?accs x = Some r \<and> r \<noteq> 0) (filter up nodes) = filter up nodes"
    by (auto intro: filter_cong)
  then have pa: "proposer_accept ?accs (filter up nodes) = filter up nodes"
    by (simp add: proposer_accept_filter)
  obtain q res where run: "proposer_run nodes newv (ac_n_h (A p)) (promises up A) ?accs (P p) = (q, res)"
    by fastforce
  have "res = Decided (filter up nodes) w \<and> pp_stable q \<and> pp_my_n q = n \<and>
      pp_break1 q = pp_break1 (P p) \<and> pp_break2 q = pp_break2 (P p)"
    using run v maj p pa n by (auto simp: proposer_run_def setn_def Let_def)
  then show ?thesis using prep phase acc run p
    by (intro exI [of _ q]) (simp add: net_run_def n Let_def)
qed

text \<open>C20: 
  Progress: a proposer that is not already running, reaches a majority of the members, all of
  them ready for its number, decides in one run; the reachable members have accepted the value,
  and each that receives the decide request then has it as its value of the instance.
\<close>

theorem majority_run_decides:
  assumes "pp_stable (P p) \<and> \<not> pp_break1 (P p) \<and> \<not> pp_break2 (P p)"
    and "majority nodes (filter up nodes)" and "\<forall>x. up x \<longrightarrow> x \<in> set nodes"
    and "\<forall>x \<in> set nodes. up x \<longrightarrow> ready i (pp_my_n (setn (ac_n_h (A p)) (P p))) (A x)"
  shows "\<exists>A' P' w. net_run i nodes newv up p (A, P) = ((A', P'), Decided (filter up nodes) w) \<and>
    run_ok (Decided (filter up nodes) w) \<and> pp_stable (P' p) \<and>
    (\<forall>x \<in> set (filter up nodes). ac_v_a (A' x) = w \<and>
       value_of (fst (handle_decidereq (Decidearg i w) (A' x))) i = w \<and>
       ac_instance_h (fst (handle_decidereq (Decidearg i w) (A' x))) = i)"
proof -
  obtain mx u where u: "proposer_prepare (promises up A) nodes = Inr (filter up nodes, u)"
    using promises_prepare by blast
  obtain q where q: "net_run i nodes newv up p (A, P) =
      ((\<lambda>x. if up x then accepted (pp_my_n (setn (ac_n_h (A p)) (P p))) (run_value newv u)
          (prepared (pp_my_n (setn (ac_n_h (A p)) (P p))) (A x)) else A x, P(p := q)),
       Decided (filter up nodes) (run_value newv u))" "pp_stable q"
    using net_run_ready [OF refl _ _ assms(2) _ _ _ u refl] assms by blast
  show ?thesis
    using assms(4) q
    by (simp add: run_ok_def accepted_def prepared_def logprop_def loghigh_def ready_def
        handle_decidereq_def acceptor_commit_def commit_wo_def loginstance_def Let_def)
qed

lemma majority_run_decides_witness:
  "\<exists>A' P' w. net_run 2 [''1'', ''2'', ''3''] ''1 2 3 4 '' (\<lambda>x. x = ''1'' \<or> x = ''3'') ''1''
      (ex_acc, \<lambda>p. proposer_new p 0) = ((A', P'), Decided [''1'', ''3''] w) \<and> ac_v_a (A' ''3'') = w"
proof -
  let ?up = "\<lambda>x. x = ''1'' \<or> x = ''3''"
  have n: "pp_my_n (setn (ac_n_h (ex_acc ''1'')) (proposer_new ''1'' 0)) = ex_n"
    by (simp add: setn_def ex_acc_def proposer_new_def ex_n_def)
  have gt: "prop_gt ex_n (Prop 0 a)" for a unfolding prop_gt_def by (simp add: ex_n_def)
  have r: "ready 2 ex_n (ex_acc a)" for a
    using gt [of a] by (simp add: ready_def ex_acc_def word_less_nat_alt)
  have f: "filter ?up [''1'', ''2'', ''3''] = [''1'', ''3'']" by simp
  have st: "pp_stable (proposer_new ''1'' 0) \<and> \<not> pp_break1 (proposer_new ''1'' 0) \<and> \<not> pp_break2 (proposer_new ''1'' 0)"
    by (simp add: proposer_new_def)
  have m: "majority [''1'', ''2'', ''3''] (filter ?up [''1'', ''2'', ''3''])" by (simp add: majority_def)
  have "\<forall>x \<in> set [''1'', ''2'', ''3'']. ?up x \<longrightarrow> ready 2 (pp_my_n (setn (ac_n_h (ex_acc ''1'')) (proposer_new ''1'' 0))) (ex_acc x)"
    by (simp only: n r) simp
  from majority_run_decides [of "\<lambda>p. proposer_new p 0" "''1''" "[''1'', ''2'', ''3'']" ?up 2 ex_acc "''1 2 3 4 ''",
      OF st m _ this]
  have "\<exists>A' P' w. net_run 2 [''1'', ''2'', ''3''] ''1 2 3 4 '' ?up ''1'' (ex_acc, \<lambda>p. proposer_new p 0) =
      ((A', P'), Decided [''1'', ''3''] w) \<and> run_ok (Decided [''1'', ''3''] w) \<and> pp_stable (P' ''1'') \<and>
      (\<forall>x \<in> set [''1'', ''3'']. ac_v_a (A' x) = w \<and>
        value_of (fst (handle_decidereq (Decidearg 2 w) (A' x))) 2 = w \<and>
        ac_instance_h (fst (handle_decidereq (Decidearg 2 w) (A' x))) = 2)"
    unfolding f by simp
  then show ?thesis by (elim exE conjE) (intro exI conjI, assumption, simp)
qed

section \<open>Several instances\<close>

text \<open>
  Now the nodes go from view to view.  A node proposes the next view to the members of the view
  it is in, as \<open>add\<close> and \<open>remove_wo\<close> do; decide requests wait in a set until they arrive.
\<close>

type_synonym net = "(string \<Rightarrow> acceptor) \<times> (string \<Rightarrow> proposer) \<times> (u32 \<times> string \<times> string) set"

definition decides_sent :: "u32 \<Rightarrow> run_result \<Rightarrow> (u32 \<times> string \<times> string) set" where
  "decides_sent i res = (case res of
     Decided to w \<Rightarrow> (\<lambda>(x, a). (da_instance a, da_v a, x)) ` set (proposer_decide i to w (\<lambda>_. True))
   | _ \<Rightarrow> {})"

lemma decides_sent_simps:
  "decides_sent i (Decided to w) = (\<lambda>x. (i, w, x)) ` set to"
  by (force simp: decides_sent_def proposer_decide_def Let_def)

definition cur_members :: "acceptor \<Rightarrow> string list" where
  "cur_members a = members (value_of a (ac_instance_h a))"

inductive net_step :: "net \<Rightarrow> net \<Rightarrow> bool" where
  net_propose: "nodes = cur_members (A p) \<Longrightarrow> v = add_value m nodes \<or> v = remove_value m nodes \<Longrightarrow>
    i = ac_instance_h (A p) + 1 \<Longrightarrow> p \<in> set nodes \<Longrightarrow>
    net_run i nodes v up p (A, P) = ((A', P'), res) \<Longrightarrow> net_step (A, P, D) (A', P', D \<union> decides_sent i res)"
| net_decide: "(i, w, x) \<in> D \<Longrightarrow>
    net_step (A, P, D) (A(x := fst (handle_decidereq (Decidearg i w) (A x))), P, D)"

text \<open>All nodes start in the same view.\<close>

definition net_start :: "u32 \<Rightarrow> string \<Rightarrow> net \<Rightarrow> bool" where
  "net_start i v = (\<lambda>(A, P, D). D = {} \<and> (\<forall>x. A x = fst (acceptor_commit i v (base x [])) \<and>
     P x = proposer_new x 0))"

lemma net_step_propose:
  assumes n: "n = pp_my_n (setn (ac_n_h (A p)) (P p))"
    and view: "cur_members (A p) = nodes" "i = ac_instance_h (A p) + 1" "p \<in> set nodes"
    and v: "newv = add_value m nodes \<or> newv = remove_value m nodes"
    and ready: "\<forall>x \<in> set ups. ready i n (A x)" and only: "filter (\<lambda>x. x \<in> set ups) nodes = ups"
    and maj: "majority nodes ups"
    and p: "pp_stable (P p)" "\<not> pp_break1 (P p)" "\<not> pp_break2 (P p)"
    and u: "proposer_prepare (promises (\<lambda>x. x \<in> set ups) A) nodes = Inr (ups, u)" "w = run_value newv u"
  shows "\<exists>q. net_step (A, P, D)
     (\<lambda>x. if x \<in> set ups then accepted n w (prepared n (A x)) else A x, P(p := q),
      D \<union> (\<lambda>x. (i, w, x)) ` set ups) \<and> pp_stable q \<and> pp_my_n q = n \<and> \<not> pp_break1 q \<and> \<not> pp_break2 q"
proof -
  have sub: "set ups \<subseteq> set nodes" using only by (metis filter_is_subset)
  obtain q where q: "net_run i nodes newv (\<lambda>x. x \<in> set ups) p (A, P) =
      ((\<lambda>x. if x \<in> set ups then accepted n w (prepared n (A x)) else A x, P(p := q)), Decided ups w)"
    "pp_stable q" "pp_my_n q = n" "\<not> pp_break1 q" "\<not> pp_break2 q"
    using net_run_ready [of n A p P nodes "\<lambda>x. x \<in> set ups" i u w newv] n ready sub maj p u only by auto
  show ?thesis
    using net_step.net_propose [OF view(1) [symmetric] v view(2,3) q(1), of D] q
    by (intro exI [of _ q]) (simp add: decides_sent_simps)
qed

text \<open>What matters of an acceptor: instance, promised and accepted number, accepted value, view and name.\<close>

definition summary :: "acceptor \<Rightarrow> u32 \<times> prop_t \<times> prop_t \<times> string \<times> string \<times> string" where
  "summary a = (ac_instance_h a, ac_n_h a, ac_n_a a, ac_v_a a, value_of a (ac_instance_h a), ac_me a)"

lemma summaryD:
  assumes "summary a = (i, h, n, v, w, m)"
  shows "ac_instance_h a = i" "ac_n_h a = h" "ac_n_a a = n" "ac_v_a a = v" "value_of a i = w" "ac_me a = m"
    "cur_members a = members w"
  using assms by (auto simp: summary_def cur_members_def)

lemma summary_accepted:
  "summary a = (i, h, k, v, w, m) \<Longrightarrow> summary (accepted n u (prepared n a)) = (i, n, n, u, w, m)"
  by (auto simp: summary_def accepted_def prepared_def loghigh_def logprop_def)

lemma summary_decide:
  assumes "summary a = (i, h, k, v, w, m)" and "i < j"
  shows "summary (fst (handle_decidereq (Decidearg j u) a)) = (j, Prop 0 m, Prop 0 m, [], u, m)"
  using assms
  by (auto simp: summary_def handle_decidereq_def acceptor_commit_def commit_wo_def loginstance_def Let_def)

lemma summary_start: "summary (fst (acceptor_commit 1 v (base x []))) = (1, Prop 0 x, Prop 0 x, [], v, x)"
  by (simp add: summary_def acceptor_commit_def commit_wo_def loginstance_def Let_def base_simps)

lemma ready_summary: "summary a = (j, h, k, v, w, m) \<Longrightarrow> j < i \<Longrightarrow> h < n \<Longrightarrow> ready i n a"
  by (auto simp: summary_def ready_def)

lemma prop_less: "pt_n a < pt_n b \<Longrightarrow> a < b"
proof -
  assume "pt_n a < pt_n b"
  then have "prop_gt b a" unfolding prop_gt_def by simp
  then show ?thesis by (rule prop_gt_iff [THEN iffD1])
qed

lemma promises_none:
  assumes "\<forall>x. up x \<longrightarrow> ac_v_a (A x) = []"
  shows "proposer_prepare (promises up A) nodes = Inr (filter up nodes, [])"
proof -
  obtain mx v where v: "prepare_loop (promises up A) nodes ([], Prop 0 [], []) = Inr (filter up nodes, mx, v)"
    "proposer_prepare (promises up A) nodes = Inr (filter up nodes, v)"
    using promises_prepare by blast
  have "v = []" using prepare_loop_picks [OF v(1)] assms by (auto simp: promises_def split: if_splits)
  then show ?thesis using v(2) by simp
qed

definition ex_view1 :: string where "ex_view1 = ''1 2 3 ''"
definition ex_view2 :: string where "ex_view2 = ''1 2 3 4 ''"
definition ex_view3 :: string where "ex_view3 = ''2 3 4 ''"

lemma ex_word_ok: "word_ok ''1''" "word_ok ''2''" "word_ok ''3''" "word_ok ''4''"
  by (simp_all add: word_ok_def is_space_def)

lemma ex_views:
  "ex_view2 = add_value ''4'' [''1'', ''2'', ''3'']"
  "ex_view3 = remove_value ''1'' [''1'', ''2'', ''3'', ''4'']"
  "members ex_view1 = [''1'', ''2'', ''3'']"
  "members ex_view2 = [''1'', ''2'', ''3'', ''4'']"
  "members ex_view3 = [''2'', ''3'', ''4'']"
  using members_value [of "[''1'', ''2'', ''3'']"] members_value [of "[''1'', ''2'', ''3'', ''4'']"]
    members_value [of "[''2'', ''3'', ''4'']"] ex_word_ok
  by (simp_all add: ex_view1_def ex_view2_def ex_view3_def add_value_def remove_value_def config_value_def)

text \<open>
  Node 1 gets the view 2 decided, and proposes the view 3 before nodes 2 and 3 have been told
  about view 2.  They accept, and forget it when the decide request of view 2 arrives.  Node 2,
  cut off from node 1, then proposes view 3 to nodes 3 and 4, and nobody reports what node 1 has
  decided.
\<close>

lemma diverge_first:
  assumes "\<forall>x. summary (A x) = (1, Prop 0 x, Prop 0 x, [], ex_view1, x)" and "\<forall>x. P x = proposer_new x 0"
  shows "\<exists>B q D. net_step\<^sup>*\<^sup>* (A, P, {}) (B, P(''1'' := q), D) \<and> (\<forall>x \<in> {''2'', ''3''}. (2, ex_view2, x) \<in> D) \<and>
    summary (B ''1'') = (2, Prop 0 ''1'', Prop 0 ''1'', [], ex_view2, ''1'') \<and>
    (\<forall>x \<in> {''2'', ''3''}. summary (B x) = (1, Prop 1 ''1'', Prop 1 ''1'', ex_view2, ex_view1, x)) \<and>
    summary (B ''4'') = (1, Prop 0 ''4'', Prop 0 ''4'', [], ex_view1, ''4'') \<and>
    pp_stable q \<and> pp_my_n q = Prop 1 ''1'' \<and> \<not> pp_break1 q \<and> \<not> pp_break2 q"
proof -
  let ?ups = "[''1'', ''2'', ''3'']" and ?n = "Prop 1 ''1''"
  have n: "?n = pp_my_n (setn (ac_n_h (A ''1'')) (P ''1''))"
    using assms summaryD(2) by (simp add: setn_def proposer_new_def)
  have cur: "cur_members (A ''1'') = ?ups" using summaryD(7) assms(1) ex_views(3) by metis
  have inst: "2 = ac_instance_h (A ''1'') + 1" using summaryD(1) assms(1) by simp
  have ready: "\<forall>x \<in> set ?ups. ready 2 ?n (A x)"
    using assms(1) ready_summary prop_less [of "Prop 0 _" ?n] by (auto simp: word_less_nat_alt)
  have u: "proposer_prepare (promises (\<lambda>x. x \<in> set ?ups) A) ?ups = Inr (?ups, [])"
    using promises_none [of "\<lambda>x. x \<in> set ?ups" A ?ups] assms(1) summaryD(4) by simp
  have rest: "''1'' \<in> set ?ups" "filter (\<lambda>x. x \<in> set ?ups) ?ups = ?ups" "majority ?ups ?ups"
    "pp_stable (P ''1'')" "\<not> pp_break1 (P ''1'')" "\<not> pp_break2 (P ''1'')" "ex_view2 = run_value ex_view2 []"
    using assms(2) by (simp_all add: majority_def proposer_new_def run_value_def)
  define B where "B = (\<lambda>x. if x \<in> set ?ups then accepted ?n ex_view2 (prepared ?n (A x)) else A x)"
  define D where "D = {} \<union> (\<lambda>x. (2 :: u32, ex_view2, x)) ` set ?ups"
  obtain q where q: "net_step (A, P, {}) (B, P(''1'' := q), D)"
    "pp_stable q" "pp_my_n q = ?n" "\<not> pp_break1 q" "\<not> pp_break2 q"
    unfolding B_def D_def
    using net_step_propose [where A = A and P = P and p = "''1''" and nodes = ?ups and ups = ?ups and n = ?n and
        i = 2 and newv = ex_view2 and w = ex_view2 and m = "''4''" and u = "[]" and D = "{}",
        OF n cur inst rest(1) disjI1 [OF ex_views(1)] ready rest(2-6) u rest(7)]
    by blast
  have s: "summary (B x) = (1, ?n, ?n, ex_view2, ex_view1, x)" if "x \<in> set ?ups" for x
    using that summary_accepted [OF assms(1) [rule_format, of x]] by (simp add: B_def)
  have s4: "summary (B ''4'') = (1, Prop 0 ''4'', Prop 0 ''4'', [], ex_view1, ''4'')"
    using assms(1) by (simp add: B_def)
  have d: "\<forall>x \<in> {''1'', ''2'', ''3''}. (2, ex_view2, x) \<in> D" by (simp add: D_def)
  define C where "C = B(''1'' := fst (handle_decidereq (Decidearg 2 ex_view2) (B ''1'')))"
  have st: "net_step (B, P(''1'' := q), D) (C, P(''1'' := q), D)"
    unfolding C_def by (rule net_step.net_decide) (use d in simp)
  have c1: "summary (C ''1'') = (2, Prop 0 ''1'', Prop 0 ''1'', [], ex_view2, ''1'')"
    using summary_decide [OF s [of "''1''"], of 2] by (simp add: C_def word_less_nat_alt)
  have c2: "\<forall>x \<in> {''2'', ''3''}. summary (C x) = (1, ?n, ?n, ex_view2, ex_view1, x)"
    using s by (simp add: C_def)
  have c4: "summary (C ''4'') = (1, Prop 0 ''4'', Prop 0 ''4'', [], ex_view1, ''4'')"
    using s4 by (simp add: C_def)
  have r: "net_step\<^sup>*\<^sup>* (A, P, {}) (C, P(''1'' := q), D)"
    using q(1) st by (meson rtranclp.rtrancl_into_rtrancl r_into_rtranclp)
  have d': "\<forall>x \<in> {''2'', ''3''}. (2, ex_view2, x) \<in> D" using d by blast
  show ?thesis
    by (rule exI [of _ C], rule exI [of _ q], rule exI [of _ D])
      (rule conjI [OF r conjI [OF d' conjI [OF c1 conjI [OF c2 conjI [OF c4 conjI [OF q(2) conjI [OF q(3) conjI [OF q(4,5)]]]]]]]])
qed

lemma diverge_second:
  assumes r: "net_step\<^sup>*\<^sup>* S (A, P(''1'' := q), D)" and D: "\<forall>x \<in> {''2'', ''3''}. (2, ex_view2, x) \<in> D"
    and s1: "summary (A ''1'') = (2, Prop 0 ''1'', Prop 0 ''1'', [], ex_view2, ''1'')"
    and s2: "\<forall>x \<in> {''2'', ''3''}. summary (A x) = (1, Prop 1 ''1'', Prop 1 ''1'', ex_view2, ex_view1, x)"
    and s4: "summary (A ''4'') = (1, Prop 0 ''4'', Prop 0 ''4'', [], ex_view1, ''4'')"
    and q: "pp_stable q" "pp_my_n q = Prop 1 ''1''" "\<not> pp_break1 q" "\<not> pp_break2 q"
  shows "\<exists>B q' E. net_step\<^sup>*\<^sup>* S (B, P(''1'' := q'), E) \<and>
    summary (B ''1'') = (3, Prop 0 ''1'', Prop 0 ''1'', [], ex_view2, ''1'') \<and>
    (\<forall>x \<in> {''2'', ''3''}. summary (B x) = (2, Prop 0 x, Prop 0 x, [], ex_view2, x)) \<and>
    summary (B ''4'') = (1, Prop 0 ''4'', Prop 0 ''4'', [], ex_view1, ''4'')"
proof -
  let ?nodes = "[''1'', ''2'', ''3'', ''4'']" and ?ups = "[''1'', ''2'', ''3'']" and ?n = "Prop 2 ''1''"
  let ?P = "P(''1'' := q)"
  have n: "?n = pp_my_n (setn (ac_n_h (A ''1'')) (?P ''1''))"
    using q(2) summaryD(2) [OF s1] by (simp add: setn_def word_less_nat_alt)
  have cur: "cur_members (A ''1'') = ?nodes" using summaryD(7) [OF s1] ex_views(4) by simp
  have inst: "3 = ac_instance_h (A ''1'') + 1" using summaryD(1) [OF s1] by simp
  have ready: "\<forall>x \<in> set ?ups. ready 3 ?n (A x)"
    using ready_summary [OF s1, of 3 ?n] ready_summary [OF s2 [rule_format], of _ 3 ?n]
      prop_less [of "Prop 0 ''1''" ?n] prop_less [of "Prop 1 ''1''" ?n] by (simp add: word_less_nat_alt)
  have gt: "prop_gt (Prop 0 ''1'') (Prop 0 [])" "prop_gt (Prop 1 ''1'') (Prop 0 ''1'')" "\<not> prop_gt (Prop 1 ''1'') (Prop 1 ''1'')"
    unfolding prop_gt_def by (simp_all add: less_char_def)
  have u: "proposer_prepare (promises (\<lambda>x. x \<in> set ?ups) A) ?nodes = Inr (?ups, ex_view2)"
    using summaryD(3,4) [OF s1] summaryD(3,4) [OF s2 [rule_format]] gt
    by (simp add: proposer_prepare_def promises_def prepare_reply_def del: prop_gt_iff)
  have rest: "''1'' \<in> set ?nodes" "filter (\<lambda>x. x \<in> set ?ups) ?nodes = ?ups" "majority ?nodes ?ups"
    "pp_stable (?P ''1'')" "\<not> pp_break1 (?P ''1'')" "\<not> pp_break2 (?P ''1'')"
    "ex_view2 = run_value (remove_value ''4'' ?nodes) ex_view2"
    using q by (simp_all add: majority_def run_value_def ex_view2_def)
  define B where "B = (\<lambda>x. if x \<in> set ?ups then accepted ?n ex_view2 (prepared ?n (A x)) else A x)"
  define E where "E = D \<union> (\<lambda>x. (3 :: u32, ex_view2, x)) ` set ?ups"
  obtain q' where "net_step (A, ?P, D) (B, ?P(''1'' := q'), E)"
    unfolding B_def E_def
    using net_step_propose [where A = A and P = ?P and p = "''1''" and nodes = ?nodes and ups = ?ups and n = ?n and
        i = 3 and newv = "remove_value ''4'' ?nodes" and w = ex_view2 and m = "''4''" and u = ex_view2 and D = D,
        OF n cur inst rest(1) disjI2 [OF refl] ready rest(2-6) u rest(7)]
    by blast
  then have q': "net_step (A, ?P, D) (B, P(''1'' := q'), E)" by simp
  have s1': "summary (B ''1'') = (2, ?n, ?n, ex_view2, ex_view2, ''1'')"
    using summary_accepted [OF s1] by (simp add: B_def)
  have s2': "summary (B x) = (1, ?n, ?n, ex_view2, ex_view1, x)" if "x \<in> {''2'', ''3''}" for x
    using summary_accepted [OF s2 [rule_format, OF that]] that by (auto simp: B_def)
  have s4': "summary (B ''4'') = (1, Prop 0 ''4'', Prop 0 ''4'', [], ex_view1, ''4'')"
    using s4 by (simp add: B_def)
  define C where "C = B(''1'' := fst (handle_decidereq (Decidearg 3 ex_view2) (B ''1'')))"
  define F where "F = C(''2'' := fst (handle_decidereq (Decidearg 2 ex_view2) (C ''2'')))"
  define G where "G = F(''3'' := fst (handle_decidereq (Decidearg 2 ex_view2) (F ''3'')))"
  have "(3, ex_view2, ''1'') \<in> E" "(2, ex_view2, ''2'') \<in> E" "(2, ex_view2, ''3'') \<in> E"
    using D by (simp_all add: E_def)
  note arrive = this [THEN net_step.net_decide]
  have "net_step (B, P(''1'' := q'), E) (C, P(''1'' := q'), E)" unfolding C_def by (rule arrive(1))
  moreover have "net_step (C, P(''1'' := q'), E) (F, P(''1'' := q'), E)" unfolding F_def by (rule arrive(2))
  moreover have "net_step (F, P(''1'' := q'), E) (G, P(''1'' := q'), E)" unfolding G_def by (rule arrive(3))
  ultimately have reach: "net_step\<^sup>*\<^sup>* S (G, P(''1'' := q'), E)"
    using r q' by (meson rtranclp.rtrancl_into_rtrancl)
  have g1: "summary (G ''1'') = (3, Prop 0 ''1'', Prop 0 ''1'', [], ex_view2, ''1'')"
    using summary_decide [OF s1', of 3] by (simp add: C_def F_def G_def word_less_nat_alt)
  have g2: "\<forall>x \<in> {''2'', ''3''}. summary (G x) = (2, Prop 0 x, Prop 0 x, [], ex_view2, x)"
    using summary_decide [OF s2' [of "''2''"], of 2] summary_decide [OF s2' [of "''3''"], of 2]
    by (simp add: C_def F_def G_def word_less_nat_alt)
  have g4: "summary (G ''4'') = (1, Prop 0 ''4'', Prop 0 ''4'', [], ex_view1, ''4'')"
    using s4' by (simp add: C_def F_def G_def)
  show ?thesis
    by (rule exI [of _ G], rule exI [of _ q'], rule exI [of _ E])
      (rule conjI [OF reach conjI [OF g1 conjI [OF g2 g4]]])
qed

text \<open>C21: 
  So agreement of views rests on nodes taking part in one instance at a time: in an execution
  of the code's own steps two nodes reach view 3 with different members.
\<close>

theorem views_can_diverge:
  "\<exists>S A P D. net_start 1 ex_view1 S \<and> net_step\<^sup>*\<^sup>* S (A, P, D) \<and>
    ac_instance_h (A ''1'') = 3 \<and> ac_instance_h (A ''2'') = 3 \<and>
    cur_members (A ''1'') = [''1'', ''2'', ''3'', ''4''] \<and> cur_members (A ''2'') = [''2'', ''3'', ''4'']"
proof -
  let ?nodes = "[''1'', ''2'', ''3'', ''4'']" and ?ups = "[''2'', ''3'', ''4'']" and ?n = "Prop 1 ''2''"
  define A0 where "A0 = (\<lambda>x. fst (acceptor_commit 1 ex_view1 (base x [])))"
  define P0 where "P0 = (\<lambda>x. proposer_new x 0)"
  have start: "net_start 1 ex_view1 (A0, P0, {})" by (simp add: net_start_def A0_def P0_def)
  have s0: "\<forall>x. summary (A0 x) = (1, Prop 0 x, Prop 0 x, [], ex_view1, x)"
    by (simp add: A0_def summary_start)
  obtain B q D where B: "net_step\<^sup>*\<^sup>* (A0, P0, {}) (B, P0(''1'' := q), D)"
    "\<forall>x \<in> {''2'', ''3''}. (2, ex_view2, x) \<in> D"
    "summary (B ''1'') = (2, Prop 0 ''1'', Prop 0 ''1'', [], ex_view2, ''1'')"
    "\<forall>x \<in> {''2'', ''3''}. summary (B x) = (1, Prop 1 ''1'', Prop 1 ''1'', ex_view2, ex_view1, x)"
    "summary (B ''4'') = (1, Prop 0 ''4'', Prop 0 ''4'', [], ex_view1, ''4'')"
    "pp_stable q" "pp_my_n q = Prop 1 ''1''" "\<not> pp_break1 q" "\<not> pp_break2 q"
    using diverge_first [OF s0, of P0] P0_def by blast
  obtain C q' E where C: "net_step\<^sup>*\<^sup>* (A0, P0, {}) (C, P0(''1'' := q'), E)"
    "summary (C ''1'') = (3, Prop 0 ''1'', Prop 0 ''1'', [], ex_view2, ''1'')"
    "\<forall>x \<in> {''2'', ''3''}. summary (C x) = (2, Prop 0 x, Prop 0 x, [], ex_view2, x)"
    "summary (C ''4'') = (1, Prop 0 ''4'', Prop 0 ''4'', [], ex_view1, ''4'')"
    using diverge_second [OF B] by blast
  have c2: "summary (C ''2'') = (2, Prop 0 ''2'', Prop 0 ''2'', [], ex_view2, ''2'')"
    and c3: "summary (C ''3'') = (2, Prop 0 ''3'', Prop 0 ''3'', [], ex_view2, ''3'')"
    using C(3) by simp_all
  let ?P = "P0(''1'' := q')"
  have p2: "?P ''2'' = proposer_new ''2'' 0" by (simp add: P0_def)
  have n: "?n = pp_my_n (setn (ac_n_h (C ''2'')) (?P ''2''))"
    unfolding p2 summaryD(2) [OF c2] by (simp add: setn_def proposer_new_def)
  have cur: "cur_members (C ''2'') = ?nodes" using summaryD(7) [OF c2] ex_views(4) by simp
  have inst: "3 = ac_instance_h (C ''2'') + 1" using summaryD(1) [OF c2] by simp
  have ready: "\<forall>x \<in> set ?ups. ready 3 ?n (C x)"
    using ready_summary [OF c2, of 3 ?n] ready_summary [OF c3, of 3 ?n] ready_summary [OF C(4), of 3 ?n]
      prop_less [of "Prop 0 _" ?n] by (simp add: word_less_nat_alt)
  have u: "proposer_prepare (promises (\<lambda>x. x \<in> set ?ups) C) ?nodes = Inr (?ups, [])"
    using promises_none [of "\<lambda>x. x \<in> set ?ups" C ?nodes] summaryD(4) [OF c2] summaryD(4) [OF c3] summaryD(4) [OF C(4)]
    by simp
  have rest: "''2'' \<in> set ?nodes" "filter (\<lambda>x. x \<in> set ?ups) ?nodes = ?ups" "majority ?nodes ?ups"
    "pp_stable (?P ''2'')" "\<not> pp_break1 (?P ''2'')" "\<not> pp_break2 (?P ''2'')"
    "ex_view3 = run_value ex_view3 []"
    unfolding p2 by (simp_all add: majority_def run_value_def proposer_new_def)
  define G where "G = (\<lambda>x. if x \<in> set ?ups then accepted ?n ex_view3 (prepared ?n (C x)) else C x)"
  define F where "F = E \<union> (\<lambda>x. (3 :: u32, ex_view3, x)) ` set ?ups"
  obtain q'' where q'': "net_step (C, ?P, E) (G, ?P(''2'' := q''), F)"
    unfolding G_def F_def
    using net_step_propose [where A = C and P = ?P and p = "''2''" and nodes = ?nodes and ups = ?ups and n = ?n and
        i = 3 and newv = ex_view3 and w = ex_view3 and m = "''1''" and u = "[]" and D = E,
        OF n cur inst rest(1) disjI2 [OF ex_views(2)] ready rest(2-6) u rest(7)]
    by blast
  define H where "H = G(''2'' := fst (handle_decidereq (Decidearg 3 ex_view3) (G ''2'')))"
  have "net_step (G, ?P(''2'' := q''), F) (H, ?P(''2'' := q''), F)"
    unfolding H_def by (rule net_step.net_decide) (simp add: F_def)
  then have reach: "net_step\<^sup>*\<^sup>* (A0, P0, {}) (H, ?P(''2'' := q''), F)"
    using C(1) q'' by (meson rtranclp.rtrancl_into_rtrancl)
  have h1: "summary (H ''1'') = (3, Prop 0 ''1'', Prop 0 ''1'', [], ex_view2, ''1'')"
    using C(2) by (simp add: H_def G_def)
  have "summary (G ''2'') = (2, ?n, ?n, ex_view3, ex_view2, ''2'')"
    using summary_accepted [OF c2] by (simp add: G_def)
  then have h2: "summary (H ''2'') = (3, Prop 0 ''2'', Prop 0 ''2'', [], ex_view3, ''2'')"
    using summary_decide [of "G ''2''" 2 ?n ?n ex_view3 ex_view2 "''2''" 3]
    by (simp add: H_def word_less_nat_alt)
  show ?thesis
    using start reach summaryD(1,7) [OF h1] summaryD(1,7) [OF h2] ex_views(4,5)
    by (metis (no_types))
qed

end
