(* ===== verification/RsmClient.thy ===== *)
theory RsmClient
  imports Rsm RpcClient
begin

text \<open>
  The client side of the replicated state machine (\<open>rsm_client.cc\<close>): it finds the primary,
  packages calls, and retries them until the primary answers.
\<close>

section \<open>State and member list\<close>

text \<open>\<open>rc_cl\<close> is the node the \<open>rpcc\<close> object of the primary talks to.\<close>

record rsm_client =
  rc_id :: string
  rc_cl :: string
  rc_nref :: int
  rc_known :: "string list"

text \<open>
  \<open>init_members\<close>: \<open>intret\<close> and \<open>u\<close> are the result and the reply of the RPC for the members,
  \<open>bindret\<close> the result of binding to a new primary.  The reply is read into \<open>known_mems\<close>.
\<close>

definition use_members :: "int \<Rightarrow> rsm_client \<Rightarrow> (bool \<times> rsm_client) res" where
  "use_members bindret s =
     (if length (rc_known s) < 1 then Inl AssertFail
      else (let new_primary = last (rc_known s); s = s\<lparr>rc_known := butlast (rc_known s)\<rparr>
            in if new_primary \<noteq> rc_id s then
                 (let s = s\<lparr>rc_id := new_primary\<rparr>
                  in if rc_nref s \<noteq> 0 then Inl AssertFail
                     else Inr (\<not> bindret < 0, s\<lparr>rc_cl := new_primary\<rparr>))
               else Inr (True, s)))"

definition init_members ::
  "bool \<Rightarrow> int \<Rightarrow> unmarshall \<Rightarrow> int \<Rightarrow> rsm_client \<Rightarrow> (bool \<times> rsm_client) res" where
  "init_members send_member_rpc intret u bindret s =
     (if send_member_rpc then
        rbind (rpcc_call_m (get_vector (get_string []) (rc_known s)) (rc_known s) intret u)
          (\<lambda>(ret, known). let s = s\<lparr>rc_known := known\<rparr>
             in if ret \<noteq> 0 then Inr (False, s) else use_members bindret s)
      else use_members bindret s)"

definition rsm_client_new :: "string \<Rightarrow> int \<Rightarrow> int \<Rightarrow> unmarshall \<Rightarrow> int \<Rightarrow> rsm_client res" where
  "rsm_client_new dst ret intret u bindret =
     (let s = \<lparr>rc_id = dst, rc_cl = dst, rc_nref = 0, rc_known = []\<rparr>
      in if ret < 0 then Inl Exit
         else rbind (init_members True intret u bindret s)
           (\<lambda>(ok, s). if ok then Inr s else Inl AssertFail))"

definition primary_failure :: "rsm_client \<Rightarrow> rsm_client" where
  "primary_failure s = s"

section \<open>Calls\<close>

text \<open>
  One turn of the loop of \<open>invoke\<close>: the result of the call and its reply, and what
  \<open>init_members\<close> would meet in it.  The loop ends only with a reply \<open>OK\<close>; \<open>None\<close> means that it
  is still running when the turns are used up.
\<close>

record turn =
  tn_ret :: int
  tn_rep :: string
  tn_mret :: int
  tn_mrep :: unmarshall
  tn_bind :: int

fun rsm_client_invoke :: "turn list \<Rightarrow> rsm_client \<Rightarrow> ((int \<times> string) option \<times> rsm_client) res" where
  "rsm_client_invoke [] s = Inr (None, s)"
| "rsm_client_invoke (x # xs) s =
     (let s = s\<lparr>rc_nref := rc_nref s + 1\<rparr>; s = s\<lparr>rc_nref := rc_nref s - 1\<rparr>
      in if tn_ret x = 0 then Inr (Some (tn_ret x, tn_rep x), s)
         else if tn_ret x = 3 then rsm_client_invoke xs s
         else if tn_ret x = 2 then
           rbind (init_members True (tn_mret x) (tn_mrep x) (tn_bind x) s)
             (\<lambda>(ok, s). rsm_client_invoke xs (if ok then s else primary_failure s))
         else rsm_client_invoke xs (primary_failure s))"

text \<open>
  The \<open>call\<close> templates: the arguments are written by \<open>writers\<close>, in order; the reply holds the
  result of the procedure and, as a string, its marshalled return value.
\<close>

definition bytes_of :: "string \<Rightarrow> byte list" where
  "bytes_of s = map byte_of_char s"

definition str_of :: "byte list \<Rightarrow> string" where
  "str_of b = map char_of_byte b"

definition rsm_call_args :: "(marshall \<Rightarrow> marshall) list \<Rightarrow> string" where
  "rsm_call_args writers = str_of (m_content (foldl (\<lambda>m w. w m) marshall_new writers))"

definition rsm_call_reply :: "(unmarshall \<Rightarrow> ('r \<times> unmarshall) res) \<Rightarrow> string \<Rightarrow> (u32 \<times> 'r) res" where
  "rsm_call_reply get rep =
     rbind (get_int (unmarshall_content (bytes_of rep))) (\<lambda>(intret, u).
     rbind (get_string [] u) (\<lambda>(res, u).
     rbind (get (unmarshall_content (bytes_of res))) (\<lambda>(r, u1). Inr (intret, r))))"

text \<open>A call; \<open>turns\<close> gives what the loop of \<open>invoke\<close> meets when it sends the packed arguments.\<close>

definition rsm_client_call ::
  "(marshall \<Rightarrow> marshall) list \<Rightarrow> (unmarshall \<Rightarrow> ('r \<times> unmarshall) res) \<Rightarrow> (string \<Rightarrow> turn list) \<Rightarrow>
   rsm_client \<Rightarrow> ((u32 \<times> 'r) option \<times> rsm_client) res" where
  "rsm_client_call writers get turns s =
     rbind (rsm_client_invoke (turns (rsm_call_args writers)) s) (\<lambda>(rep, s). (case rep of
         None \<Rightarrow> Inr (None, s)
       | Some (intret, rep) \<Rightarrow> rbind (rsm_call_reply get rep) (\<lambda>r. Inr (Some r, s))))"

section \<open>Finding the primary\<close>

lemma members_reply:
  assumes "length (enc_vector enc_string ms) < 2 ^ 31 - 24" and "length ms < 2 ^ 32"
  shows "\<exists>u. get_vector (get_string []) known (unmarshall_content (m_content (put_vector put_string marshall_new ms)))
    = Inr (known @ ms, u) \<and> u_okdone u"
proof -
  have cod: "codec put_string (get_string old) enc_string" for old by (rule str.codec_axioms)
  have pdu: "m_wf (put_vector put_string marshall_new ms)"
    "m_pdu (put_vector put_string marshall_new ms) = m_pdu marshall_new @ enc_vector enc_string ms"
    using put_vector_pdu [OF cod m_wf_new] by blast+
  have "m_content m = drop 24 (m_pdu m)" for m by (simp add: m_content_def m_pdu_def slice_def)
  then have c: "m_content (put_vector put_string marshall_new ms) = enc_vector enc_string ms"
    using pdu(2) by (simp add: m_pdu_def marshall_new_def DEFAULT_RPC_SZ_def)
  let ?u = "unmarshall_content (enc_vector enc_string ms)"
  have wf: "u_wf ?u" "u_rest ?u = enc_vector enc_string ms @ []" "u_ok ?u"
    using u_wf_content [OF assms(1)] by (simp_all add: unmarshall_content_def)
  have "get_vector (get_string []) known ?u = Inr (known @ ms, u_adv (length (enc_vector enc_string ms)) ?u)"
    by (rule str.get_vector_enc [OF wf(1,3,2) assms(2)])
  moreover have "u_okdone (u_adv (length (enc_vector enc_string ms)) ?u)"
    by (simp add: u_okdone_def unmarshall_content_def)
  ultimately show ?thesis by (simp add: c)
qed

text \<open>
  When a node answers the request for the members, the client has that node's primary as its
  primary, and the members of the node's view behind the ones it knew: they are never cleared.
\<close>

theorem client_finds_primary:
  assumes "client_members srv = ((COK, ms), srv')"
    and "length (enc_vector enc_string ms) < 2 ^ 31 - 24 \<and> length ms < 2 ^ 32"
    and "rc_nref c = 0" and "\<not> bindret < 0"
  shows "\<exists>c'. init_members True 0 (unmarshall_content (m_content (put_vector put_string marshall_new ms))) bindret c
      = Inr (True, c') \<and> rc_id c' = rs_primary srv \<and> rc_known c' = rc_known c @ cur_list srv \<and>
    (rc_cl c = rc_id c \<longrightarrow> rc_cl c' = rs_primary srv) \<and> rc_nref c' = 0"
proof -
  have ms: "ms = cur_list srv @ [rs_primary srv]"
    using assms(1) get_view_simps(1) [of "cf_myvid (rs_cfg srv)" "rs_cfg srv"]
    by (auto simp: client_members_def get_curview_def cur_list_def split_def Let_def)
  obtain u where u: "get_vector (get_string []) (rc_known c)
      (unmarshall_content (m_content (put_vector put_string marshall_new ms))) = Inr (rc_known c @ ms, u)" "u_okdone u"
    using members_reply assms(2) by blast
  show ?thesis using u assms(3,4) ms
    by (auto simp: init_members_def rpcc_call_m_def use_members_def Let_def butlast_append)
qed

lemma client_finds_primary_witness:
  "\<exists>srv srv' ms c'. client_members srv = ((COK, ms), srv') \<and>
    init_members True 0 (unmarshall_content (m_content (put_vector put_string marshall_new ms))) 0
      \<lparr>rc_id = ''3009'', rc_cl = ''3009'', rc_nref = 0, rc_known = []\<rparr> = Inr (True, c') \<and>
    rc_id c' = ''3001''"
proof -
  let ?c = "\<lparr>rc_id = ''3009'', rc_cl = ''3009'', rc_nref = 0, rc_known = []\<rparr>"
  define srv where "srv = (ex_rsm ''3002'')"
  have p: "rs_primary srv = ''3001''" "cur_list srv = []"
    using ex_rsm_new [of "''3002''"] by (simp_all add: srv_def cur_list_def)
  obtain ms srv' where m: "client_members srv = ((COK, ms), srv')"
    by (auto simp: client_members_def split_def Let_def)
  have ms: "ms = [''3001'']"
    using m p get_view_simps(1) [of "cf_myvid (rs_cfg srv)" "rs_cfg srv"]
    by (auto simp: client_members_def get_curview_def cur_list_def split_def Let_def)
  have len: "length (enc_vector enc_string ms) < 2 ^ 31 - 24 \<and> length ms < 2 ^ 32"
    by (simp add: ms enc_vector_def enc_string_def)
  show ?thesis using client_finds_primary [OF m len, of ?c 0] m p by auto
qed

text \<open>
  Switching to a new primary while another thread's call is out stops the client: the old
  \<open>rpcc\<close> would be deleted under that call.
\<close>

theorem switch_during_call_aborts:
  assumes "rc_nref c \<noteq> 0" and "rc_known c \<noteq> []" and "last (rc_known c) \<noteq> rc_id c"
  shows "init_members False intret u bindret c = Inl AssertFail"
  using assms by (auto simp: init_members_def use_members_def Let_def Suc_le_eq)

lemma switch_during_call_aborts_witness:
  "init_members False 0 unmarshall_empty 0 \<lparr>rc_id = ''a'', rc_cl = ''a'', rc_nref = 1, rc_known = [''b'']\<rparr> = Inl AssertFail"
  by (rule switch_during_call_aborts) simp_all

section \<open>Invoking\<close>

lemma init_members_nref: "init_members b i u r s = Inr (ok, t) \<Longrightarrow> rc_nref t = rc_nref s"
  by (auto simp: init_members_def use_members_def Let_def rbind_eq_Inr_iff split: if_splits)

text \<open>
  A call returns at the first reply \<open>OK\<close> and with that reply only: any other answer, even one
  that says that the node failed, is met by asking again, so without an \<open>OK\<close> it never returns.
  The count of calls under way is kept.
\<close>

theorem invoke_returns_first_ok:
  assumes "rsm_client_invoke xs s = Inr (r, t)"
  shows "r = (case filter (\<lambda>x. tn_ret x = 0) xs of [] \<Rightarrow> None | x # _ \<Rightarrow> Some (0, tn_rep x)) \<and>
    rc_nref t = rc_nref s"
  using assms
proof (induction xs arbitrary: s)
  case (Cons x xs)
  show ?case
  proof (cases "tn_ret x = 2")
    case True
    then obtain ok u where u: "init_members True (tn_mret x) (tn_mrep x) (tn_bind x) s = Inr (ok, u)"
      "rsm_client_invoke xs u = Inr (r, t)"
      using Cons.prems by (auto simp: rbind_eq_Inr_iff primary_failure_def Let_def split: if_splits)
    then show ?thesis using Cons.IH [OF u(2)] init_members_nref [OF u(1)] True by simp
  next
    case False
    then have e: "rsm_client_invoke (x # xs) s =
        (if tn_ret x = 0 then Inr (Some (0, tn_rep x), s) else rsm_client_invoke xs s)"
      by (simp add: primary_failure_def Let_def)
    show ?thesis
    proof (cases "tn_ret x = 0")
      case True
      then have "r = Some (0, tn_rep x)" "t = s" using Cons.prems [unfolded e] by simp_all
      then show ?thesis using True by simp
    next
      case False
      then have "rsm_client_invoke xs s = Inr (r, t)" using Cons.prems [unfolded e] by simp
      then show ?thesis using Cons.IH False by simp
    qed
  qed
qed simp

lemma invoke_returns_first_ok_witness:
  "\<exists>t. rsm_client_invoke
     [\<lparr>tn_ret = 3, tn_rep = [], tn_mret = 0, tn_mrep = unmarshall_empty, tn_bind = 0\<rparr>,
      \<lparr>tn_ret = - 1, tn_rep = [], tn_mret = 0, tn_mrep = unmarshall_empty, tn_bind = 0\<rparr>,
      \<lparr>tn_ret = 0, tn_rep = ''done'', tn_mret = 0, tn_mrep = unmarshall_empty, tn_bind = 0\<rparr>]
     \<lparr>rc_id = ''a'', rc_cl = ''a'', rc_nref = 0, rc_known = []\<rparr> = Inr (Some (0, ''done''), t)"
proof -
  let ?xs = "[\<lparr>tn_ret = 3, tn_rep = [], tn_mret = 0, tn_mrep = unmarshall_empty, tn_bind = 0\<rparr>,
      \<lparr>tn_ret = - 1, tn_rep = [], tn_mret = 0, tn_mrep = unmarshall_empty, tn_bind = 0\<rparr>,
      \<lparr>tn_ret = 0, tn_rep = ''done'', tn_mret = 0, tn_mrep = unmarshall_empty, tn_bind = 0\<rparr>]"
  let ?s = "\<lparr>rc_id = ''a'', rc_cl = ''a'', rc_nref = 0, rc_known = []\<rparr>"
  obtain r t where r: "rsm_client_invoke ?xs ?s = Inr (r, t)" by (simp add: primary_failure_def)
  show ?thesis using invoke_returns_first_ok [OF r] r by simp
qed

section \<open>The packaged reply\<close>

lemma byte_of_char_of_byte: "byte_of_char (char_of_byte b) = b"
proof -
  have "(of_char (char_of (unat b)) :: byte) = of_nat (of_char (char_of (unat b)))"
    by (simp only: of_nat_of_char)
  also have "\<dots> = of_nat (unat b mod 256)" by simp
  also have "unat b mod 256 = unat b" using unsigned_less [of b, where ?'a = nat] by simp
  finally show ?thesis by (simp add: byte_of_char_def char_of_byte_def)
qed

lemma bytes_of_str_of [simp]: "bytes_of (str_of b) = b"
  by (auto simp: bytes_of_def str_of_def byte_of_char_of_byte intro!: map_idI)

lemma length_str_of [simp]: "length (str_of b) = length b"
  by (simp add: str_of_def)

text \<open>
  A reply that the server packs as the code of the procedure and the marshalled value comes back
  as that code and that value.
\<close>

theorem call_reply_roundtrip:
  assumes "codec put get enc" and "length (enc x) < 2 ^ 31 - 32"
  shows "rsm_call_reply get (str_of (m_content (put_string (put_int marshall_new intret)
      (str_of (m_content (put marshall_new x)))))) = Inr (intret, x)"
proof -
  obtain u where u: "get (unmarshall_content (m_content (put marshall_new x))) = Inr (x, u)"
    using codec.content_roundtrip [OF assms(1), of x] assms(2) by auto
  have "m_content (put marshall_new x) = m_content marshall_new @ enc x"
    by (rule codec.m_content_put [OF assms(1) m_wf_new]) (simp add: marshall_new_def)
  then have c: "length (m_content (put marshall_new x)) = length (enc x)"
    by (simp add: m_content_def slice_def marshall_new_def DEFAULT_RPC_SZ_def)
  let ?res = "str_of (m_content (put marshall_new x))"
  have "codec2 put_int get_int be32 put_string (get_string []) enc_string"
    by (intro codec2.intro int.codec_axioms str.codec_axioms)
  then have pc: "codec (put_pair put_int put_string) (get_pair get_int (get_string [])) (enc_pair be32 enc_string)"
    by (rule codec2.pair_codec)
  have "length (enc_pair be32 enc_string (intret, ?res)) < 2 ^ 31 - 24"
    using assms(2) by (simp add: enc_pair_def enc_string_def c)
  from codec.content_roundtrip [OF pc this] obtain v where
    v: "get_pair get_int (get_string []) (unmarshall_content (m_content (put_pair put_int put_string marshall_new (intret, ?res))))
      = Inr ((intret, ?res), v)" by blast
  then obtain w where "get_int (unmarshall_content (m_content (put_string (put_int marshall_new intret) ?res))) = Inr (intret, w)"
    "get_string [] w = Inr (?res, v)"
    by (auto simp: get_pair_def put_pair_def rbind_eq_Inr_iff)
  then show ?thesis using u by (simp add: rsm_call_reply_def)
qed

lemma call_reply_roundtrip_witness:
  "rsm_call_reply get_u32 (str_of (m_content (put_string (put_int marshall_new 7)
      (str_of (m_content (put_u32 marshall_new 42)))))) = Inr (7, 42)"
  by (rule call_reply_roundtrip [OF u32.codec_axioms]) simp

end
