(* ===== verification/LockServerCache.thy ===== *)
theory LockServerCache
  imports LockServer
begin

text \<open>
  The caching lock server, class \<open>lock_server_cache\<close> of \<open>lock_server_cache.cc\<close>: subscription,
  acquire and release, the two request maps, and one round of each of its background threads.
  The locale \<open>lock_provider\<close> is the contract the clients rely on; the server is shown to
  provide it.
\<close>

section \<open>State\<close>

record lock_alloc =
  al_isAllocated :: bool
  al_client :: int
  al_seqNo :: u32

text \<open>
  \<open>lc_seq\<close> is \<open>clientLockSeqMap\<close>; reading a missing entry of a map of maps creates a 0, so it is
  a total function.  The lock map holds pointers: \<open>lc_alloc\<close> has no entry where the map has none
  or a null one.
\<close>

record lock_server_cache =
  lc_clientMap :: "int set"
  lc_seq :: "int \<Rightarrow> lockid \<Rightarrow> u32"
  lc_alloc :: "lockid \<rightharpoonup> lock_alloc"
  lc_revokeMap :: "int \<rightharpoonup> (lockid \<rightharpoonup> u32)"
  lc_retryMap :: "lockid \<rightharpoonup> int set"
  lc_has_release :: u32
  lc_nacquire :: int

definition lock_server_cache_new :: "int \<Rightarrow> lock_server_cache" where
  "lock_server_cache_new nacq =
     \<lparr>lc_clientMap = {}, lc_seq = (\<lambda>_ _. 0), lc_alloc = Map.empty, lc_revokeMap = Map.empty,
      lc_retryMap = Map.empty, lc_has_release = 0, lc_nacquire = nacq\<rparr>"

section \<open>Operations\<close>

definition subscribe :: "int \<Rightarrow> lock_server_cache \<Rightarrow> lock_server_cache \<times> lock_status \<times> int" where
  "subscribe client s = (s\<lparr>lc_clientMap := insert client (lc_clientMap s)\<rparr>, LOK, lc_nacquire s)"

definition unsubscribe :: "int \<Rightarrow> lock_server_cache \<Rightarrow> lock_server_cache \<times> lock_status \<times> int" where
  "unsubscribe client s = (s\<lparr>lc_clientMap := lc_clientMap s - {client}\<rparr>, LOK, lc_nacquire s)"

definition add_Retry_Request :: "lockid \<Rightarrow> int \<Rightarrow> lock_server_cache \<Rightarrow> lock_server_cache" where
  "add_Retry_Request lid client s =
     (let clients = (case lc_retryMap s lid of Some cs \<Rightarrow> cs | None \<Rightarrow> {})
      in s\<lparr>lc_retryMap := (lc_retryMap s)(lid \<mapsto> insert client clients)\<rparr>)"

definition add_Revoke_Request :: "int \<Rightarrow> lockid \<Rightarrow> lock_server_cache \<Rightarrow> lock_server_cache res" where
  "add_Revoke_Request client lid s =
     (let lid_to_seq = (case lc_revokeMap s client of Some m \<Rightarrow> m | None \<Rightarrow> [lid \<mapsto> 0]);
          old = (case lid_to_seq lid of Some n \<Rightarrow> n | None \<Rightarrow> 0)
      in if lc_seq s client lid \<ge> old
         then Inr (s\<lparr>lc_revokeMap := (lc_revokeMap s)(client \<mapsto> lid_to_seq(lid \<mapsto> lc_seq s client lid))\<rparr>)
         else Inl AssertFail)"

definition server_acquire ::
  "int \<Rightarrow> lockid \<Rightarrow> u32 \<Rightarrow> lock_server_cache \<Rightarrow> (lock_server_cache \<times> lock_status) res" where
  "server_acquire client lid seqNo s =
     (if seqNo \<le> lc_seq s client lid then Inr (s, LOK)
      else
        (let s = (if lc_alloc s lid = None
                  then s\<lparr>lc_alloc := (lc_alloc s)(lid \<mapsto> \<lparr>al_isAllocated = False, al_client = client, al_seqNo = 0\<rparr>),
                         lc_seq := (lc_seq s)(client := (lc_seq s client)(lid := 0))\<rparr>
                  else s);
             ls = the (lc_alloc s lid)
         in if \<not> al_isAllocated ls
            then Inr (s\<lparr>lc_alloc := (lc_alloc s)(lid \<mapsto> \<lparr>al_isAllocated = True, al_client = client, al_seqNo = seqNo\<rparr>),
                        lc_seq := (lc_seq s)(client := (lc_seq s client)(lid := seqNo))\<rparr>, LOK)
            else rbind (add_Revoke_Request (al_client ls) lid (add_Retry_Request lid client s))
                   (\<lambda>s. Inr (s, LRETRY))))"

definition server_release ::
  "int \<Rightarrow> lockid \<Rightarrow> u32 \<Rightarrow> lock_server_cache \<Rightarrow> (lock_server_cache \<times> lock_status) res" where
  "server_release client lid seqNo s =
     (case lc_alloc s lid of
        None \<Rightarrow> Inl NullDeref
      | Some ls \<Rightarrow>
          (if seqNo = al_seqNo ls \<and> client = al_client ls
           then (if al_isAllocated ls
                 then Inr (s\<lparr>lc_alloc := (lc_alloc s)(lid \<mapsto> ls\<lparr>al_isAllocated := False, al_seqNo := 0\<rparr>),
                             lc_has_release := lc_has_release s + 1\<rparr>, LOK)
                 else Inl AssertFail)
           else Inr (s, LOK)))"

text \<open>
  One round of the background threads: \<open>None\<close> while they wait on their condition; otherwise
  the maps they took, to be sent with the mutex released.  \<open>callback\<close> is the outcome of one of the
  calls they then make: the client may have gone, and an answer other than \<open>OK\<close> aborts.
\<close>

definition revoker_take :: "lock_server_cache \<Rightarrow> ((int \<rightharpoonup> (lockid \<rightharpoonup> u32)) \<times> lock_server_cache) option" where
  "revoker_take s =
     (if lc_revokeMap s = Map.empty then None
      else Some (lc_revokeMap s, s\<lparr>lc_revokeMap := Map.empty\<rparr>))"

definition retryer_take :: "lock_server_cache \<Rightarrow> ((lockid \<rightharpoonup> int set) \<times> lock_server_cache) option" where
  "retryer_take s =
     (if lc_has_release s = 0 then None
      else Some (lc_retryMap s, s\<lparr>lc_retryMap := Map.empty, lc_has_release := lc_has_release s - 1\<rparr>))"

definition callback :: "int \<Rightarrow> lock_status \<Rightarrow> lock_server_cache \<Rightarrow> unit res" where
  "callback client ret s =
     (if client \<notin> lc_clientMap s then Inl NullDeref
      else if ret = LOK then Inr () else Inl AssertFail)"

section \<open>The contract\<close>

text \<open>
  \<open>owner\<close> is the client that has a lock and the sequence number it got it with, \<open>last_seq\<close> the last
  number a client was granted a lock with.
\<close>

locale lock_provider =
  fixes ok :: "'s \<Rightarrow> bool"
    and acq :: "int \<Rightarrow> lockid \<Rightarrow> u32 \<Rightarrow> 's \<Rightarrow> ('s \<times> lock_status) res"
    and rel :: "int \<Rightarrow> lockid \<Rightarrow> u32 \<Rightarrow> 's \<Rightarrow> ('s \<times> lock_status) res"
    and owner :: "'s \<Rightarrow> lockid \<Rightarrow> (int \<times> u32) option"
    and last_seq :: "'s \<Rightarrow> int \<Rightarrow> lockid \<Rightarrow> u32"
  assumes grant: "ok s \<Longrightarrow> last_seq s c l < n \<Longrightarrow> owner s l = None \<Longrightarrow>
      \<exists>s'. acq c l n s = Inr (s', LOK) \<and> ok s' \<and> owner s' = (owner s)(l := Some (c, n)) \<and>
        last_seq s' = (last_seq s)(c := (last_seq s c)(l := n))"
    and refuse: "ok s \<Longrightarrow> last_seq s c l < n \<Longrightarrow> owner s l = Some h \<Longrightarrow>
      \<exists>s'. acq c l n s = Inr (s', LRETRY) \<and> ok s' \<and> owner s' = owner s \<and> last_seq s' = last_seq s"
    and give_back: "ok s \<Longrightarrow> owner s l = Some (c, n) \<Longrightarrow>
      \<exists>s'. rel c l n s = Inr (s', LOK) \<and> ok s' \<and> owner s' = (owner s)(l := None) \<and>
        last_seq s' = last_seq s"

definition lock_owner :: "lock_server_cache \<Rightarrow> lockid \<Rightarrow> (int \<times> u32) option" where
  "lock_owner s lid = (case lc_alloc s lid of
     Some ls \<Rightarrow> (if al_isAllocated ls then Some (al_client ls, al_seqNo ls) else None)
   | None \<Rightarrow> None)"

text \<open>
  What keeps the asserts from failing: pending revokes never run ahead of the grants, a lock
  without an entry was never granted.
\<close>

definition server_ok :: "lock_server_cache \<Rightarrow> bool" where
  "server_ok s \<longleftrightarrow>
     (\<forall>c m l n. lc_revokeMap s c = Some m \<longrightarrow> m l = Some n \<longrightarrow> n \<le> lc_seq s c l) \<and>
     (\<forall>l. lc_alloc s l = None \<longrightarrow> (\<forall>c. lc_seq s c l = 0))"

lemma server_ok_new: "server_ok (lock_server_cache_new k)"
  by (simp add: server_ok_def lock_server_cache_new_def)

lemma add_Retry_Request_simps [simp]:
  "lc_seq (add_Retry_Request l c s) = lc_seq s" "lc_alloc (add_Retry_Request l c s) = lc_alloc s"
  "lc_revokeMap (add_Retry_Request l c s) = lc_revokeMap s"
  by (simp_all add: add_Retry_Request_def Let_def)

lemma add_Revoke_Request_ok:
  assumes "server_ok s"
  obtains s' where "add_Revoke_Request c l s = Inr s'" "server_ok s'" "lc_seq s' = lc_seq s"
    "lc_alloc s' = lc_alloc s"
proof -
  let ?m = "case lc_revokeMap s c of Some m \<Rightarrow> m | None \<Rightarrow> [l \<mapsto> 0]"
  have m: "n \<le> lc_seq s c k" if "?m k = Some n" for k n
    using that assms by (auto simp: server_ok_def split: option.splits if_splits)
  then have "lc_seq s c l \<ge> (case ?m l of Some n \<Rightarrow> n | None \<Rightarrow> 0)"
    by (cases "?m l") auto
  then have "add_Revoke_Request c l s =
      Inr (s\<lparr>lc_revokeMap := (lc_revokeMap s)(c \<mapsto> ?m(l \<mapsto> lc_seq s c l))\<rparr>)"
    by (simp add: add_Revoke_Request_def Let_def)
  moreover have "server_ok (s\<lparr>lc_revokeMap := (lc_revokeMap s)(c \<mapsto> ?m(l \<mapsto> lc_seq s c l))\<rparr>)"
    using assms m by (auto simp: server_ok_def split: if_splits)
  ultimately show thesis using that by simp
qed

lemma server_acquire_held:
  assumes "lc_seq s c l < n" and "lc_alloc s l = Some a" and "al_isAllocated a"
  shows "server_acquire c l n s =
    rbind (add_Revoke_Request (al_client a) l (add_Retry_Request l c s)) (\<lambda>s. Inr (s, LRETRY))"
proof -
  have "\<not> n \<le> lc_seq s c l" using assms(1) by simp
  then show ?thesis using assms(2,3) unfolding server_acquire_def by simp
qed

lemma server_acquire_grant:
  assumes ok: "server_ok s" and n: "lc_seq s c l < n" and free: "lock_owner s l = None"
  shows "\<exists>s'. server_acquire c l n s = Inr (s', LOK) \<and> server_ok s' \<and>
    lock_owner s' = (lock_owner s)(l := Some (c, n)) \<and>
    lc_seq s' = (lc_seq s)(c := (lc_seq s c)(l := n))"
proof -
  let ?t = "s\<lparr>lc_alloc := (lc_alloc s)(l \<mapsto> \<lparr>al_isAllocated = True, al_client = c, al_seqNo = n\<rparr>),
    lc_seq := (lc_seq s)(c := (lc_seq s c)(l := n))\<rparr>"
  have "\<not> n \<le> lc_seq s c l" using n by simp
  moreover have "lc_alloc s l = None \<or> (\<exists>a. lc_alloc s l = Some a \<and> \<not> al_isAllocated a)"
    using free by (auto simp: lock_owner_def split: option.splits if_splits)
  ultimately have "server_acquire c l n s = Inr (?t, LOK)"
    unfolding server_acquire_def by auto
  moreover have "server_ok ?t"
    unfolding server_ok_def
  proof (intro conjI allI impI)
    fix c' m l' k assume "lc_revokeMap ?t c' = Some m" "m l' = Some k"
    then have "k \<le> lc_seq s c' l'" using ok by (simp add: server_ok_def)
    moreover have "lc_seq s c' l' \<le> lc_seq ?t c' l'" using n by auto
    ultimately show "k \<le> lc_seq ?t c' l'" by (rule order_trans)
  next
    fix l' c' assume "lc_alloc ?t l' = None"
    then show "lc_seq ?t c' l' = 0" using ok by (auto simp: server_ok_def split: if_splits)
  qed
  moreover have "lock_owner ?t = (lock_owner s)(l := Some (c, n))"
    by (auto simp: lock_owner_def fun_eq_iff)
  ultimately show ?thesis by simp
qed

lemma server_acquire_refuse:
  assumes ok: "server_ok s" and n: "lc_seq s c l < n" and h: "lock_owner s l = Some h"
  shows "\<exists>s'. server_acquire c l n s = Inr (s', LRETRY) \<and> server_ok s' \<and>
    lock_owner s' = lock_owner s \<and> lc_seq s' = lc_seq s"
proof -
  obtain a where a: "lc_alloc s l = Some a" "al_isAllocated a"
    using h by (auto simp: lock_owner_def split: option.splits if_splits)
  have "server_ok (add_Retry_Request l c s)" using ok by (simp add: server_ok_def)
  then obtain s' where s': "add_Revoke_Request (al_client a) l (add_Retry_Request l c s) = Inr s'"
    "server_ok s'" "lc_seq s' = lc_seq s" "lc_alloc s' = lc_alloc s"
    using add_Revoke_Request_ok by (metis add_Retry_Request_simps(1,2))
  then have "server_acquire c l n s = Inr (s', LRETRY)"
    using server_acquire_held [OF n a] by simp
  then show ?thesis using s' by (auto simp: lock_owner_def fun_eq_iff)
qed

lemma server_release_owner:
  assumes ok: "server_ok s" and h: "lock_owner s l = Some (c, n)"
  shows "\<exists>s'. server_release c l n s = Inr (s', LOK) \<and> server_ok s' \<and>
    lock_owner s' = (lock_owner s)(l := None) \<and> lc_seq s' = lc_seq s"
  using assms by (auto simp: server_release_def lock_owner_def server_ok_def fun_eq_iff split: option.splits if_splits)

interpretation lsc: lock_provider server_ok server_acquire server_release lock_owner lc_seq
  using server_acquire_grant server_acquire_refuse server_release_owner by unfold_locales blast+

text \<open>a fresh acquire (with a sequence number above the client's last grant) is decided by the
  owner alone: it is granted and recorded when nobody owns the lock, and otherwise answered
  RETRY, with the owner unchanged, the client queued for a retry and a revoke queued for the
  owner's grant; no assert fails.\<close>

theorem server_acquire_correct:
  assumes "server_ok s" and "lc_seq s c l < n"
  shows "(lock_owner s l = None \<longrightarrow> (\<exists>s'. server_acquire c l n s = Inr (s', LOK) \<and> server_ok s' \<and>
      lock_owner s' = (lock_owner s)(l := Some (c, n)))) \<and>
    (\<forall>h k. lock_owner s l = Some (h, k) \<longrightarrow> (\<exists>s' R m. server_acquire c l n s = Inr (s', LRETRY) \<and>
      server_ok s' \<and> lock_owner s' = lock_owner s \<and>
      lc_retryMap s' l = Some R \<and> c \<in> R \<and>
      lc_revokeMap s' h = Some m \<and> m l = Some (lc_seq s h l)))"
proof (intro conjI impI allI)
  assume "lock_owner s l = None"
  then show "\<exists>s'. server_acquire c l n s = Inr (s', LOK) \<and> server_ok s' \<and>
      lock_owner s' = (lock_owner s)(l := Some (c, n))"
    using lsc.grant [OF assms] by blast
next
  fix h k assume h: "lock_owner s l = Some (h, k)"
  obtain s' where s': "server_acquire c l n s = Inr (s', LRETRY)" "server_ok s'" "lock_owner s' = lock_owner s"
    using lsc.refuse [OF assms h] by blast
  obtain a where a: "lc_alloc s l = Some a" "al_isAllocated a" "al_client a = h"
    using h by (auto simp: lock_owner_def split: option.splits if_splits)
  have "add_Revoke_Request h l (add_Retry_Request l c s) = Inr s'"
    using s'(1) a(3) server_acquire_held [OF assms(2) a(1,2)] by (auto simp: rbind_eq_Inr_iff)
  then have "\<exists>R m. lc_retryMap s' l = Some R \<and> c \<in> R \<and> lc_revokeMap s' h = Some m \<and> m l = Some (lc_seq s h l)"
    by (auto simp: add_Revoke_Request_def add_Retry_Request_def Let_def split: if_splits)
  then show "\<exists>s' R m. server_acquire c l n s = Inr (s', LRETRY) \<and>
      server_ok s' \<and> lock_owner s' = lock_owner s \<and> lc_retryMap s' l = Some R \<and> c \<in> R \<and>
      lc_revokeMap s' h = Some m \<and> m l = Some (lc_seq s h l)"
    using s' by blast
qed

theorem server_acquire_correct_witness:
  "\<exists>s s' t'. server_acquire 3 8 1 (lock_server_cache_new 0) = Inr (s, LOK) \<and>
    lock_owner s 8 = Some (3, 1) \<and> server_acquire 4 8 1 s = Inr (s', LRETRY) \<and> lock_owner s' = lock_owner s"
proof -
  let ?s = "lock_server_cache_new 0"
  have "lc_seq ?s 3 8 < 1" "lock_owner ?s 8 = None"
    by (simp_all add: lock_server_cache_new_def lock_owner_def word_less_nat_alt)
  then obtain s where s: "server_acquire 3 8 1 ?s = Inr (s, LOK)" "server_ok s"
    "lock_owner s = (lock_owner ?s)(8 := Some (3, 1))"
    using server_acquire_correct [OF server_ok_new, of 0 3 8 1] by blast
  have "lc_seq s 4 8 = 0"
    using s(1) by (auto simp: server_acquire_def lock_server_cache_new_def Let_def split: if_splits)
  then have "lc_seq s 4 8 < 1" by (simp add: word_less_nat_alt)
  moreover have "lock_owner s 8 = Some (3, 1)" using s(3) by simp
  ultimately show ?thesis using server_acquire_correct [OF s(2), of 4 8 1] s(1) by blast
qed

text \<open>a release that does not match the current grant (a delayed duplicate, another client's,
  or one sent after the lock was already given back) changes nothing.\<close>

theorem server_release_stale:
  assumes "lc_alloc s l = Some a" and "lock_owner s l \<noteq> Some (c, n)" and "n \<noteq> 0"
    and "\<not> al_isAllocated a \<longrightarrow> al_seqNo a = 0"
  shows "server_release c l n s = Inr (s, LOK)"
  using assms by (auto simp: server_release_def lock_owner_def split: if_splits)

theorem server_release_stale_witness:
  "\<exists>s. lock_owner s 8 = Some (3, 2) \<and> server_release 3 8 1 s = Inr (s, LOK)"
proof -
  let ?a = "\<lparr>al_isAllocated = True, al_client = 3, al_seqNo = 2\<rparr>"
  let ?s = "(lock_server_cache_new 0)\<lparr>lc_alloc := [8 \<mapsto> ?a]\<rparr>"
  have o: "lock_owner ?s 8 = Some (3, 2)" by (simp add: lock_owner_def)
  have "server_release 3 8 1 ?s = Inr (?s, LOK)"
    by (rule server_release_stale [of ?s 8 ?a 3 1]) (simp_all add: o)
  then show ?thesis using o by blast
qed

end
