(* ===== verification/LockServerThreads.thy ===== *)
theory LockServerThreads
  imports LockServerCache
begin

text \<open>
  The background threads of the caching lock server (\<open>revoker\<close> and \<open>retryer\<close> of
  \<open>lock_server_cache.cc\<close>): the calls each of their rounds makes, in order, and the theorem that a
  client that was refused a lock is not forgotten.
\<close>

section \<open>The calls of a round\<close>

text \<open>A \<open>std::map\<close> and a \<open>std::set\<close> are visited in the order of their keys.\<close>

definition revoker_calls :: "(int \<rightharpoonup> (lockid \<rightharpoonup> u32)) \<Rightarrow> (int \<times> lockid \<times> u32) list" where
  "revoker_calls temp_map =
     concat (map (\<lambda>client. case temp_map client of
         None \<Rightarrow> []
       | Some lid_to_seq \<Rightarrow> map (\<lambda>lid. (client, lid, the (lid_to_seq lid))) (sorted_list_of_set (dom lid_to_seq)))
       (sorted_list_of_set (dom temp_map)))"

definition retryer_calls :: "(lockid \<rightharpoonup> int set) \<Rightarrow> (lockid \<times> int) list" where
  "retryer_calls tempRetryMap =
     concat (map (\<lambda>lid. case tempRetryMap lid of
         None \<Rightarrow> []
       | Some clients \<Rightarrow> map (\<lambda>client. (lid, client)) (sorted_list_of_set clients))
       (sorted_list_of_set (dom tempRetryMap)))"

lemma revoker_calls_mem:
  "finite (dom M) \<Longrightarrow> M h = Some m \<Longrightarrow> finite (dom m) \<Longrightarrow> m l = Some n \<Longrightarrow> (h, l, n) \<in> set (revoker_calls M)"
  by (force simp: revoker_calls_def image_iff split: option.split)

lemma retryer_calls_mem:
  "finite (dom M) \<Longrightarrow> M l = Some R \<Longrightarrow> finite R \<Longrightarrow> c \<in> R \<Longrightarrow> (l, c) \<in> set (retryer_calls M)"
  by (force simp: retryer_calls_def image_iff split: option.split)

section \<open>The server over time\<close>

text \<open>Requests in any order, duplicates and stale ones included, and rounds of the two threads; the
  number counts the release requests.\<close>

inductive ls_reach :: "nat \<Rightarrow> lock_server_cache \<Rightarrow> bool" where
  init: "ls_reach 0 (lock_server_cache_new k)"
| subscribes: "ls_reach n s \<Longrightarrow> ls_reach n (fst (subscribe c s))"
| unsubscribes: "ls_reach n s \<Longrightarrow> ls_reach n (fst (unsubscribe c s))"
| acquires: "ls_reach n s \<Longrightarrow> server_acquire c l q s = Inr (s', r) \<Longrightarrow> ls_reach n s'"
| releases: "ls_reach n s \<Longrightarrow> server_release c l q s = Inr (s', r) \<Longrightarrow> ls_reach (Suc n) s'"
| revokes: "ls_reach n s \<Longrightarrow> revoker_take s = Some (M, s') \<Longrightarrow> ls_reach n s'"
| retries: "ls_reach n s \<Longrightarrow> retryer_take s = Some (M, s') \<Longrightarrow> ls_reach n s'"

section \<open>Nobody is forgotten\<close>

definition maps_finite :: "lock_server_cache \<Rightarrow> bool" where
  "maps_finite s \<longleftrightarrow> finite (dom (lc_revokeMap s)) \<and> (\<forall>h m. lc_revokeMap s h = Some m \<longrightarrow> finite (dom m)) \<and>
     finite (dom (lc_retryMap s)) \<and> (\<forall>l R. lc_retryMap s l = Some R \<longrightarrow> finite R)"

text \<open>Owners hold their last grant, and a queued client either waits for an owner or for a round of
  the retryer that is due.\<close>

definition owns_last :: "(lockid \<Rightarrow> (int \<times> u32) option) \<Rightarrow> (int \<Rightarrow> lockid \<Rightarrow> u32) \<Rightarrow> bool" where
  "owns_last owner seqs \<longleftrightarrow> (\<forall>l h q. owner l = Some (h, q) \<longrightarrow> seqs h l = q)"

definition queued_waits :: "(lockid \<Rightarrow> (int \<times> u32) option) \<Rightarrow> (lockid \<rightharpoonup> int set) \<Rightarrow> u32 \<Rightarrow> bool" where
  "queued_waits owner R due \<longleftrightarrow> (\<forall>l. R l \<noteq> None \<longrightarrow> owner l \<noteq> None \<or> due \<noteq> 0)"

definition queue_inv :: "nat \<Rightarrow> lock_server_cache \<Rightarrow> bool" where
  "queue_inv n s \<longleftrightarrow> server_ok s \<and> maps_finite s \<and> unat (lc_has_release s) \<le> n \<and>
     owns_last (lock_owner s) (lc_seq s) \<and> queued_waits (lock_owner s) (lc_retryMap s) (lc_has_release s)"

lemma owns_last_grant: "owns_last w q \<Longrightarrow> owns_last (w(l := Some (c, n))) (q(c := (q c)(l := n)))"
  by (simp add: owns_last_def)

lemma owns_last_free: "owns_last w q \<Longrightarrow> owns_last (w(l := None)) q"
  by (simp add: owns_last_def)

lemma queued_waits_held:
  "queued_waits w R d \<Longrightarrow> w' l \<noteq> None \<Longrightarrow> \<forall>k. k \<noteq> l \<longrightarrow> w' k = w k \<and> R' k = R k \<Longrightarrow> queued_waits w' R' d"
  unfolding queued_waits_def by metis

lemma queued_waits_due: "d \<noteq> 0 \<Longrightarrow> queued_waits w R d"
  by (simp add: queued_waits_def)

lemma queued_waits_none: "queued_waits w Map.empty d"
  by (simp add: queued_waits_def)

lemma acquire_keeps_maps:
  assumes "server_acquire c l q s = Inr (s', r)" and "maps_finite s"
  shows "maps_finite s' \<and> lc_has_release s' = lc_has_release s \<and>
    (\<forall>k. k \<noteq> l \<longrightarrow> lc_retryMap s' k = lc_retryMap s k) \<and> (r \<noteq> LRETRY \<longrightarrow> lc_retryMap s' = lc_retryMap s)"
proof -
  have rv: "maps_finite t' \<and> lc_has_release t' = lc_has_release t \<and> lc_retryMap t' = lc_retryMap t"
    if "add_Revoke_Request h l t = Inr t'" "maps_finite t" for h t t'
    using that by (auto simp: add_Revoke_Request_def maps_finite_def Let_def split: if_splits option.splits)
  have rt: "maps_finite (add_Retry_Request l c t) \<and> lc_has_release (add_Retry_Request l c t) = lc_has_release t \<and>
      (\<forall>k. k \<noteq> l \<longrightarrow> lc_retryMap (add_Retry_Request l c t) k = lc_retryMap t k)" if "maps_finite t" for t
    using that by (auto simp: add_Retry_Request_def maps_finite_def Let_def split: option.splits)
  have m: "maps_finite (t\<lparr>lc_alloc := A, lc_seq := Q\<rparr>) = maps_finite t" for t A Q
    by (simp add: maps_finite_def)
  let ?t = "if lc_alloc s l = None
      then s\<lparr>lc_alloc := (lc_alloc s)(l \<mapsto> \<lparr>al_isAllocated = False, al_client = c, al_seqNo = 0\<rparr>),
             lc_seq := (lc_seq s)(c := (lc_seq s c)(l := 0))\<rparr> else s"
  have t: "maps_finite ?t" "lc_has_release ?t = lc_has_release s" "lc_retryMap ?t = lc_retryMap s"
    using assms(2) m by simp_all
  let ?ls = "the (lc_alloc ?t l)"
  consider "s' = s" "r = LOK"
    | A Q where "s' = ?t\<lparr>lc_alloc := A, lc_seq := Q\<rparr>" "r = LOK"
    | h where "add_Revoke_Request h l (add_Retry_Request l c ?t) = Inr s'" "r = LRETRY"
  proof (cases "q \<le> lc_seq s c l")
    case True
    then show thesis using assms(1) that(1) by (simp add: server_acquire_def)
  next
    case False
    show thesis
    proof (cases "al_isAllocated ?ls")
      case True
      then have "rbind (add_Revoke_Request (al_client ?ls) l (add_Retry_Request l c ?t)) (\<lambda>s. Inr (s, LRETRY)) = Inr (s', r)"
        using assms(1) False unfolding server_acquire_def Let_def by simp
      then show thesis using that(3) by (auto simp: rbind_eq_Inr_iff)
    next
      case na: False
      then show thesis using assms(1) False that(2) unfolding server_acquire_def Let_def by simp metis
    qed
  qed
  then show ?thesis
  proof cases
    case 2
    then show ?thesis using t m by simp
  next
    case (3 h)
    then show ?thesis using rv [OF 3(1)] rt [OF t(1)] t(2,3) by simp
  qed (use assms(2) in simp)
qed

lemma queue_inv_acquire:
  assumes inv: "queue_inv n s" and a: "server_acquire c l q s = Inr (s', r)"
  shows "queue_inv n s' \<and> (r = LRETRY \<longrightarrow> (\<exists>h k m. lock_owner s' l = Some (h, k) \<and>
    lc_revokeMap s' h = Some m \<and> m l = Some k))"
proof (cases "q \<le> lc_seq s c l")
  case True
  then show ?thesis using assms by (simp add: server_acquire_def)
next
  case False
  then have q: "lc_seq s c l < q" by simp
  have ok: "server_ok s" "maps_finite s" "unat (lc_has_release s) \<le> n"
    "owns_last (lock_owner s) (lc_seq s)" "queued_waits (lock_owner s) (lc_retryMap s) (lc_has_release s)"
    using inv by (auto simp: queue_inv_def)
  note keep = acquire_keeps_maps [OF a ok(2)]
  show ?thesis
  proof (cases "lock_owner s l")
    case None
    obtain t where t: "server_acquire c l q s = Inr (t, LOK)" "server_ok t" "lock_owner t = (lock_owner s)(l := Some (c, q))"
      "lc_seq t = (lc_seq s)(c := (lc_seq s c)(l := q))"
      using lsc.grant [OF ok(1) q None] by blast
    then have e: "s' = t" "r = LOK" using a by auto
    have "queued_waits (lock_owner s') (lc_retryMap s') (lc_has_release s)"
      using keep t(3) e by (intro queued_waits_held [where l = l, OF ok(5)]) auto
    then have "queue_inv n s'"
      unfolding queue_inv_def using keep ok(3) t e owns_last_grant [OF ok(4)] by simp
    then show ?thesis using e by simp
  next
    case (Some h)
    obtain hc hk where h: "h = (hc, hk)" by force
    have "\<exists>s' R m. server_acquire c l q s = Inr (s', LRETRY) \<and> server_ok s' \<and> lock_owner s' = lock_owner s \<and>
        lc_retryMap s' l = Some R \<and> c \<in> R \<and> lc_revokeMap s' hc = Some m \<and> m l = Some (lc_seq s hc l)"
      using server_acquire_correct [OF ok(1) q] Some h by blast
    then obtain m where t: "r = LRETRY" "server_ok s'" "lock_owner s' = lock_owner s" "lc_revokeMap s' hc = Some m"
      "m l = Some (lc_seq s hc l)"
      using a by auto
    have sq: "lc_seq s' = lc_seq s" using lsc.refuse [OF ok(1) q Some] a by auto
    have "queued_waits (lock_owner s') (lc_retryMap s') (lc_has_release s)"
      using keep t(3) Some by (intro queued_waits_held [where l = l, OF ok(5)]) auto
    then have "queue_inv n s'"
      unfolding queue_inv_def using keep ok t sq by simp
    moreover have "lc_seq s hc l = hk" using ok(4) Some h by (simp add: owns_last_def)
    ultimately show ?thesis using t Some h by simp
  qed
qed

lemma queue_inv_release:
  assumes inv: "queue_inv n s" and a: "server_release c l q s = Inr (s', r)" and n: "Suc n < 2 ^ 32"
  shows "queue_inv (Suc n) s'"
proof -
  have ok: "server_ok s" "maps_finite s" "unat (lc_has_release s) \<le> n"
    "owns_last (lock_owner s) (lc_seq s)" "queued_waits (lock_owner s) (lc_retryMap s) (lc_has_release s)"
    using inv by (auto simp: queue_inv_def)
  show ?thesis
  proof (cases "lock_owner s l = Some (c, q)")
    case True
    obtain t where t: "server_release c l q s = Inr (t, LOK)" "server_ok t" "lock_owner t = (lock_owner s)(l := None)"
      "lc_seq t = lc_seq s"
      using lsc.give_back [OF ok(1) True] by blast
    have e: "s' = t" using a t(1) by simp
    have m: "lc_revokeMap s' = lc_revokeMap s" "lc_retryMap s' = lc_retryMap s" "lc_has_release s' = lc_has_release s + 1"
      using a True by (auto simp: server_release_def lock_owner_def split: option.splits if_splits)
    have "unat (lc_has_release s) + Suc 0 < 2 ^ 32" using ok(3) n by simp
    then have u: "unat (lc_has_release s') = Suc (unat (lc_has_release s))" using room_u32 m(3) by metis
    then have "lc_has_release s' \<noteq> 0" by auto
    moreover have "maps_finite s'" using ok(2) m by (simp add: maps_finite_def)
    ultimately show ?thesis
      unfolding queue_inv_def using ok(3,4) t e u owns_last_free queued_waits_due by simp
  next
    case False
    then have "s' = s"
      using a by (auto simp: server_release_def lock_owner_def split: option.splits if_splits)
    then show ?thesis using ok by (simp add: queue_inv_def)
  qed
qed

lemma queue_inv_frame:
  assumes "queue_inv n s" and "lc_alloc s' = lc_alloc s" "lc_seq s' = lc_seq s" "unat (lc_has_release s') \<le> n"
    and "lc_revokeMap s' = lc_revokeMap s \<or> lc_revokeMap s' = Map.empty"
    and "(lc_retryMap s' = lc_retryMap s \<and> lc_has_release s' = lc_has_release s) \<or> lc_retryMap s' = Map.empty"
  shows "queue_inv n s'"
proof -
  have "lock_owner s' = lock_owner s" using assms(2) by (simp add: lock_owner_def fun_eq_iff)
  moreover have "server_ok s'" using assms unfolding queue_inv_def server_ok_def by auto
  moreover have "maps_finite s'" using assms unfolding queue_inv_def maps_finite_def by auto
  moreover have "queued_waits (lock_owner s') (lc_retryMap s') (lc_has_release s')"
    using assms(1,6) calculation(1) queued_waits_none by (auto simp: queue_inv_def)
  ultimately show ?thesis using assms(1,3,4) by (simp add: queue_inv_def)
qed

lemma queue_inv_due: "queue_inv n s \<Longrightarrow> unat (lc_has_release s) \<le> n"
  by (simp add: queue_inv_def)

lemma ls_reach_inv: "ls_reach n s \<Longrightarrow> n < 2 ^ 32 \<Longrightarrow> queue_inv n s"
proof (induction rule: ls_reach.induct)
  case (init k)
  have e: "lc_retryMap (lock_server_cache_new k) = Map.empty" "lc_revokeMap (lock_server_cache_new k) = Map.empty"
    "lc_has_release (lock_server_cache_new k) = 0" "\<And>l. lock_owner (lock_server_cache_new k) l = None"
    by (simp_all add: lock_server_cache_new_def lock_owner_def)
  show ?case
    unfolding queue_inv_def maps_finite_def owns_last_def e(1-3) using e(4) server_ok_new [of k] queued_waits_none by simp
next
  case (subscribes n s c)
  then show ?case by - (rule queue_inv_frame [of n s], simp_all add: subscribe_def queue_inv_due)
next
  case (unsubscribes n s c)
  then show ?case by - (rule queue_inv_frame [of n s], simp_all add: unsubscribe_def queue_inv_due)
next
  case (acquires n s c l q s' r)
  then show ?case using queue_inv_acquire by blast
next
  case (releases n s c l q s' r)
  then show ?case using queue_inv_release by simp
next
  case (revokes n s M s')
  then have "queue_inv n s" by simp
  moreover have "s' = s\<lparr>lc_revokeMap := Map.empty\<rparr>"
    using revokes.hyps(2) by (simp add: revoker_take_def split: if_splits)
  ultimately show ?case by - (rule queue_inv_frame [of n s], simp_all add: queue_inv_due)
next
  case (retries n s M s')
  then have i: "queue_inv n s" by simp
  have s': "s' = s\<lparr>lc_retryMap := Map.empty, lc_has_release := lc_has_release s - 1\<rparr>" "lc_has_release s \<noteq> 0"
    using retries.hyps(2) by (auto simp: retryer_take_def split: if_splits)
  have "unat (lc_has_release s - 1) \<le> unat (lc_has_release s)"
    using s'(2) by (simp add: unat_minus_one)
  then have "unat (lc_has_release s - 1) \<le> n" using queue_inv_due [OF i] by simp
  then show ?case using i s'(1) by - (rule queue_inv_frame [of n s], simp_all)
qed

text \<open>C12: no client is forgotten.  A refused acquire leaves a revoke of the owner's grant for the next
  round of the revoker; and a client that is queued for a lock nobody owns gets a retry in the next
  round of the retryer, which is due.  (Fewer than \<open>2^32\<close> releases keep their counter from wrapping.)\<close>

theorem refused_client_is_served:
  assumes "ls_reach n s" and "n < 2 ^ 32"
  shows "(\<forall>c l q s'. server_acquire c l q s = Inr (s', LRETRY) \<longrightarrow>
      (\<exists>h k M t. lock_owner s' l = Some (h, k) \<and> revoker_take s' = Some (M, t) \<and> (h, l, k) \<in> set (revoker_calls M))) \<and>
    (\<forall>l R c. lc_retryMap s l = Some R \<and> c \<in> R \<and> lock_owner s l = None \<longrightarrow>
      (\<exists>M t. retryer_take s = Some (M, t) \<and> (l, c) \<in> set (retryer_calls M)))"
proof (intro conjI allI impI)
  note inv = ls_reach_inv [OF assms]
  fix c l q s' assume "server_acquire c l q s = Inr (s', LRETRY)"
  note a = queue_inv_acquire [OF inv this]
  then obtain h k m where h: "lock_owner s' l = Some (h, k)" "lc_revokeMap s' h = Some m" "m l = Some k" by blast
  have f: "maps_finite s'" using a by (simp add: queue_inv_def)
  have "(h, l, k) \<in> set (revoker_calls (lc_revokeMap s'))"
    using f h(2) revoker_calls_mem [of "lc_revokeMap s'" h m l k] h(3) unfolding maps_finite_def by blast
  moreover have "lc_revokeMap s' \<noteq> Map.empty" using h(2) by auto
  ultimately show "\<exists>h k M t. lock_owner s' l = Some (h, k) \<and> revoker_take s' = Some (M, t) \<and> (h, l, k) \<in> set (revoker_calls M)"
    using h(1) by (auto simp: revoker_take_def)
next
  note inv = ls_reach_inv [OF assms]
  fix l R c assume w: "lc_retryMap s l = Some R \<and> c \<in> R \<and> lock_owner s l = None"
  then have "lc_has_release s \<noteq> 0" using inv by (auto simp: queue_inv_def queued_waits_def)
  moreover have "(l, c) \<in> set (retryer_calls (lc_retryMap s))"
    using inv w by (intro retryer_calls_mem) (auto simp: queue_inv_def maps_finite_def)
  ultimately show "\<exists>M t. retryer_take s = Some (M, t) \<and> (l, c) \<in> set (retryer_calls M)"
    by (simp add: retryer_take_def)
qed

text \<open>Client 3 holds lock 8, client 4 is refused, client 3 releases.\<close>

theorem refused_client_is_served_witness:
  "\<exists>s s' t M t'. server_acquire 3 8 1 (lock_server_cache_new 0) = Inr (s, LOK) \<and>
    server_acquire 4 8 1 s = Inr (s', LRETRY) \<and> server_release 3 8 1 s' = Inr (t, LOK) \<and>
    retryer_take t = Some (M, t') \<and> (8, 4) \<in> set (retryer_calls M)"
proof -
  let ?n = "lock_server_cache_new 0"
  have n: "ls_reach 0 ?n" by (rule ls_reach.init)
  have "lc_seq ?n 3 8 < 1" "lock_owner ?n 8 = None"
    by (simp_all add: lock_server_cache_new_def lock_owner_def word_less_nat_alt)
  then obtain s where s: "server_acquire 3 8 1 ?n = Inr (s, LOK)" "server_ok s"
    "lock_owner s = (lock_owner ?n)(8 := Some (3, 1))" "lc_seq s = (lc_seq ?n)(3 := (lc_seq ?n 3)(8 := 1))"
    using lsc.grant [OF server_ok_new, of 0 3 8 1] by blast
  have rs: "ls_reach 0 s" by (rule ls_reach.acquires [OF n s(1)])
  have o: "lock_owner s 8 = Some (3, 1)" "lc_seq s 4 8 < 1"
    using s(3,4) by (simp_all add: lock_server_cache_new_def word_less_nat_alt)
  obtain s' R where s': "server_acquire 4 8 1 s = Inr (s', LRETRY)" "server_ok s'" "lock_owner s' = lock_owner s"
    "lc_retryMap s' 8 = Some R" "4 \<in> R"
    using server_acquire_correct [OF s(2) o(2)] o(1) by blast
  have rs': "ls_reach 0 s'" by (rule ls_reach.acquires [OF rs s'(1)])
  obtain t where t: "server_release 3 8 1 s' = Inr (t, LOK)" "lock_owner t = (lock_owner s')(8 := None)"
    using lsc.give_back [OF s'(2), of 8 3 1] s'(3) o(1) by auto
  have rt: "ls_reach 1 t" using ls_reach.releases [OF rs' t(1)] by simp
  have q: "lc_retryMap t = lc_retryMap s'"
    using t(1) by (auto simp: server_release_def split: option.splits if_splits)
  have "\<exists>M t'. retryer_take t = Some (M, t') \<and> (8, 4) \<in> set (retryer_calls M)"
    using refused_client_is_served [OF rt] s'(4,5) q t(2) by auto
  then show ?thesis using s(1) s'(1) t(1) by blast
qed

end
