(* ===== verification/LockClientCache.thy ===== *)
theory LockClientCache
  imports LockServer TextIO
begin

text \<open>
  The caching lock client, class \<open>lock_client_cache\<close> of \<open>lock_client_cache.cc\<close>.  Every operation
  is split at the points where the code releases its mutex: one turn of the acquire loop, the
  reply to the acquire call, the release, the two handlers the server calls, and the three
  sections of the releaser thread.
\<close>

section \<open>State\<close>

datatype lock_state = L_NONE | L_FREE | L_LOCKED | L_ACQUIRING | L_RELEASING

record lockids =
  li_status :: lock_state
  li_seq :: u32

record lock_client_cache =
  cc_lockMap :: "lockid \<rightharpoonup> lockids"
  cc_revokeMap :: "lockid \<rightharpoonup> u32"
  cc_retryMap :: "lockid \<Rightarrow> bool"

definition lock_client_cache_new :: lock_client_cache where
  "lock_client_cache_new =
     \<lparr>cc_lockMap = Map.empty, cc_revokeMap = Map.empty, cc_retryMap = (\<lambda>_. False)\<rparr>"

text \<open>
  The constructor: \<open>r\<close> is the result of \<open>rand()\<close>, from which the port for the server's calls is
  made, and \<open>ret\<close> the server's answer to \<open>subscribe\<close>.  It returns the port, the client's name and
  the state.
\<close>

definition rlock_port :: "int \<Rightarrow> int" where
  "rlock_port r = (r mod 32000) OR 1024"

definition lock_client_cache_start :: "int \<Rightarrow> lock_status \<Rightarrow> (int \<times> string \<times> lock_client_cache) res" where
  "lock_client_cache_start r ret =
     (let port = rlock_port r
      in if ret \<noteq> LOK then Inl AssertFail
         else Inr (port, ''127.0.0.1'' @ '':'' @ show_nat (nat port), lock_client_cache_new))"

lemma rlock_port_range: "0 \<le> r \<Longrightarrow> 0 \<le> rlock_port r \<and> rlock_port r < 2 ^ 15"
proof -
  have "0 \<le> r mod 32000" "r mod 32000 < 2 ^ 15" using pos_mod_bound [of 32000 r] by simp_all
  then show ?thesis unfolding rlock_port_def by (intro conjI) (simp, rule OR_upper, simp_all)
qed

section \<open>Acquire\<close>

text \<open>The first section of acquire: the lock's entry is created.\<close>

definition acquire_enter :: "lockid \<Rightarrow> lock_client_cache \<Rightarrow> lock_client_cache" where
  "acquire_enter lid c =
     (if cc_lockMap c lid = None
      then c\<lparr>cc_lockMap := (cc_lockMap c)(lid \<mapsto> \<lparr>li_status = L_NONE, li_seq = 1\<rparr>),
             cc_retryMap := (cc_retryMap c)(lid := False)\<rparr>
      else c)"

text \<open>
  One turn of the loop.  \<open>seen\<close> is the status the \<open>switch\<close> read without the mutex; the status is
  read again with it.  \<open>Ping\<close> is the call to the server, with the lock's sequence number.
\<close>

datatype turn = Ping u32 | Granted | WaitCv | Again

definition set_status :: "lockid \<Rightarrow> lock_state \<Rightarrow> lock_client_cache \<Rightarrow> lock_client_cache" where
  "set_status lid st c =
     c\<lparr>cc_lockMap := (cc_lockMap c)(lid := map_option (\<lambda>li. li\<lparr>li_status := st\<rparr>) (cc_lockMap c lid))\<rparr>"

definition acquire_turn ::
  "lock_state \<Rightarrow> lockid \<Rightarrow> lock_client_cache \<Rightarrow> (lock_client_cache \<times> turn) res" where
  "acquire_turn seen lid c =
     (case cc_lockMap c lid of
        None \<Rightarrow> Inl NullDeref
      | Some li \<Rightarrow>
          (case seen of
             L_NONE \<Rightarrow> (if li_status li = L_NONE
               then Inr (set_status lid L_ACQUIRING c, Ping (li_seq li)) else Inr (c, Again))
           | L_FREE \<Rightarrow> (if li_status li = L_FREE
               then Inr (set_status lid L_LOCKED c, Granted) else Inr (c, Again))
           | _ \<Rightarrow> (if li_status li = L_NONE \<or> li_status li = L_FREE
               then Inr (c, Again) else Inr (c, WaitCv))))"

text \<open>\<open>pingLock\<close> after its call returned \<open>ret\<close>.\<close>

definition pingLock :: "lock_status \<Rightarrow> lock_status res" where
  "pingLock ret = (if ret \<noteq> LOK \<and> ret \<noteq> LRETRY then Inl AssertFail else Inr ret)"

text \<open>
  What the owner of the acquire call does with its result: take the lock, or (after waiting for
  a retry, unless one has already come) ask again.
\<close>

definition acquire_reply ::
  "lock_status \<Rightarrow> lockid \<Rightarrow> lock_client_cache \<Rightarrow> (lock_client_cache \<times> turn) res" where
  "acquire_reply ret lid c =
     (case cc_lockMap c lid of
        None \<Rightarrow> Inl NullDeref
      | Some li \<Rightarrow>
          (if ret = LRETRY then Inr (c\<lparr>cc_retryMap := (cc_retryMap c)(lid := False)\<rparr>, Ping (li_seq li))
           else if ret = LOK then Inr (set_status lid L_LOCKED c, Granted)
           else Inl AssertFail))"

definition waits_for_retry :: "lockid \<Rightarrow> lock_client_cache \<Rightarrow> bool" where
  "waits_for_retry lid c \<longleftrightarrow> \<not> cc_retryMap c lid"

section \<open>Release and the handlers\<close>

definition client_release :: "lockid \<Rightarrow> lock_client_cache \<Rightarrow> (lock_client_cache \<times> lock_status) res" where
  "client_release lid c =
     (case cc_lockMap c lid of
        None \<Rightarrow> Inl NullDeref
      | Some li \<Rightarrow>
          (if li_status li \<noteq> L_LOCKED then Inl AssertFail
           else if cc_revokeMap c lid = Some (li_seq li) then Inr (set_status lid L_RELEASING c, LOK)
           else Inr (set_status lid L_FREE c, LOK)))"

definition client_revoke :: "lockid \<Rightarrow> u32 \<Rightarrow> lock_client_cache \<Rightarrow> (lock_client_cache \<times> lock_status) res" where
  "client_revoke lid seqNo c =
     (if (case cc_revokeMap c lid of None \<Rightarrow> True | Some n \<Rightarrow> seqNo > n)
      then (case cc_lockMap c lid of
              None \<Rightarrow> Inl NullDeref
            | Some li \<Rightarrow>
                (if li_seq li = seqNo
                 then (let c = c\<lparr>cc_revokeMap := (cc_revokeMap c)(lid \<mapsto> seqNo)\<rparr>
                       in if li_status li = L_FREE then Inr (set_status lid L_RELEASING c, LOK)
                          else Inr (c, LOK))
                 else Inr (c, LOK)))
      else Inr (c, LOK))"

definition client_retry :: "lockid \<Rightarrow> lock_client_cache \<Rightarrow> lock_client_cache \<times> lock_status" where
  "client_retry lid c = (c\<lparr>cc_retryMap := (cc_retryMap c)(lid := True)\<rparr>, LOK)"

section \<open>The releaser thread\<close>

text \<open>Each round works on a snapshot of the revoke map; the thread waits while the map is empty.\<close>

definition releaser_take :: "lock_client_cache \<Rightarrow> (lockid \<times> u32) list option" where
  "releaser_take c =
     (if cc_revokeMap c = Map.empty then None
      else Some (map (\<lambda>lid. (lid, the (cc_revokeMap c lid))) (sorted_list_of_set (dom (cc_revokeMap c)))))"

text \<open>
  For each entry of its snapshot of the revoke map the thread checks whether the lock is to be
  given back; if so it calls \<open>dorelease\<close> and then the server's release, with the mutex released,
  and afterwards gives the lock up.  The result lists the calls it makes, in order.
\<close>

datatype releaser_call = DoRelease lockid | SendRelease lockid u32

definition releaser_check ::
  "bool \<Rightarrow> lockid \<Rightarrow> u32 \<Rightarrow> lock_client_cache \<Rightarrow> (releaser_call list) res" where
  "releaser_check has_lu lid seqNo c =
     (case cc_lockMap c lid of
        None \<Rightarrow> Inl NullDeref
      | Some li \<Rightarrow>
          Inr (if li_seq li = seqNo \<and> li_status li = L_RELEASING
               then (if has_lu then [DoRelease lid] else []) @ [SendRelease lid (li_seq li)]
               else []))"

definition releaser_done :: "lockid \<Rightarrow> lock_client_cache \<Rightarrow> lock_client_cache" where
  "releaser_done lid c =
     c\<lparr>cc_lockMap := (cc_lockMap c)(lid := map_option (\<lambda>li. \<lparr>li_status = L_NONE, li_seq = li_seq li + 1\<rparr>)
          (cc_lockMap c lid))\<rparr>"

text \<open>The clean-up at the end of a round drops the entries for earlier grants.\<close>

definition releaser_cleanup :: "lock_client_cache \<Rightarrow> lock_client_cache" where
  "releaser_cleanup c =
     c\<lparr>cc_revokeMap := (\<lambda>lid. case (cc_revokeMap c lid, cc_lockMap c lid) of
          (Some n, Some li) \<Rightarrow> (if n < li_seq li then None else Some n)
        | (r, _) \<Rightarrow> r)\<rparr>"

section \<open>Local correctness\<close>

definition li_of :: "lock_client_cache \<Rightarrow> lockid \<Rightarrow> lockids" where
  "li_of c lid = (case cc_lockMap c lid of Some li \<Rightarrow> li | None \<Rightarrow> \<lparr>li_status = L_NONE, li_seq = 1\<rparr>)"

abbreviation st_of :: "lock_client_cache \<Rightarrow> lockid \<Rightarrow> lock_state" where
  "st_of c lid \<equiv> li_status (li_of c lid)"

abbreviation seq_of :: "lock_client_cache \<Rightarrow> lockid \<Rightarrow> u32" where
  "seq_of c lid \<equiv> li_seq (li_of c lid)"

lemma li_of_simps [simp]:
  "li_of (acquire_enter l c) = li_of c"
  "li_of (c\<lparr>cc_retryMap := R\<rparr>) = li_of c"
  "li_of (c\<lparr>cc_revokeMap := V\<rparr>) = li_of c"
  "li_of (releaser_cleanup c) = li_of c"
  by (auto simp: li_of_def acquire_enter_def releaser_cleanup_def fun_eq_iff)

lemma li_of_set_status:
  "cc_lockMap c l \<noteq> None \<Longrightarrow> li_of (set_status l st c) = (li_of c)(l := (li_of c l)\<lparr>li_status := st\<rparr>)"
  by (auto simp: li_of_def set_status_def fun_eq_iff)

lemma li_of_Some: "cc_lockMap c l = Some li \<Longrightarrow> li_of c l = li"
  by (simp add: li_of_def)

lemma li_of_done:
  "cc_lockMap c l \<noteq> None \<Longrightarrow>
    li_of (releaser_done l c) = (li_of c)(l := \<lparr>li_status = L_NONE, li_seq = seq_of c l + 1\<rparr>)"
  by (auto simp: li_of_def releaser_done_def fun_eq_iff)

lemma entry_of: "st_of c l \<noteq> L_NONE \<Longrightarrow> cc_lockMap c l \<noteq> None"
  by (auto simp: li_of_def split: option.splits)

lemma client_release_status:
  assumes "client_release l c = Inr (k, r)"
  shows "\<exists>st. (st = L_FREE \<or> st = L_RELEASING) \<and> li_of k = (li_of c)(l := (li_of c l)\<lparr>li_status := st\<rparr>)"
proof -
  have "cc_lockMap c l \<noteq> None" using assms by (auto simp: client_release_def split: option.splits)
  moreover have "k = set_status l L_FREE c \<or> k = set_status l L_RELEASING c"
    using assms by (auto simp: client_release_def split: option.splits if_splits)
  ultimately show ?thesis using li_of_set_status by metis
qed

lemma client_revoke_status:
  assumes "client_revoke l n c = Inr (k, r)"
  shows "li_of k = li_of c \<or>
    (st_of c l = L_FREE \<and> li_of k = (li_of c)(l := (li_of c l)\<lparr>li_status := L_RELEASING\<rparr>))"
proof -
  let ?c = "c\<lparr>cc_revokeMap := (cc_revokeMap c)(l \<mapsto> n)\<rparr>"
  consider "k = c" | "k = ?c"
    | li where "cc_lockMap c l = Some li" "li_status li = L_FREE" "k = set_status l L_RELEASING ?c"
    using assms by (auto simp: client_revoke_def Let_def split: option.splits if_splits)
  then show ?thesis
  proof cases
    case (3 li)
    then show ?thesis using li_of_set_status [of ?c l L_RELEASING] by (simp add: li_of_Some)
  qed simp_all
qed

text \<open>a revoke for the client's current grant is never lost.  If the lock is free it starts
  releasing at once; if a thread holds it, it starts releasing when that thread releases it; and
  the releaser then flushes the lock's data before it sends the release, with the number of the
  grant.\<close>

theorem revoke_is_honoured:
  assumes "cc_lockMap c l = Some li" and "cc_revokeMap c l = None \<or> (\<exists>n. cc_revokeMap c l = Some n \<and> n < li_seq li)"
    and "li_status li = L_FREE \<or> li_status li = L_LOCKED"
  shows "\<exists>c1. client_revoke l (li_seq li) c = Inr (c1, LOK) \<and> cc_revokeMap c1 l = Some (li_seq li) \<and>
    (if li_status li = L_FREE then releaser_check True l (li_seq li) c1 = Inr [DoRelease l, SendRelease l (li_seq li)]
     else \<exists>c2. client_release l c1 = Inr (c2, LOK) \<and>
       releaser_check True l (li_seq li) c2 = Inr [DoRelease l, SendRelease l (li_seq li)])"
  using assms by (auto simp: client_revoke_def client_release_def releaser_check_def set_status_def Let_def)

theorem revoke_is_honoured_witness:
  "\<exists>c1 c2. client_revoke 5 2 (lock_client_cache_new\<lparr>cc_lockMap := [5 \<mapsto> \<lparr>li_status = L_LOCKED, li_seq = 2\<rparr>]\<rparr>)
      = Inr (c1, LOK) \<and> client_release 5 c1 = Inr (c2, LOK) \<and>
    releaser_check True 5 2 c2 = Inr [DoRelease 5, SendRelease 5 2]"
proof -
  let ?li = "\<lparr>li_status = L_LOCKED, li_seq = 2\<rparr>"
  let ?c = "lock_client_cache_new\<lparr>cc_lockMap := [5 \<mapsto> ?li]\<rparr>"
  show ?thesis using revoke_is_honoured [of ?c 5 ?li] by (auto simp: lock_client_cache_new_def)
qed

end
