(* ===== verification/LockSystem.thy ===== *)
theory LockSystem
  imports LockServerCache LockClientCache
begin

text \<open>
  The caching lock service as a whole: one server, any number of clients with any number of
  threads, and the calls between them.  A call is executed at most once by the server (theory
  \<open>RpcServer\<close>), at any time after it is sent, and its reply arrives at any time after that; revoke
  and retry messages may arrive at any client at any time, with any sequence number.
\<close>

section \<open>The system\<close>

datatype call_phase = NoCall | AcqSent u32 | AcqDone lock_status | RelSent u32 | RelDone

text \<open>\<open>ss_hold\<close> counts the threads of a client between their acquire and their release.\<close>

record lk_sys =
  ss_srv :: lock_server_cache
  ss_clt :: "int \<Rightarrow> lock_client_cache"
  ss_call :: "int \<Rightarrow> lockid \<Rightarrow> call_phase"
  ss_hold :: "int \<Rightarrow> lockid \<Rightarrow> nat"

definition upd2 :: "('a \<Rightarrow> 'b \<Rightarrow> 'c) \<Rightarrow> 'a \<Rightarrow> 'b \<Rightarrow> 'c \<Rightarrow> 'a \<Rightarrow> 'b \<Rightarrow> 'c" where
  "upd2 f a b v = f(a := (f a)(b := v))"

definition phase_of :: "turn \<Rightarrow> call_phase \<Rightarrow> call_phase" where
  "phase_of t p = (case t of Ping n \<Rightarrow> AcqSent n | Granted \<Rightarrow> NoCall | _ \<Rightarrow> p)"

definition held_of :: "turn \<Rightarrow> nat \<Rightarrow> nat" where
  "held_of t h = (case t of Granted \<Rightarrow> h + 1 | _ \<Rightarrow> h)"

inductive lk_step :: "lk_sys \<Rightarrow> lk_sys \<Rightarrow> bool" where
  enter: "lk_step s (s\<lparr>ss_clt := (ss_clt s)(c := acquire_enter l (ss_clt s c))\<rparr>)"
| turn: "acquire_turn seen l (ss_clt s c) = Inr (k, t) \<Longrightarrow>
    lk_step s (s\<lparr>ss_clt := (ss_clt s)(c := k),
      ss_call := upd2 (ss_call s) c l (phase_of t (ss_call s c l)),
      ss_hold := upd2 (ss_hold s) c l (held_of t (ss_hold s c l))\<rparr>)"
| serve_acquire: "ss_call s c l = AcqSent n \<Longrightarrow> server_acquire c l n (ss_srv s) = Inr (v, st) \<Longrightarrow>
    lk_step s (s\<lparr>ss_srv := v, ss_call := upd2 (ss_call s) c l (AcqDone st)\<rparr>)"
| reply: "ss_call s c l = AcqDone st \<Longrightarrow> acquire_reply st l (ss_clt s c) = Inr (k, t) \<Longrightarrow>
    lk_step s (s\<lparr>ss_clt := (ss_clt s)(c := k),
      ss_call := upd2 (ss_call s) c l (phase_of t NoCall),
      ss_hold := upd2 (ss_hold s) c l (held_of t (ss_hold s c l))\<rparr>)"
| release: "ss_hold s c l = Suc h \<Longrightarrow> client_release l (ss_clt s c) = Inr (k, LOK) \<Longrightarrow>
    lk_step s (s\<lparr>ss_clt := (ss_clt s)(c := k), ss_hold := upd2 (ss_hold s) c l h\<rparr>)"
| revoke: "client_revoke l n (ss_clt s c) = Inr (k, LOK) \<Longrightarrow>
    lk_step s (s\<lparr>ss_clt := (ss_clt s)(c := k)\<rparr>)"
| retry: "lk_step s (s\<lparr>ss_clt := (ss_clt s)(c := fst (client_retry l (ss_clt s c)))\<rparr>)"
| releaser: "ss_call s c l = NoCall \<Longrightarrow> cc_revokeMap (ss_clt s c) l = Some n \<Longrightarrow>
    releaser_check lu l n (ss_clt s c) = Inr calls \<Longrightarrow> SendRelease l m \<in> set calls \<Longrightarrow>
    lk_step s (s\<lparr>ss_call := upd2 (ss_call s) c l (RelSent m)\<rparr>)"
| serve_release: "ss_call s c l = RelSent n \<Longrightarrow> server_release c l n (ss_srv s) = Inr (v, LOK) \<Longrightarrow>
    lk_step s (s\<lparr>ss_srv := v, ss_call := upd2 (ss_call s) c l RelDone\<rparr>)"
| released: "ss_call s c l = RelDone \<Longrightarrow> seq_of (ss_clt s c) l \<noteq> - 1 \<Longrightarrow>
    lk_step s (s\<lparr>ss_clt := (ss_clt s)(c := releaser_done l (ss_clt s c)),
      ss_call := upd2 (ss_call s) c l NoCall\<rparr>)"
| cleanup: "lk_step s (s\<lparr>ss_clt := (ss_clt s)(c := releaser_cleanup (ss_clt s c))\<rparr>)"
| revoker: "revoker_take (ss_srv s) = Some (R, v) \<Longrightarrow> lk_step s (s\<lparr>ss_srv := v\<rparr>)"
| retryer: "retryer_take (ss_srv s) = Some (R, v) \<Longrightarrow> lk_step s (s\<lparr>ss_srv := v\<rparr>)"

definition lk_init :: lk_sys where
  "lk_init = \<lparr>ss_srv = lock_server_cache_new 0, ss_clt = (\<lambda>_. lock_client_cache_new),
     ss_call = (\<lambda>_ _. NoCall), ss_hold = (\<lambda>_ _. 0)\<rparr>"

inductive lk_reach :: "lk_sys \<Rightarrow> bool" where
  init: "lk_reach lk_init"
| step: "lk_reach s \<Longrightarrow> lk_step s t \<Longrightarrow> lk_reach t"

section \<open>The invariant\<close>

text \<open>Whether a client counts as the owner of a lock, from its status and its call.\<close>

fun owns :: "lock_state \<Rightarrow> call_phase \<Rightarrow> bool" where
  "owns L_FREE p = True"
| "owns L_LOCKED p = True"
| "owns L_ACQUIRING p = (p = AcqDone LOK)"
| "owns L_RELEASING p = (p \<noteq> RelDone)"
| "owns L_NONE p = False"

fun phase_ok :: "lock_state \<Rightarrow> u32 \<Rightarrow> call_phase \<Rightarrow> bool" where
  "phase_ok L_ACQUIRING q p = (p = AcqSent q \<or> p = AcqDone LOK \<or> p = AcqDone LRETRY)"
| "phase_ok L_RELEASING q p = (p = NoCall \<or> p = RelSent q \<or> p = RelDone)"
| "phase_ok st q p = (p = NoCall)"

text \<open>One client and one lock: the owner on the server, the last grant, the client's entry, its
  call, and its holders.\<close>

definition cell_ok :: "int \<Rightarrow> (int \<times> u32) option \<Rightarrow> u32 \<Rightarrow> lockids \<Rightarrow> call_phase \<Rightarrow> nat \<Rightarrow> bool" where
  "cell_ok c own lst li p h \<longleftrightarrow> phase_ok (li_status li) (li_seq li) p \<and>
     (owns (li_status li) p \<longrightarrow> own = Some (c, li_seq li)) \<and> lst \<le> li_seq li \<and>
     (\<not> owns (li_status li) p \<and> li_status li \<noteq> L_RELEASING \<longrightarrow> lst < li_seq li) \<and>
     h = (if li_status li = L_LOCKED then 1 else 0)"

definition cells_ok ::
  "(lockid \<Rightarrow> (int \<times> u32) option) \<Rightarrow> (int \<Rightarrow> lockid \<Rightarrow> u32) \<Rightarrow> lk_sys \<Rightarrow> bool" where
  "cells_ok own lst s \<longleftrightarrow>
     (\<forall>c l. cell_ok c (own l) (lst c l) (li_of (ss_clt s c) l) (ss_call s c l) (ss_hold s c l))"

definition lk_inv :: "lk_sys \<Rightarrow> bool" where
  "lk_inv s \<longleftrightarrow> server_ok (ss_srv s) \<and> cells_ok (lock_owner (ss_srv s)) (lc_seq (ss_srv s)) s"

lemma upd2_apply [simp]: "upd2 f a b v x y = (if x = a \<and> y = b then v else f x y)"
  by (simp add: upd2_def)

lemma cell_at: "lk_inv s \<Longrightarrow>
    cell_ok c (lock_owner (ss_srv s) l) (lc_seq (ss_srv s) c l) (li_of (ss_clt s c) l) (ss_call s c l) (ss_hold s c l)"
  by (simp add: lk_inv_def cells_ok_def)

text \<open>A step of one client on one lock.\<close>

lemma lk_inv_client:
  assumes "lk_inv s" and "\<And>x. x \<noteq> l \<Longrightarrow> li_of k x = li_of (ss_clt s c) x"
    and "cell_ok c (lock_owner (ss_srv s) l) (lc_seq (ss_srv s) c l) (li_of k l) p h"
  shows "lk_inv (s\<lparr>ss_clt := (ss_clt s)(c := k), ss_call := upd2 (ss_call s) c l p,
    ss_hold := upd2 (ss_hold s) c l h\<rparr>)"
  using assms by (auto simp: lk_inv_def cells_ok_def)

lemma upd2_same: "upd2 f a b (f a b) = f"
  by (auto simp: fun_eq_iff)

text \<open>The server's steps change the owner of one lock; no other client owns it then.\<close>

context lock_provider
begin

lemma cells_grant:
  assumes "cells_ok (owner v) (last_seq v) s" and "ok v" and "owner v l = None"
    and p: "ss_call s c l = AcqSent n"
  obtains v' where "acq c l n v = Inr (v', LOK)" "ok v'"
    "cells_ok (owner v') (last_seq v') (s\<lparr>ss_call := upd2 (ss_call s) c l (AcqDone LOK)\<rparr>)"
proof -
  have cell: "cell_ok x (owner v y) (last_seq v x y) (li_of (ss_clt s x) y) (ss_call s x y) (ss_hold s x y)" for x y
    using assms(1) by (simp add: cells_ok_def)
  have st: "st_of (ss_clt s c) l = L_ACQUIRING" "seq_of (ss_clt s c) l = n"
    using cell [of c l] p by (cases "st_of (ss_clt s c) l"; auto simp: cell_ok_def)+
  then have "last_seq v c l < n" using cell [of c l] p by (auto simp: cell_ok_def)
  then obtain v' where v': "acq c l n v = Inr (v', LOK)" "ok v'" "owner v' = (owner v)(l := Some (c, n))"
    "last_seq v' = (last_seq v)(c := (last_seq v c)(l := n))"
    using grant assms(2,3) by blast
  have "\<not> owns (st_of (ss_clt s x) l) (ss_call s x l)" for x
    using cell [of x l] assms(3) by (auto simp: cell_ok_def)
  then have "cells_ok (owner v') (last_seq v') (s\<lparr>ss_call := upd2 (ss_call s) c l (AcqDone LOK)\<rparr>)"
    using cell st v'(3,4) unfolding cells_ok_def cell_ok_def by auto
  then show thesis using that v' by blast
qed

lemma cells_refuse:
  assumes "cells_ok (owner v) (last_seq v) s" and "ok v" and "owner v l = Some h"
    and p: "ss_call s c l = AcqSent n"
  obtains v' where "acq c l n v = Inr (v', LRETRY)" "ok v'"
    "cells_ok (owner v') (last_seq v') (s\<lparr>ss_call := upd2 (ss_call s) c l (AcqDone LRETRY)\<rparr>)"
proof -
  have cell: "cell_ok x (owner v y) (last_seq v x y) (li_of (ss_clt s x) y) (ss_call s x y) (ss_hold s x y)" for x y
    using assms(1) by (simp add: cells_ok_def)
  have st: "st_of (ss_clt s c) l = L_ACQUIRING" "seq_of (ss_clt s c) l = n"
    using cell [of c l] p by (cases "st_of (ss_clt s c) l"; auto simp: cell_ok_def)+
  then have "last_seq v c l < n" using cell [of c l] p by (auto simp: cell_ok_def)
  then obtain v' where v': "acq c l n v = Inr (v', LRETRY)" "ok v'" "owner v' = owner v" "last_seq v' = last_seq v"
    using refuse assms(2,3) by blast
  have "cells_ok (owner v') (last_seq v') (s\<lparr>ss_call := upd2 (ss_call s) c l (AcqDone LRETRY)\<rparr>)"
    using cell st p v'(3,4) unfolding cells_ok_def cell_ok_def by auto
  then show thesis using that v' by blast
qed

lemma cells_give_back:
  assumes "cells_ok (owner v) (last_seq v) s" and "ok v" and p: "ss_call s c l = RelSent n"
  obtains v' where "rel c l n v = Inr (v', LOK)" "ok v'"
    "cells_ok (owner v') (last_seq v') (s\<lparr>ss_call := upd2 (ss_call s) c l RelDone\<rparr>)"
proof -
  have cell: "cell_ok x (owner v y) (last_seq v x y) (li_of (ss_clt s x) y) (ss_call s x y) (ss_hold s x y)" for x y
    using assms(1) by (simp add: cells_ok_def)
  have st: "st_of (ss_clt s c) l = L_RELEASING" "seq_of (ss_clt s c) l = n"
    using cell [of c l] p by (cases "st_of (ss_clt s c) l"; auto simp: cell_ok_def)+
  then have own: "owner v l = Some (c, n)" using cell [of c l] p by (auto simp: cell_ok_def)
  obtain v' where v': "rel c l n v = Inr (v', LOK)" "ok v'" "owner v' = (owner v)(l := None)" "last_seq v' = last_seq v"
    using give_back [OF assms(2) own] by blast
  have "\<not> owns (st_of (ss_clt s x) l) (ss_call s x l)" if "x \<noteq> c" for x
    using cell [of x l] own that by (auto simp: cell_ok_def)
  then have "cells_ok (owner v') (last_seq v') (s\<lparr>ss_call := upd2 (ss_call s) c l RelDone\<rparr>)"
    using cell st p v'(3,4) unfolding cells_ok_def cell_ok_def by auto
  then show thesis using that v' by blast
qed

end

section \<open>Preservation\<close>

lemma revoker_take_keeps: "revoker_take s = Some (R, v) \<Longrightarrow> server_ok s \<Longrightarrow>
    lock_owner v = lock_owner s \<and> lc_seq v = lc_seq s \<and> server_ok v"
  unfolding revoker_take_def by (auto simp: lock_owner_def server_ok_def fun_eq_iff split: if_splits)

lemma retryer_take_keeps:
  assumes "retryer_take s = Some (R, v)" and "server_ok s"
  shows "lock_owner v = lock_owner s \<and> lc_seq v = lc_seq s \<and> server_ok v"
proof -
  have "v = s\<lparr>lc_retryMap := Map.empty, lc_has_release := lc_has_release s - 1\<rparr>"
    using assms(1) by (simp add: retryer_take_def split: if_splits)
  then have eq: "lc_alloc v = lc_alloc s" "lc_seq v = lc_seq s" "lc_revokeMap v = lc_revokeMap s" by simp_all
  have "lock_owner v = lock_owner s" by (rule ext) (simp only: lock_owner_def eq)
  moreover have "server_ok v = server_ok s" by (simp only: server_ok_def eq)
  ultimately show ?thesis using eq(2) assms(2) by blast
qed

lemma lk_inv_same_cells:
  assumes "lk_inv s" and "\<And>x. li_of (ss_clt t x) = li_of (ss_clt s x)" and "ss_srv t = ss_srv s"
    and "ss_call t = ss_call s" and "ss_hold t = ss_hold s"
  shows "lk_inv t"
  using assms by (simp add: lk_inv_def cells_ok_def)

lemma lk_inv_server:
  assumes "lk_inv s" and "lock_owner v = lock_owner (ss_srv s)" and "lc_seq v = lc_seq (ss_srv s)"
    and "server_ok v"
  shows "lk_inv (s\<lparr>ss_srv := v\<rparr>)"
  using assms by (simp add: lk_inv_def cells_ok_def)

lemma turn_cases:
  assumes "acquire_turn seen l k = Inr (k', t)"
  obtains "k' = k" "t = Again \<or> t = WaitCv"
  | "st_of k l = L_NONE" "t = Ping (seq_of k l)" "li_of k' = (li_of k)(l := (li_of k l)\<lparr>li_status := L_ACQUIRING\<rparr>)"
  | "st_of k l = L_FREE" "t = Granted" "li_of k' = (li_of k)(l := (li_of k l)\<lparr>li_status := L_LOCKED\<rparr>)"
proof -
  obtain li where li: "cc_lockMap k l = Some li"
    using assms by (auto simp: acquire_turn_def split: option.splits)
  then have of: "li_of k l = li" by (simp add: li_of_def)
  show thesis
    using assms that li li_of_set_status [of k l] unfolding of
    by (auto simp: acquire_turn_def split: lock_state.splits if_splits)
qed

lemma lk_inv_turn:
  assumes inv: "lk_inv s" and "acquire_turn seen l (ss_clt s c) = Inr (k, t)"
  shows "lk_inv (s\<lparr>ss_clt := (ss_clt s)(c := k), ss_call := upd2 (ss_call s) c l (phase_of t (ss_call s c l)),
      ss_hold := upd2 (ss_hold s) c l (held_of t (ss_hold s c l))\<rparr>)"
  using assms(2)
proof (cases rule: turn_cases)
  case 1
  then show ?thesis using inv cell_at [OF inv, of c l]
    by (intro lk_inv_client) (auto simp: phase_of_def held_of_def)
next
  case 2
  then show ?thesis using cell_at [OF inv, of c l]
    by (intro lk_inv_client [OF inv]) (auto simp: cell_ok_def phase_of_def held_of_def)
next
  case 3
  then show ?thesis using cell_at [OF inv, of c l]
    by (intro lk_inv_client [OF inv]) (auto simp: cell_ok_def phase_of_def held_of_def)
qed

lemma lk_inv_reply:
  assumes inv: "lk_inv s" and p: "ss_call s c l = AcqDone st"
    and r: "acquire_reply st l (ss_clt s c) = Inr (k, t)"
  shows "lk_inv (s\<lparr>ss_clt := (ss_clt s)(c := k), ss_call := upd2 (ss_call s) c l (phase_of t NoCall),
      ss_hold := upd2 (ss_hold s) c l (held_of t (ss_hold s c l))\<rparr>)"
proof -
  note cell = cell_at [OF inv, of c l]
  have st: "st_of (ss_clt s c) l = L_ACQUIRING"
    using cell p by (cases "st_of (ss_clt s c) l") (auto simp: cell_ok_def)
  consider "st = LRETRY" "li_of k = li_of (ss_clt s c)" "t = Ping (seq_of (ss_clt s c) l)"
    | "st = LOK" "li_of k = (li_of (ss_clt s c))(l := (li_of (ss_clt s c) l)\<lparr>li_status := L_LOCKED\<rparr>)" "t = Granted"
    using r li_of_set_status [of "ss_clt s c" l]
    by (auto simp: acquire_reply_def li_of_Some split: option.splits if_splits)
  then show ?thesis
  proof cases
    case 1
    then show ?thesis using cell p st
      by (intro lk_inv_client [OF inv]) (auto simp: cell_ok_def phase_of_def held_of_def)
  next
    case 2
    then show ?thesis using cell p st
      by (intro lk_inv_client [OF inv]) (auto simp: cell_ok_def phase_of_def held_of_def)
  qed
qed

lemma lk_inv_release:
  assumes inv: "lk_inv s" and h: "ss_hold s c l = Suc h" and r: "client_release l (ss_clt s c) = Inr (k, LOK)"
  shows "lk_inv (s\<lparr>ss_clt := (ss_clt s)(c := k), ss_hold := upd2 (ss_hold s) c l h\<rparr>)"
proof -
  note cell = cell_at [OF inv, of c l]
  have st: "st_of (ss_clt s c) l = L_LOCKED" "h = 0" "ss_call s c l = NoCall"
    using cell h by (auto simp: cell_ok_def split: if_splits)
  obtain st' where k: "li_of k = (li_of (ss_clt s c))(l := (li_of (ss_clt s c) l)\<lparr>li_status := st'\<rparr>)"
    "st' = L_FREE \<or> st' = L_RELEASING"
    using client_release_status [OF r] by metis
  have "lk_inv (s\<lparr>ss_clt := (ss_clt s)(c := k), ss_call := upd2 (ss_call s) c l NoCall,
      ss_hold := upd2 (ss_hold s) c l h\<rparr>)"
    using cell st k by (intro lk_inv_client [OF inv]) (auto simp: cell_ok_def)
  then show ?thesis using upd2_same [of "ss_call s" c l] st(3) by simp
qed

lemma lk_inv_revoke:
  assumes inv: "lk_inv s" and r: "client_revoke l n (ss_clt s c) = Inr (k, LOK)"
  shows "lk_inv (s\<lparr>ss_clt := (ss_clt s)(c := k)\<rparr>)"
proof -
  note cell = cell_at [OF inv, of c l]
  consider "li_of k = li_of (ss_clt s c)"
    | "st_of (ss_clt s c) l = L_FREE"
      "li_of k = (li_of (ss_clt s c))(l := (li_of (ss_clt s c) l)\<lparr>li_status := L_RELEASING\<rparr>)"
    using client_revoke_status [OF r] by blast
  then show ?thesis
  proof cases
    case 1
    then show ?thesis using inv by (auto intro: lk_inv_same_cells)
  next
    case 2
    then have "lk_inv (s\<lparr>ss_clt := (ss_clt s)(c := k), ss_call := upd2 (ss_call s) c l (ss_call s c l),
        ss_hold := upd2 (ss_hold s) c l (ss_hold s c l)\<rparr>)"
      using cell by (intro lk_inv_client [OF inv]) (auto simp: cell_ok_def)
    then show ?thesis by (simp add: upd2_same)
  qed
qed

lemma lk_inv_releaser:
  assumes inv: "lk_inv s" and p: "ss_call s c l = NoCall"
    and r: "releaser_check lu l n (ss_clt s c) = Inr calls" "SendRelease l m \<in> set calls"
  shows "lk_inv (s\<lparr>ss_call := upd2 (ss_call s) c l (RelSent m)\<rparr>)"
proof -
  note cell = cell_at [OF inv, of c l]
  have st: "st_of (ss_clt s c) l = L_RELEASING" "m = seq_of (ss_clt s c) l"
    using r by (auto simp: releaser_check_def li_of_Some split: option.splits if_splits)
  then have "lk_inv (s\<lparr>ss_clt := (ss_clt s)(c := ss_clt s c), ss_call := upd2 (ss_call s) c l (RelSent m),
      ss_hold := upd2 (ss_hold s) c l (ss_hold s c l)\<rparr>)"
    using cell p by (intro lk_inv_client [OF inv]) (auto simp: cell_ok_def)
  then show ?thesis by (simp add: upd2_same)
qed

lemma lk_inv_released:
  assumes inv: "lk_inv s" and p: "ss_call s c l = RelDone" and n: "seq_of (ss_clt s c) l \<noteq> - 1"
  shows "lk_inv (s\<lparr>ss_clt := (ss_clt s)(c := releaser_done l (ss_clt s c)),
      ss_call := upd2 (ss_call s) c l NoCall\<rparr>)"
proof -
  note cell = cell_at [OF inv, of c l]
  have st: "st_of (ss_clt s c) l = L_RELEASING"
    using cell p by (cases "st_of (ss_clt s c) l") (auto simp: cell_ok_def)
  then have k: "li_of (releaser_done l (ss_clt s c)) =
      (li_of (ss_clt s c))(l := \<lparr>li_status = L_NONE, li_seq = seq_of (ss_clt s c) l + 1\<rparr>)"
    using li_of_done entry_of by auto
  have "lc_seq (ss_srv s) c l < seq_of (ss_clt s c) l + 1"
    using less_succ_u32 [OF n] cell by (simp add: cell_ok_def)
  then have "lk_inv (s\<lparr>ss_clt := (ss_clt s)(c := releaser_done l (ss_clt s c)),
      ss_call := upd2 (ss_call s) c l NoCall, ss_hold := upd2 (ss_hold s) c l (ss_hold s c l)\<rparr>)"
    using cell st p k by (intro lk_inv_client [OF inv]) (auto simp: cell_ok_def)
  then show ?thesis by (simp add: upd2_same)
qed

lemma lk_inv_serve_acquire:
  assumes inv: "lk_inv s" and p: "ss_call s c l = AcqSent n"
    and a: "server_acquire c l n (ss_srv s) = Inr (v, st)"
  shows "lk_inv (s\<lparr>ss_srv := v, ss_call := upd2 (ss_call s) c l (AcqDone st)\<rparr>)"
proof -
  have i: "cells_ok (lock_owner (ss_srv s)) (lc_seq (ss_srv s)) s" "server_ok (ss_srv s)"
    using inv by (auto simp: lk_inv_def)
  show ?thesis
  proof (cases "lock_owner (ss_srv s) l")
    case None
    from lsc.cells_grant [OF i None p] obtain v' where "server_acquire c l n (ss_srv s) = Inr (v', LOK)"
      "server_ok v'" "cells_ok (lock_owner v') (lc_seq v') (s\<lparr>ss_call := upd2 (ss_call s) c l (AcqDone LOK)\<rparr>)"
      by blast
    then show ?thesis using a by (simp add: lk_inv_def cells_ok_def)
  next
    case (Some h)
    from lsc.cells_refuse [OF i Some p] obtain v' where "server_acquire c l n (ss_srv s) = Inr (v', LRETRY)"
      "server_ok v'" "cells_ok (lock_owner v') (lc_seq v') (s\<lparr>ss_call := upd2 (ss_call s) c l (AcqDone LRETRY)\<rparr>)"
      by blast
    then show ?thesis using a by (simp add: lk_inv_def cells_ok_def)
  qed
qed

lemma lk_inv_serve_release:
  assumes inv: "lk_inv s" and p: "ss_call s c l = RelSent n"
    and a: "server_release c l n (ss_srv s) = Inr (v, LOK)"
  shows "lk_inv (s\<lparr>ss_srv := v, ss_call := upd2 (ss_call s) c l RelDone\<rparr>)"
proof -
  have i: "cells_ok (lock_owner (ss_srv s)) (lc_seq (ss_srv s)) s" "server_ok (ss_srv s)"
    using inv by (auto simp: lk_inv_def)
  from lsc.cells_give_back [OF i p] obtain v' where "server_release c l n (ss_srv s) = Inr (v', LOK)"
    "server_ok v'" "cells_ok (lock_owner v') (lc_seq v') (s\<lparr>ss_call := upd2 (ss_call s) c l RelDone\<rparr>)"
    by blast
  then show ?thesis using a by (simp add: lk_inv_def cells_ok_def)
qed

lemma lk_inv_step: "lk_step s t \<Longrightarrow> lk_inv s \<Longrightarrow> lk_inv t"
proof (induction rule: lk_step.induct)
  case (revoker s R v)
  then show ?case using revoker_take_keeps lk_inv_server by (metis lk_inv_def)
next
  case (retryer s R v)
  then show ?case using retryer_take_keeps lk_inv_server by (metis lk_inv_def)
next
  case (enter s c l)
  then show ?case by (rule lk_inv_same_cells) simp_all
next
  case (cleanup s c)
  then show ?case by (rule lk_inv_same_cells) simp_all
next
  case (retry s c l)
  then show ?case by (rule lk_inv_same_cells) (simp_all add: client_retry_def)
qed (auto intro: lk_inv_turn lk_inv_reply lk_inv_release lk_inv_revoke lk_inv_releaser
    lk_inv_released lk_inv_serve_acquire lk_inv_serve_release)

lemma lk_inv_init: "lk_inv lk_init"
  by (auto simp: lk_inv_def cells_ok_def cell_ok_def lk_init_def server_ok_new lock_server_cache_new_def
      lock_client_cache_new_def li_of_def word_less_nat_alt) (simp add: server_ok_def)

lemma lk_reach_inv: "lk_reach s \<Longrightarrow> lk_inv s"
  by (induction rule: lk_reach.induct) (auto intro: lk_inv_init lk_inv_step)

section \<open>Mutual exclusion\<close>

lemma lk_inv_exclusive:
  assumes inv: "lk_inv s" and h: "ss_hold s c l > 0"
  shows "ss_hold s c l = 1 \<and> (\<forall>d. d \<noteq> c \<longrightarrow> ss_hold s d l = 0)"
proof -
  have held: "lock_owner (ss_srv s) l = Some (d, seq_of (ss_clt s d) l)" if "ss_hold s d l > 0" for d
    using cell_at [OF inv, of d l] that by (auto simp: cell_ok_def split: if_splits)
  have "ss_hold s d l = 0" if "d \<noteq> c" for d
    using held [of d] held [OF h] that by (cases "ss_hold s d l") auto
  moreover have "ss_hold s c l = 1"
    using cell_at [OF inv, of c l] h by (auto simp: cell_ok_def split: if_splits)
  ultimately show ?thesis by blast
qed

lemmas lk_exclusive = lk_inv_exclusive [OF lk_reach_inv]

text \<open>C2: mutual exclusion.  In every execution, whatever revokes and retries arrive and however
  the calls interleave, at most one thread of one client is between its acquire and its release
  of a lock.\<close>

theorem lock_mutual_exclusion:
  assumes "lk_reach s" and "ss_hold s c l > 0"
  shows "ss_hold s c l = 1 \<and> (\<forall>d. d \<noteq> c \<longrightarrow> ss_hold s d l = 0)"
  by (rule lk_exclusive [OF assms])

lemma lk_no_abort:
  assumes "lk_reach s"
  shows "(\<forall>n. ss_call s c l = AcqSent n \<longrightarrow> (\<exists>v st. server_acquire c l n (ss_srv s) = Inr (v, st))) \<and>
    (\<forall>n. ss_call s c l = RelSent n \<longrightarrow> (\<exists>v. server_release c l n (ss_srv s) = Inr (v, LOK))) \<and>
    (\<forall>st. ss_call s c l = AcqDone st \<longrightarrow> (\<exists>k t. acquire_reply st l (ss_clt s c) = Inr (k, t))) \<and>
    (ss_hold s c l > 0 \<longrightarrow> (\<exists>k. client_release l (ss_clt s c) = Inr (k, LOK)))"
proof -
  note inv = lk_reach_inv [OF assms]
  note cell = cell_at [OF inv, of c l]
  have i: "cells_ok (lock_owner (ss_srv s)) (lc_seq (ss_srv s)) s" "server_ok (ss_srv s)"
    using inv by (auto simp: lk_inv_def)
  have acq: "\<exists>v st. server_acquire c l n (ss_srv s) = Inr (v, st)" if "ss_call s c l = AcqSent n" for n
  proof (cases "lock_owner (ss_srv s) l")
    case None
    then show ?thesis using lsc.cells_grant [OF i None that] by metis
  next
    case (Some h)
    then show ?thesis using lsc.cells_refuse [OF i Some that] by metis
  qed
  have rel: "\<exists>v. server_release c l n (ss_srv s) = Inr (v, LOK)" if "ss_call s c l = RelSent n" for n
    using lsc.cells_give_back [OF i that] by metis
  have rep: "\<exists>k t. acquire_reply st l (ss_clt s c) = Inr (k, t)" if a: "ss_call s c l = AcqDone st" for st
  proof -
    have "st_of (ss_clt s c) l = L_ACQUIRING" "st = LOK \<or> st = LRETRY"
      using cell a by (cases "st_of (ss_clt s c) l"; auto simp: cell_ok_def)+
    then show ?thesis using entry_of [where c = "ss_clt s c" and l = l] by (auto simp: acquire_reply_def)
  qed
  have hold: "\<exists>k. client_release l (ss_clt s c) = Inr (k, LOK)" if h: "ss_hold s c l > 0"
  proof -
    have "st_of (ss_clt s c) l = L_LOCKED" using cell h by (auto simp: cell_ok_def split: if_splits)
    then show ?thesis using entry_of [where c = "ss_clt s c" and l = l] by (auto simp: client_release_def li_of_Some)
  qed
  show ?thesis using acq rel rep hold by blast
qed


section \<open>An execution\<close>

text \<open>A client acquires a lock nobody has.\<close>

definition ex_entered :: "lockid \<Rightarrow> lock_client_cache" where
  "ex_entered l = acquire_enter l lock_client_cache_new"

definition ex_server :: "int \<Rightarrow> lockid \<Rightarrow> lock_server_cache" where
  "ex_server c l = (lock_server_cache_new 0)\<lparr>
     lc_alloc := [l \<mapsto> \<lparr>al_isAllocated = True, al_client = c, al_seqNo = 1\<rparr>],
     lc_seq := (\<lambda>_ _. 0)(c := (\<lambda>_. 0)(l := 1))\<rparr>"

definition ex_lk :: "int \<Rightarrow> lockid \<Rightarrow> lock_server_cache \<Rightarrow> lock_client_cache \<Rightarrow> call_phase \<Rightarrow> nat \<Rightarrow> lk_sys" where
  "ex_lk c l v k p h = \<lparr>ss_srv = v, ss_clt = (\<lambda>_. lock_client_cache_new)(c := k),
     ss_call = upd2 (\<lambda>_ _. NoCall) c l p, ss_hold = upd2 (\<lambda>_ _. 0) c l h\<rparr>"

abbreviation ex_pinging :: "lockid \<Rightarrow> lock_client_cache" where
  "ex_pinging l \<equiv> set_status l L_ACQUIRING (ex_entered l)"

abbreviation ex_held :: "int \<Rightarrow> lockid \<Rightarrow> lk_sys" where
  "ex_held c l \<equiv> ex_lk c l (ex_server c l) (set_status l L_LOCKED (ex_pinging l)) NoCall 1"

lemma upd2_twice [simp]: "upd2 (upd2 f a b x) a b y = upd2 f a b y"
  by (auto simp: fun_eq_iff)

lemma lk_step_to: "lk_step s t' \<Longrightarrow> t' = t \<Longrightarrow> lk_step s t"
  by simp

lemma ex_start: "lk_init = ex_lk c l (lock_server_cache_new 0) lock_client_cache_new NoCall 0"
  by (simp add: lk_init_def ex_lk_def upd2_def fun_upd_idem)

lemma ex_steps:
  "lk_step (ex_lk c l (lock_server_cache_new 0) lock_client_cache_new NoCall 0)
     (ex_lk c l (lock_server_cache_new 0) (ex_entered l) NoCall 0)"
  "lk_step (ex_lk c l (lock_server_cache_new 0) (ex_entered l) NoCall 0)
     (ex_lk c l (lock_server_cache_new 0) (ex_pinging l) (AcqSent 1) 0)"
  "lk_step (ex_lk c l (lock_server_cache_new 0) (ex_pinging l) (AcqSent 1) 0)
     (ex_lk c l (ex_server c l) (ex_pinging l) (AcqDone LOK) 0)"
  "lk_step (ex_lk c l (ex_server c l) (ex_pinging l) (AcqDone LOK) 0) (ex_held c l)"
proof -
  let ?v = "lock_server_cache_new 0" and ?p = "ex_pinging l"
  have t: "acquire_turn L_NONE l (ex_entered l) = Inr (?p, Ping 1)"
    by (simp add: acquire_turn_def ex_entered_def acquire_enter_def lock_client_cache_new_def)
  have a: "server_acquire c l 1 ?v = Inr (ex_server c l, LOK)"
    by (simp add: server_acquire_def lock_server_cache_new_def ex_server_def word_le_nat_alt fun_upd_idem)
  have r: "acquire_reply LOK l ?p = Inr (set_status l L_LOCKED ?p, Granted)"
    by (simp add: acquire_reply_def set_status_def ex_entered_def acquire_enter_def lock_client_cache_new_def)
  show "lk_step (ex_lk c l ?v lock_client_cache_new NoCall 0) (ex_lk c l ?v (ex_entered l) NoCall 0)"
    by (rule lk_step_to [OF lk_step.enter [where c = c and l = l]]) (simp add: ex_lk_def ex_entered_def)
  show "lk_step (ex_lk c l ?v (ex_entered l) NoCall 0) (ex_lk c l ?v ?p (AcqSent 1) 0)"
    by (rule lk_step_to [OF lk_step.turn [where c = c and l = l and seen = L_NONE]])
      (simp add: ex_lk_def t phase_of_def held_of_def)+
  show "lk_step (ex_lk c l ?v ?p (AcqSent 1) 0) (ex_lk c l (ex_server c l) ?p (AcqDone LOK) 0)"
    by (rule lk_step_to [OF lk_step.serve_acquire [where c = c and l = l and n = 1]])
      (simp add: ex_lk_def a)+
  show "lk_step (ex_lk c l (ex_server c l) ?p (AcqDone LOK) 0) (ex_held c l)"
    by (rule lk_step_to [OF lk_step.reply [where c = c and l = l and st = LOK]])
      (simp add: ex_lk_def r phase_of_def held_of_def)+
qed

lemma ex_lock_held: "lk_reach (ex_held c l)"
  using lk_reach.init unfolding ex_start [of c l] by (meson ex_steps lk_reach.step)

theorem lock_mutual_exclusion_witness:
  "\<exists>s. lk_reach s \<and> ss_hold s 1 5 = 1 \<and> (\<forall>d. d \<noteq> 1 \<longrightarrow> ss_hold s d 5 = 0)"
  using lock_mutual_exclusion [OF ex_lock_held [of 1 5], of 1 5] ex_lock_held [of 1 5] by (auto simp: ex_lk_def)


end
