(* ===== verification/LockTester.thy ===== *)
theory LockTester
  imports LockSystem
begin

text \<open>
  The lock tester \<open>lock_tester.cc\<close> run against the caching lock service: its counters
  (\<open>check_grant\<close>, \<open>check_release\<close>), the scripts of its five tests, and the phases of its main
  program, as threads that take steps over the lock system of \<open>LockSystem\<close>.  A failing check
  exits; the theorem says that none ever fails, however the threads and the service interleave.
\<close>

section \<open>The program\<close>

text \<open>The counters are indexed by the first byte of the lock.\<close>

definition lock_byte :: "lockid \<Rightarrow> nat" where
  "lock_byte lid = unat (lid AND 0xff)"

definition check_grant :: "lockid \<Rightarrow> (nat \<Rightarrow> int) \<Rightarrow> (nat \<Rightarrow> int) res" where
  "check_grant lid ct =
     (let x = lock_byte lid in if ct x \<noteq> 0 then Inl Exit else Inr (ct(x := ct x + 1)))"

definition check_release :: "lockid \<Rightarrow> (nat \<Rightarrow> int) \<Rightarrow> (nat \<Rightarrow> int) res" where
  "check_release lid ct =
     (let x = lock_byte lid in if ct x \<noteq> 1 then Inl Exit else Inr (ct(x := ct x - 1)))"

text \<open>What a test thread does next: acquire or release a lock through one of the clients, or check.\<close>

datatype tinstr = Acquire int lockid | CheckGrant lockid | CheckRelease lockid | Release int lockid

type_synonym script = "tinstr list"

definition lock_a :: lockid where "lock_a = 1"
definition lock_b :: lockid where "lock_b = 2"
definition nt :: nat where "nt = 10"

definition test1 :: script where
  "test1 =
     [Acquire 0 lock_a, CheckGrant lock_a, Release 0 lock_a, CheckRelease lock_a,
      Acquire 0 lock_a, CheckGrant lock_a, Release 0 lock_a, CheckRelease lock_a,
      Acquire 0 lock_a, CheckGrant lock_a, Acquire 0 lock_b, CheckGrant lock_b,
      Release 0 lock_b, CheckRelease lock_b, Release 0 lock_a, CheckRelease lock_a]"

definition test2 :: "nat \<Rightarrow> script" where
  "test2 i = [Acquire (int i) lock_a, CheckGrant lock_a, CheckRelease lock_a, Release (int i) lock_a]"

text \<open>The loops of the other tests have ten rounds.\<close>

definition rounds :: "int \<Rightarrow> nat \<Rightarrow> script" where
  "rounds c n = concat (replicate n [Acquire c lock_a, CheckGrant lock_a, CheckRelease lock_a, Release c lock_a])"

definition test3 :: "nat \<Rightarrow> script" where
  "test3 i = rounds (int i) 10"

definition test4 :: "nat \<Rightarrow> script" where
  "test4 i = rounds 0 10"

definition test5 :: "nat \<Rightarrow> script" where
  "test5 i = rounds (if i < 5 then 0 else 1) 10"

text \<open>\<open>main\<close>: the number of arguments and the value of the second one select the tests; each test
  runs its threads and joins them.\<close>

definition tester_phases :: "int \<Rightarrow> int \<Rightarrow> script list list res" where
  "tester_phases argc arg2 =
     (if argc < 2 then Inl Exit
      else if argc > 2 \<and> (arg2 < 1 \<or> arg2 > 5) then Inl Exit
      else let test = (if argc > 2 then arg2 else 0)
           in Inr ((if test = 0 \<or> test = 1 then [[test1]] else []) @
                   (if test = 0 \<or> test = 2 then [map test2 [0..<nt]] else []) @
                   (if test = 0 \<or> test = 3 then [map test3 [0..<nt]] else []) @
                   (if test = 0 \<or> test = 4 then [map test4 [0..<2]] else []) @
                   (if test = 0 \<or> test = 5 then [map test5 [0..<nt]] else [])))"

section \<open>Running against the lock service\<close>

record tester =
  lt_sys :: lk_sys
  lt_ct :: "nat \<Rightarrow> int"
  lt_threads :: "script list"
  lt_phases :: "script list list"

text \<open>
  A step of the lock service that grants or gives back a lock is the step of a thread whose turn
  it is; all others leave the threads alone.  A failing check has no step, since the program ends.
\<close>

inductive lt_step :: "tester \<Rightarrow> tester \<Rightarrow> bool" where
  service: "lk_step (lt_sys t) s \<Longrightarrow> ss_hold s = ss_hold (lt_sys t) \<Longrightarrow> lt_step t (t\<lparr>lt_sys := s\<rparr>)"
| acquired: "i < length (lt_threads t) \<Longrightarrow> lt_threads t ! i = Acquire c l # is \<Longrightarrow> lk_step (lt_sys t) s \<Longrightarrow>
    ss_hold s = upd2 (ss_hold (lt_sys t)) c l (ss_hold (lt_sys t) c l + 1) \<Longrightarrow>
    lt_step t (t\<lparr>lt_sys := s, lt_threads := (lt_threads t)[i := is]\<rparr>)"
| grant_checked: "i < length (lt_threads t) \<Longrightarrow> lt_threads t ! i = CheckGrant l # is \<Longrightarrow>
    check_grant l (lt_ct t) = Inr ct \<Longrightarrow>
    lt_step t (t\<lparr>lt_ct := ct, lt_threads := (lt_threads t)[i := is]\<rparr>)"
| release_checked: "i < length (lt_threads t) \<Longrightarrow> lt_threads t ! i = CheckRelease l # is \<Longrightarrow>
    check_release l (lt_ct t) = Inr ct \<Longrightarrow>
    lt_step t (t\<lparr>lt_ct := ct, lt_threads := (lt_threads t)[i := is]\<rparr>)"
| released: "i < length (lt_threads t) \<Longrightarrow> lt_threads t ! i = Release c l # is \<Longrightarrow> lk_step (lt_sys t) s \<Longrightarrow>
    ss_hold (lt_sys t) c l = Suc h \<Longrightarrow> ss_hold s = upd2 (ss_hold (lt_sys t)) c l h \<Longrightarrow>
    lt_step t (t\<lparr>lt_sys := s, lt_threads := (lt_threads t)[i := is]\<rparr>)"
| next_test: "\<forall>is \<in> set (lt_threads t). is = [] \<Longrightarrow> lt_phases t = p # ps \<Longrightarrow>
    lt_step t (t\<lparr>lt_threads := p, lt_phases := ps\<rparr>)"

definition lt_init :: "script list list \<Rightarrow> tester" where
  "lt_init ps = \<lparr>lt_sys = lk_init, lt_ct = (\<lambda>_. 0), lt_threads = [], lt_phases = ps\<rparr>"

inductive lt_reach :: "script list list \<Rightarrow> tester \<Rightarrow> bool" for ps where
  init: "lt_reach ps (lt_init ps)"
| step: "lt_reach ps t \<Longrightarrow> lt_step t u \<Longrightarrow> lt_reach ps u"

section \<open>What a thread holds\<close>

text \<open>
  What the rest of a script still gives back: \<open>owes\<close> counts the releases of a lock through a client
  that are not preceded by their acquire, \<open>counted\<close> the release checks without their grant check.
\<close>

fun owes :: "int \<Rightarrow> lockid \<Rightarrow> script \<Rightarrow> int" where
  "owes c l [] = 0"
| "owes c l (Acquire d m # is) = owes c l is - of_bool (d = c \<and> m = l)"
| "owes c l (Release d m # is) = owes c l is + of_bool (d = c \<and> m = l)"
| "owes c l (_ # is) = owes c l is"

fun counted :: "nat \<Rightarrow> script \<Rightarrow> int" where
  "counted x [] = 0"
| "counted x (CheckGrant l # is) = counted x is - of_bool (lock_byte l = x)"
| "counted x (CheckRelease l # is) = counted x is + of_bool (lock_byte l = x)"
| "counted x (_ # is) = counted x is"

text \<open>Conditions on every rest of a script.  A thread that runs alone must be right about its own
  counts; a thread that runs with others must hold the lock whenever it is counted.\<close>

fun next_ok :: "script \<Rightarrow> bool" where
  "next_ok (CheckGrant l # is) = (counted (lock_byte l) (CheckGrant l # is) = 0)"
| "next_ok (CheckRelease l # is) = (counted (lock_byte l) (CheckRelease l # is) = 1)"
| "next_ok (Release c l # is) = (owes c l (Release c l # is) = 1)"
| "next_ok _ = True"

fun alone_ok :: "script \<Rightarrow> bool" where
  "alone_ok [] = True"
| "alone_ok (i # is) = (next_ok (i # is) \<and> alone_ok is)"

definition at_check :: "script \<Rightarrow> bool" where
  "at_check is = (case is of CheckGrant l # _ \<Rightarrow> True | CheckRelease l # _ \<Rightarrow> True | _ \<Rightarrow> False)"

definition shared_next :: "int \<Rightarrow> script \<Rightarrow> bool" where
  "shared_next c is \<longleftrightarrow> next_ok is \<and> owes c lock_a is \<in> {0, 1} \<and> (\<forall>x. counted x is \<in> {0, 1}) \<and>
     (\<forall>d l. owes d l is \<noteq> 0 \<longrightarrow> d = c \<and> l = lock_a) \<and>
     (\<forall>x. counted x is \<noteq> 0 \<longrightarrow> owes c lock_a is = 1) \<and>
     (at_check is \<longrightarrow> owes c lock_a is = 1)"

fun shared_ok :: "int \<Rightarrow> script \<Rightarrow> bool" where
  "shared_ok c [] = True"
| "shared_ok c (i # is) = (shared_next c (i # is) \<and> shared_ok c is)"

definition balanced :: "script \<Rightarrow> bool" where
  "balanced is \<longleftrightarrow> (\<forall>c l. owes c l is = 0) \<and> (\<forall>x. counted x is = 0)"

definition threads_ok :: "script list \<Rightarrow> bool" where
  "threads_ok ts \<longleftrightarrow> (\<exists>is. ts = [is] \<and> alone_ok is) \<or> (\<forall>is \<in> set ts. \<exists>c. shared_ok c is)"

definition phase_fine :: "script list \<Rightarrow> bool" where
  "phase_fine p \<longleftrightarrow> threads_ok p \<and> (\<forall>is \<in> set p. balanced is)"

section \<open>The scripts are fine\<close>

lemma lock_bytes [simp]: "lock_byte lock_a = 1" "lock_byte lock_b = 2" "lock_a \<noteq> lock_b"
  by (simp_all add: lock_byte_def lock_a_def lock_b_def)

lemma rounds_Suc: "rounds c (Suc n) =
    Acquire c lock_a # CheckGrant lock_a # CheckRelease lock_a # Release c lock_a # rounds c n"
  by (simp add: rounds_def)

lemma rounds_balanced: "owes d l (rounds c n) = 0 \<and> counted x (rounds c n) = 0"
  by (induction n) (simp_all add: rounds_Suc, simp add: rounds_def)

lemma rounds_shared: "shared_ok c (rounds c n)"
proof (induction n)
  case 0
  then show ?case by (simp add: rounds_def)
next
  case (Suc n)
  then show ?case
    by (auto simp: rounds_Suc shared_next_def at_check_def rounds_balanced)
qed

lemma rounds_ok: "\<exists>d. shared_ok d (rounds c n)" "balanced (rounds c n)"
  using rounds_shared rounds_balanced by (auto simp: balanced_def)

lemma test1_ok: "phase_fine [test1]"
  by (simp add: phase_fine_def threads_ok_def test1_def balanced_def)

lemma test2_rounds: "test2 i = rounds (int i) 1"
  by (simp add: test2_def rounds_def)

lemma phases_ok:
  assumes "tester_phases argc arg2 = Inr ps"
  shows "\<forall>p \<in> set ps. phase_fine p"
proof -
  have sh: "phase_fine (map (\<lambda>i. rounds (f i) n) is)" for f n and "is" :: "nat list"
    using rounds_ok by (auto simp: phase_fine_def threads_ok_def)
  have "phase_fine (map test2 [0..<nt])" "phase_fine (map test3 [0..<nt])" "phase_fine (map test4 [0..<2])"
    "phase_fine (map test5 [0..<nt])"
    using sh [of int 1 "[0..<nt]"] sh [of int 10 "[0..<nt]"] sh [of "\<lambda>_. 0" 10 "[0..<2]"]
      sh [of "\<lambda>i. if i < 5 then 0 else 1" 10 "[0..<nt]"]
    unfolding test2_rounds [abs_def] test3_def [abs_def] test4_def [abs_def] test5_def [abs_def] by blast+
  then show ?thesis
    using assms test1_ok by (auto simp: tester_phases_def Let_def split: if_splits)
qed

section \<open>The invariant\<close>

definition tot :: "(script \<Rightarrow> int) \<Rightarrow> script list \<Rightarrow> int" where
  "tot f ts = (\<Sum>is \<leftarrow> ts. f is)"

lemma tot_simps [simp]: "tot f [] = 0" "tot f (is # ts) = f is + tot f ts"
  by (simp_all add: tot_def)

lemma tot_update: "i < length ts \<Longrightarrow> tot f (ts[i := is]) = tot f ts - f (ts ! i) + f is"
proof (induction ts arbitrary: i)
  case (Cons a ts)
  then show ?case by (cases i) simp_all
qed simp

lemma tot_zero: "\<forall>is \<in> set ts. f is = 0 \<Longrightarrow> tot f ts = 0"
  by (induction ts) simp_all

lemma tot_ge:
  assumes "finite A" "A \<subseteq> {0..<length ts}" and "\<forall>is \<in> set ts. 0 \<le> f is"
  shows "(\<Sum>k \<in> A. f (ts ! k)) \<le> tot f ts"
proof -
  have "tot f ts = (\<Sum>k = 0..<length ts. f (ts ! k))" by (simp add: tot_def sum_list_sum_nth)
  also have "(\<Sum>k \<in> A. f (ts ! k)) \<le> (\<Sum>k = 0..<length ts. f (ts ! k))"
    using assms by (intro sum_mono2) auto
  ultimately show ?thesis by simp
qed

lemma threads_ok_update:
  assumes "threads_ok ts" "i < length ts" "ts ! i = a # is"
  shows "threads_ok (ts[i := is])"
proof -
  consider js where "ts = [js]" "alone_ok js" | "\<forall>is \<in> set ts. \<exists>c. shared_ok c is"
    using assms(1) by (auto simp: threads_ok_def)
  then show ?thesis
  proof cases
    case 1
    then show ?thesis using assms(2,3) by (auto simp: threads_ok_def)
  next
    case 2
    then have "\<exists>c. shared_ok c (a # is)" using assms(2,3) nth_mem by metis
    then have "\<exists>c. shared_ok c is" by auto
    then show ?thesis using 2 set_update_subset_insert [of ts i "is"] by (auto simp: threads_ok_def)
  qed
qed

definition lt_inv :: "tester \<Rightarrow> bool" where
  "lt_inv t \<longleftrightarrow> lk_reach (lt_sys t) \<and> threads_ok (lt_threads t) \<and>
     (\<forall>c l. int (ss_hold (lt_sys t) c l) = tot (owes c l) (lt_threads t)) \<and>
     (\<forall>x. lt_ct t x = tot (counted x) (lt_threads t)) \<and> (\<forall>p \<in> set (lt_phases t). phase_fine p)"

lemma lt_inv_init: "\<forall>p \<in> set ps. phase_fine p \<Longrightarrow> lt_inv (lt_init ps)"
  by (simp add: lt_inv_def lt_init_def lk_reach.init threads_ok_def) (simp add: lk_init_def)

lemma lt_inv_step: "lt_step t u \<Longrightarrow> lt_inv t \<Longrightarrow> lt_inv u"
proof (induction rule: lt_step.induct)
  case (service t s)
  then show ?case using lk_reach.step [of "lt_sys t" s] by (simp add: lt_inv_def)
next
  case (acquired i t c l "is" s)
  then show ?case
    using threads_ok_update [OF _ acquired(1,2)] lk_reach.step [of "lt_sys t" s]
    by (auto simp: lt_inv_def tot_update acquired(2))
next
  case (grant_checked i t l "is" ct)
  then show ?case
    using threads_ok_update [OF _ grant_checked(1,2)]
    by (auto simp: lt_inv_def tot_update grant_checked(2) check_grant_def Let_def split: if_splits)
next
  case (release_checked i t l "is" ct)
  then show ?case
    using threads_ok_update [OF _ release_checked(1,2)]
    by (auto simp: lt_inv_def tot_update release_checked(2) check_release_def Let_def split: if_splits)
next
  case (released i t c l "is" s h)
  have h: "int (ss_hold (lt_sys t) c l) = tot (owes c l) (lt_threads t)" using released.prems by (simp add: lt_inv_def)
  then have "int h + 1 = tot (owes c l) (lt_threads t)" using released(4) by simp
  then show ?case
    using released threads_ok_update [OF _ released(1,2)] lk_reach.step [of "lt_sys t" s]
    by (auto simp: lt_inv_def tot_update released(2))
next
  case (next_test t p ps)
  have z: "tot (owes c l) (lt_threads t) = 0" "tot (counted x) (lt_threads t) = 0" for c l x
    using next_test(1) by (auto intro!: tot_zero)
  have p: "phase_fine p" using next_test by (simp add: lt_inv_def)
  then have "tot (owes c l) p = 0" "tot (counted x) p = 0" for c l x
    by (auto simp: phase_fine_def balanced_def intro!: tot_zero)
  then show ?case using next_test z p by (simp add: lt_inv_def phase_fine_def)
qed

lemma lt_reach_inv: "lt_reach ps t \<Longrightarrow> \<forall>p \<in> set ps. phase_fine p \<Longrightarrow> lt_inv t"
  by (induction rule: lt_reach.induct) (auto intro: lt_inv_init lt_inv_step)

section \<open>No check fails\<close>

lemma shared_sign: "shared_ok c is \<Longrightarrow> 0 \<le> owes d l is \<and> 0 \<le> counted x is"
proof (cases "is")
  case (Cons i js)
  moreover assume "shared_ok c is"
  ultimately have s: "shared_next c is" by simp
  have "counted x is \<in> {0, 1}" using s unfolding shared_next_def by blast
  moreover have "owes d l is = 0 \<or> owes d l is \<in> {0, 1}" using s unfolding shared_next_def by blast
  ultimately show ?thesis by auto
qed simp

text \<open>A thread that holds the lock is the only one that can be counted.\<close>

lemma only_holder_counts:
  assumes inv: "lt_inv t" and sh: "\<forall>is \<in> set (lt_threads t). \<exists>c. shared_ok c is"
    and i: "i < length (lt_threads t)" "owes c lock_a (lt_threads t ! i) = 1"
  shows "lt_ct t x = counted x (lt_threads t ! i)"
proof -
  let ?ts = "lt_threads t" and ?h = "ss_hold (lt_sys t)"
  have sum: "int (?h d l) = tot (owes d l) ?ts" for d l using inv by (simp add: lt_inv_def)
  have nn: "\<forall>is \<in> set ?ts. 0 \<le> owes d l is" for d l using sh shared_sign by blast
  have hc: "1 \<le> ?h c lock_a"
    using tot_ge [of "{i}" ?ts "owes c lock_a"] nn i sum [of c lock_a] by simp
  note ex = lk_exclusive [of "lt_sys t" c lock_a]
  have excl: "?h c lock_a = 1" "\<And>d. d \<noteq> c \<Longrightarrow> ?h d lock_a = 0"
    using ex inv hc by (auto simp: lt_inv_def)
  have others: "counted x (?ts ! j) = 0" if j: "j < length ?ts" "j \<noteq> i" for j
  proof (rule ccontr)
    assume n: "counted x (?ts ! j) \<noteq> 0"
    obtain d where d: "shared_ok d (?ts ! j)" using sh j(1) nth_mem by blast
    then have "shared_next d (?ts ! j)" using n by (cases "?ts ! j") auto
    then have one: "owes d lock_a (?ts ! j) = 1" using n by (auto simp: shared_next_def)
    then have "1 \<le> ?h d lock_a"
      using tot_ge [of "{j}" ?ts "owes d lock_a"] nn j sum [of d lock_a] by simp
    then have "d = c" using excl(2) [of d] by force
    then have "2 \<le> ?h c lock_a"
      using tot_ge [of "{i, j}" ?ts "owes c lock_a"] nn j i one sum [of c lock_a] by simp
    then show False using excl(1) by simp
  qed
  have "tot (counted x) ?ts = (\<Sum>k = 0..<length ?ts. counted x (?ts ! k))" by (simp add: tot_def sum_list_sum_nth)
  also have "\<dots> = (\<Sum>k \<in> {i}. counted x (?ts ! k))"
    using i(1) others by (intro sum.mono_neutral_right) auto
  finally show ?thesis using inv by (simp add: lt_inv_def)
qed

lemma count_at_check:
  assumes inv: "lt_inv t" and i: "i < length (lt_threads t)" and a: "at_check (lt_threads t ! i)"
  shows "lt_ct t x = counted x (lt_threads t ! i) \<and> next_ok (lt_threads t ! i)"
proof -
  obtain j js where j: "lt_threads t ! i = j # js" using a by (cases "lt_threads t ! i") (auto simp: at_check_def)
  consider "is" where "lt_threads t = [is]" "alone_ok is" | "\<forall>is \<in> set (lt_threads t). \<exists>c. shared_ok c is"
    using inv by (auto simp: lt_inv_def threads_ok_def)
  then show ?thesis
  proof cases
    case 1
    then show ?thesis using inv i j by (simp add: lt_inv_def)
  next
    case 2
    then obtain c where "shared_ok c (lt_threads t ! i)" using i nth_mem by blast
    then have s: "shared_next c (lt_threads t ! i)" using j by simp
    then have "owes c lock_a (lt_threads t ! i) = 1" using a by (simp add: shared_next_def)
    then show ?thesis using only_holder_counts [OF inv 2 i] s by (simp add: shared_next_def)
  qed
qed

text \<open>C14: whatever test is selected and however its threads and the lock service interleave, a thread
  whose next step is a check passes it, and one that releases holds the lock; so the tester never
  reports that a lock was granted twice.\<close>

theorem tester_never_fails:
  assumes "tester_phases argc arg2 = Inr ps" and "lt_reach ps t" and i: "i < length (lt_threads t)"
  shows "(\<forall>l is. lt_threads t ! i = CheckGrant l # is \<longrightarrow> (\<exists>ct. check_grant l (lt_ct t) = Inr ct)) \<and>
    (\<forall>l is. lt_threads t ! i = CheckRelease l # is \<longrightarrow> (\<exists>ct. check_release l (lt_ct t) = Inr ct)) \<and>
    (\<forall>c l is. lt_threads t ! i = Release c l # is \<longrightarrow>
      (\<exists>k. ss_hold (lt_sys t) c l = 1 \<and> client_release l (ss_clt (lt_sys t) c) = Inr (k, LOK)))"
proof (intro conjI allI impI)
  have inv: "lt_inv t" using lt_reach_inv [OF assms(2) phases_ok [OF assms(1)]] .
  note at = count_at_check [OF inv i]
  show "\<exists>ct. check_grant l (lt_ct t) = Inr ct" if "lt_threads t ! i = CheckGrant l # is" for l "is"
    using at that by (simp add: at_check_def check_grant_def Let_def)
  show "\<exists>ct. check_release l (lt_ct t) = Inr ct" if "lt_threads t ! i = CheckRelease l # is" for l "is"
    using at that by (simp add: at_check_def check_release_def Let_def)
  fix c l "is" assume r: "lt_threads t ! i = Release c l # is"
  have "next_ok (lt_threads t ! i) \<and> (\<forall>js \<in> set (lt_threads t). js = lt_threads t ! i \<or> 0 \<le> owes c l js)"
  proof -
    consider js where "lt_threads t = [js]" "alone_ok js" | "\<forall>is \<in> set (lt_threads t). \<exists>c. shared_ok c is"
      using inv by (auto simp: lt_inv_def threads_ok_def)
    then show ?thesis
    proof cases
      case 2
      then obtain d where "shared_ok d (lt_threads t ! i)" using i nth_mem by blast
      then show ?thesis using r 2 shared_sign by (auto simp: shared_next_def)
    qed (use i r in auto)
  qed
  moreover from this have "\<forall>js \<in> set (lt_threads t). 0 \<le> owes c l js" using r by fastforce
  ultimately have "1 \<le> tot (owes c l) (lt_threads t)"
    using tot_ge [of "{i}" "lt_threads t" "owes c l"] i r by simp
  then have h: "0 < ss_hold (lt_sys t) c l"
    using inv by (metis lt_inv_def of_nat_0_less_iff zero_less_one order_less_le_trans)
  have lk: "lk_reach (lt_sys t)" using inv by (simp add: lt_inv_def)
  show "\<exists>k. ss_hold (lt_sys t) c l = 1 \<and> client_release l (ss_clt (lt_sys t) c) = Inr (k, LOK)"
    using lk_exclusive [OF lk h] lk_no_abort [OF lk, of c l] h by blast
qed

section \<open>An execution\<close>

text \<open>The first test up to its first check.\<close>

definition ex_tester :: "lk_sys \<Rightarrow> script list \<Rightarrow> tester" where
  "ex_tester s ts = \<lparr>lt_sys = s, lt_ct = (\<lambda>_. 0), lt_threads = ts, lt_phases = []\<rparr>"

lemma lt_step_to: "lt_reach ps t \<Longrightarrow> lt_step t u' \<Longrightarrow> u' = u \<Longrightarrow> lt_reach ps u"
  using lt_reach.step by blast

lemma ex_tester_service:
  assumes "lt_reach ps (ex_tester (ex_lk c l v k p h) ts)"
    and "lk_step (ex_lk c l v k p h) (ex_lk c l v' k' p' h)"
  shows "lt_reach ps (ex_tester (ex_lk c l v' k' p' h) ts)"
  by (rule lt_step_to [OF assms(1) lt_step.service [where s = "ex_lk c l v' k' p' h"]])
    (use assms(2) in \<open>simp_all add: ex_tester_def, simp add: ex_lk_def\<close>)

lemma ex_tester_run: "lt_reach [[test1]] (ex_tester (ex_held 0 lock_a) [tl test1])"
proof -
  let ?v = "lock_server_cache_new 0"
  have s0: "lt_reach [[test1]] (ex_tester (ex_lk 0 lock_a ?v lock_client_cache_new NoCall 0) [test1])"
    by (rule lt_step_to [OF lt_reach.init lt_step.next_test [where p = "[test1]" and ps = "[]"]])
      (simp_all add: lt_init_def ex_tester_def ex_start [of 0 lock_a])
  note s3 = ex_tester_service [OF ex_tester_service [OF ex_tester_service [OF s0 ex_steps(1)] ex_steps(2)] ex_steps(3)]
  show ?thesis
    by (rule lt_step_to [OF s3 lt_step.acquired [of 0 _ 0 lock_a "tl test1" "ex_held 0 lock_a"]])
      (use ex_steps(4) [of 0 lock_a] in \<open>simp_all add: ex_tester_def test1_def\<close>, simp add: ex_lk_def)
qed

theorem tester_never_fails_witness:
  "\<exists>t is. lt_reach [[test1]] t \<and> lt_threads t ! 0 = CheckGrant lock_a # is \<and> (\<exists>ct. check_grant lock_a (lt_ct t) = Inr ct)"
proof -
  have p: "tester_phases 3 1 = Inr [[test1]]" by (simp add: tester_phases_def)
  have t: "lt_threads (ex_tester (ex_held 0 lock_a) [tl test1]) ! 0 = CheckGrant lock_a # tl (tl test1)"
    by (simp add: ex_tester_def test1_def)
  have "0 < length (lt_threads (ex_tester (ex_held 0 lock_a) [tl test1]))" by (simp add: ex_tester_def)
  from tester_never_fails [OF p ex_tester_run this] t show ?thesis using ex_tester_run by blast
qed

text \<open>when all threads of all tests have ended, every lock has been given back and every counter is
  zero.\<close>

theorem tester_ends_clean:
  assumes "tester_phases argc arg2 = Inr ps" and "lt_reach ps t" and "\<forall>is \<in> set (lt_threads t). is = []"
  shows "lt_ct t x = 0 \<and> ss_hold (lt_sys t) c l = 0"
proof -
  have inv: "lt_inv t" using lt_reach_inv [OF assms(2) phases_ok [OF assms(1)]] .
  have "tot (owes c l) (lt_threads t) = 0" "tot (counted x) (lt_threads t) = 0"
    using assms(3) by (auto intro!: tot_zero)
  then show ?thesis using inv by (simp add: lt_inv_def) (metis of_nat_eq_0_iff)
qed

theorem tester_ends_clean_witness: "lt_ct (lt_init [[test1]]) 7 = 0 \<and> ss_hold (lt_sys (lt_init [[test1]])) 0 1 = 0"
  by (rule tester_ends_clean [of 3 1 "[[test1]]"]) (simp_all add: tester_phases_def lt_reach.init, simp add: lt_init_def)

end
