(* ===== verification/Extent.thy ===== *)
theory Extent
  imports Protocols
begin

text \<open>
  The extent server of \<open>extent_server.cc\<close> and the caching extent client of \<open>extent_client.cc\<close>.  The
  specification is a store of file contents: the client's operations behave like operations of
  that store as long as only one client at a time has an extent in its cache, which the lock
  service and the flush at release provide.
\<close>

section \<open>The extent server\<close>

type_synonym extentid = u64
type_synonym extents = "extentid \<rightharpoonup> attr \<times> string"

definition size_u32 :: "string \<Rightarrow> u32" where
  "size_u32 s = word_of_nat (length s)"

definition extent_put :: "u32 \<Rightarrow> extentid \<Rightarrow> string \<Rightarrow> extents \<Rightarrow> extents \<times> extent_status" where
  "extent_put now eid buf s =
     (case s eid of
        Some (a, _) \<Rightarrow> (s(eid \<mapsto> (Attr (a_atime a) now now (size_u32 buf), buf)), XOK)
      | None \<Rightarrow> (s(eid \<mapsto> (Attr now now now (size_u32 buf), buf)), XOK))"

text \<open>\<open>buf\<close> is the reply object, which the stub passes in empty.\<close>

definition extent_get :: "u32 \<Rightarrow> extentid \<Rightarrow> string \<Rightarrow> extents \<Rightarrow> extents \<times> string \<times> extent_status" where
  "extent_get now eid buf s =
     (case s eid of
        Some (a, c) \<Rightarrow> (s(eid \<mapsto> (Attr now (a_mtime a) (a_ctime a) (a_size a), c)), c, XOK)
      | None \<Rightarrow> (s, buf, XNOENT))"

definition extent_getattr :: "extentid \<Rightarrow> extents \<Rightarrow> attr \<times> extent_status" where
  "extent_getattr eid s =
     (case s eid of
        Some (a, _) \<Rightarrow> (Attr (a_atime a) (a_mtime a) (a_ctime a) (a_size a), XOK)
      | None \<Rightarrow> (Attr 0 0 0 0, XNOENT))"

definition extent_remove :: "extentid \<Rightarrow> extents \<Rightarrow> extents \<times> extent_status" where
  "extent_remove eid s = (case s eid of Some _ \<Rightarrow> (s(eid := None), XOK) | None \<Rightarrow> (s, XNOENT))"

definition content :: "extents \<Rightarrow> extentid \<Rightarrow> string option" where
  "content s eid = map_option snd (s eid)"

lemma content_simps [simp]:
  "content (fst (extent_put now eid buf s)) = (content s)(eid \<mapsto> buf)"
  "content (fst (extent_get now eid b s)) = content s"
  "content (fst (extent_remove eid s)) = (content s)(eid := None)"
  by (auto simp: content_def extent_put_def extent_get_def extent_remove_def fun_eq_iff split: option.splits)

definition sizes_ok :: "extents \<Rightarrow> bool" where
  "sizes_ok s \<longleftrightarrow> (\<forall>eid a c. s eid = Some (a, c) \<longrightarrow> a_size a = size_u32 c)"

text \<open>the extent server keeps the size attribute of every extent equal to the length of its
  content, and put, get and remove behave as update, lookup and deletion of the stored contents.\<close>

theorem extent_server_correct:
  assumes "sizes_ok s"
  shows "sizes_ok (fst (extent_put now eid buf s)) \<and> sizes_ok (fst (extent_get now eid b s)) \<and>
    sizes_ok (fst (extent_remove eid s)) \<and>
    snd (extent_get now eid b (fst (extent_put t eid buf s))) = (buf, XOK) \<and>
    snd (extent_get now eid b (fst (extent_remove eid s))) = (b, XNOENT) \<and>
    a_size (fst (extent_getattr eid (fst (extent_put t eid buf s)))) = size_u32 buf"
  using assms
  by (auto simp: sizes_ok_def extent_put_def extent_get_def extent_remove_def extent_getattr_def
      split: option.splits if_splits)

theorem extent_server_correct_witness:
  "snd (extent_get 9 1 [] (fst (extent_put 5 1 ''new'' [1 \<mapsto> (Attr 1 1 1 3, ''old'')]))) = (''new'', XOK) \<and>
    sizes_ok (fst (extent_put 5 1 ''new'' [1 \<mapsto> (Attr 1 1 1 3, ''old'')]))"
proof -
  have "sizes_ok [1 \<mapsto> (Attr 1 1 1 3, ''old'')]" by (auto simp: sizes_ok_def size_u32_def split: if_splits)
  from extent_server_correct [where b = "[]" and eid = 1 and buf = "''new''" and now = 5 and t = 5, OF this]
    extent_server_correct [where b = "[]" and eid = 1 and buf = "''new''" and now = 9 and t = 5, OF this]
  show ?thesis by blast
qed

section \<open>The caching client\<close>

record fileDetails =
  fd_attr :: attr
  fd_content :: string
  fd_isDirty :: bool
  fd_removed :: bool
  fd_exist :: bool

type_synonym fileCache = "extentid \<rightharpoonup> fileDetails"

text \<open>
  \<open>fileGetter\<close> takes the caller's \<open>buf\<close> and \<open>a\<close> and returns what they hold afterwards.  In the branch
  that asks the server the result of the two calls goes into a second variable \<open>ret\<close> that
  shadows the one returned.  The reply of the get call is decoded even when its status is
  NOENT, so \<open>buf\<close> is then the empty string.
\<close>

definition fileGetter ::
  "u32 \<Rightarrow> extentid \<Rightarrow> string \<Rightarrow> attr \<Rightarrow> fileCache \<times> extents \<Rightarrow>
   (fileCache \<times> extents) \<times> extent_status \<times> string \<times> attr" where
  "fileGetter now eid buf a cs =
     (let (cache, srv) = cs in
      case cache eid of
        Some fd \<Rightarrow>
          (if fd_exist fd \<and> \<not> fd_removed fd
           then (let at = Attr now (a_mtime (fd_attr fd)) (a_ctime (fd_attr fd)) (a_size (fd_attr fd))
                 in ((cache(eid \<mapsto> fd\<lparr>fd_attr := at, fd_isDirty := True\<rparr>), srv), XOK, fd_content fd, at))
           else ((cache, srv), XNOENT, buf, a))
      | None \<Rightarrow>
          (let (srv, buf, ret) = extent_get now eid [] srv;
               exist = (ret = XOK);
               (a, ret) = extent_getattr eid srv;
               fd = \<lparr>fd_attr = a, fd_content = buf, fd_isDirty = False, fd_removed = False, fd_exist = exist\<rparr>
           in ((cache(eid \<mapsto> fd), srv), XOK, buf, a)))"

definition client_get ::
  "u32 \<Rightarrow> extentid \<Rightarrow> string \<Rightarrow> fileCache \<times> extents \<Rightarrow> (fileCache \<times> extents) \<times> extent_status \<times> string" where
  "client_get now eid buf cs =
     (let (cs, ret, buf, a) = fileGetter now eid buf (Attr 0 0 0 0) cs in (cs, ret, buf))"

definition client_getattr ::
  "u32 \<Rightarrow> extentid \<Rightarrow> attr \<Rightarrow> fileCache \<times> extents \<Rightarrow> (fileCache \<times> extents) \<times> extent_status \<times> attr" where
  "client_getattr now eid a cs =
     (let (cs, ret, buf, a) = fileGetter now eid [] a cs in (cs, ret, a))"

definition client_put :: "u32 \<Rightarrow> extentid \<Rightarrow> string \<Rightarrow> fileCache \<Rightarrow> fileCache \<times> extent_status" where
  "client_put now eid buf cache =
     (cache(eid \<mapsto> \<lparr>fd_attr = Attr now now now (size_u32 buf), fd_content = buf, fd_isDirty = True,
        fd_removed = False, fd_exist = True\<rparr>), XOK)"

text \<open>\<open>junk\<close> stands for the members \<open>remove\<close> leaves uninitialised.\<close>

definition client_remove :: "fileDetails \<Rightarrow> extentid \<Rightarrow> fileCache \<Rightarrow> fileCache \<times> extent_status" where
  "client_remove junk eid cache =
     (cache(eid \<mapsto> junk\<lparr>fd_content := [], fd_removed := True, fd_isDirty := True\<rparr>), XOK)"

definition client_flush :: "u32 \<Rightarrow> extentid \<Rightarrow> fileCache \<times> extents \<Rightarrow> (fileCache \<times> extents) \<times> extent_status" where
  "client_flush now eid cs =
     (let (cache, srv) = cs;
          (srv, ret) = (case cache eid of
             Some fd \<Rightarrow>
               (if fd_isDirty fd
                then (if fd_removed fd then extent_remove eid srv
                      else extent_put now eid (fd_content fd) srv)
                else (srv, XOK))
           | None \<Rightarrow> (srv, XOK))
      in ((cache(eid := None), srv), ret))"

section \<open>One client against a store\<close>

text \<open>What the client takes an extent's content to be, and the agreement of clean entries.\<close>

definition fd_view :: "fileDetails \<Rightarrow> string option" where
  "fd_view fd = (if fd_exist fd \<and> \<not> fd_removed fd then Some (fd_content fd) else None)"

definition view :: "fileCache \<times> extents \<Rightarrow> extentid \<Rightarrow> string option" where
  "view cs eid = (case fst cs eid of Some fd \<Rightarrow> fd_view fd | None \<Rightarrow> content (snd cs) eid)"

definition entry_ok :: "extents \<Rightarrow> extentid \<Rightarrow> fileDetails \<Rightarrow> bool" where
  "entry_ok srv eid fd \<longleftrightarrow>
     (if fd_isDirty fd then fd_removed fd \<or> fd_exist fd
      else \<not> fd_removed fd \<and> fd_view fd = content srv eid)"

definition cache_ok :: "fileCache \<times> extents \<Rightarrow> bool" where
  "cache_ok cs \<longleftrightarrow> (\<forall>eid fd. fst cs eid = Some fd \<longrightarrow> entry_ok (snd cs) eid fd)"

lemma cache_okD: "cache_ok (cache, srv) \<Longrightarrow> cache eid = Some fd \<Longrightarrow> entry_ok srv eid fd"
  by (auto simp: cache_ok_def)

lemma view_pair: "view (cache, srv) eid = (case cache eid of Some fd \<Rightarrow> fd_view fd | None \<Rightarrow> content srv eid)"
  by (simp add: view_def split: option.split)

lemma view_upd: "view (cache(eid \<mapsto> fd), srv) = (view (cache, srv))(eid := fd_view fd)"
  by (auto simp: view_pair fun_eq_iff)

lemma cache_ok_upd:
  "cache_ok (cache, srv) \<Longrightarrow> entry_ok srv eid fd \<Longrightarrow> cache_ok (cache(eid \<mapsto> fd), srv)"
  by (auto simp: cache_ok_def)

lemma fileGetter_view:
  assumes "cache_ok cs"
  shows "view (fst (fileGetter now eid buf a cs)) = view cs \<and> cache_ok (fst (fileGetter now eid buf a cs)) \<and>
    content (snd (fst (fileGetter now eid buf a cs))) = content (snd cs) \<and>
    dom (fst (fst (fileGetter now eid buf a cs))) = insert eid (dom (fst cs)) \<and>
    (case view cs eid of Some v \<Rightarrow> fst (snd (fileGetter now eid buf a cs)) = XOK \<and>
        fst (snd (snd (fileGetter now eid buf a cs))) = v
     | None \<Rightarrow> fst (snd (fileGetter now eid buf a cs)) = (if eid \<in> dom (fst cs) then XNOENT else XOK))"
proof -
  obtain cache srv where cs: "cs = (cache, srv)" by force
  show ?thesis
  proof (cases "cache eid")
    case (Some fd)
    then have ok: "entry_ok srv eid fd" using assms cs cache_okD by blast
    show ?thesis
    proof (cases "fd_exist fd \<and> \<not> fd_removed fd")
      case True
      let ?at = "Attr now (a_mtime (fd_attr fd)) (a_ctime (fd_attr fd)) (a_size (fd_attr fd))"
      let ?fd = "fd\<lparr>fd_attr := ?at, fd_isDirty := True\<rparr>"
      have r: "fileGetter now eid buf a cs = ((cache(eid \<mapsto> ?fd), srv), XOK, fd_content fd, ?at)"
        using Some True by (simp add: fileGetter_def cs Let_def)
      have v: "fd_view ?fd = Some (fd_content fd)" "view (cache, srv) eid = Some (fd_content fd)"
        using True Some by (simp_all add: fd_view_def view_pair)
      then have "view (cache(eid \<mapsto> ?fd), srv) = view (cache, srv)"
        by (simp add: view_upd fun_upd_idem)
      moreover have "cache_ok (cache(eid \<mapsto> ?fd), srv)"
        using True assms cs by (intro cache_ok_upd) (auto simp: entry_ok_def)
      ultimately show ?thesis using r v Some unfolding cs by simp
    next
      case False
      then show ?thesis using Some ok assms unfolding cs
        by (auto simp: fileGetter_def view_def fd_view_def)
    qed
  next
    case None
    obtain srv' b ret where g: "extent_get now eid [] srv = (srv', b, ret)" by (metis prod_cases3)
    obtain a' ret' where ga: "extent_getattr eid srv' = (a', ret')" by force
    have c: "content srv' = content srv" using content_simps(2) [of now eid "[]" srv] g by simp
    have v: "content srv eid = (if ret = XOK then Some b else None)"
      using g by (auto simp: extent_get_def content_def split: option.splits)
    let ?fd = "\<lparr>fd_attr = a', fd_content = b, fd_isDirty = False, fd_removed = False, fd_exist = (ret = XOK)\<rparr>"
    have r: "fileGetter now eid buf a cs = ((cache(eid \<mapsto> ?fd), srv'), XOK, b, a')"
      using None g ga by (simp add: fileGetter_def cs)
    have e: "entry_ok srv' eid ?fd" using c v by (simp add: entry_ok_def fd_view_def)
    have "cache_ok (cache, srv')" using assms c unfolding cs cache_ok_def entry_ok_def by simp
    then have "cache_ok (cache(eid \<mapsto> ?fd), srv')" using e cache_ok_upd by blast
    moreover have "view (cache(eid \<mapsto> ?fd), srv') = view cs"
      using None c v unfolding cs by (auto simp: view_pair fd_view_def fun_eq_iff split: option.split)
    moreover have "view cs eid = (if ret = XOK then Some b else None)"
      using None v unfolding cs by (simp add: view_def)
    ultimately show ?thesis using r c None unfolding cs by auto
  qed
qed

lemma cache_views:
  assumes "cache_ok (cache, srv)"
  shows "view (fst (client_put now eid buf cache), srv) = (view (cache, srv))(eid \<mapsto> buf) \<and>
    view (fst (client_remove junk eid cache), srv) = (view (cache, srv))(eid := None) \<and>
    view (fst (client_get now eid b (cache, srv))) = view (cache, srv) \<and>
    view (fst (client_flush now eid (cache, srv))) = view (cache, srv) \<and>
    content (snd (fst (client_flush now eid (cache, srv)))) eid = view (cache, srv) eid \<and>
    (\<forall>v. view (cache, srv) eid = Some v \<longrightarrow> snd (client_get now eid b (cache, srv)) = (XOK, v))"
proof -
  have p: "view (fst (client_put now eid buf cache), srv) = (view (cache, srv))(eid \<mapsto> buf)"
    by (simp add: client_put_def view_upd fd_view_def)
  have r: "view (fst (client_remove junk eid cache), srv) = (view (cache, srv))(eid := None)"
    by (simp add: client_remove_def view_upd fd_view_def)
  have g: "view (fst (client_get now eid b (cache, srv))) = view (cache, srv) \<and>
      (\<forall>v. view (cache, srv) eid = Some v \<longrightarrow> snd (client_get now eid b (cache, srv)) = (XOK, v))"
    using fileGetter_view [OF assms, of now eid b "Attr 0 0 0 0"]
    by (auto simp: client_get_def split_def Let_def)
  have f: "view (fst (client_flush now eid (cache, srv))) = view (cache, srv) \<and>
      content (snd (fst (client_flush now eid (cache, srv)))) eid = view (cache, srv) eid"
  proof (cases "cache eid")
    case None
    then show ?thesis by (auto simp: client_flush_def view_pair fun_eq_iff)
  next
    case (Some fd)
    then have "entry_ok srv eid fd" using assms cache_okD by blast
    then show ?thesis using Some content_simps(1) [of now eid "fd_content fd" srv] content_simps(3) [of eid srv]
      by (auto simp: client_flush_def view_pair fd_view_def entry_ok_def split_def Let_def fun_eq_iff
          split: if_splits option.splits)
  qed
  show ?thesis using p r g f by blast
qed

text \<open>the cache is transparent.  Put, remove and get change what the client sees of the store
  exactly as the store's own operations would, and flush changes nothing the client sees while it
  makes the server hold it.\<close>

theorem cache_transparent:
  assumes "cache_ok (cache, srv)"
  shows "view (fst (client_put now eid buf cache), srv) = (view (cache, srv))(eid \<mapsto> buf) \<and>
    view (fst (client_remove junk eid cache), srv) = (view (cache, srv))(eid := None) \<and>
    view (fst (client_get now eid b (cache, srv))) = view (cache, srv) \<and>
    view (fst (client_flush now eid (cache, srv))) = view (cache, srv) \<and>
    content (snd (fst (client_flush now eid (cache, srv)))) eid = view (cache, srv) eid \<and>
    (\<forall>v. view (cache, srv) eid = Some v \<longrightarrow> snd (client_get now eid b (cache, srv)) = (XOK, v))"
  by (rule cache_views [OF assms])

theorem cache_transparent_witness:
  "view (fst (client_flush 9 1 (fst (client_put 5 1 ''x'' Map.empty), Map.empty))) 1 = Some ''x'' \<and>
    content (snd (fst (client_flush 9 1 (fst (client_put 5 1 ''x'' Map.empty), Map.empty)))) 1 = Some ''x''"
proof -
  have "cache_ok (fst (client_put 5 1 ''x'' Map.empty), Map.empty)"
    by (simp add: cache_ok_def client_put_def entry_ok_def)
  from cache_transparent [OF this, of 9 1] have "view (fst (client_flush 9 1 (fst (client_put 5 1 ''x'' Map.empty), Map.empty))) =
      view (fst (client_put 5 1 ''x'' Map.empty), Map.empty)"
    "content (snd (fst (client_flush 9 1 (fst (client_put 5 1 ''x'' Map.empty), Map.empty)))) 1 =
      view (fst (client_put 5 1 ''x'' Map.empty), Map.empty) 1" by blast+
  then show ?thesis by (simp add: view_def client_put_def fd_view_def)
qed

section \<open>Many clients\<close>

text \<open>
  Every client has a cache; a client touches an extent only while no other client has it cached.
  \<open>es_store\<close> records the specification: the last content put, by whichever client.
\<close>

record ext_sys =
  es_srv :: extents
  es_cache :: "int \<Rightarrow> fileCache"
  es_store :: "extentid \<rightharpoonup> string"

definition exclusive :: "ext_sys \<Rightarrow> int \<Rightarrow> extentid \<Rightarrow> bool" where
  "exclusive s c eid \<longleftrightarrow> (\<forall>d. d \<noteq> c \<longrightarrow> es_cache s d eid = None)"

inductive ext_reach :: "ext_sys \<Rightarrow> bool" where
  init: "ext_reach \<lparr>es_srv = srv, es_cache = (\<lambda>_. Map.empty), es_store = content srv\<rparr>"
| get: "ext_reach s \<Longrightarrow> exclusive s c eid \<Longrightarrow> client_get now eid b (es_cache s c, es_srv s) = ((k, v), r) \<Longrightarrow>
    ext_reach (s\<lparr>es_cache := (es_cache s)(c := k), es_srv := v\<rparr>)"
| getattr: "ext_reach s \<Longrightarrow> exclusive s c eid \<Longrightarrow> client_getattr now eid a (es_cache s c, es_srv s) = ((k, v), r') \<Longrightarrow>
    ext_reach (s\<lparr>es_cache := (es_cache s)(c := k), es_srv := v\<rparr>)"
| put: "ext_reach s \<Longrightarrow> exclusive s c eid \<Longrightarrow>
    ext_reach (s\<lparr>es_cache := (es_cache s)(c := fst (client_put now eid buf (es_cache s c))),
      es_store := (es_store s)(eid \<mapsto> buf)\<rparr>)"
| remove: "ext_reach s \<Longrightarrow> exclusive s c eid \<Longrightarrow>
    ext_reach (s\<lparr>es_cache := (es_cache s)(c := fst (client_remove junk eid (es_cache s c))),
      es_store := (es_store s)(eid := None)\<rparr>)"
| flush: "ext_reach s \<Longrightarrow> exclusive s c eid \<Longrightarrow> client_flush now eid (es_cache s c, es_srv s) = ((k, v), r'') \<Longrightarrow>
    ext_reach (s\<lparr>es_cache := (es_cache s)(c := k), es_srv := v\<rparr>)"

definition ext_inv :: "ext_sys \<Rightarrow> bool" where
  "ext_inv s \<longleftrightarrow> (\<forall>c. cache_ok (es_cache s c, es_srv s)) \<and>
     (\<forall>c eid. exclusive s c eid \<longrightarrow> view (es_cache s c, es_srv s) eid = es_store s eid) \<and>
     (\<forall>c d eid. es_cache s c eid \<noteq> None \<longrightarrow> es_cache s d eid \<noteq> None \<longrightarrow> c = d)"

definition changes_only :: "extentid \<Rightarrow> fileCache \<times> extents \<Rightarrow> fileCache \<times> extents \<Rightarrow> bool" where
  "changes_only eid cs cs' \<longleftrightarrow>
     (\<forall>x. x \<noteq> eid \<longrightarrow> fst cs' x = fst cs x \<and> content (snd cs') x = content (snd cs) x)"

lemma ext_inv_step:
  assumes inv: "ext_inv s" and ex: "exclusive s c eid"
    and ch: "changes_only eid (es_cache s c, es_srv s) (k, v)" and ok: "cache_ok (k, v)"
    and vw: "view (k, v) eid = S eid" and S: "\<And>x. x \<noteq> eid \<Longrightarrow> S x = es_store s x"
  shows "ext_inv (s\<lparr>es_cache := (es_cache s)(c := k), es_srv := v, es_store := S\<rparr>)" (is "ext_inv ?t")
proof -
  have k: "k x = es_cache s c x" "content v x = content (es_srv s) x" if "x \<noteq> eid" for x
    using ch that by (auto simp: changes_only_def)
  have none: "es_cache s d eid = None" if "d \<noteq> c" for d
    using ex that by (simp add: exclusive_def)
  have "cache_ok (es_cache ?t d, es_srv ?t)" for d
  proof (cases "d = c")
    case False
    show ?thesis unfolding cache_ok_def
    proof (intro allI impI)
      fix x fd assume x: "fst (es_cache ?t d, es_srv ?t) x = Some fd"
      then have "x \<noteq> eid" "es_cache s d x = Some fd" using False none by auto
      moreover have "cache_ok (es_cache s d, es_srv s)" using inv by (simp add: ext_inv_def)
      ultimately have "entry_ok (es_srv s) x fd" using cache_okD by blast
      then show "entry_ok (snd (es_cache ?t d, es_srv ?t)) x fd"
        using k(2) [OF \<open>x \<noteq> eid\<close>] by (simp add: entry_ok_def)
    qed
  qed (use ok in simp)
  moreover have "view (es_cache ?t d, es_srv ?t) x = es_store ?t x" if e: "exclusive ?t d x" for d x
  proof (cases "x = eid")
    case True
    show ?thesis
    proof (cases "d = c")
      case False
      then have "k eid = None" using e True by (auto simp: exclusive_def)
      then show ?thesis using none [OF False] vw True False by (simp add: view_pair)
    qed (use vw True in simp)
  next
    case False
    have "exclusive s d x" using e k(1) [OF False] unfolding exclusive_def by simp (metis (full_types))
    then have "view (es_cache s d, es_srv s) x = es_store s x" using inv by (simp add: ext_inv_def)
    then show ?thesis using k [OF False] S [OF False] by (cases "d = c") (auto simp: view_pair split: option.splits)
  qed
  moreover have "\<forall>a b x. es_cache ?t a x \<noteq> None \<longrightarrow> es_cache ?t b x \<noteq> None \<longrightarrow> a = b"
  proof (intro allI impI)
    fix a b x assume ab: "es_cache ?t a x \<noteq> None" "es_cache ?t b x \<noteq> None"
    show "a = b"
    proof (cases "x = eid")
      case True
      then show ?thesis using ab none by (auto split: if_splits)
    next
      case False
      then have "es_cache ?t y x = es_cache s y x" for y using k(1) by simp
      then have "es_cache s a x \<noteq> None" "es_cache s b x \<noteq> None" using ab by metis+
      then show ?thesis using inv by (auto simp: ext_inv_def)
    qed
  qed
  ultimately show ?thesis unfolding ext_inv_def by blast
qed

lemma fileGetter_frame: "changes_only eid cs (fst (fileGetter now eid buf a cs))"
proof -
  obtain cache srv where cs: "cs = (cache, srv)" by force
  have "content (fst (extent_get now eid [] srv)) = content srv" by simp
  then show ?thesis unfolding cs
    by (cases "cache eid") (auto simp: changes_only_def fileGetter_def Let_def split_def fun_eq_iff)
qed

lemma fileGetter_step:
  assumes inv: "ext_inv s" and ex: "exclusive s c eid"
    and r: "fst (fileGetter now eid b a (es_cache s c, es_srv s)) = (k, v)"
  shows "ext_inv (s\<lparr>es_cache := (es_cache s)(c := k), es_srv := v\<rparr>)"
proof -
  have ok: "cache_ok (es_cache s c, es_srv s)" and st: "view (es_cache s c, es_srv s) eid = es_store s eid"
    using inv ex by (auto simp: ext_inv_def)
  have "ext_inv (s\<lparr>es_cache := (es_cache s)(c := k), es_srv := v, es_store := es_store s\<rparr>)"
    using fileGetter_view [OF ok, of now eid b a] fileGetter_frame [of eid "(es_cache s c, es_srv s)" now b a] r st
    by (intro ext_inv_step [OF inv ex]) auto
  then show ?thesis by simp
qed

lemma frame_cache_ok:
  "changes_only eid cs cs' \<Longrightarrow> cache_ok cs \<Longrightarrow> fst cs' eid = None \<Longrightarrow> cache_ok cs'"
  unfolding changes_only_def cache_ok_def entry_ok_def by (metis option.distinct(1))

lemma flush_frame:
  "changes_only eid cs (fst (client_flush now eid cs))" "fst (fst (client_flush now eid cs)) = (fst cs)(eid := None)"
proof -
  obtain cache srv where cs: "cs = (cache, srv)" by force
  have "content (fst (extent_remove eid srv)) x = content srv x"
    "content (fst (extent_put now eid t srv)) x = content srv x" if "x \<noteq> eid" for x t
    using that by simp_all
  then show "changes_only eid cs (fst (client_flush now eid cs))"
    "fst (fst (client_flush now eid cs)) = (fst cs)(eid := None)"
    unfolding cs changes_only_def
    by (auto simp: client_flush_def split_def Let_def simp del: content_simps split: option.split)
qed

lemma flush_cache_ok: "cache_ok cs \<Longrightarrow> cache_ok (fst (client_flush now eid cs))"
  by (rule frame_cache_ok [OF flush_frame(1)]) (simp_all add: flush_frame(2))

lemma flush_step:
  assumes inv: "ext_inv s" and ex: "exclusive s c eid"
    and r: "client_flush now eid (es_cache s c, es_srv s) = ((k, v), r')"
  shows "ext_inv (s\<lparr>es_cache := (es_cache s)(c := k), es_srv := v\<rparr>)"
proof -
  let ?cs = "(es_cache s c, es_srv s)"
  have ok: "cache_ok ?cs" and st: "view ?cs eid = es_store s eid" using inv ex by (auto simp: ext_inv_def)
  have vw: "view (k, v) = view ?cs" using cache_views [OF ok, of now eid] r by (metis fst_conv)
  have "changes_only eid ?cs (k, v)" "cache_ok (k, v)"
    using flush_frame(1) [of eid ?cs now] flush_cache_ok [OF ok, of now eid] r by simp_all
  then have "ext_inv (s\<lparr>es_cache := (es_cache s)(c := k), es_srv := v, es_store := es_store s\<rparr>)"
    using vw st by (intro ext_inv_step [OF inv ex]) auto
  then show ?thesis by simp
qed

lemma write_step:
  assumes inv: "ext_inv s" and ex: "exclusive s c eid" and fd: "fd_isDirty fd" "fd_removed fd \<or> fd_exist fd"
  shows "ext_inv (s\<lparr>es_cache := (es_cache s)(c := (es_cache s c)(eid \<mapsto> fd)),
    es_store := (es_store s)(eid := fd_view fd)\<rparr>)"
proof -
  have ok: "cache_ok (es_cache s c, es_srv s)" using inv by (simp add: ext_inv_def)
  then have "cache_ok ((es_cache s c)(eid \<mapsto> fd), es_srv s)"
    using fd by (intro cache_ok_upd) (auto simp: entry_ok_def)
  then have "ext_inv (s\<lparr>es_cache := (es_cache s)(c := (es_cache s c)(eid \<mapsto> fd)), es_srv := es_srv s,
      es_store := (es_store s)(eid := fd_view fd)\<rparr>)"
    by (intro ext_inv_step [OF inv ex]) (auto simp: changes_only_def view_upd)
  then show ?thesis by simp
qed

lemma ext_reach_inv: "ext_reach s \<Longrightarrow> ext_inv s"
proof (induction rule: ext_reach.induct)
  case (init srv)
  then show ?case by (simp add: ext_inv_def cache_ok_def view_pair)
next
  case (get s c eid now b k v r)
  then show ?case using fileGetter_step [of s c eid now b "Attr 0 0 0 0" k v]
    by (auto simp: client_get_def split_def Let_def)
next
  case (getattr s c eid now a k v r')
  then show ?case using fileGetter_step [of s c eid now "[]" a k v]
    by (auto simp: client_getattr_def split_def Let_def)
next
  case (put s c eid buf now)
  then show ?case
    using write_step [of s c eid "\<lparr>fd_attr = Attr now now now (size_u32 buf), fd_content = buf,
      fd_isDirty = True, fd_removed = False, fd_exist = True\<rparr>"]
    by (simp add: client_put_def fd_view_def)
next
  case (remove s c eid junk)
  then show ?case
    using write_step [of s c eid "junk\<lparr>fd_content := [], fd_removed := True, fd_isDirty := True\<rparr>"]
    by (simp add: client_remove_def fd_view_def)
next
  case (flush s c eid now k v r'')
  then show ?case using flush_step by blast
qed

text \<open>C15: coherence.  Whatever clients put, remove, get and flush, in any order that keeps each
  extent in at most one cache, a client that may use an extent reads the content last put by any
  client, and an extent nobody caches has that content on the server.\<close>

theorem extent_coherence:
  assumes "ext_reach s" and "exclusive s c eid"
  shows "(\<forall>w. es_store s eid = Some w \<longrightarrow> snd (client_get now eid b (es_cache s c, es_srv s)) = (XOK, w)) \<and>
    (es_cache s c eid = None \<longrightarrow> content (es_srv s) eid = es_store s eid)"
proof -
  have inv: "cache_ok (es_cache s c, es_srv s)" "view (es_cache s c, es_srv s) eid = es_store s eid"
    using ext_reach_inv [OF assms(1)] assms(2) by (auto simp: ext_inv_def)
  then have "\<forall>w. es_store s eid = Some w \<longrightarrow> snd (client_get now eid b (es_cache s c, es_srv s)) = (XOK, w)"
    using cache_views [OF inv(1), where eid = eid and now = now and b = b] by simp
  moreover have "es_cache s c eid = None \<longrightarrow> content (es_srv s) eid = es_store s eid"
    using inv(2) by (auto simp: view_pair)
  ultimately show ?thesis by blast
qed

theorem extent_coherence_witness:
  "\<exists>s. ext_reach s \<and> es_store s 1 = Some ''x'' \<and> snd (client_get 9 1 [] (es_cache s 2, es_srv s)) = (XOK, ''x'')"
proof -
  let ?s = "\<lparr>es_srv = Map.empty, es_cache = (\<lambda>_. Map.empty), es_store = content Map.empty\<rparr>"
  let ?k = "fst (client_put 5 1 ''x'' Map.empty)"
  have r1: "ext_reach (?s\<lparr>es_cache := (es_cache ?s)(1 := ?k), es_store := (es_store ?s)(1 \<mapsto> ''x'')\<rparr>)" (is "ext_reach ?s1")
    using ext_reach.put [OF ext_reach.init [of Map.empty], where c = 1 and eid = 1 and now = 5 and buf = "''x''"] by (simp add: exclusive_def)
  obtain k v r where f: "client_flush 6 1 (es_cache ?s1 1, es_srv ?s1) = ((k, v), r)" by (metis prod.exhaust)
  then have k: "k 1 = None" by (auto simp: client_flush_def split_def Let_def)
  have e: "exclusive ?s1 1 1" by (simp add: exclusive_def)
  have r2: "ext_reach (?s1\<lparr>es_cache := (es_cache ?s1)(1 := k), es_srv := v\<rparr>)" (is "ext_reach ?s2")
    by (rule ext_reach.flush [OF r1 e f])
  have "exclusive ?s2 2 1" using k by (simp add: exclusive_def)
  from extent_coherence [OF r2 this, of 9 "[]"] have "snd (client_get 9 1 [] (es_cache ?s2 2, es_srv ?s2)) = (XOK, ''x'')"
    by simp
  then show ?thesis using r2 by (intro exI [of _ ?s2]) simp
qed

section \<open>Where the cache shows\<close>

text \<open>the shadowed \<open>ret\<close>.  The first get of an extent that does not exist answers OK with the
  empty string; the same get answers NOENT once the miss is cached.\<close>

theorem first_get_of_missing_extent:
  assumes "cache eid = None" and "srv eid = None"
  shows "\<exists>cache'. client_get now eid b (cache, srv) = ((cache', srv), XOK, []) \<and>
    client_get now' eid b (cache', srv) = ((cache', srv), XNOENT, b)"
  using assms by (simp add: client_get_def fileGetter_def extent_get_def extent_getattr_def)

theorem first_get_of_missing_extent_witness:
  "\<exists>cache'. client_get 1 7 ''b'' (Map.empty, Map.empty) = ((cache', Map.empty), XOK, []) \<and>
    client_get 2 7 ''b'' (cache', Map.empty) = ((cache', Map.empty), XNOENT, ''b'')"
  by (rule first_get_of_missing_extent) simp_all

text \<open>a client that only reads an extent, twice, and then flushes it makes the server record a
  modification: mtime and ctime become the time of the flush, and the time of the second read is
  lost.\<close>

theorem reading_modifies:
  assumes "cache eid = None" and "srv eid = Some (at, c)"
  shows "\<exists>cs1 cs2 cache3 srv3. client_get t1 eid b (cache, srv) = (cs1, XOK, c) \<and>
    client_get t2 eid b cs1 = (cs2, XOK, c) \<and> client_flush t3 eid cs2 = ((cache3, srv3), XOK) \<and>
    srv3 eid = Some (Attr t1 t3 t3 (size_u32 c), c)"
  using assms
  by (simp add: client_get_def fileGetter_def extent_get_def extent_getattr_def client_flush_def
      extent_put_def Let_def)

theorem reading_modifies_witness:
  "\<exists>cs1 cs2 cache3 srv3. client_get 10 1 [] (Map.empty, [1 \<mapsto> (Attr 1 2 3 1, ''f'')]) = (cs1, XOK, ''f'') \<and>
    client_get 20 1 [] cs1 = (cs2, XOK, ''f'') \<and> client_flush 30 1 cs2 = ((cache3, srv3), XOK) \<and>
    srv3 1 = Some (Attr 10 30 30 (size_u32 ''f''), ''f'')"
  by (rule reading_modifies) simp_all

end
