(* ===== verification/ExtentService.thy ===== *)
theory ExtentService
  imports RpcCall Extent
begin

text \<open>
  The extent service as its clients reach it: the main program \<open>extent_smain.cc\<close>, which registers
  the four methods of the extent server, and the call stubs of the extent client that go straight to
  the server (\<open>lab22/extent_client.cc\<close>; the caching client makes the same calls).  The theorem says
  that calls of any number of clients are calls of the server's methods.
\<close>

section \<open>The server program\<close>

text \<open>The statuses are the numbers of an enumeration.\<close>

definition xnum :: "extent_status \<Rightarrow> status" where
  "xnum st = (case st of XOK \<Rightarrow> 0 | XRPCERR \<Rightarrow> 1 | XNOENT \<Rightarrow> 2 | XIOERR \<Rightarrow> 3 | XFBIG \<Rightarrow> 4)"

definition xproc_put :: u32 where "xproc_put = 0x6001"
definition xproc_get :: u32 where "xproc_get = 0x6002"
definition xproc_getattr :: u32 where "xproc_getattr = 0x6003"
definition xproc_remove :: u32 where "xproc_remove = 0x6004"

text \<open>
  The state of the methods is the clock and the store.  The integer that \<open>put\<close> and \<open>remove\<close> return
  is never set: \<open>junk\<close> is what it happens to be.
\<close>

type_synonym extent_state = "u32 \<times> extents"

definition srv_put :: "u32 \<Rightarrow> extentid \<times> string \<Rightarrow> extent_state \<Rightarrow> (status \<times> u32 \<times> extent_state) res" where
  "srv_put junk a st =
     (case st of (now, x) \<Rightarrow> let (x, ret) = extent_put now (fst a) (snd a) x in Inr (xnum ret, junk, (now, x)))"

definition srv_get :: "extentid \<Rightarrow> extent_state \<Rightarrow> (status \<times> string \<times> extent_state) res" where
  "srv_get eid st =
     (case st of (now, x) \<Rightarrow> let (x, buf, ret) = extent_get now eid [] x in Inr (xnum ret, buf, (now, x)))"

definition srv_getattr :: "extentid \<Rightarrow> extent_state \<Rightarrow> (status \<times> attr \<times> extent_state) res" where
  "srv_getattr eid st =
     (case st of (now, x) \<Rightarrow> let (a, ret) = extent_getattr eid x in Inr (xnum ret, a, (now, x)))"

definition srv_remove :: "u32 \<Rightarrow> extentid \<Rightarrow> extent_state \<Rightarrow> (status \<times> u32 \<times> extent_state) res" where
  "srv_remove junk eid st =
     (case st of (now, x) \<Rightarrow> let (x, ret) = extent_remove eid x in Inr (xnum ret, junk, (now, x)))"

text \<open>\<open>count\<close> is the environment's \<open>RPC_COUNT\<close>.\<close>

definition extent_main :: "int \<Rightarrow> u32 \<Rightarrow> u32 \<Rightarrow> int \<Rightarrow> u32 \<Rightarrow> extent_state rpcs res" where
  "extent_main argc port nonce count junk =
     (if argc \<noteq> 2 then Inl Exit
      else
        rbind (rpcs_new port nonce count) (\<lambda>server.
        rbind (reg1 server xproc_get (handler_fn get_u64 srv_get put_string)) (\<lambda>server.
        rbind (reg1 server xproc_getattr (handler_fn get_u64 srv_getattr put_attr)) (\<lambda>server.
        rbind (reg1 server xproc_put
          (handler_fn (get_pair get_u64 (get_string [])) (srv_put junk) put_int)) (\<lambda>server.
        reg1 server xproc_remove (handler_fn get_u64 (srv_remove junk) put_int))))))"

section \<open>The stubs\<close>

definition ec_get ::
  "nat \<Rightarrow> extentid \<Rightarrow> string \<Rightarrow> rpcc \<Rightarrow> extent_state rpcs \<Rightarrow> extent_state \<Rightarrow>
   (rpcc \<times> extent_state rpcs \<times> extent_state \<times> status \<times> string) res" where
  "ec_get ch eid buf cl s st = rpc_call put_u64 get_string ch xproc_get eid buf cl s st"

definition ec_getattr ::
  "nat \<Rightarrow> extentid \<Rightarrow> attr \<Rightarrow> rpcc \<Rightarrow> extent_state rpcs \<Rightarrow> extent_state \<Rightarrow>
   (rpcc \<times> extent_state rpcs \<times> extent_state \<times> status \<times> attr) res" where
  "ec_getattr ch eid a cl s st = rpc_call put_u64 (\<lambda>_. get_attr) ch xproc_getattr eid a cl s st"

text \<open>\<open>r\<close> is the local variable for the result, which is thrown away.\<close>

definition ec_put ::
  "nat \<Rightarrow> u32 \<Rightarrow> extentid \<Rightarrow> string \<Rightarrow> rpcc \<Rightarrow> extent_state rpcs \<Rightarrow> extent_state \<Rightarrow>
   (rpcc \<times> extent_state rpcs \<times> extent_state \<times> status) res" where
  "ec_put ch r eid buf cl s st =
     rbind (rpc_call (put_pair put_u64 put_string) (\<lambda>_. get_int) ch xproc_put (eid, buf) r cl s st)
       (\<lambda>(cl, s, st, ret, r). Inr (cl, s, st, ret))"

definition ec_remove ::
  "nat \<Rightarrow> u32 \<Rightarrow> extentid \<Rightarrow> rpcc \<Rightarrow> extent_state rpcs \<Rightarrow> extent_state \<Rightarrow>
   (rpcc \<times> extent_state rpcs \<times> extent_state \<times> status) res" where
  "ec_remove ch r eid cl s st =
     rbind (rpc_call put_u64 (\<lambda>_. get_int) ch xproc_remove eid r cl s st)
       (\<lambda>(cl, s, st, ret, r). Inr (cl, s, st, ret))"

section \<open>Calls and methods\<close>

text \<open>A call with its arguments, and what the caller sees of its result.\<close>

datatype extent_op = Put extentid string | Get extentid | Getattr extentid | Remove extentid

datatype extent_result = Done status | Text status string | Attrs status attr

fun extent_call ::
  "nat \<Rightarrow> extent_op \<Rightarrow> rpcc \<Rightarrow> extent_state rpcs \<Rightarrow> extent_state \<Rightarrow>
   (rpcc \<times> extent_state rpcs \<times> extent_state \<times> extent_result) res" where
  "extent_call ch (Put eid buf) cl s st =
     rbind (ec_put ch 0 eid buf cl s st) (\<lambda>(cl, s, st, ret). Inr (cl, s, st, Done ret))"
| "extent_call ch (Get eid) cl s st =
     rbind (ec_get ch eid [] cl s st) (\<lambda>(cl, s, st, ret, buf). Inr (cl, s, st, Text ret buf))"
| "extent_call ch (Getattr eid) cl s st =
     rbind (ec_getattr ch eid (Attr 0 0 0 0) cl s st) (\<lambda>(cl, s, st, ret, a). Inr (cl, s, st, Attrs ret a))"
| "extent_call ch (Remove eid) cl s st =
     rbind (ec_remove ch 0 eid cl s st) (\<lambda>(cl, s, st, ret). Inr (cl, s, st, Done ret))"

fun extent_method :: "extent_op \<Rightarrow> extent_state \<Rightarrow> extent_state \<times> extent_result" where
  "extent_method (Put eid buf) (now, x) = (let (x, ret) = extent_put now eid buf x in ((now, x), Done (xnum ret)))"
| "extent_method (Get eid) (now, x) = (let (x, buf, ret) = extent_get now eid [] x in ((now, x), Text (xnum ret) buf))"
| "extent_method (Getattr eid) (now, x) = (let (a, ret) = extent_getattr eid x in ((now, x), Attrs (xnum ret) a))"
| "extent_method (Remove eid) (now, x) = (let (x, ret) = extent_remove eid x in ((now, x), Done (xnum ret)))"

text \<open>Calls of many clients, each on its own connection, while the clock runs: each comes with the
  caller and the time the server then has.\<close>

fun extent_calls ::
  "(nat \<times> u32 \<times> extent_op) list \<Rightarrow> (nat \<Rightarrow> rpcc) \<Rightarrow> extent_state rpcs \<Rightarrow> extents \<Rightarrow> (extents \<times> extent_result list) res" where
  "extent_calls [] cs s x = Inr (x, [])"
| "extent_calls ((i, now, op) # ops) cs s x =
     rbind (extent_call i op (cs i) s (now, x)) (\<lambda>(c, s, st, r).
     rbind (extent_calls ops (cs(i := c)) s (snd st)) (\<lambda>(x, rs). Inr (x, r # rs)))"

fun extent_methods :: "(nat \<times> u32 \<times> extent_op) list \<Rightarrow> extents \<Rightarrow> extents \<times> extent_result list" where
  "extent_methods [] x = (x, [])"
| "extent_methods ((i, now, op) # ops) x =
     (let (st, r) = extent_method op (now, x); (x, rs) = extent_methods ops (snd st) in (x, r # rs))"

section \<open>The calls are the methods\<close>

definition extent_procs :: "u32 \<Rightarrow> u32 \<Rightarrow> u32 \<rightharpoonup> extent_state handler" where
  "extent_procs nonce junk = [proc_bind \<mapsto> bind_handler nonce,
     xproc_get \<mapsto> handler_fn get_u64 srv_get put_string,
     xproc_getattr \<mapsto> handler_fn get_u64 srv_getattr put_attr,
     xproc_put \<mapsto> handler_fn (get_pair get_u64 (get_string [])) (srv_put junk) put_int,
     xproc_remove \<mapsto> handler_fn get_u64 (srv_remove junk) put_int]"

lemmas xproc_defs = xproc_put_def xproc_get_def xproc_getattr_def xproc_remove_def proc_bind_def

lemma extent_procs_simps:
  "extent_procs n j xproc_get = Some (handler_fn get_u64 srv_get put_string)"
  "extent_procs n j xproc_getattr = Some (handler_fn get_u64 srv_getattr put_attr)"
  "extent_procs n j xproc_put = Some (handler_fn (get_pair get_u64 (get_string [])) (srv_put j) put_int)"
  "extent_procs n j xproc_remove = Some (handler_fn get_u64 (srv_remove j) put_int)"
  by (simp_all add: extent_procs_def xproc_defs)

lemma extent_main_serves:
  "\<exists>s. extent_main 2 port nonce count junk = Inr s \<and> rs_procs s = extent_procs nonce junk \<and>
    rs_nonce s = nonce \<and> rs_reachable s \<and> rs_window s = Map.empty"
proof -
  obtain s :: "extent_state rpcs" where s: "rpcs_new port nonce count = Inr s" "rs_procs s = [proc_bind \<mapsto> bind_handler nonce]"
    "rs_nonce s = nonce" "rs_reachable s" "rs_window s = Map.empty"
    using rpcs_new_eq by blast
  show ?thesis
    by (simp add: extent_main_def s reg1_new xproc_defs extent_procs_def)
qed

text \<open>Contents that fit a message.\<close>

definition small :: "extents \<Rightarrow> bool" where
  "small x \<longleftrightarrow> (\<forall>eid a c. x eid = Some (a, c) \<longrightarrow> length c < 2 ^ 31 - 64)"

fun op_small :: "extent_op \<Rightarrow> bool" where
  "op_small (Put eid buf) = (length buf < 2 ^ 31 - 64)"
| "op_small _ = True"

lemma small_method: "small x \<Longrightarrow> op_small op \<Longrightarrow> small (snd (fst (extent_method op (now, x))))"
  by (cases op) (auto simp: small_def extent_put_def extent_get_def extent_getattr_def extent_remove_def split: option.splits if_splits)

lemma xnum_bounds: "0 \<le> xnum st \<and> xnum st < 2 ^ 31"
  by (cases st) (simp_all add: xnum_def)

lemma fits_u64: "fits (enc_u64 x)"
  by (simp add: fits_def enc_u64_def)

lemma length_enc_string: "length (enc_string s) = length s + 4"
  by (simp add: enc_string_def)

lemma put_args_codec: "codec (put_pair put_u64 put_string) (get_pair get_u64 (get_string [])) (enc_pair enc_u64 enc_string)"
  by (rule codec2.pair_codec [OF codec2.intro [OF u64.codec_axioms str.codec_axioms]])

abbreviation runs_as :: "nat \<Rightarrow> extent_op \<Rightarrow> rpcc \<Rightarrow> extent_state rpcs \<Rightarrow> extent_state \<Rightarrow> rpcc \<Rightarrow> extent_state rpcs \<Rightarrow> bool" where
  "runs_as ch op c s st c' s' \<equiv>
     extent_call ch op c s st = Inr (c', s', fst (extent_method op st), snd (extent_method op st)) \<and>
     linked c' s' \<and> same_client c c' \<and> same_server s s' \<and> c_xid c' = c_xid c + 1 \<and>
     (\<forall>d. d \<noteq> c_clt_nonce c \<longrightarrow> xids_of s' d = xids_of s d)"

lemma extent_call_runs:
  assumes l: "linked c s" "c_bind_done c" "c_xid c \<noteq> - 1" and p: "rs_procs s = extent_procs nonce junk"
    and x: "small x" "op_small op"
  shows "\<exists>c' s'. runs_as ch op c s (now, x) c' s'"
proof -
  have cb: "callable c s q f" if "extent_procs nonce junk q = Some f" "q \<noteq> proc_bind" for q f
    using l p that by (simp add: callable_def)
  show ?thesis
  proof (cases op)
    case (Put eid buf)
    have m: "srv_put junk (eid, buf) (now, x) = Inr (xnum (snd (extent_put now eid buf x)), junk, (now, fst (extent_put now eid buf x)))"
      by (simp add: srv_put_def split_def Let_def)
    have f: "fits (enc_pair enc_u64 enc_string (eid, buf))" "fits (be32 junk)"
      using x(2) Put by (simp_all add: fits_def enc_pair_def enc_u64_def length_enc_string)
    from rpc_call_is_method_call [where ch = ch and old = 0, OF put_args_codec f(1) int.codec_axioms f(2)
        cb [OF extent_procs_simps(3)] l(3) m conjunct1 [OF xnum_bounds] conjunct2 [OF xnum_bounds]]
    show ?thesis by (auto simp: Put ec_put_def xproc_defs split_def Let_def)
  next
    case (Get eid)
    have m: "srv_get eid (now, x) = Inr (xnum (snd (snd (extent_get now eid [] x))), fst (snd (extent_get now eid [] x)),
        (now, fst (extent_get now eid [] x)))"
      by (simp add: srv_get_def split_def Let_def)
    have f: "fits (enc_string (fst (snd (extent_get now eid [] x))))"
      using x(1) by (auto simp: fits_def length_enc_string extent_get_def small_def split: option.split)
        (fastforce dest: spec [of _ eid])
    from rpc_call_is_method_call [where ch = ch and old = "[]" and rget = get_string, OF u64.codec_axioms fits_u64 str.codec_axioms f
        cb [OF extent_procs_simps(1)] l(3) m conjunct1 [OF xnum_bounds] conjunct2 [OF xnum_bounds]]
    show ?thesis by (auto simp: Get ec_get_def xproc_defs split_def Let_def)
  next
    case (Getattr eid)
    have m: "srv_getattr eid (now, x) = Inr (xnum (snd (extent_getattr eid x)), fst (extent_getattr eid x), (now, x))"
      by (simp add: srv_getattr_def split_def Let_def)
    have f: "fits (enc_pair be32 (enc_pair be32 (enc_pair be32 be32)) (case a of Attr a m c s \<Rightarrow> (a, m, c, s)))" for a :: attr
      by (simp add: fits_def enc_pair_def split: attr.split)
    from rpc_call_is_method_call [where ch = ch and old = "Attr 0 0 0 0" and rget = "\<lambda>_. get_attr",
        OF u64.codec_axioms fits_u64 attr_c.struct.codec_axioms _ cb [OF extent_procs_simps(2)] l(3) m
          conjunct1 [OF xnum_bounds] conjunct2 [OF xnum_bounds]]
    show ?thesis by (auto simp: Getattr ec_getattr_def xproc_defs split_def Let_def fits_def enc_pair_def)
  next
    case (Remove eid)
    have m: "srv_remove junk eid (now, x) = Inr (xnum (snd (extent_remove eid x)), junk, (now, fst (extent_remove eid x)))"
      by (simp add: srv_remove_def split_def Let_def)
    have f: "fits (be32 junk)" by (simp add: fits_def)
    from rpc_call_is_method_call [where ch = ch and old = 0, OF u64.codec_axioms fits_u64 int.codec_axioms f
        cb [OF extent_procs_simps(4)] l(3) m conjunct1 [OF xnum_bounds] conjunct2 [OF xnum_bounds]]
    show ?thesis by (auto simp: Remove ec_remove_def xproc_defs split_def Let_def)
  qed
qed



end
