(* ===== verification/Yfs.thy ===== *)
theory Yfs
  imports Extent TextIO
begin

text \<open>
  The file system: \<open>yfs_client.cc\<close> over the extent and lock clients, and the request handlers of
  \<open>fuse.cc\<close>.  A directory is an extent whose text is a list of \<open>name=inum;\<close> entries; the theorems
  relate the handlers' string searches to that list.  Every handler leaves a trace of the locks
  it takes and the extents it uses.
\<close>

section \<open>String operations\<close>

text \<open>\<open>std::string::find\<close>, \<open>substr\<close>, \<open>erase\<close> and \<open>replace\<close>.\<close>

definition is_prefix :: "string \<Rightarrow> string \<Rightarrow> bool" where
  "is_prefix p s \<longleftrightarrow> take (length p) s = p"

fun str_find :: "string \<Rightarrow> string \<Rightarrow> nat option" where
  "str_find p s = (if is_prefix p s then Some 0
     else case s of [] \<Rightarrow> None | c # s \<Rightarrow> map_option Suc (str_find p s))"

declare str_find.simps [simp del]

definition substr :: "string \<Rightarrow> nat \<Rightarrow> nat \<Rightarrow> string res" where
  "substr s pos n = (if pos \<le> length s then Inr (take n (drop pos s)) else Inl OutOfRange)"

definition str_erase :: "string \<Rightarrow> nat \<Rightarrow> nat \<Rightarrow> string" where
  "str_erase s pos n = take pos s @ drop (pos + n) s"

definition str_replace :: "string \<Rightarrow> nat \<Rightarrow> nat \<Rightarrow> string \<Rightarrow> string" where
  "str_replace s pos n t = take pos s @ t @ drop (pos + n) s"

definition find_first_of :: "char \<Rightarrow> string \<Rightarrow> nat" where
  "find_first_of c s = length (takeWhile (\<lambda>x. x \<noteq> c) s)"

definition nul :: char where "nul = CHR 0x00"

section \<open>The client library\<close>

type_synonym inum = u64

datatype yfs_status = YOK | YRPCERR | YNOENT | YIOERR | YFBIG | YEXIST

definition n2i :: "string \<Rightarrow> inum" where
  "n2i n = fst (in_uint 0 (Some n))"

definition yfs_filename :: "inum \<Rightarrow> string" where
  "yfs_filename i = show_word i"

definition isfile :: "inum \<Rightarrow> bool" where
  "isfile i \<longleftrightarrow> i AND 0x80000000 \<noteq> 0"

definition isdir :: "inum \<Rightarrow> bool" where
  "isdir i \<longleftrightarrow> \<not> isfile i"

text \<open>\<open>r\<close> is the result of \<open>rand()\<close>.\<close>

definition get_new_inum :: "bool \<Rightarrow> u64 \<Rightarrow> inum" where
  "get_new_inum is_file r = (if is_file then r OR 0x80000000 else r AND 0x7FFFFFFF)"

datatype yact = Acq inum | Rel inum | Use inum

text \<open>The state of one mounted client: its cache, the extent server, the clock and the trace.\<close>

record yfs =
  y_cs :: "fileCache \<times> extents"
  y_now :: u32
  y_trace :: "yact list"

definition note_act :: "yact \<Rightarrow> yfs \<Rightarrow> yfs" where
  "note_act a y = y\<lparr>y_trace := y_trace y @ [a]\<rparr>"

definition yfs_acquire :: "inum \<Rightarrow> yfs \<Rightarrow> yfs" where
  "yfs_acquire i y = note_act (Acq i) y"

definition yfs_release :: "inum \<Rightarrow> yfs \<Rightarrow> yfs" where
  "yfs_release i y = note_act (Rel i) y"

definition yfs_put :: "inum \<Rightarrow> string \<Rightarrow> yfs \<Rightarrow> yfs \<times> yfs_status" where
  "yfs_put i txt y =
     (let (cache, st) = client_put (y_now y) i txt (fst (y_cs y))
      in (note_act (Use i) (y\<lparr>y_cs := (cache, snd (y_cs y))\<rparr>), if st = XOK then YOK else YIOERR))"

definition get_fileDir_content :: "inum \<Rightarrow> string \<Rightarrow> yfs \<Rightarrow> yfs \<times> yfs_status \<times> string" where
  "get_fileDir_content i fd y =
     (let (cs, st, fd) = client_get (y_now y) i fd (y_cs y)
      in (note_act (Use i) (y\<lparr>y_cs := cs\<rparr>), if st = XOK then YOK else YIOERR, fd))"

definition yfs_getattr :: "inum \<Rightarrow> yfs \<Rightarrow> yfs \<times> yfs_status \<times> attr" where
  "yfs_getattr i y =
     (let (cs, st, a) = client_getattr (y_now y) i (Attr 0 0 0 0) (y_cs y)
      in (note_act (Use i) (y\<lparr>y_cs := cs\<rparr>), if st = XOK then YOK else YIOERR, a))"

definition yfs_remove :: "inum \<Rightarrow> yfs \<Rightarrow> yfs \<times> yfs_status" where
  "yfs_remove i y =
     (let junk = \<lparr>fd_attr = Attr 0 0 0 0, fd_content = [], fd_isDirty = False, fd_removed = False, fd_exist = False\<rparr>;
          (cache, st) = client_remove junk i (fst (y_cs y))
      in (note_act (Use i) (y\<lparr>y_cs := (cache, snd (y_cs y))\<rparr>), if st = XOK then YOK else YIOERR))"

definition yfs_dorelease :: "inum \<Rightarrow> yfs \<Rightarrow> yfs" where
  "yfs_dorelease i y = y\<lparr>y_cs := fst (client_flush (y_now y) i (y_cs y))\<rparr>"

section \<open>The handlers\<close>

text \<open>File attributes as replied: mode and link count by kind, size of files only.\<close>

record stat =
  st_ino :: inum
  st_isfile :: bool
  st_nlink :: nat
  st_attr :: attr

datatype errno = E_OK | ENOENT | ENOSYS | EEXIST | ENOTDIR

datatype reply =
    RErr errno
  | RAttr stat
  | RBuf string
  | RWrite nat
  | REntry inum stat
  | ROpen
  | RDir "(string \<times> inum) list"

definition getattr_st :: "inum \<Rightarrow> yfs \<Rightarrow> yfs \<times> yfs_status \<times> stat" where
  "getattr_st i y =
     (let (y, ret, a) = yfs_getattr i y
      in (y, ret, \<lparr>st_ino = i, st_isfile = isfile i, st_nlink = (if isfile i then 1 else 2),
                   st_attr = (if isfile i then a else Attr (a_atime a) (a_mtime a) (a_ctime a) 0)\<rparr>))"

definition fuse_getattr :: "inum \<Rightarrow> yfs \<Rightarrow> yfs \<times> reply" where
  "fuse_getattr i y =
     (let y = yfs_acquire i y;
          (y, ret, st) = getattr_st i y;
          y = yfs_release i y
      in (y, if ret \<noteq> YOK then RErr ENOENT else RAttr st))"

text \<open>\<open>to_size\<close> is the requested size when that bit of \<open>to_set\<close> is set.  \<open>sizeDiff\<close> is unsigned.\<close>

definition fuse_setattr :: "inum \<Rightarrow> nat option \<Rightarrow> yfs \<Rightarrow> yfs \<times> reply" where
  "fuse_setattr i to_size y =
     (case to_size of
        None \<Rightarrow> (y, RErr ENOSYS)
      | Some st_size \<Rightarrow>
          (if isfile i then
             (let y = yfs_acquire i y;
                  (y, _, fileContent) = get_fileDir_content i [] y;
                  sizeDiff = (word_of_nat (length fileContent) - word_of_nat st_size :: u64);
                  fileContent = (if sizeDiff > 0 then take st_size fileContent
                                 else fileContent @ replicate (unat (- sizeDiff)) nul);
                  (y, _) = yfs_put i fileContent y;
                  (y, _, st) = getattr_st i y;
                  y = yfs_release i y
              in (y, RAttr st))
           else (y, RErr ENOSYS)))"

definition fuse_read :: "inum \<Rightarrow> nat \<Rightarrow> nat \<Rightarrow> yfs \<Rightarrow> (yfs \<times> reply) res" where
  "fuse_read i sz off y =
     (if isfile i then
        (let y = yfs_acquire i y;
             (y, _, fileContent) = get_fileDir_content i [] y;
             y = yfs_release i y
         in rbind (substr fileContent off sz) (\<lambda>s. Inr (y, RBuf s)))
      else Inr (y, RErr ENOSYS))"

text \<open>
  \<open>buf\<close> is the memory the kernel passes; it becomes a string that ends at the first NUL.
\<close>

definition write_bytes :: "string \<Rightarrow> nat \<Rightarrow> string" where
  "write_bytes buf sz =
     (let contentToWrite = takeWhile (\<lambda>c. c \<noteq> nul) buf
      in if length contentToWrite \<ge> sz then take sz contentToWrite
         else contentToWrite @ replicate (sz - length contentToWrite) nul)"

definition write_content :: "string \<Rightarrow> nat \<Rightarrow> nat \<Rightarrow> string \<Rightarrow> string" where
  "write_content fileContent off sz toWrite =
     (if length fileContent < off then fileContent @ replicate (off - length fileContent) nul @ toWrite
      else if length fileContent \<le> off + sz then take off fileContent @ toWrite
      else str_replace fileContent off sz toWrite)"

definition fuse_write :: "inum \<Rightarrow> string \<Rightarrow> nat \<Rightarrow> nat \<Rightarrow> yfs \<Rightarrow> yfs \<times> reply" where
  "fuse_write i buf sz off y =
     (if isfile i then
        (let y = yfs_acquire i y;
             (y, _, fileContent) = get_fileDir_content i [] y;
             (y, _) = yfs_put i (write_content fileContent off sz (write_bytes buf sz)) y;
             y = yfs_release i y
         in (y, RWrite sz))
      else (y, RErr ENOSYS))"

definition dir_append :: "string \<Rightarrow> string \<Rightarrow> inum \<Rightarrow> string" where
  "dir_append dirCon name i = dirCon @ name @ ''='' @ yfs_filename i @ '';''"

definition createhelper :: "inum \<Rightarrow> string \<Rightarrow> u64 \<Rightarrow> yfs \<Rightarrow> yfs \<times> (yfs_status + inum \<times> stat)" where
  "createhelper parent name r y =
     (if isdir parent then
        (let y = yfs_acquire parent y;
             (y, _, dirCon) = get_fileDir_content parent [] y
         in if str_find (name @ ''='') dirCon \<noteq> None
            then (yfs_release parent y, Inl YEXIST)
            else
              (let fileNum = get_new_inum True r;
                   y = yfs_acquire fileNum y;
                   (y, _) = yfs_put fileNum [] y;
                   (y, _) = yfs_put parent (dir_append dirCon name fileNum) y;
                   (y, _, st) = getattr_st fileNum y;
                   y = yfs_release fileNum y;
                   y = yfs_release parent y
               in (y, Inr (fileNum, st))))
      else (y, Inl YNOENT))"

definition fuse_create :: "inum \<Rightarrow> string \<Rightarrow> u64 \<Rightarrow> yfs \<Rightarrow> yfs \<times> reply" where
  "fuse_create parent name r y =
     (case createhelper parent name r y of
        (y, Inr (i, st)) \<Rightarrow> (y, REntry i st)
      | (y, Inl YEXIST) \<Rightarrow> (y, RErr EEXIST)
      | (y, Inl _) \<Rightarrow> (y, RErr ENOENT))"

definition fuse_mknod :: "inum \<Rightarrow> string \<Rightarrow> u64 \<Rightarrow> yfs \<Rightarrow> yfs \<times> reply" where
  "fuse_mknod parent name r y =
     (case createhelper parent name r y of
        (y, Inr (i, st)) \<Rightarrow> (y, REntry i st)
      | (y, Inl YEXIST) \<Rightarrow> (y, RErr EEXIST)
      | (y, Inl _) \<Rightarrow> (y, RErr ENOENT))"

text \<open>
  The i-number after a match at \<open>pos\<close>: \<open>substr(start + 1, end - 1)\<close> may reach past the entry, but
  the number parser stops at the semicolon.
\<close>

definition entry_inum :: "string \<Rightarrow> inum" where
  "entry_inum temp =
     (let start = find_first_of (CHR ''='') temp; fin = find_first_of (CHR '';'') temp
      in n2i (take (fin - 1) (drop (start + 1) temp)))"

definition fuse_lookup :: "inum \<Rightarrow> string \<Rightarrow> yfs \<Rightarrow> yfs \<times> reply" where
  "fuse_lookup parent name y =
     (let y = yfs_acquire parent y;
          (y, _, dirCon) = get_fileDir_content parent [] y
      in case str_find (name @ ''='') dirCon of
           None \<Rightarrow> (yfs_release parent y, RErr ENOENT)
         | Some pos \<Rightarrow>
             (let i = entry_inum (drop pos dirCon);
                  y = yfs_acquire i y;
                  (y, ret, st) = getattr_st i y;
                  y = yfs_release i y;
                  y = yfs_release parent y
              in (y, if ret = YOK then REntry i st else RErr ENOENT)))"

definition fuse_mkdir :: "inum \<Rightarrow> string \<Rightarrow> u64 \<Rightarrow> yfs \<Rightarrow> yfs \<times> reply" where
  "fuse_mkdir parent name r y =
     (if isdir parent then
        (let y = yfs_acquire parent y;
             newNo = get_new_inum False r;
             y = yfs_acquire newNo y;
             (y, _, dirContent) = get_fileDir_content parent [] y;
             (y, _) = yfs_put newNo [] y;
             (y, _) = yfs_put parent (dir_append dirContent name newNo) y;
             (y, _, st) = getattr_st newNo y;
             y = yfs_release newNo y;
             y = yfs_release parent y
         in (y, REntry newNo st))
      else (y, RErr ENOSYS))"

definition dir_unlink :: "string \<Rightarrow> nat \<Rightarrow> string" where
  "dir_unlink dirCon pos = str_erase dirCon pos (find_first_of (CHR '';'') (drop pos dirCon) + 1)"

definition fuse_unlink :: "inum \<Rightarrow> string \<Rightarrow> yfs \<Rightarrow> yfs \<times> reply" where
  "fuse_unlink parent name y =
     (if isdir parent then
        (let y = yfs_acquire parent y;
             (y, _, dirCon) = get_fileDir_content parent [] y
         in case str_find (name @ ''='') dirCon of
              None \<Rightarrow> (yfs_release parent y, RErr ENOENT)
            | Some pos \<Rightarrow>
                (let i = entry_inum (drop pos dirCon);
                     (y, _) = yfs_put parent (dir_unlink dirCon pos) y;
                     y = yfs_acquire i y;
                     (y, _) = yfs_remove i y;
                     y = yfs_release i y;
                     y = yfs_release parent y
                 in (y, RErr E_OK)))
      else (y, RErr ENOENT))"

text \<open>The pieces \<open>getline(ss, file, ';')\<close> yields; a trailing semicolon yields no empty piece.\<close>

function split_semi :: "string \<Rightarrow> string list" where
  "split_semi s = (if s = [] then []
     else takeWhile (\<lambda>c. c \<noteq> CHR '';'') s # split_semi (drop 1 (dropWhile (\<lambda>c. c \<noteq> CHR '';'') s)))"
  by pat_completeness auto
termination
proof (relation "measure length", goal_cases)
  case (2 s)
  have "length (dropWhile (\<lambda>c. c \<noteq> CHR '';'') s) \<le> length s" by (rule length_dropWhile_le)
  moreover have "0 < length s" using 2 by simp
  ultimately show ?case by (simp only: in_measure length_drop)
qed simp

declare split_semi.simps [simp del]

definition parse_entry :: "string \<Rightarrow> string \<times> inum" where
  "parse_entry e =
     (case str_find ''='' e of
        Some pos \<Rightarrow> (take pos e, n2i (drop (pos + 1) e))
      | None \<Rightarrow> (e, n2i e))"

definition fuse_readdir :: "inum \<Rightarrow> yfs \<Rightarrow> yfs \<times> reply" where
  "fuse_readdir i y =
     (if isdir i then
        (let y = yfs_acquire i y;
             (y, _, dirCon) = get_fileDir_content i [] y;
             entries = map parse_entry (split_semi dirCon);
             y = yfs_release i y
         in (y, RDir entries))
      else (y, RErr ENOTDIR))"

text \<open>The window of the directory buffer that is sent: \<open>None\<close> for an empty reply.\<close>

definition reply_buf_limited :: "'b list \<Rightarrow> nat \<Rightarrow> nat \<Rightarrow> 'b list option" where
  "reply_buf_limited buf off maxsize =
     (if off < length buf then Some (take (min (length buf - off) maxsize) (drop off buf)) else None)"

text \<open>
  The directory buffer.  \<open>fuse_dirent_size\<close> and \<open>fuse_add_dirent\<close> are the FUSE library's: the room an
  entry takes for the length of its name, and its bytes for its name, i-number and offset.
\<close>

definition dirbuf_add :: "(nat \<Rightarrow> nat) \<Rightarrow> (string \<Rightarrow> inum \<Rightarrow> nat \<Rightarrow> string) \<Rightarrow> string \<Rightarrow> string \<Rightarrow> inum \<Rightarrow> string" where
  "dirbuf_add dirent_size add_dirent b name ino =
     (let oldsize = length b; size = oldsize + dirent_size (length name) in b @ add_dirent name ino size)"

definition dirbuf_of :: "(nat \<Rightarrow> nat) \<Rightarrow> (string \<Rightarrow> inum \<Rightarrow> nat \<Rightarrow> string) \<Rightarrow> (string \<times> inum) list \<Rightarrow> string" where
  "dirbuf_of dirent_size add_dirent es = foldl (\<lambda>b (name, ino). dirbuf_add dirent_size add_dirent b name ino) [] es"

text \<open>Name length and block size in the reply to \<open>statfs\<close>; its other fields are zero.\<close>

definition fuse_statfs :: "nat \<times> nat" where
  "fuse_statfs = (255, 512)"

definition fuse_open :: "inum \<Rightarrow> reply" where
  "fuse_open i = (if isfile i then ROpen else RErr ENOSYS)"

section \<open>Reading a directory in pieces\<close>

text \<open>the offset stored with an entry is the end of that entry in the buffer, so a reader that
  goes on from there gets the bytes of the entries behind it, cut to the size it asked for.\<close>

theorem readdir_resumes:
  assumes "\<forall>n i k. length (add_dirent n i k) = dirent_size (length n)"
  shows "\<exists>rest. dirbuf_of dirent_size add_dirent (es @ (name, ino) # es') =
      dirbuf_of dirent_size add_dirent es @
        add_dirent name ino (length (dirbuf_of dirent_size add_dirent (es @ [(name, ino)]))) @ rest \<and>
    reply_buf_limited (dirbuf_of dirent_size add_dirent (es @ (name, ino) # es'))
      (length (dirbuf_of dirent_size add_dirent (es @ [(name, ino)]))) maxsize =
      (if rest = [] then None else Some (take maxsize rest))"
proof -
  let ?add = "\<lambda>b (name, ino). dirbuf_add dirent_size add_dirent b name ino"
  have grows: "\<exists>r. foldl ?add b es' = b @ r" for b
  proof (induction es' arbitrary: b)
    case (Cons e es')
    obtain n i where "e = (n, i)" by force
    then obtain c where c: "?add b e = b @ c" by (simp add: dirbuf_add_def Let_def)
    obtain r where "foldl ?add (b @ c) es' = (b @ c) @ r" using Cons.IH by blast
    then show ?case using c by simp
  qed simp
  let ?b = "dirbuf_of dirent_size add_dirent es" and ?c = "dirbuf_of dirent_size add_dirent (es @ [(name, ino)])"
  have c: "?c = ?b @ add_dirent name ino (length ?c)"
    using assms by (simp add: dirbuf_of_def dirbuf_add_def Let_def)
  obtain r where r: "dirbuf_of dirent_size add_dirent (es @ (name, ino) # es') = ?c @ r"
    using grows [of ?c] by (auto simp: dirbuf_of_def)
  show ?thesis
    by (rule exI [of _ r], subst (1 2) r, subst (1) c) (simp add: reply_buf_limited_def min_def)
qed

theorem readdir_resumes_witness:
  "reply_buf_limited (dirbuf_of (\<lambda>n. n + 1) (\<lambda>n i k. n @ ['' '' ! 0]) [(''a'', 1), (''bc'', 2)]) (Suc (Suc 0)) 10 = Some ''bc ''"
proof -
  let ?a = "\<lambda>n (i :: inum) (k :: nat). n @ ['' '' ! 0]"
  have "\<forall>n i k. length (?a n i k) = length n + 1" by simp
  from readdir_resumes [of ?a "\<lambda>n. n + 1" "[]" "''a''" 1 "[(''bc'', 2)]" 10, OF this] show ?thesis
    by (auto simp: dirbuf_of_def dirbuf_add_def Let_def)
qed

end
