(* ===== verification/FileSystem.thy ===== *)
theory FileSystem
  imports Yfs "HOL-Library.Sublist"
begin

text \<open>
  Correctness of the file system handlers of theory \<open>Yfs\<close>: a directory's text stands for a list
  of entries, reads and writes are those of a byte sequence, and every handler uses an extent
  only between its acquire and its release.
\<close>

section \<open>Directories as lists\<close>

definition entry_text :: "string \<times> inum \<Rightarrow> string" where
  "entry_text e = fst e @ ''='' @ yfs_filename (snd e) @ '';''"

definition render :: "(string \<times> inum) list \<Rightarrow> string" where
  "render d = concat (map entry_text d)"

definition name_ok :: "string \<Rightarrow> bool" where
  "name_ok n \<longleftrightarrow> CHR ''='' \<notin> set n \<and> CHR '';'' \<notin> set n"

definition dir_ok :: "(string \<times> inum) list \<Rightarrow> bool" where
  "dir_ok d \<longleftrightarrow> (\<forall>e \<in> set d. name_ok (fst e))"

lemma render_simps [simp]:
  "render [] = []" "render (e # d) = entry_text e @ render d" "render (d @ d') = render d @ render d'"
  by (simp_all add: render_def)

lemma filename_digits: "\<forall>c \<in> set (yfs_filename i). is_digit c" "yfs_filename i \<noteq> []"
  using show_nat_props [of "unat i"] by (simp_all add: yfs_filename_def show_word_def)

lemma filename_chars: "CHR ''='' \<notin> set (yfs_filename i)" "CHR '';'' \<notin> set (yfs_filename i)"
proof -
  have "\<not> is_digit CHR ''=''" "\<not> is_digit CHR '';''" by (simp_all add: is_digit_def)
  then show "CHR ''='' \<notin> set (yfs_filename i)" "CHR '';'' \<notin> set (yfs_filename i)"
    using filename_digits(1) [of i] by blast+
qed

lemma dir_append_render: "dir_append (render d) n i = render (d @ [(n, i)])"
  by (simp add: dir_append_def entry_text_def)

lemma n2i_filename: "\<not> is_digit c \<Longrightarrow> n2i (yfs_filename i @ c # r) = i"
proof -
  assume c: "\<not> is_digit c"
  have "dropWhile is_space (yfs_filename i @ c # r) = yfs_filename i @ c # r"
    using filename_digits [of i] digit_not_space by (cases "yfs_filename i") auto
  moreover have "takeWhile is_digit (yfs_filename i @ c # r) = yfs_filename i"
    using takeWhile_until [OF filename_digits(1) c] by blast
  moreover have "read_nat (yfs_filename i) = unat i"
    using show_nat_props [of "unat i"] by (simp add: yfs_filename_def show_word_def)
  moreover have "\<not> 2 ^ LENGTH(64) \<le> unat i"
    using unsigned_less [of i, where ?'a = nat] by (simp only: not_le)
  ultimately show ?thesis using filename_digits(2) [of i] by (simp add: n2i_def in_uint_def Let_def)
qed

lemma n2i_filename_end: "n2i (yfs_filename i) = i"
proof -
  have dw: "dropWhile is_space (yfs_filename i) = yfs_filename i"
    using filename_digits [of i] digit_not_space by (cases "yfs_filename i") auto
  have tw: "takeWhile is_digit (yfs_filename i) = yfs_filename i"
    using filename_digits(1) by (simp add: takeWhile_eq_all_conv)
  have rn: "read_nat (yfs_filename i) = unat i"
    using show_nat_props [of "unat i"] by (simp add: yfs_filename_def show_word_def)
  have "\<not> 2 ^ LENGTH(64) \<le> unat i"
    using unsigned_less [of i, where ?'a = nat] by (simp only: not_le)
  then show ?thesis using filename_digits(2) [of i] by (simp add: n2i_def in_uint_def Let_def dw tw rn)
qed

section \<open>Searching a directory\<close>

lemma prefix_key:
  assumes "CHR ''='' \<notin> set p" and "CHR ''='' \<notin> set n"
  shows "is_prefix (p @ ''='') (n @ CHR ''='' # r) \<longleftrightarrow> p = n"
proof
  assume "is_prefix (p @ ''='') (n @ CHR ''='' # r)"
  then obtain s where s: "p @ CHR ''='' # s = n @ CHR ''='' # r"
    unfolding is_prefix_def by (metis append_Cons append_assoc append_take_drop_id self_append_conv2)
  have "takeWhile (\<lambda>c. c \<noteq> CHR ''='') (p @ CHR ''='' # s) = p"
    using assms(1) takeWhile_until [of p "\<lambda>c. c \<noteq> CHR ''=''" "CHR ''=''" s] by blast
  moreover have "takeWhile (\<lambda>c. c \<noteq> CHR ''='') (n @ CHR ''='' # r) = n"
    using assms(2) takeWhile_until [of n "\<lambda>c. c \<noteq> CHR ''=''" "CHR ''=''" r] by blast
  ultimately show "p = n" using s by simp
qed (simp add: is_prefix_def)

lemma prefix_before_semi:
  assumes "CHR '';'' \<notin> set p" and "CHR ''='' \<notin> set u"
  shows "\<not> is_prefix (p @ ''='') (u @ CHR '';'' # r)"
proof
  assume a: "is_prefix (p @ ''='') (u @ CHR '';'' # r)"
  show False
  proof (cases "length p < length u")
    case True
    then have "u ! length p = CHR ''=''"
      using a unfolding is_prefix_def
      by (metis length_append_singleton lessI nth_append nth_append_length nth_take)
    then show False using assms(2) True nth_mem by metis
  next
    case False
    then have "(p @ ''='') ! length u = (u @ CHR '';'' # r) ! length u"
      using a unfolding is_prefix_def by (metis length_append_singleton less_Suc_eq_le not_less nth_take)
    then have e: "(p @ ''='') ! length u = CHR '';''" by simp
    show False
    proof (cases "length u = length p")
      case True
      then show False using e by (simp add: nth_append)
    next
      case neq: False
      then have "p ! length u = CHR '';''" "length u < length p" using e False by (auto simp: nth_append)
      then show False using assms(1) nth_mem by metis
    qed
  qed
qed

lemma find_skip:
  assumes "CHR '';'' \<notin> set p" and "CHR ''='' \<notin> set u"
  shows "str_find (p @ ''='') (u @ CHR '';'' # r) = map_option ((+) (Suc (length u))) (str_find (p @ ''='') r)"
  using assms(2)
proof (induction u)
  case Nil
  have "\<not> is_prefix (p @ ''='') (CHR '';'' # r)" using prefix_before_semi [OF assms(1), of "[]" r] by simp
  then show ?case by (simp add: str_find.simps [of _ "CHR '';'' # r"])
next
  case (Cons c u)
  have "\<not> is_prefix (p @ ''='') ((c # u) @ CHR '';'' # r)" using prefix_before_semi [OF assms(1) Cons.prems] .
  then show ?case using Cons
    by (simp add: str_find.simps [of _ "c # _"] option.map_comp comp_def)
qed

lemma find_name:
  assumes "CHR ''='' \<notin> set p" and "CHR ''='' \<notin> set n"
  shows "str_find (p @ ''='') (n @ CHR ''='' # r) =
    (if suffix p n then Some (length n - length p)
     else map_option ((+) (Suc (length n))) (if p = [] then None else str_find (p @ ''='') r))"
  using assms(2)
proof (induction n)
  case Nil
  show ?case
  proof (cases "p = []")
    case True
    then show ?thesis by (simp add: str_find.simps is_prefix_def)
  next
    case False
    then have "\<not> is_prefix (p @ ''='') ([] @ CHR ''='' # r)" using prefix_key [OF assms(1), of "[]" r] by simp
    then show ?thesis using False
      by (cases "str_find (p @ ''='') r") (simp_all add: str_find.simps [of _ "CHR ''='' # r"])
  qed
next
  case (Cons c n)
  have pk: "is_prefix (p @ ''='') ((c # n) @ CHR ''='' # r) \<longleftrightarrow> p = c # n"
    using prefix_key [OF assms(1) Cons.prems] .
  show ?case
  proof (cases "p = c # n")
    case True
    then show ?thesis using pk by (simp add: str_find.simps)
  next
    case False
    then have "suffix p (c # n) \<longleftrightarrow> suffix p n" by (simp add: suffix_Cons)
    moreover have "str_find (p @ ''='') ((c # n) @ CHR ''='' # r) = map_option Suc (str_find (p @ ''='') (n @ CHR ''='' # r))"
      using pk False by (simp add: str_find.simps [of _ "c # _"])
    moreover have "suffix p n \<Longrightarrow> length p \<le> length n" by (rule suffix_length_le)
    ultimately show ?thesis using Cons
      by (auto simp: option.map_comp comp_def Suc_diff_le)
  qed
qed

lemma find_entry:
  assumes "name_ok p" and "name_ok (fst e)"
  shows "str_find (p @ ''='') (entry_text e @ r) =
    (if suffix p (fst e) then Some (length (fst e) - length p)
     else map_option ((+) (length (entry_text e))) (str_find (p @ ''='') r))"
proof -
  obtain n i where e: "e = (n, i)" by force
  have t: "entry_text e @ r = n @ CHR ''='' # (yfs_filename i @ CHR '';'' # r)"
    by (simp add: entry_text_def e)
  have l: "length (entry_text e) = Suc (length n) + Suc (length (yfs_filename i))"
    by (simp add: entry_text_def e)
  have "str_find (p @ ''='') (yfs_filename i @ CHR '';'' # r) =
      map_option ((+) (Suc (length (yfs_filename i)))) (str_find (p @ ''='') r)"
    using find_skip assms(1) filename_chars by (simp add: name_ok_def)
  moreover have "p = [] \<Longrightarrow> suffix p n" by simp
  ultimately show ?thesis
    using find_name [of p n "yfs_filename i @ CHR '';'' # r"] assms e
    unfolding t l by (cases "str_find (p @ ''='') r") (auto simp: name_ok_def)
qed

lemma find_render_none:
  assumes "name_ok p" and "dir_ok d" and "\<forall>e \<in> set d. \<not> suffix p (fst e)"
  shows "str_find (p @ ''='') (render d @ r) = map_option ((+) (length (render d))) (str_find (p @ ''='') r)"
  using assms(2,3)
proof (induction d)
  case Nil
  show ?case by (cases "str_find (p @ ''='') r") simp_all
next
  case (Cons e d)
  then show ?case using find_entry [OF assms(1), of e "render d @ r"]
    by (simp add: dir_ok_def option.map_comp comp_def add.assoc)
qed

lemma find_empty: "str_find (p @ ''='') [] = None"
  by (simp add: str_find.simps is_prefix_def)

lemma find_render:
  assumes "name_ok p" and "dir_ok (d1 @ (q @ p, i) # d2)" and "\<forall>e \<in> set d1. \<not> suffix p (fst e)"
  shows "str_find (p @ ''='') (render (d1 @ (q @ p, i) # d2)) = Some (length (render d1) + length q)"
proof -
  have "suffix p (q @ p)" by (rule suffixI) (rule refl)
  then show ?thesis
    using find_render_none [OF assms(1) _ assms(3), of "render ((q @ p, i) # d2)"]
      find_entry [OF assms(1), of "(q @ p, i)" "render d2"] assms(2)
    by (simp add: dir_ok_def)
qed

lemma drop_render:
  "drop (length (render d1) + length q) (render (d1 @ (q @ p, i) # d2)) = entry_text (p, i) @ render d2"
  by (simp add: entry_text_def)

lemma entry_inum_text:
  assumes "name_ok p"
  shows "entry_inum (entry_text (p, i) @ r) = i" "find_first_of (CHR '';'') (entry_text (p, i) @ r) = length (entry_text (p, i)) - 1"
proof -
  let ?f = "yfs_filename i"
  have t: "entry_text (p, i) @ r = (p @ CHR ''='' # ?f) @ CHR '';'' # r" by (simp add: entry_text_def)
  have "\<forall>c \<in> set (p @ CHR ''='' # ?f). c \<noteq> CHR '';''"
    using assms filename_chars(2) [of i] by (auto simp: name_ok_def)
  then have "takeWhile (\<lambda>c. c \<noteq> CHR '';'') ((p @ CHR ''='' # ?f) @ CHR '';'' # r) = p @ CHR ''='' # ?f"
    using takeWhile_until [of "p @ CHR ''='' # ?f" "\<lambda>c. c \<noteq> CHR '';''" "CHR '';''" r] by blast
  then show f: "find_first_of (CHR '';'') (entry_text (p, i) @ r) = length (entry_text (p, i)) - 1"
    unfolding t find_first_of_def by (simp add: entry_text_def)
  have "\<forall>c \<in> set p. c \<noteq> CHR ''=''" using assms by (auto simp: name_ok_def)
  then have "takeWhile (\<lambda>c. c \<noteq> CHR ''='') (p @ CHR ''='' # (?f @ CHR '';'' # r)) = p"
    using takeWhile_until [of p "\<lambda>c. c \<noteq> CHR ''=''" "CHR ''=''" "?f @ CHR '';'' # r"] by blast
  then have s: "find_first_of (CHR ''='') (entry_text (p, i) @ r) = length p"
    unfolding find_first_of_def by (simp add: entry_text_def)
  have "drop (length p + 1) (entry_text (p, i) @ r) = ?f @ CHR '';'' # r" by (simp add: entry_text_def)
  then have "entry_inum (entry_text (p, i) @ r) = n2i (take (length p + length ?f) (?f @ CHR '';'' # r))"
    unfolding entry_inum_def Let_def s f by (simp add: entry_text_def)
  also have "\<dots> = i"
  proof (cases "length p")
    case 0
    then show ?thesis by (simp add: n2i_filename_end)
  next
    case (Suc k)
    then have "take (length p + length ?f) (?f @ CHR '';'' # r) = ?f @ CHR '';'' # take k r" by simp
    then show ?thesis using n2i_filename [of "CHR '';''" i "take k r"] by (simp add: is_digit_def)
  qed
  finally show "entry_inum (entry_text (p, i) @ r) = i" .
qed

text \<open>what a search of a directory finds.  It fails exactly when no entry's name ends with
  the name looked for; otherwise it stops at the first entry whose name ends with it, which need
  not be the entry of that name, and reads that entry's i-number.\<close>

theorem directory_search:
  assumes "name_ok p" and "dir_ok (d1 @ d2)" and "\<forall>e \<in> set d1. \<not> suffix p (fst e)"
  shows "(d2 = [] \<longrightarrow> str_find (p @ ''='') (render (d1 @ d2)) = None) \<and>
    (\<forall>q i d3. d2 = (q @ p, i) # d3 \<longrightarrow>
       (\<exists>pos. str_find (p @ ''='') (render (d1 @ d2)) = Some pos \<and>
          entry_inum (drop pos (render (d1 @ d2))) = i \<and>
          dir_unlink (render (d1 @ d2)) pos = render d1 @ q @ render d3))"
proof (intro conjI impI allI)
  assume "d2 = []"
  then show "str_find (p @ ''='') (render (d1 @ d2)) = None"
    using find_render_none [OF assms(1) _ assms(3), of "[]"] assms(2) find_empty by simp
next
  fix q i d3 assume d2: "d2 = (q @ p, i) # d3"
  let ?pos = "length (render d1) + length q"
  have f: "str_find (p @ ''='') (render (d1 @ d2)) = Some ?pos"
    using find_render [OF assms(1) _ assms(3)] assms(2) d2 by simp
  have dr: "drop ?pos (render (d1 @ d2)) = entry_text (p, i) @ render d3"
    using drop_render [of d1 q p i d3] d2 by simp
  have tk: "take ?pos (render (d1 @ d2)) = render d1 @ q" by (simp add: d2 entry_text_def)
  have "0 < length (entry_text (p, i))" by (simp add: entry_text_def)
  then have len: "length (entry_text (p, i)) - 1 + 1 = length (entry_text (p, i))" by simp
  have "dir_unlink (render (d1 @ d2)) ?pos =
      take ?pos (render (d1 @ d2)) @ drop (?pos + length (entry_text (p, i))) (render (d1 @ d2))"
    unfolding dir_unlink_def str_erase_def dr entry_inum_text(2) [OF assms(1)] len ..
  also have "drop (?pos + length (entry_text (p, i))) (render (d1 @ d2)) =
      drop (length (entry_text (p, i))) (drop ?pos (render (d1 @ d2)))"
    by (simp only: drop_drop add.commute)
  finally have "dir_unlink (render (d1 @ d2)) ?pos =
      take ?pos (render (d1 @ d2)) @ drop (length (entry_text (p, i))) (drop ?pos (render (d1 @ d2)))" .
  then have u: "dir_unlink (render (d1 @ d2)) ?pos = render d1 @ q @ render d3"
    unfolding dr tk by simp
  have ei: "entry_inum (drop ?pos (render (d1 @ d2))) = i"
    unfolding dr by (rule entry_inum_text(1) [OF assms(1)])
  show "\<exists>pos. str_find (p @ ''='') (render (d1 @ d2)) = Some pos \<and>
      entry_inum (drop pos (render (d1 @ d2))) = i \<and>
      dir_unlink (render (d1 @ d2)) pos = render d1 @ q @ render d3"
    using f u ei by blast
qed

theorem directory_search_witness:
  "\<exists>pos. str_find ''b='' (render [(''x'', 1), (''ab'', 5), (''b'', 6)]) = Some pos \<and>
    entry_inum (drop pos (render [(''x'', 1), (''ab'', 5), (''b'', 6)])) = 5 \<and>
    dir_unlink (render [(''x'', 1), (''ab'', 5), (''b'', 6)]) pos = ''x=1;ab=6;''"
proof -
  have a: "name_ok ''b''" "dir_ok ([(''x'', 1)] @ [(''ab'', 5), (''b'', 6)])"
    "\<forall>e \<in> set [(''x'', 1 :: inum)]. \<not> suffix ''b'' (fst e)"
    by (simp_all add: name_ok_def dir_ok_def suffix_def Cons_eq_append_conv)
  have r: "render [(''x'', 1)] @ ''a'' @ render [(''b'', 6)] = ''x=1;ab=6;''" by code_simp
  show ?thesis using directory_search [OF a] r by fastforce
qed

section \<open>Listing a directory\<close>

lemma split_semi_piece:
  assumes "CHR '';'' \<notin> set u"
  shows "split_semi (u @ CHR '';'' # r) = u # split_semi r"
proof -
  have "\<forall>c \<in> set u. c \<noteq> CHR '';''" using assms by auto
  then have "takeWhile (\<lambda>c. c \<noteq> CHR '';'') (u @ CHR '';'' # r) = u"
    "dropWhile (\<lambda>c. c \<noteq> CHR '';'') (u @ CHR '';'' # r) = CHR '';'' # r"
    using takeWhile_until [of u "\<lambda>c. c \<noteq> CHR '';''" "CHR '';''" r] by blast+
  then show ?thesis by (simp add: split_semi.simps [of "u @ _"])
qed

lemma parse_entry_text:
  assumes "name_ok n"
  shows "parse_entry (n @ CHR ''='' # yfs_filename i) = (n, i)"
proof -
  have "str_find ''='' (n @ CHR ''='' # yfs_filename i) = Some (length n)"
    using find_name [of "[]" n "yfs_filename i"] assms by (simp add: name_ok_def)
  then show ?thesis by (simp add: parse_entry_def n2i_filename_end)
qed

lemma parse_entries_render:
  assumes "dir_ok d"
  shows "map parse_entry (split_semi (render d)) = d"
  using assms
proof (induction d)
  case Nil
  then show ?case by (simp add: split_semi.simps)
next
  case (Cons e d)
  obtain n i where e: "e = (n, i)" by force
  have n: "name_ok n" "dir_ok d" using Cons.prems e by (auto simp: dir_ok_def)
  have t: "render (e # d) = (n @ CHR ''='' # yfs_filename i) @ CHR '';'' # render d"
    by (simp add: e entry_text_def)
  have "CHR '';'' \<notin> set (n @ CHR ''='' # yfs_filename i)"
    using n(1) filename_chars by (simp add: name_ok_def)
  then show ?case
    using split_semi_piece [of "n @ CHR ''='' # yfs_filename i" "render d"] Cons.IH [OF n(2)]
      parse_entry_text [OF n(1)] unfolding t by (simp add: e)
qed

section \<open>File contents\<close>

text \<open>The specification of a write at an offset: zeros up to it, the data, the rest of the file.\<close>

definition write_spec :: "string \<Rightarrow> nat \<Rightarrow> string \<Rightarrow> string" where
  "write_spec f off d = take off (f @ replicate (off - length f) nul) @ d @ drop (off + length d) f"

lemma write_content_spec:
  "length d = n \<Longrightarrow> write_content f off n d = write_spec f off d"
  unfolding write_content_def write_spec_def str_replace_def by simp

lemma write_bytes_exact:
  assumes "nul \<notin> set (take n buf)" and "n \<le> length buf"
  shows "write_bytes buf n = take n buf"
proof -
  have "takeWhile (\<lambda>c. c \<noteq> nul) buf = takeWhile (\<lambda>c. c \<noteq> nul) (take n buf @ drop n buf)"
    by (simp only: append_take_drop_id)
  also have "\<dots> = take n buf @ takeWhile (\<lambda>c. c \<noteq> nul) (drop n buf)"
    by (rule takeWhile_append2) (use assms(1) in metis)
  finally show ?thesis using assms(2) by (simp add: write_bytes_def)
qed

section \<open>The handlers over the store\<close>

text \<open>What the client sees of the store, and the text of a file or directory, empty if missing.\<close>

definition seen :: "yfs \<Rightarrow> inum \<Rightarrow> string option" where
  "seen y = view (y_cs y)"

definition yfs_ok :: "yfs \<Rightarrow> bool" where
  "yfs_ok y \<longleftrightarrow> cache_ok (y_cs y)"

definition text_of :: "yfs \<Rightarrow> inum \<Rightarrow> string" where
  "text_of y i = (case seen y i of Some s \<Rightarrow> s | None \<Rightarrow> [])"

lemma lock_ops [simp]:
  "seen (yfs_acquire i y) = seen y" "seen (yfs_release i y) = seen y"
  "yfs_ok (yfs_acquire i y) = yfs_ok y" "yfs_ok (yfs_release i y) = yfs_ok y"
  "y_trace (yfs_acquire i y) = y_trace y @ [Acq i]" "y_trace (yfs_release i y) = y_trace y @ [Rel i]"
  "text_of (yfs_acquire i y) = text_of y" "text_of (yfs_release i y) = text_of y"
  by (simp_all add: seen_def yfs_ok_def yfs_acquire_def yfs_release_def note_act_def text_of_def fun_eq_iff)

lemma get_content:
  assumes "yfs_ok y" and g: "get_fileDir_content i [] y = (y', r, s)"
  shows "seen y' = seen y" "yfs_ok y'" "s = text_of y i" "y_trace y' = y_trace y @ [Use i]"
proof -
  obtain cs st where c: "client_get (y_now y) i [] (y_cs y) = (cs, st, s)"
    "y' = note_act (Use i) (y\<lparr>y_cs := cs\<rparr>)"
    using g by (auto simp: get_fileDir_content_def split: prod.splits)
  obtain a where f: "fileGetter (y_now y) i [] (Attr 0 0 0 0) (y_cs y) = (cs, st, s, a)"
    using c(1) by (auto simp: client_get_def split: prod.splits)
  note v = fileGetter_view [OF assms(1) [unfolded yfs_ok_def], of "y_now y" i "[]" "Attr 0 0 0 0"]
  show "seen y' = seen y" "yfs_ok y'" using v f c(2) by (auto simp: seen_def yfs_ok_def note_act_def)
  show "y_trace y' = y_trace y @ [Use i]" by (simp add: c(2) note_act_def)
  show "s = text_of y i"
  proof (cases "seen y i")
    case (Some w)
    then show ?thesis using v f by (simp add: seen_def text_of_def)
  next
    case None
    have "s = []"
    proof (cases "y_cs y")
      case (Pair cache srv)
      then show ?thesis using None f
        by (auto simp: seen_def view_pair fileGetter_def fd_view_def extent_get_def extent_getattr_def content_def
            split: option.splits if_splits prod.splits)
    qed
    then show ?thesis using None by (simp add: text_of_def)
  qed
qed

lemma put_content:
  assumes "yfs_ok y" and "yfs_put i t y = (y', r)"
  shows "seen y' = (seen y)(i \<mapsto> t)" "yfs_ok y'" "y_trace y' = y_trace y @ [Use i]"
proof -
  obtain cache srv where cs: "y_cs y = (cache, srv)" by force
  let ?fd = "\<lparr>fd_attr = Attr (y_now y) (y_now y) (y_now y) (size_u32 t), fd_content = t,
    fd_isDirty = True, fd_removed = False, fd_exist = True\<rparr>"
  have y': "y' = note_act (Use i) (y\<lparr>y_cs := (cache(i \<mapsto> ?fd), srv)\<rparr>)"
    using assms(2) cs by (simp add: yfs_put_def client_put_def Let_def split: if_splits)
  show "seen y' = (seen y)(i \<mapsto> t)"
    by (simp add: y' seen_def note_act_def view_upd cs fd_view_def)
  show "yfs_ok y'"
    using assms(1) cs cache_ok_upd [of cache srv i ?fd] by (simp add: y' yfs_ok_def note_act_def entry_ok_def)
  show "y_trace y' = y_trace y @ [Use i]" by (simp add: y' note_act_def)
qed

lemma remove_content:
  assumes "yfs_ok y" and "yfs_remove i y = (y', r)"
  shows "seen y' = (seen y)(i := None)" "yfs_ok y'" "y_trace y' = y_trace y @ [Use i]"
proof -
  obtain cache srv where cs: "y_cs y = (cache, srv)" by force
  let ?fd = "\<lparr>fd_attr = Attr 0 0 0 0, fd_content = [], fd_isDirty = True, fd_removed = True, fd_exist = False\<rparr>"
  have y': "y' = note_act (Use i) (y\<lparr>y_cs := (cache(i \<mapsto> ?fd), srv)\<rparr>)"
    using assms(2) cs by (simp add: yfs_remove_def client_remove_def Let_def split: if_splits)
  show "seen y' = (seen y)(i := None)"
    by (simp add: y' seen_def note_act_def view_upd cs fd_view_def)
  show "yfs_ok y'"
    using assms(1) cs cache_ok_upd [of cache srv i ?fd] by (simp add: y' yfs_ok_def note_act_def entry_ok_def)
  show "y_trace y' = y_trace y @ [Use i]" by (simp add: y' note_act_def)
qed

lemma getattr_content:
  assumes "yfs_ok y" and g: "getattr_st i y = (y', r, st)"
  shows "seen y' = seen y" "yfs_ok y'" "y_trace y' = y_trace y @ [Use i]" "seen y i \<noteq> None \<Longrightarrow> r = YOK"
proof -
  obtain cs x b a where f: "fileGetter (y_now y) i [] (Attr 0 0 0 0) (y_cs y) = (cs, x, b, a)"
    by (metis prod_cases4)
  have y': "y' = note_act (Use i) (y\<lparr>y_cs := cs\<rparr>)" "r = (if x = XOK then YOK else YIOERR)"
    using g f by (auto simp: getattr_st_def yfs_getattr_def client_getattr_def)
  note v = fileGetter_view [OF assms(1) [unfolded yfs_ok_def], of "y_now y" i "[]" "Attr 0 0 0 0"]
  show "seen y' = seen y" "yfs_ok y'" using v f y' by (auto simp: seen_def yfs_ok_def note_act_def)
  show "y_trace y' = y_trace y @ [Use i]" by (simp add: y' note_act_def)
  show "r = YOK" if "seen y i \<noteq> None" using v f y' that by (auto simp: seen_def)
qed

text \<open>
  A trace is well locked when every use is of a held lock, no held lock is acquired again (the
  lock client would wait for itself), and in the end nothing is held.
\<close>

fun well_locked :: "inum set \<Rightarrow> yact list \<Rightarrow> bool" where
  "well_locked H [] \<longleftrightarrow> H = {}"
| "well_locked H (Acq i # t) \<longleftrightarrow> i \<notin> H \<and> well_locked (insert i H) t"
| "well_locked H (Rel i # t) \<longleftrightarrow> i \<in> H \<and> well_locked (H - {i}) t"
| "well_locked H (Use i # t) \<longleftrightarrow> i \<in> H \<and> well_locked H t"

definition locked_run :: "yfs \<Rightarrow> yfs \<Rightarrow> bool" where
  "locked_run y y' \<longleftrightarrow> (\<exists>t. y_trace y' = y_trace y @ t \<and> well_locked {} t)"

section \<open>Reading and writing\<close>

lemma fuse_write_run:
  assumes "yfs_ok y" and "isfile i"
  obtains y' where "fuse_write i buf n off y = (y', RWrite n)" "yfs_ok y'" "locked_run y y'"
    "seen y' = (seen y)(i \<mapsto> write_content (text_of y i) off n (write_bytes buf n))"
proof -
  obtain y1 r1 s1 where g: "get_fileDir_content i [] (yfs_acquire i y) = (y1, r1, s1)" by (metis prod_cases3)
  note g' = get_content [OF _ g, simplified, OF assms(1)]
  obtain y2 r2 where p: "yfs_put i (write_content s1 off n (write_bytes buf n)) y1 = (y2, r2)" by force
  note p' = put_content [OF g'(2) p]
  have "fuse_write i buf n off y = (yfs_release i y2, RWrite n)"
    using assms(2) g p by (simp add: fuse_write_def Let_def)
  moreover have "locked_run y (yfs_release i y2)"
    unfolding locked_run_def by (intro exI [of _ "[Acq i, Use i, Use i, Rel i]"]) (simp add: p'(3) g'(4))
  ultimately show thesis using that p' g' by simp
qed


definition ex_yfs :: yfs where
  "ex_yfs = \<lparr>y_cs = (Map.empty, [0x80000001 \<mapsto> (Attr 0 0 0 5, ''hello''),
     1 \<mapsto> (Attr 0 0 0 0, render [(''x'', 7), (''b'', 0x80000001)])]), y_now = 3, y_trace = []\<rparr>"

lemma ex_yfs_seen:
  "yfs_ok ex_yfs" "seen ex_yfs 0x80000001 = Some ''hello''" "text_of ex_yfs 0x80000001 = ''hello''"
  "seen ex_yfs 1 = Some (render [(''x'', 7), (''b'', 0x80000001)])"
  by (simp_all add: yfs_ok_def cache_ok_def ex_yfs_def seen_def view_def content_def text_of_def)


text \<open>a read returns the bytes at its offset; past the end of the file it does not return an
  empty buffer but lets the exception of \<open>substr\<close> escape the handler.\<close>

theorem fuse_read_correct:
  assumes "yfs_ok y" and "isfile i"
  shows "(off \<le> length (text_of y i) \<longrightarrow> (\<exists>y'. fuse_read i n off y = Inr (y', RBuf (take n (drop off (text_of y i)))) \<and>
      seen y' = seen y \<and> locked_run y y')) \<and>
    (length (text_of y i) < off \<longrightarrow> fuse_read i n off y = Inl OutOfRange)"
proof -
  obtain y1 r1 s1 where g: "get_fileDir_content i [] (yfs_acquire i y) = (y1, r1, s1)" by (metis prod_cases3)
  note g' = get_content [OF _ g, simplified, OF assms(1)]
  have "locked_run y (yfs_release i y1)"
    unfolding locked_run_def by (intro exI [of _ "[Acq i, Use i, Rel i]"]) (simp add: g'(4))
  then show ?thesis using assms(2) g g' by (auto simp: fuse_read_def Let_def substr_def)
qed

theorem fuse_read_correct_witness:
  "\<exists>y'. fuse_read 0x80000001 2 1 ex_yfs = Inr (y', RBuf ''el'') \<and> fuse_read 0x80000001 2 6 ex_yfs = Inl OutOfRange"
proof -
  have f: "isfile 0x80000001" by (simp add: isfile_def)
  show ?thesis
    using fuse_read_correct [OF ex_yfs_seen(1) f, of 1 2] fuse_read_correct [OF ex_yfs_seen(1) f, of 6 2]
    by (auto simp: ex_yfs_seen numeral_2_eq_2)
qed

text \<open>setattr cannot make a file longer.  The difference of the sizes is unsigned, so the
  branch that pads with zeros is taken only when it is 0: asking for a larger size leaves the
  content as it is.\<close>

theorem setattr_never_extends:
  assumes "yfs_ok y" and "isfile i" and "length (text_of y i) < n" and "n < 2 ^ 64"
  shows "\<exists>y' st. fuse_setattr i (Some n) y = (y', RAttr st) \<and> seen y' = (seen y)(i \<mapsto> text_of y i)"
proof -
  obtain y1 r1 s1 where g: "get_fileDir_content i [] (yfs_acquire i y) = (y1, r1, s1)" by (metis prod_cases3)
  note g' = get_content [OF _ g, simplified, OF assms(1)]
  let ?d = "word_of_nat (length s1) - word_of_nat n :: u64"
  have "word_of_nat (length s1) \<noteq> (word_of_nat n :: u64)"
  proof
    assume "word_of_nat (length s1) = (word_of_nat n :: u64)"
    then have "unat (word_of_nat (length s1) :: u64) = unat (word_of_nat n :: u64)" by simp
    then show False using assms(3,4) g'(3) by (simp add: unat_of_nat)
  qed
  then have "?d > 0" by (simp add: word_gt_0)
  moreover have "take n s1 = s1" using assms(3) g'(3) by simp
  ultimately have c: "(if ?d > 0 then take n s1 else s1 @ replicate (unat (- ?d)) nul) = s1" by simp
  obtain y2 r2 where p: "yfs_put i s1 y1 = (y2, r2)" by force
  note p' = put_content [OF g'(2) p]
  obtain y3 r3 st where t: "getattr_st i y2 = (y3, r3, st)" by (metis prod_cases3)
  note t' = getattr_content [OF p'(2) t]
  have "fuse_setattr i (Some n) y = (yfs_release i y3, RAttr st)"
    unfolding fuse_setattr_def using assms(2) g c p t by (simp only: option.case if_True Let_def split_conv)
  then show ?thesis using t' p' g' by simp
qed

theorem setattr_never_extends_witness:
  "\<exists>y' st. fuse_setattr 0x80000001 (Some 8) ex_yfs = (y', RAttr st) \<and> seen y' 0x80000001 = Some ''hello''"
proof -
  have f: "isfile 0x80000001" "length (text_of ex_yfs 0x80000001) < 8" "(8 :: nat) < 2 ^ 64"
    by (simp_all add: isfile_def ex_yfs_seen)
  show ?thesis using setattr_never_extends [OF ex_yfs_seen(1) f] by (auto simp: ex_yfs_seen)
qed

section \<open>Directory operations\<close>

lemma inum_kinds: "isfile (get_new_inum True r)" "isdir (get_new_inum False r)"
proof -
  have "bit (r OR 0x80000000 :: u64) 31 \<and> bit (0x80000000 :: u64) 31" by (simp add: bit_simps)
  then have "bit ((r OR 0x80000000) AND 0x80000000 :: u64) 31" by (simp add: bit_and_iff)
  then have "(r OR 0x80000000) AND 0x80000000 \<noteq> (0 :: u64)" by (metis bit_0_eq bot_apply bot_bool_def)
  then show "isfile (get_new_inum True r)" by (simp add: isfile_def get_new_inum_def)
  have "(r AND 0x7FFFFFFF) AND 0x80000000 = (r AND (0x7FFFFFFF AND 0x80000000) :: u64)"
    by (simp only: and.assoc)
  also have "\<dots> = 0" by simp
  finally show "isdir (get_new_inum False r)" by (simp add: isdir_def isfile_def get_new_inum_def)
qed





text \<open>C29: unlink.  When the first entry whose name ends with the given one is the entry of that
  name, exactly that entry disappears and its file is removed.\<close>

theorem fuse_unlink_correct:
  assumes "yfs_ok y" and "isdir parent" and "seen y parent = Some (render (d1 @ (name, i) # d2))"
    and "dir_ok (d1 @ (name, i) # d2)" and "\<forall>e \<in> set d1. \<not> suffix name (fst e)" and "i \<noteq> parent"
  shows "\<exists>y'. fuse_unlink parent name y = (y', RErr E_OK) \<and> locked_run y y' \<and>
    seen y' = (seen y)(parent \<mapsto> render (d1 @ d2), i := None)"
proof -
  have n: "name_ok name" using assms(4) by (simp add: dir_ok_def)
  obtain y1 r1 s1 where g: "get_fileDir_content parent [] (yfs_acquire parent y) = (y1, r1, s1)" by (metis prod_cases3)
  note g' = get_content [OF _ g, simplified, OF assms(1)]
  have s1: "s1 = render (d1 @ (name, i) # d2)" using g'(3) assms(3) by (simp add: text_of_def)
  let ?pos = "length (render d1)"
  have f: "str_find (name @ ''='') s1 = Some ?pos"
    using find_render [OF n, of d1 "[]" i d2] assms(4,5) s1 by simp
  have dr: "drop ?pos s1 = entry_text (name, i) @ render d2"
    using drop_render [of d1 "[]" name i d2] s1 by simp
  have ei: "entry_inum (drop ?pos s1) = i" unfolding dr by (rule entry_inum_text(1) [OF n])
  have du: "dir_unlink s1 ?pos = render (d1 @ d2)"
  proof -
    have "0 < length (entry_text (name, i))" by (simp add: entry_text_def)
    then have "length (entry_text (name, i)) - 1 + 1 = length (entry_text (name, i))" by simp
    then have "dir_unlink s1 ?pos = take ?pos s1 @ drop (?pos + length (entry_text (name, i))) s1"
      unfolding dir_unlink_def str_erase_def dr entry_inum_text(2) [OF n] by simp
    then show ?thesis by (simp add: s1)
  qed
  obtain y2 r2 where p: "yfs_put parent (render (d1 @ d2)) y1 = (y2, r2)" by force
  note p' = put_content [OF g'(2) p]
  obtain y3 r3 where m: "yfs_remove i (yfs_acquire i y2) = (y3, r3)" by force
  note m' = remove_content [OF _ m, simplified, OF p'(2)]
  have "fuse_unlink parent name y = (yfs_release parent (yfs_release i y3), RErr E_OK)"
    unfolding fuse_unlink_def Let_def using assms(2) g f ei du p m by simp
  moreover have "locked_run y (yfs_release parent (yfs_release i y3))"
    unfolding locked_run_def
    by (intro exI [of _ "[Acq parent, Use parent, Use parent, Acq i, Use i, Rel i, Rel parent]"])
      (simp add: m'(3) p'(3) g'(4) assms(6) assms(6) [symmetric])
  ultimately show ?thesis using m'(1) p'(1) g'(1) by simp
qed

theorem fuse_unlink_correct_witness:
  "\<exists>y'. fuse_unlink 1 ''b'' ex_yfs = (y', RErr E_OK) \<and> seen y' 1 = Some (render [(''x'', 7)]) \<and>
    seen y' 0x80000001 = None"
proof -
  let ?d = "[(''x'', 7)] @ (''b'', 0x80000001) # [] :: (string \<times> inum) list"
  have a: "isdir 1" "seen ex_yfs 1 = Some (render ?d)" "dir_ok ?d" "\<forall>e \<in> set [(''x'', 7 :: inum)]. \<not> suffix ''b'' (fst e)"
    "(0x80000001 :: inum) \<noteq> 1"
    using ex_yfs_seen(4) by (simp_all add: isdir_def isfile_def dir_ok_def name_ok_def suffix_def Cons_eq_append_conv)
  show ?thesis using fuse_unlink_correct [OF ex_yfs_seen(1) a] by auto
qed

text \<open>lookup.  When the first entry whose name ends with the given one is the entry of that
  name and its extent exists, the reply is its i-number; nothing changes, and when no entry's
  name ends with it the reply is ENOENT.\<close>

theorem fuse_lookup_correct:
  assumes "yfs_ok y" and "seen y parent = Some (render (d1 @ d2))" and "dir_ok (d1 @ d2)" and "name_ok name"
    and "\<forall>e \<in> set d1. \<not> suffix name (fst e)"
  shows "(d2 = [] \<longrightarrow> (\<exists>y'. fuse_lookup parent name y = (y', RErr ENOENT) \<and> seen y' = seen y \<and> locked_run y y')) \<and>
    (\<forall>i d3. d2 = (name, i) # d3 \<longrightarrow> seen y i \<noteq> None \<longrightarrow> i \<noteq> parent \<longrightarrow>
      (\<exists>y' st. fuse_lookup parent name y = (y', REntry i st) \<and> seen y' = seen y \<and> locked_run y y'))"
proof -
  obtain y1 r1 s1 where g: "get_fileDir_content parent [] (yfs_acquire parent y) = (y1, r1, s1)" by (metis prod_cases3)
  note g' = get_content [OF _ g, simplified, OF assms(1)]
  have s1: "s1 = render (d1 @ d2)" using g'(3) assms(2) by (simp add: text_of_def)
  show ?thesis
  proof (intro conjI impI allI)
    assume "d2 = []"
    then have "str_find (name @ ''='') s1 = None"
      using find_render_none [OF assms(4) _ assms(5), of "[]"] assms(3) find_empty s1 by simp
    then have "fuse_lookup parent name y = (yfs_release parent y1, RErr ENOENT)"
      using g by (simp add: fuse_lookup_def Let_def)
    moreover have "locked_run y (yfs_release parent y1)"
      unfolding locked_run_def by (intro exI [of _ "[Acq parent, Use parent, Rel parent]"]) (simp add: g'(4))
    ultimately show "\<exists>y'. fuse_lookup parent name y = (y', RErr ENOENT) \<and> seen y' = seen y \<and> locked_run y y'"
      using g'(1) by simp
  next
    fix i d3 assume d2: "d2 = (name, i) # d3" and ex: "seen y i \<noteq> None" and ne: "i \<noteq> parent"
    let ?pos = "length (render d1)"
    have f: "str_find (name @ ''='') s1 = Some ?pos"
      using find_render [OF assms(4), of d1 "[]" i d3] assms(3,5) s1 d2 by simp
    have "drop ?pos s1 = entry_text (name, i) @ render d3"
      using drop_render [of d1 "[]" name i d3] s1 d2 by simp
    then have ei: "entry_inum (drop ?pos s1) = i" using entry_inum_text(1) [OF assms(4)] by simp
    obtain y2 r2 st where t: "getattr_st i (yfs_acquire i y1) = (y2, r2, st)" by (metis prod_cases3)
    note t' = getattr_content [OF _ t, simplified, OF g'(2)]
    have "fuse_lookup parent name y = (yfs_release parent (yfs_release i y2), REntry i st)"
      unfolding fuse_lookup_def Let_def using g f ei t t'(4) g'(1) ex by simp
    moreover have "locked_run y (yfs_release parent (yfs_release i y2))"
      unfolding locked_run_def
      by (intro exI [of _ "[Acq parent, Use parent, Acq i, Use i, Rel i, Rel parent]"])
        (simp add: t'(3) g'(4) ne ne [symmetric])
    ultimately show "\<exists>y' st. fuse_lookup parent name y = (y', REntry i st) \<and> seen y' = seen y \<and> locked_run y y'"
      using t'(1) g'(1) by simp
  qed
qed

theorem fuse_lookup_correct_witness:
  "\<exists>y' st y''. fuse_lookup 1 ''b'' ex_yfs = (y', REntry 0x80000001 st) \<and> fuse_lookup 1 ''q'' ex_yfs = (y'', RErr ENOENT)"
proof -
  let ?d = "[(''x'', 7)] @ [(''b'', 0x80000001)] :: (string \<times> inum) list"
  let ?e = "[(''x'', 7), (''b'', 0x80000001)] @ [] :: (string \<times> inum) list"
  have a: "seen ex_yfs 1 = Some (render ?d)" "dir_ok ?d" "name_ok ''b''" "\<forall>e \<in> set [(''x'', 7 :: inum)]. \<not> suffix ''b'' (fst e)"
    and b: "seen ex_yfs 1 = Some (render ?e)" "dir_ok ?e" "name_ok ''q''"
    "\<forall>e \<in> set [(''x'', 7), (''b'', 0x80000001 :: inum)]. \<not> suffix ''q'' (fst e)"
    using ex_yfs_seen(4) by (simp_all add: dir_ok_def name_ok_def suffix_def Cons_eq_append_conv)
  show ?thesis
    using fuse_lookup_correct [OF ex_yfs_seen(1) a] fuse_lookup_correct [OF ex_yfs_seen(1) b] ex_yfs_seen(2) by fastforce
qed

end
