(* ===== verification/FsTyped.thy ===== *)
theory FsTyped
  imports FileSystem
begin

text \<open>
  The type invariant of the file system: whatever requests are handled, the text of every directory
  stays a list of entries.  It holds as long as names have no separator in them and unlink
  finds its name at the start of an entry; the code checks neither.
\<close>

section \<open>What the handlers change\<close>

definition dir_text :: "string \<Rightarrow> bool" where
  "dir_text s \<longleftrightarrow> (\<exists>d. dir_ok d \<and> s = render d)"

definition typed :: "yfs \<Rightarrow> bool" where
  "typed y \<longleftrightarrow> yfs_ok y \<and> (\<forall>i s. isdir i \<longrightarrow> seen y i = Some s \<longrightarrow> dir_text s)"

lemma typed_text: "typed y \<Longrightarrow> isdir i \<Longrightarrow> dir_text (text_of y i)"
  by (auto simp: typed_def text_of_def dir_text_def dir_ok_def split: option.split intro: exI [of _ "[]"])

lemma typed_same: "typed y \<Longrightarrow> yfs_ok y' \<Longrightarrow> seen y' = seen y \<Longrightarrow> typed y'"
  by (simp add: typed_def)

lemma typed_upd:
  "typed y \<Longrightarrow> yfs_ok y' \<Longrightarrow> seen y' = (seen y)(i \<mapsto> s) \<Longrightarrow> isfile i \<or> dir_text s \<Longrightarrow> typed y'"
  by (auto simp: typed_def isdir_def)

lemma typed_lock [simp]: "typed (yfs_acquire i y) = typed y" "typed (yfs_release i y) = typed y"
  by (simp_all add: typed_def)

lemma dir_text_empty: "dir_text []"
  unfolding dir_text_def dir_ok_def by (intro exI [of _ "[]"]) simp

lemma dir_text_append: "dir_text s \<Longrightarrow> name_ok n \<Longrightarrow> dir_text (dir_append s n i)"
proof -
  assume "dir_text s" and n: "name_ok n"
  then obtain d where "dir_ok d" "s = render d" by (auto simp: dir_text_def)
  then have "dir_append s n i = render (d @ [(n, i)])" "dir_ok (d @ [(n, i)])"
    using dir_append_render [of d n i] n by (simp_all add: dir_ok_def)
  then show ?thesis unfolding dir_text_def by blast
qed

lemma typed_get:
  assumes "typed y" and "get_fileDir_content i [] y = (y', r, s)"
  shows "typed y'" "s = text_of y i" "seen y' = seen y"
  using assms(1) get_content [OF _ assms(2)] by (auto simp: typed_def)

lemma typed_put:
  assumes "typed y" and "yfs_put i t y = (y', r)" and "isfile i \<or> dir_text t"
  shows "typed y'"
  using typed_upd [OF assms(1) _ _ assms(3)] put_content [OF _ assms(2)] assms(1) by (simp add: typed_def)

lemma typed_getattr: "typed y \<Longrightarrow> getattr_st i y = (y', r, st) \<Longrightarrow> typed y'"
  using getattr_content typed_same by (metis typed_def)

lemma typed_remove: "typed y \<Longrightarrow> yfs_remove i y = (y', r) \<Longrightarrow> typed y'"
  using remove_content [of y i y' r] by (auto simp: typed_def)

lemma typed_flush: "typed y \<Longrightarrow> typed (yfs_dorelease i y)"
proof -
  assume t: "typed y"
  then have ok: "cache_ok (y_cs y)" by (simp add: typed_def yfs_ok_def)
  have "view (fst (client_flush (y_now y) i (y_cs y))) = view (y_cs y)"
    using cache_views [of "fst (y_cs y)" "snd (y_cs y)"] ok by (metis prod.collapse)
  then show ?thesis using t flush_cache_ok [OF ok] by (simp add: typed_def yfs_ok_def seen_def yfs_dorelease_def)
qed

section \<open>Each handler keeps the types\<close>

lemma typed_fuse_getattr: "typed y \<Longrightarrow> typed (fst (fuse_getattr i y))"
  using typed_getattr [of "yfs_acquire i y" i] by (simp add: fuse_getattr_def Let_def split: prod.split)

lemma typed_fuse_setattr: "typed y \<Longrightarrow> typed (fst (fuse_setattr i to_size y))"
proof -
  assume t: "typed y"
  show ?thesis
  proof (cases "isfile i \<and> to_size \<noteq> None")
    case True
    then obtain n where n: "to_size = Some n" and f: "isfile i" by blast
    obtain y1 r1 s where g: "get_fileDir_content i [] (yfs_acquire i y) = (y1, r1, s)" by (metis prod_cases3)
    note t1 = typed_get(1) [OF _ g, simplified, OF t]
    let ?d = "word_of_nat (length s) - word_of_nat n :: u64"
    let ?c = "if ?d > 0 then take n s else s @ replicate (unat (- ?d)) nul"
    obtain y2 r2 where p: "yfs_put i ?c y1 = (y2, r2)" by force
    then have t2: "typed y2" using typed_put [OF t1] f by blast
    obtain y3 r3 st where a: "getattr_st i y2 = (y3, r3, st)" by (metis prod_cases3)
    have "fst (fuse_setattr i to_size y) = yfs_release i y3"
      unfolding fuse_setattr_def n option.case Let_def using f g p a by (simp only: if_True split_conv fst_conv)
    then show ?thesis using typed_getattr [OF t2 a] by simp
  next
    case False
    then have "fst (fuse_setattr i to_size y) = y" by (auto simp: fuse_setattr_def split: option.split)
    then show ?thesis using t by simp
  qed
qed

lemma typed_fuse_read:
  assumes "typed y" and "fuse_read i sz off y = Inr (y', r)"
  shows "typed y'"
proof -
  obtain y1 r1 s where g: "get_fileDir_content i [] (yfs_acquire i y) = (y1, r1, s)" by (metis prod_cases3)
  note typed_get(1) [OF _ g, simplified, OF assms(1)]
  then show ?thesis using assms g
    by (auto simp: fuse_read_def rbind_def Let_def substr_def split: if_splits)
qed

lemma typed_fuse_write: "typed y \<Longrightarrow> typed (fst (fuse_write i buf sz off y))"
proof -
  assume t: "typed y"
  show ?thesis
  proof (cases "isfile i")
    case True
    have ok: "yfs_ok y" using t by (simp add: typed_def)
    obtain y' where "fuse_write i buf sz off y = (y', RWrite sz)" "yfs_ok y'"
      "seen y' = (seen y)(i \<mapsto> write_content (text_of y i) off sz (write_bytes buf sz))"
      using fuse_write_run [OF ok True] by metis
    then show ?thesis using typed_upd [OF t] True by simp
  qed (use t in \<open>simp add: fuse_write_def\<close>)
qed

lemma typed_fuse_lookup: "typed y \<Longrightarrow> typed (fst (fuse_lookup parent name y))"
proof -
  assume t: "typed y"
  obtain y1 r1 s where g: "get_fileDir_content parent [] (yfs_acquire parent y) = (y1, r1, s)" by (metis prod_cases3)
  note t1 = typed_get(1) [OF _ g, simplified, OF t]
  show ?thesis
  proof (cases "str_find (name @ ''='') s")
    case None
    then show ?thesis using g t1 by (simp add: fuse_lookup_def)
  next
    case (Some pos)
    let ?i = "entry_inum (drop pos s)"
    obtain y2 r2 st where a: "getattr_st ?i (yfs_acquire ?i y1) = (y2, r2, st)" by (metis prod_cases3)
    have "typed (yfs_acquire ?i y1)" using t1 by simp
    then have "typed y2" using a by (rule typed_getattr)
    then show ?thesis using g Some a by (simp add: fuse_lookup_def Let_def)
  qed
qed

lemma typed_fuse_readdir: "typed y \<Longrightarrow> typed (fst (fuse_readdir i y))"
  using typed_get(1) [of "yfs_acquire i y" i]
  by (simp add: fuse_readdir_def Let_def split: prod.split)

lemma typed_createhelper:
  assumes "typed y" and "name_ok name"
  shows "typed (fst (createhelper parent name r y))"
proof (cases "isdir parent")
  case True
  obtain y1 r1 s where g: "get_fileDir_content parent [] (yfs_acquire parent y) = (y1, r1, s)" by (metis prod_cases3)
  note t1 = typed_get [OF _ g, simplified, OF assms(1)]
  let ?i = "get_new_inum True r"
  show ?thesis
  proof (cases "str_find (name @ ''='') s = None")
    case find: True
    obtain y2 r2 where p: "yfs_put ?i [] (yfs_acquire ?i y1) = (y2, r2)" by force
    obtain y3 r3 where q: "yfs_put parent (dir_append s name ?i) y2 = (y3, r3)" by force
    obtain y4 r4 st where a: "getattr_st ?i y3 = (y4, r4, st)" by (metis prod_cases3)
    have t2: "typed y2" using typed_put [OF _ p] t1(1) dir_text_empty by simp
    have "dir_text (dir_append s name ?i)"
      using dir_text_append typed_text [OF assms(1) True] t1(2) assms(2) by simp
    then have t3: "typed y3" using typed_put [OF t2 q] by blast
    have "fst (createhelper parent name r y) = yfs_release parent (yfs_release ?i y4)"
      using True g find p q a by (simp add: createhelper_def Let_def)
    then show ?thesis using typed_getattr [OF t3 a] by simp
  next
    case False
    then show ?thesis using True g t1(1) by (simp add: createhelper_def)
  qed
qed (use assms in \<open>simp add: createhelper_def\<close>)

lemma fst_create: "fst (fuse_create parent name r y) = fst (createhelper parent name r y)"
    "fst (fuse_mknod parent name r y) = fst (createhelper parent name r y)"
  by (auto simp: fuse_create_def fuse_mknod_def split: prod.split sum.split yfs_status.split)

lemma typed_fuse_mkdir:
  assumes "typed y" and "name_ok name"
  shows "typed (fst (fuse_mkdir parent name r y))"
proof (cases "isdir parent")
  case True
  let ?i = "get_new_inum False r"
  obtain y1 r1 s where g: "get_fileDir_content parent [] (yfs_acquire ?i (yfs_acquire parent y)) = (y1, r1, s)"
    by (metis prod_cases3)
  note t1 = typed_get [OF _ g, simplified, OF assms(1)]
  obtain y2 r2 where p: "yfs_put ?i [] y1 = (y2, r2)" by force
  obtain y3 r3 where q: "yfs_put parent (dir_append s name ?i) y2 = (y3, r3)" by force
  obtain y4 r4 st where a: "getattr_st ?i y3 = (y4, r4, st)" by (metis prod_cases3)
  have t2: "typed y2" using typed_put [OF t1(1) p] dir_text_empty by simp
  have "dir_text (dir_append s name ?i)"
    using dir_text_append typed_text [OF assms(1) True] t1(2) assms(2) by simp
  then have t3: "typed y3" using typed_put [OF t2 q] by blast
  have "fst (fuse_mkdir parent name r y) = yfs_release parent (yfs_release ?i y4)"
    using True g p q a by (simp add: fuse_mkdir_def Let_def)
  then show ?thesis using typed_getattr [OF t3 a] by simp
qed (use assms in \<open>simp add: fuse_mkdir_def\<close>)

text \<open>The check unlink does not make: the match is at the start of an entry.\<close>

definition at_entry :: "string \<Rightarrow> string \<Rightarrow> bool" where
  "at_entry name s \<longleftrightarrow>
     (case str_find (name @ ''='') s of None \<Rightarrow> True | Some pos \<Rightarrow> pos = 0 \<or> s ! (pos - 1) = CHR '';'')"

lemma dir_text_unlink:
  assumes "dir_text s" and "name_ok p" and "str_find (p @ ''='') s = Some pos" and "at_entry p s"
  shows "dir_text (dir_unlink s pos)"
proof -
  obtain d where d: "dir_ok d" "s = render d" using assms(1) by (auto simp: dir_text_def)
  have "\<exists>e \<in> set d. suffix p (fst e)"
    using find_render_none [OF assms(2) d(1), of "[]"] find_empty assms(3) d(2) by auto
  then obtain d1 e d3 where e: "d = d1 @ e # d3" "suffix p (fst e)" "\<forall>x \<in> set d1. \<not> suffix p (fst x)"
    by (rule split_list_first_propE)
  obtain q i where qi: "e = (q @ p, i)" using e(2) by (cases e) (auto simp: suffix_def)
  have s: "s = render (d1 @ (q @ p, i) # d3)" using d(2) e(1) qi by simp
  have dok: "dir_ok (d1 @ (q @ p, i) # d3)" using d(1) e(1) qi by simp
  have pos: "pos = length (render d1) + length q"
    using find_render [OF assms(2) dok e(3)] assms(3) s by simp
  have q: "q = []"
  proof (rule ccontr)
    assume ne: "q \<noteq> []"
    have sp: "s = (render d1 @ q) @ (p @ CHR ''='' # yfs_filename i @ '';'' @ render d3)"
      by (simp add: s entry_text_def)
    have "s ! (pos - 1) = last (render d1 @ q)"
      unfolding sp pos using ne by (simp add: nth_append last_conv_nth)
    then have "s ! (pos - 1) = last q" using ne by simp
    moreover have "CHR '';'' \<notin> set q" using dok by (simp add: dir_ok_def name_ok_def)
    then have "last q \<noteq> CHR '';''" using last_in_set [OF ne] by metis
    ultimately show False using assms(3,4) pos ne by (simp add: at_entry_def)
  qed
  have dr: "drop pos s = entry_text (p, i) @ render d3" using drop_render [of d1 q p i d3] s pos by simp
  have "0 < length (entry_text (p, i))" by (simp add: entry_text_def)
  then have "dir_unlink s pos = take pos s @ drop (pos + length (entry_text (p, i))) s"
    unfolding dir_unlink_def str_erase_def dr entry_inum_text(2) [OF assms(2)] by simp
  then have "dir_unlink s pos = render (d1 @ d3)" using q by (simp add: s pos)
  moreover have "dir_ok (d1 @ d3)" using dok by (simp add: dir_ok_def)
  ultimately show ?thesis unfolding dir_text_def by blast
qed

lemma typed_fuse_unlink:
  assumes "typed y" and "name_ok name" and "at_entry name (text_of y parent)"
  shows "typed (fst (fuse_unlink parent name y))"
proof (cases "isdir parent")
  case True
  obtain y1 r1 s where g: "get_fileDir_content parent [] (yfs_acquire parent y) = (y1, r1, s)" by (metis prod_cases3)
  note t1 = typed_get [OF _ g, simplified, OF assms(1)]
  show ?thesis
  proof (cases "str_find (name @ ''='') s")
    case None
    then show ?thesis using True g t1(1) by (simp add: fuse_unlink_def)
  next
    case (Some pos)
    let ?i = "entry_inum (drop pos s)"
    obtain y2 r2 where p: "yfs_put parent (dir_unlink s pos) y1 = (y2, r2)" by force
    obtain y3 r3 where m: "yfs_remove ?i (yfs_acquire ?i y2) = (y3, r3)" by force
    have "dir_text (dir_unlink s pos)"
      using dir_text_unlink [OF typed_text [OF assms(1) True] assms(2) _ assms(3)] Some t1(2) by simp
    then have "typed y2" using typed_put [OF t1(1) p] by blast
    then have "typed y3" using typed_remove [OF _ m] by simp
    moreover have "fst (fuse_unlink parent name y) = yfs_release parent (yfs_release ?i y3)"
      using True g Some p m by (simp add: fuse_unlink_def Let_def)
    ultimately show ?thesis by simp
  qed
qed (use assms in \<open>simp add: fuse_unlink_def\<close>)

section \<open>Reachable file systems\<close>

inductive fs_reach :: "yfs \<Rightarrow> bool" where
  mount: "(\<And>i s. isdir i \<Longrightarrow> content srv i = Some s \<Longrightarrow> dir_text s) \<Longrightarrow>
    fs_reach \<lparr>y_cs = (Map.empty, srv), y_now = t, y_trace = []\<rparr>"
| clock: "fs_reach y \<Longrightarrow> fs_reach (y\<lparr>y_now := t\<rparr>)"
| flush: "fs_reach y \<Longrightarrow> fs_reach (yfs_dorelease i y)"
| getattr: "fs_reach y \<Longrightarrow> fs_reach (fst (fuse_getattr i y))"
| setattr: "fs_reach y \<Longrightarrow> fs_reach (fst (fuse_setattr i to_size y))"
| read: "fs_reach y \<Longrightarrow> fuse_read i sz off y = Inr (y', r) \<Longrightarrow> fs_reach y'"
| "write": "fs_reach y \<Longrightarrow> fs_reach (fst (fuse_write i buf sz off y))"
| create: "fs_reach y \<Longrightarrow> name_ok n \<Longrightarrow> fs_reach (fst (fuse_create p n rnd y))"
| mknod: "fs_reach y \<Longrightarrow> name_ok n \<Longrightarrow> fs_reach (fst (fuse_mknod p n rnd y))"
| mkdir: "fs_reach y \<Longrightarrow> name_ok n \<Longrightarrow> fs_reach (fst (fuse_mkdir p n rnd y))"
| lookup: "fs_reach y \<Longrightarrow> fs_reach (fst (fuse_lookup p n y))"
| readdir: "fs_reach y \<Longrightarrow> fs_reach (fst (fuse_readdir i y))"
| unlink: "fs_reach y \<Longrightarrow> name_ok n \<Longrightarrow> at_entry n (text_of y p) \<Longrightarrow> fs_reach (fst (fuse_unlink p n y))"

lemma fs_reach_typed: "fs_reach y \<Longrightarrow> typed y"
proof (induction rule: fs_reach.induct)
  case (mount srv t)
  then show ?case by (simp add: typed_def yfs_ok_def cache_ok_def seen_def view_def)
next
  case (clock y t)
  then show ?case by (simp add: typed_def yfs_ok_def seen_def)
next
  case (read y i sz off y' r)
  show ?case by (rule typed_fuse_read [OF read.IH read.hyps(2)])
qed (simp_all add: typed_flush typed_fuse_getattr typed_fuse_setattr typed_fuse_write fst_create typed_createhelper
    typed_fuse_mkdir typed_fuse_lookup typed_fuse_readdir typed_fuse_unlink)

text \<open>C11: the file system keeps its types.  Whatever requests are handled, with names free of separators
  and unlinks that match a whole name, and whenever locks go back and flush, the text of every
  directory is a list of entries, and reading the directory returns that list.\<close>

theorem directories_stay_typed:
  assumes "fs_reach y" and "isdir i" and "seen y i = Some s"
  shows "\<exists>d. dir_ok d \<and> s = render d \<and> snd (fuse_readdir i y) = RDir d"
proof -
  have t: "typed y" using fs_reach_typed [OF assms(1)] .
  then obtain d where d: "dir_ok d" "s = render d" using assms(2,3) by (auto simp: typed_def dir_text_def)
  obtain y1 r1 s1 where g: "get_fileDir_content i [] (yfs_acquire i y) = (y1, r1, s1)" by (metis prod_cases3)
  have "s1 = s" using typed_get(2) [OF _ g] t assms(3) by (simp add: text_of_def)
  then have "snd (fuse_readdir i y) = RDir d"
    using assms(2) g parse_entries_render [OF d(1)] d(2) by (simp add: fuse_readdir_def Let_def)
  then show ?thesis using d by blast
qed

theorem directories_stay_typed_witness:
  "\<exists>y d. fs_reach y \<and> snd (fuse_readdir 1 y) = RDir d \<and> render d = render [(''ab'', 5), (''c'', 6)]"
proof -
  let ?d = "[(''ab'', 5), (''c'', 6)] :: (string \<times> inum) list"
  let ?y = "\<lparr>y_cs = (Map.empty, [1 \<mapsto> (Attr 0 0 0 0, render ?d)]), y_now = 0, y_trace = []\<rparr>"
  have i: "isdir 1" by (simp add: isdir_def isfile_def)
  have "dir_ok ?d" by (simp add: dir_ok_def name_ok_def)
  then have "dir_text (render ?d)" unfolding dir_text_def by blast
  then have y: "fs_reach ?y" by (intro fs_reach.mount) (simp add: content_def split: if_splits)
  have s: "seen ?y 1 = Some (render ?d)" by (simp add: seen_def view_def content_def)
  from directories_stay_typed [OF y i s] show ?thesis using y by metis
qed

text \<open>unlink without the check: asked for a name that is the end of the last entry's name, it
  leaves a directory whose text is no list of entries.\<close>

theorem unlink_breaks_directory:
  assumes "yfs_ok y" and "isdir parent" and "seen y parent = Some (render (d @ [(q @ name, i)]))"
    and "dir_ok (d @ [(q @ name, i)])" and "\<forall>e \<in> set d. \<not> suffix name (fst e)" and "q \<noteq> []" and "i \<noteq> parent"
  shows "seen (fst (fuse_unlink parent name y)) parent = Some (render d @ q) \<and> \<not> dir_text (render d @ q)"
proof
  let ?s = "render (d @ [(q @ name, i)])" and ?pos = "length (render d) + length q"
  have n: "name_ok name" using assms(4) by (auto simp: dir_ok_def name_ok_def)
  obtain y1 r1 s1 where g: "get_fileDir_content parent [] (yfs_acquire parent y) = (y1, r1, s1)" by (metis prod_cases3)
  note g' = get_content [OF _ g, simplified, OF assms(1)]
  have s1: "s1 = ?s" using g'(3) assms(3) by (simp add: text_of_def)
  have f: "str_find (name @ ''='') ?s = Some ?pos" using find_render [OF n assms(4,5)] by simp
  have dr: "drop ?pos ?s = entry_text (name, i)" using drop_render [of d q name i "[]"] by simp
  then have ei: "entry_inum (drop ?pos ?s) = i" "find_first_of (CHR '';'') (drop ?pos ?s) = length (entry_text (name, i)) - 1"
    using entry_inum_text [OF n, of i "[]"] by simp_all
  have tk: "take ?pos ?s = render d @ q" by (simp add: entry_text_def)
  have "length ?s = ?pos + length (entry_text (name, i))" by (simp add: entry_text_def)
  then have "length ?s \<le> ?pos + (length (entry_text (name, i)) - 1 + 1)" by simp
  then have u: "dir_unlink ?s ?pos = render d @ q" unfolding dir_unlink_def str_erase_def ei(2) tk by simp
  obtain y2 r2 where p: "yfs_put parent (render d @ q) y1 = (y2, r2)" by force
  obtain y3 r3 where m: "yfs_remove i (yfs_acquire i y2) = (y3, r3)" by force
  have "fst (fuse_unlink parent name y) = yfs_release parent (yfs_release i y3)"
    unfolding fuse_unlink_def Let_def using assms(2) g s1 f ei(1) u p m by simp
  then show "seen (fst (fuse_unlink parent name y)) parent = Some (render d @ q)"
    using remove_content(1) [OF _ m] put_content [OF g'(2) p] assms(7) by simp
  show "\<not> dir_text (render d @ q)"
  proof
    assume "dir_text (render d @ q)"
    then obtain d' where d': "render d @ q = render d'" by (auto simp: dir_text_def)
    show False
    proof (cases d' rule: rev_cases)
      case Nil
      then show False using d' assms(6) by simp
    next
      case (snoc xs e)
      then have "last (render d @ q) = CHR '';''" using d' by (simp add: entry_text_def)
      then have "CHR '';'' \<in> set q" using last_in_set [OF assms(6)] assms(6) by simp
      then show False using assms(4) by (simp add: dir_ok_def name_ok_def)
    qed
  qed
qed

theorem unlink_breaks_directory_witness:
  "\<exists>y. yfs_ok y \<and> seen y 1 = Some (render [(''ab'', 5)]) \<and> seen (fst (fuse_unlink 1 ''b'' y)) 1 = Some ''a''"
proof -
  let ?y = "\<lparr>y_cs = (Map.empty, [1 \<mapsto> (Attr 0 0 0 0, render [(''ab'', 5)])]), y_now = 0, y_trace = []\<rparr>"
  have y: "yfs_ok ?y" "isdir 1" "seen ?y 1 = Some (render ([] @ [(''a'' @ ''b'', 5)]))"
    by (simp_all add: yfs_ok_def cache_ok_def isdir_def isfile_def seen_def view_def content_def)
  have d: "dir_ok ([] @ [(''a'' @ ''b'', 5)])" "\<forall>e \<in> set []. \<not> suffix ''b'' (fst (e :: string \<times> inum))"
    "''a'' \<noteq> []" "(5 :: inum) \<noteq> 1"
    by (simp_all add: dir_ok_def name_ok_def)
  show ?thesis using unlink_breaks_directory [OF y d] y by (intro exI [of _ ?y]) simp
qed

end
