(* ===== verification/Uncached.thy ===== *)
theory Uncached
  imports FileSystem
begin

text \<open>
  The earlier file system client kept in \<open>lab22/\<close>: it has no cache and no locks, every operation goes to
  the extent server, and only looking up, creating and listing are there.  It serves as the reference
  for the caching client: over the same requests the two answer alike.
\<close>

section \<open>The client library\<close>

text \<open>The store as the server's methods see it, with the clock.\<close>

record yfs22 =
  u_srv :: extents
  u_now :: u32

definition put22 :: "inum \<Rightarrow> string \<Rightarrow> yfs22 \<Rightarrow> yfs22 \<times> yfs_status" where
  "put22 i txt u =
     (let (srv, st) = extent_put (u_now u) i txt (u_srv u)
      in (u\<lparr>u_srv := srv\<rparr>, if st \<noteq> XOK then YIOERR else YOK))"

text \<open>The reply of \<open>get\<close> is read into \<open>fd\<close> whatever its status.\<close>

definition get_fileDir_content22 :: "inum \<Rightarrow> string \<Rightarrow> yfs22 \<Rightarrow> yfs22 \<times> yfs_status \<times> string" where
  "get_fileDir_content22 i fd u =
     (let (srv, fd, st) = extent_get (u_now u) i [] (u_srv u)
      in (u\<lparr>u_srv := srv\<rparr>, if st \<noteq> XOK then YIOERR else YOK, fd))"

definition getfile22 :: "inum \<Rightarrow> yfs22 \<Rightarrow> yfs_status \<times> attr" where
  "getfile22 i u =
     (let (a, st) = extent_getattr i (u_srv u)
      in if st \<noteq> XOK then (YIOERR, Attr 0 0 0 0) else (YOK, Attr (a_atime a) (a_mtime a) (a_ctime a) (a_size a)))"

definition getdir22 :: "inum \<Rightarrow> yfs22 \<Rightarrow> yfs_status \<times> attr" where
  "getdir22 i u =
     (let (a, st) = extent_getattr i (u_srv u)
      in if st \<noteq> XOK then (YIOERR, Attr 0 0 0 0) else (YOK, Attr (a_atime a) (a_mtime a) (a_ctime a) 0))"

section \<open>The handlers\<close>

text \<open>\<open>getattr\<close>: on a failure what it has filled in so far is left.\<close>

definition getattr22 :: "inum \<Rightarrow> yfs22 \<Rightarrow> yfs_status \<times> stat" where
  "getattr22 i u =
     (if isfile i then
        (let (ret, info) = getfile22 i u
         in if ret \<noteq> YOK then (ret, \<lparr>st_ino = i, st_isfile = False, st_nlink = 0, st_attr = Attr 0 0 0 0\<rparr>)
            else (YOK, \<lparr>st_ino = i, st_isfile = True, st_nlink = 1, st_attr = info\<rparr>))
      else
        (let (ret, info) = getdir22 i u
         in if ret \<noteq> YOK then (ret, \<lparr>st_ino = i, st_isfile = False, st_nlink = 0, st_attr = Attr 0 0 0 0\<rparr>)
            else (YOK, \<lparr>st_ino = i, st_isfile = False, st_nlink = 2, st_attr = info\<rparr>)))"

definition fuse_getattr22 :: "inum \<Rightarrow> yfs22 \<Rightarrow> yfs22 \<times> reply" where
  "fuse_getattr22 i u =
     (let (ret, st) = getattr22 i u in (u, if ret \<noteq> YOK then RErr ENOENT else RAttr st))"

text \<open>Not implemented in that version, whatever is asked for.\<close>

definition fuse_setattr22 :: "inum \<Rightarrow> nat option \<Rightarrow> reply" where
  "fuse_setattr22 i to_size = (case to_size of Some sz \<Rightarrow> RErr ENOSYS | None \<Rightarrow> RErr ENOSYS)"

definition fuse_read22 :: "inum \<Rightarrow> nat \<Rightarrow> nat \<Rightarrow> reply" where
  "fuse_read22 i sz off = RErr ENOSYS"

definition fuse_write22 :: "inum \<Rightarrow> string \<Rightarrow> nat \<Rightarrow> nat \<Rightarrow> reply" where
  "fuse_write22 i buf sz off = RErr ENOSYS"

definition fuse_mkdir22 :: "inum \<Rightarrow> string \<Rightarrow> reply" where
  "fuse_mkdir22 parent name = RErr ENOSYS"

definition fuse_unlink22 :: "inum \<Rightarrow> string \<Rightarrow> reply" where
  "fuse_unlink22 parent name = RErr ENOSYS"

definition createhelper22 :: "inum \<Rightarrow> string \<Rightarrow> u64 \<Rightarrow> yfs22 \<Rightarrow> yfs22 \<times> (yfs_status + inum \<times> stat)" where
  "createhelper22 parent name r u =
     (if isdir parent then
        (let (u, _, dirCon) = get_fileDir_content22 parent [] u
         in if str_find (name @ ''='') dirCon \<noteq> None then (u, Inl YEXIST)
            else
              (let fileNum = get_new_inum True r;
                   dirCon = dirCon @ name;
                   dirCon = dirCon @ ''='';
                   dirCon = dirCon @ yfs_filename fileNum;
                   dirCon = dirCon @ '';'';
                   (u, _) = put22 fileNum [] u;
                   (u, _) = put22 parent dirCon u;
                   (_, st) = getattr22 fileNum u
               in (u, Inr (fileNum, st))))
      else (u, Inl YNOENT))"

definition fuse_create22 :: "inum \<Rightarrow> string \<Rightarrow> u64 \<Rightarrow> yfs22 \<Rightarrow> yfs22 \<times> reply" where
  "fuse_create22 parent name r u =
     (case createhelper22 parent name r u of
        (u, Inr (i, st)) \<Rightarrow> (u, REntry i st)
      | (u, Inl _) \<Rightarrow> (u, RErr ENOENT))"

definition fuse_mknod22 :: "inum \<Rightarrow> string \<Rightarrow> u64 \<Rightarrow> yfs22 \<Rightarrow> yfs22 \<times> reply" where
  "fuse_mknod22 parent name r u =
     (case createhelper22 parent name r u of
        (u, Inr (i, st)) \<Rightarrow> (u, REntry i st)
      | (u, Inl _) \<Rightarrow> (u, RErr ENOENT))"

definition fuse_lookup22 :: "inum \<Rightarrow> string \<Rightarrow> yfs22 \<Rightarrow> yfs22 \<times> reply" where
  "fuse_lookup22 parent name u =
     (let (u, _, dirCon) = get_fileDir_content22 parent [] u
      in case str_find (name @ ''='') dirCon of
           None \<Rightarrow> (u, RErr ENOENT)
         | Some pos \<Rightarrow>
             (let i = entry_inum (drop pos dirCon); (ret, st) = getattr22 i u
              in (u, if ret \<noteq> YOK then RErr ENOENT else REntry i st)))"

definition fuse_readdir22 :: "inum \<Rightarrow> yfs22 \<Rightarrow> yfs22 \<times> reply" where
  "fuse_readdir22 i u =
     (if \<not> isdir i then (u, RErr ENOTDIR)
      else
        (let (u, _, dirCon) = get_fileDir_content22 i [] u
         in (u, RDir (map parse_entry (split_semi dirCon)))))"

definition fuse_open22 :: "inum \<Rightarrow> reply" where
  "fuse_open22 i = (if isfile i then ROpen else RErr ENOSYS)"

section \<open>Requests to either version\<close>

datatype fs_op =
    OpGetattr inum
  | OpLookup inum string
  | OpCreate inum string u64
  | OpMknod inum string u64
  | OpReaddir inum
  | OpOpen inum

fun run_op :: "fs_op \<Rightarrow> yfs \<Rightarrow> yfs \<times> reply" where
  "run_op (OpGetattr i) y = fuse_getattr i y"
| "run_op (OpLookup p n) y = fuse_lookup p n y"
| "run_op (OpCreate p n r) y = fuse_create p n r y"
| "run_op (OpMknod p n r) y = fuse_mknod p n r y"
| "run_op (OpReaddir i) y = fuse_readdir i y"
| "run_op (OpOpen i) y = (y, fuse_open i)"

fun run_op22 :: "fs_op \<Rightarrow> yfs22 \<Rightarrow> yfs22 \<times> reply" where
  "run_op22 (OpGetattr i) u = fuse_getattr22 i u"
| "run_op22 (OpLookup p n) u = fuse_lookup22 p n u"
| "run_op22 (OpCreate p n r) u = fuse_create22 p n r u"
| "run_op22 (OpMknod p n r) u = fuse_mknod22 p n r u"
| "run_op22 (OpReaddir i) u = fuse_readdir22 i u"
| "run_op22 (OpOpen i) u = (u, fuse_open22 i)"

text \<open>Each request comes with the time at which each of the two runs it.\<close>

fun run_ops :: "(u32 \<times> u32 \<times> fs_op) list \<Rightarrow> yfs \<Rightarrow> yfs \<times> reply list" where
  "run_ops [] y = (y, [])"
| "run_ops ((now, _, op) # ops) y =
     (let (y, r) = run_op op (y\<lparr>y_now := now\<rparr>); (y, rs) = run_ops ops y in (y, r # rs))"

fun run_ops22 :: "(u32 \<times> u32 \<times> fs_op) list \<Rightarrow> yfs22 \<Rightarrow> yfs22 \<times> reply list" where
  "run_ops22 [] u = (u, [])"
| "run_ops22 ((_, now, op) # ops) u =
     (let (u, r) = run_op22 op (u\<lparr>u_now := now\<rparr>); (u, rs) = run_ops22 ops u in (u, r # rs))"

text \<open>
  What is compared: replies up to the times in them, and up to the error of a create whose name
  exists, which the earlier version does not tell from other errors.
\<close>

definition untimed :: "stat \<Rightarrow> stat" where
  "untimed st = st\<lparr>st_attr := Attr 0 0 0 (a_size (st_attr st))\<rparr>"

fun shown :: "reply \<Rightarrow> reply" where
  "shown (RAttr st) = RAttr (untimed st)"
| "shown (REntry i st) = REntry i (untimed st)"
| "shown (RErr EEXIST) = RErr ENOENT"
| "shown r = r"

text \<open>
  The requests compared ask only for files that exist: the caching client answers the first
  getattr of a missing one as if it existed.
\<close>

fun op_exists :: "fs_op \<Rightarrow> yfs22 \<Rightarrow> bool" where
  "op_exists (OpGetattr i) u = (content (u_srv u) i \<noteq> None)"
| "op_exists (OpLookup p n) u =
     (let dirCon = (case content (u_srv u) p of Some s \<Rightarrow> s | None \<Rightarrow> [])
      in case str_find (n @ ''='') dirCon of
           None \<Rightarrow> True
         | Some pos \<Rightarrow> content (u_srv u) (entry_inum (drop pos dirCon)) \<noteq> None)"
| "op_exists _ u = True"

fun ops_exist :: "(u32 \<times> u32 \<times> fs_op) list \<Rightarrow> yfs22 \<Rightarrow> bool" where
  "ops_exist [] u = True"
| "ops_exist ((now, now', op) # ops) u =
     (op_exists op u \<and> ops_exist ops (fst (run_op22 op (u\<lparr>u_now := now'\<rparr>))))"

section \<open>Matching states\<close>

text \<open>The sizes the client caches are those of the contents it caches.\<close>

definition sized :: "fileCache \<times> extents \<Rightarrow> bool" where
  "sized cs \<longleftrightarrow> sizes_ok (snd cs) \<and>
     (\<forall>eid fd. fst cs eid = Some fd \<longrightarrow> fd_view fd \<noteq> None \<longrightarrow> a_size (fd_attr fd) = size_u32 (fd_content fd))"

definition matches :: "yfs \<Rightarrow> yfs22 \<Rightarrow> bool" where
  "matches y u \<longleftrightarrow> yfs_ok y \<and> sized (y_cs y) \<and> sizes_ok (u_srv u) \<and> seen y = content (u_srv u)"

lemma sizes_okD: "sizes_ok s \<Longrightarrow> s eid = Some (a, c) \<Longrightarrow> a_size a = size_u32 c"
  by (auto simp: sizes_ok_def)

lemma sizes_ok_server:
  assumes "sizes_ok s"
  shows "sizes_ok (fst (extent_put now eid buf s))" "sizes_ok (fst (extent_get now eid b s))"
  using assms by (auto simp: sizes_ok_def extent_put_def extent_get_def split: option.splits if_splits)

lemma sized_upd:
  "sized (cache, srv) \<Longrightarrow> fd_view fd \<noteq> None \<longrightarrow> a_size (fd_attr fd) = size_u32 (fd_content fd) \<Longrightarrow>
    sized (cache(eid \<mapsto> fd), srv)"
  by (simp add: sized_def)

lemma fileGetter_sized:
  assumes "sized cs" and f: "fileGetter now eid buf a cs = (cs', r, b, a')"
  shows "sized cs'" "view cs eid = Some v \<Longrightarrow> a_size a' = size_u32 v"
proof -
  obtain cache srv where cs: "cs = (cache, srv)" by force
  have "sized cs' \<and> (view cs eid = Some v \<longrightarrow> a_size a' = size_u32 v)"
  proof (cases "cache eid")
    case (Some fd)
    show ?thesis
    proof (cases "fd_view fd = None")
      case True
      then show ?thesis using f assms(1) Some unfolding cs
        by (auto simp: fileGetter_def fd_view_def view_pair split: if_splits)
    next
      case False
      then have sz: "a_size (fd_attr fd) = size_u32 (fd_content fd)"
        using assms(1) Some by (simp add: sized_def cs)
      let ?at = "Attr now (a_mtime (fd_attr fd)) (a_ctime (fd_attr fd)) (a_size (fd_attr fd))"
      have "cs' = (cache(eid \<mapsto> fd\<lparr>fd_attr := ?at, fd_isDirty := True\<rparr>), srv)" "a' = ?at"
        using f False Some unfolding cs by (auto simp: fileGetter_def fd_view_def Let_def split: if_splits)
      then show ?thesis using sz Some assms(1) False unfolding cs
        by (auto simp: view_pair fd_view_def intro: sized_upd)
    qed
  next
    case None
    obtain srv' c st where g: "extent_get now eid [] srv = (srv', c, st)" by (metis prod_cases3)
    obtain at st' where ga: "extent_getattr eid srv' = (at, st')" by force
    let ?fd = "\<lparr>fd_attr = at, fd_content = c, fd_isDirty = False, fd_removed = False, fd_exist = (st = XOK)\<rparr>"
    have r: "cs' = (cache(eid \<mapsto> ?fd), srv')" "a' = at" using None g ga f by (auto simp: fileGetter_def cs)
    have so: "sizes_ok srv" using assms(1) by (simp add: sized_def cs)
    have "st = XOK \<longrightarrow> content srv eid = Some c \<and> a_size at = size_u32 c"
      using g ga sizes_okD [OF so, of eid]
      by (auto simp: extent_get_def extent_getattr_def content_def split: option.splits)
    moreover have "st \<noteq> XOK \<longrightarrow> content srv eid = None"
      using g by (auto simp: extent_get_def content_def split: option.splits)
    moreover have "sized (cache, srv')"
      using assms(1) sizes_ok_server(2) [OF so, of now eid "[]"] g by (simp add: sized_def cs)
    ultimately show ?thesis using None unfolding r cs
      by (cases "st = XOK") (auto simp: view_pair fd_view_def intro: sized_upd)
  qed
  then show "sized cs'" "view cs eid = Some v \<Longrightarrow> a_size a' = size_u32 v" by auto
qed

lemma matches_simps [simp]:
  "matches (yfs_acquire i y) u = matches y u" "matches (yfs_release i y) u = matches y u"
  "matches (y\<lparr>y_now := t\<rparr>) (u\<lparr>u_now := t'\<rparr>) = matches y u"
proof -
  show "matches (yfs_acquire i y) u = matches y u" "matches (yfs_release i y) u = matches y u"
    by (simp_all add: matches_def) (simp_all add: yfs_acquire_def yfs_release_def note_act_def)
  show "matches (y\<lparr>y_now := t\<rparr>) (u\<lparr>u_now := t'\<rparr>) = matches y u"
    by (simp add: matches_def yfs_ok_def seen_def)
qed

text \<open>The client library keeps the sizes, and replies with them.\<close>

lemma get_sized:
  assumes "sized (y_cs y)" and "get_fileDir_content i [] y = (y', r, s)"
  shows "sized (y_cs y')"
proof -
  obtain cs st a where f: "fileGetter (y_now y) i [] (Attr 0 0 0 0) (y_cs y) = (cs, st, s, a)" "y_cs y' = cs"
    using assms(2) by (auto simp: get_fileDir_content_def client_get_def note_act_def split: prod.splits)
  then show ?thesis using fileGetter_sized(1) [OF assms(1) f(1)] by simp
qed

lemma put_sized:
  assumes "sized (y_cs y)" and "yfs_put i t y = (y', r)"
  shows "sized (y_cs y')"
proof -
  obtain cache srv where cs: "y_cs y = (cache, srv)" by force
  have "y_cs y' = (cache(i \<mapsto> \<lparr>fd_attr = Attr (y_now y) (y_now y) (y_now y) (size_u32 t), fd_content = t,
      fd_isDirty = True, fd_removed = False, fd_exist = True\<rparr>), srv)"
    using assms(2) cs by (auto simp: yfs_put_def client_put_def note_act_def Let_def split: if_splits)
  then show ?thesis using assms(1) cs by (auto intro: sized_upd)
qed

lemma getattr_sized:
  assumes "sized (y_cs y)" and "getattr_st i y = (y', r, st)"
  shows "sized (y_cs y')" "st_ino st = i" "st_isfile st = isfile i" "st_nlink st = (if isfile i then 1 else 2)"
    "seen y i = Some v \<Longrightarrow> a_size (st_attr st) = (if isfile i then size_u32 v else 0)"
proof -
  obtain cs x b a where f: "fileGetter (y_now y) i [] (Attr 0 0 0 0) (y_cs y) = (cs, x, b, a)"
    by (metis prod_cases4)
  have y': "y_cs y' = cs" and st: "st = \<lparr>st_ino = i, st_isfile = isfile i, st_nlink = (if isfile i then 1 else 2),
      st_attr = (if isfile i then a else Attr (a_atime a) (a_mtime a) (a_ctime a) 0)\<rparr>"
    using assms(2) f by (auto simp: getattr_st_def yfs_getattr_def client_getattr_def note_act_def)
  show "sized (y_cs y')" using fileGetter_sized(1) [OF assms(1) f] y' by simp
  show "st_ino st = i" "st_isfile st = isfile i" "st_nlink st = (if isfile i then 1 else 2)"
    by (simp_all add: st)
  show "a_size (st_attr st) = (if isfile i then size_u32 v else 0)" if "seen y i = Some v"
    using fileGetter_sized(2) [OF assms(1) f] that by (simp add: st seen_def)
qed

lemma matches_get:
  assumes m: "matches y u" and g: "get_fileDir_content i [] y = (y', r, s)"
    and g22: "get_fileDir_content22 i [] u = (u', r', s')"
  shows "matches y' u'" "s' = s" "content (u_srv u') = content (u_srv u)"
    "s = (case content (u_srv u) i of Some v \<Rightarrow> v | None \<Rightarrow> [])"
proof -
  have ok: "yfs_ok y" "sizes_ok (u_srv u)" "seen y = content (u_srv u)" using m by (simp_all add: matches_def)
  note g' = get_content [OF ok(1) g]
  show t: "s = (case content (u_srv u) i of Some v \<Rightarrow> v | None \<Rightarrow> [])"
    using g'(3) ok(3) by (simp add: text_of_def)
  have sz: "sized (y_cs y')" using get_sized [OF _ g] m by (simp add: matches_def)
  have u': "u_srv u' = fst (extent_get (u_now u) i [] (u_srv u))" "s' = fst (snd (extent_get (u_now u) i [] (u_srv u)))"
    using g22 by (auto simp: get_fileDir_content22_def split: prod.splits)
  then show c: "content (u_srv u') = content (u_srv u)" by simp
  show "s' = s" using t u'(2) by (auto simp: extent_get_def content_def split: option.splits)
  show "matches y' u'"
    using g' sz sizes_ok_server(2) [OF ok(2)] u' c ok(3) by (simp add: matches_def)
qed

lemma matches_put:
  assumes m: "matches y u" and p: "yfs_put i t y = (y', r)" and p22: "put22 i t u = (u', r')"
  shows "matches y' u'" "content (u_srv u') = (content (u_srv u))(i \<mapsto> t)"
proof -
  have ok: "yfs_ok y" "sizes_ok (u_srv u)" "seen y = content (u_srv u)" using m by (simp_all add: matches_def)
  note p' = put_content [OF ok(1) p]
  have u': "u_srv u' = fst (extent_put (u_now u) i t (u_srv u))" using p22 by (auto simp: put22_def split: prod.splits)
  then show c: "content (u_srv u') = (content (u_srv u))(i \<mapsto> t)" by simp
  have "sized (y_cs y')" using put_sized [OF _ p] m by (simp add: matches_def)
  then show "matches y' u'" using p' sizes_ok_server(1) [OF ok(2)] u' c ok(3) by (simp add: matches_def)
qed

lemma getattr22_existing:
  assumes "sizes_ok (u_srv u)" and "content (u_srv u) i = Some v" and "getattr22 i u = (r, st)"
  shows "r = YOK" "st_ino st = i" "st_isfile st = isfile i" "st_nlink st = (if isfile i then 1 else 2)"
    "a_size (st_attr st) = (if isfile i then size_u32 v else 0)"
proof -
  obtain a where a: "u_srv u i = Some (a, v)" using assms(2) by (auto simp: content_def)
  have "a_size a = size_u32 v" using sizes_okD [OF assms(1) a] .
  then show "r = YOK" "st_ino st = i" "st_isfile st = isfile i" "st_nlink st = (if isfile i then 1 else 2)"
    "a_size (st_attr st) = (if isfile i then size_u32 v else 0)"
    using a assms(3) by (auto simp: getattr22_def getfile22_def getdir22_def extent_getattr_def split: if_splits)
qed

lemma matches_getattr:
  assumes m: "matches y u" and e: "content (u_srv u) i \<noteq> None"
    and g: "getattr_st i y = (y', r, st)" and g22: "getattr22 i u = (r', st')"
  shows "matches y' u" "r = YOK" "r' = YOK" "untimed st = untimed st'"
proof -
  have ok: "yfs_ok y" "sizes_ok (u_srv u)" "seen y = content (u_srv u)" using m by (simp_all add: matches_def)
  note g' = getattr_content [OF ok(1) g]
  obtain v where v: "content (u_srv u) i = Some v" using e by blast
  note r' = getattr22_existing [OF ok(2) v g22]
  have sz: "sized (y_cs y)" using m by (simp add: matches_def)
  note st = getattr_sized [OF sz g]
  show "matches y' u" using g' st(1) ok by (simp add: matches_def)
  show "r = YOK" using g'(4) ok(3) e by simp
  show "r' = YOK" by (rule r'(1))
  show "untimed st = untimed st'" unfolding untimed_def
    using st(5) [of v] v ok(3) by (intro stat.equality) (simp_all add: r' st(2,3,4))
qed

section \<open>The handlers match\<close>

definition same_entry :: "yfs_status + inum \<times> stat \<Rightarrow> yfs_status + inum \<times> stat \<Rightarrow> bool" where
  "same_entry x x' \<longleftrightarrow>
     (case (x, x') of
        (Inl a, Inl b) \<Rightarrow> a = b
      | (Inr (i, st), Inr (j, st')) \<Rightarrow> i = j \<and> untimed st = untimed st'
      | _ \<Rightarrow> False)"

lemma op_exists_now: "op_exists op (u\<lparr>u_now := t\<rparr>) = op_exists op u"
  by (cases op) (simp_all split: option.split)

lemma matches_create:
  assumes m: "matches y u" and c: "createhelper parent name r y = (y', x)"
    and c22: "createhelper22 parent name r u = (u', x')"
  shows "matches y' u'" "same_entry x x'"
proof -
  have "matches y' u' \<and> same_entry x x'"
  proof (cases "isdir parent")
    case False
    then show ?thesis using m c c22 by (auto simp: createhelper_def createhelper22_def same_entry_def)
  next
    case True
    obtain y1 r1 s1 where g: "get_fileDir_content parent [] (yfs_acquire parent y) = (y1, r1, s1)" by (metis prod_cases3)
    obtain u1 r1' s1' where g22: "get_fileDir_content22 parent [] u = (u1, r1', s1')" by (metis prod_cases3)
    have m0: "matches (yfs_acquire parent y) u" using m by simp
    note g' = matches_get [OF m0 g g22]
    show ?thesis
    proof (cases "str_find (name @ ''='') s1 = None")
      case False
      then show ?thesis using c c22 g g22 g'(1,2) True
        by (auto simp: createhelper_def createhelper22_def same_entry_def)
    next
      case find: True
      let ?i = "get_new_inum True r"
      have d: "(((s1 @ name) @ ''='') @ yfs_filename ?i) @ '';'' = dir_append s1 name ?i"
        by (simp add: dir_append_def)
      obtain y2 r2 where p: "yfs_put ?i [] (yfs_acquire ?i y1) = (y2, r2)" by force
      obtain u2 r2' where p22: "put22 ?i [] u1 = (u2, r2')" by force
      have m1: "matches (yfs_acquire ?i y1) u1" using g'(1) by simp
      note p' = matches_put [OF m1 p p22]
      obtain y3 r3 where q: "yfs_put parent (dir_append s1 name ?i) y2 = (y3, r3)" by force
      obtain u3 r3' where q22: "put22 parent (dir_append s1 name ?i) u2 = (u3, r3')" by force
      note q' = matches_put [OF p'(1) q q22]
      obtain y4 r4 st where t: "getattr_st ?i y3 = (y4, r4, st)" by (metis prod_cases3)
      obtain r4' st' where t22: "getattr22 ?i u3 = (r4', st')" by force
      have "content (u_srv u3) ?i \<noteq> None" by (simp add: q'(2) p'(2))
      note t' = matches_getattr [OF q'(1) this t t22]
      have "createhelper parent name r y = (yfs_release parent (yfs_release ?i y4), Inr (?i, st))"
        using True find g p q t by (simp add: createhelper_def Let_def)
      moreover have "createhelper22 parent name r u = (u3, Inr (?i, st'))"
        unfolding createhelper22_def Let_def using True find g22 g'(2) p22 q22 t22 by (simp only: d split_conv if_True if_False simp_thms)
      ultimately show ?thesis using c c22 t' by (auto simp: same_entry_def)
    qed
  qed
  then show "matches y' u'" "same_entry x x'" by auto
qed

lemma matches_lookup:
  assumes m: "matches y u" and e: "op_exists (OpLookup p n) u"
    and l: "fuse_lookup p n y = (y', rep)" and l22: "fuse_lookup22 p n u = (u', rep')"
  shows "matches y' u' \<and> shown rep = shown rep'"
proof -
  obtain y1 r1 s1 where g: "get_fileDir_content p [] (yfs_acquire p y) = (y1, r1, s1)" by (metis prod_cases3)
  obtain u1 r1' s1' where g22: "get_fileDir_content22 p [] u = (u1, r1', s1')" by (metis prod_cases3)
  have m0: "matches (yfs_acquire p y) u" using m by simp
  note g' = matches_get [OF m0 g g22]
  show ?thesis
  proof (cases "str_find (n @ ''='') s1")
    case None
    then show ?thesis using l l22 g g22 g'(1,2) by (auto simp: fuse_lookup_def fuse_lookup22_def)
  next
    case (Some pos)
    let ?i = "entry_inum (drop pos s1)"
    have ex: "content (u_srv u1) ?i \<noteq> None"
      using e Some by (simp only: op_exists.simps Let_def g'(4) [symmetric] option.case g'(3) simp_thms)
    obtain y2 r2 st where t: "getattr_st ?i (yfs_acquire ?i y1) = (y2, r2, st)" by (metis prod_cases3)
    obtain r2' st' where t22: "getattr22 ?i u1 = (r2', st')" by force
    have m1: "matches (yfs_acquire ?i y1) u1" using g'(1) by simp
    note t' = matches_getattr [OF m1 ex t t22]
    have "fuse_lookup p n y = (yfs_release p (yfs_release ?i y2), REntry ?i st)"
      using g Some t t'(2) by (simp add: fuse_lookup_def Let_def)
    moreover have "fuse_lookup22 p n u = (u1, REntry ?i st')"
      using g22 Some t22 t'(3) g'(2) by (simp add: fuse_lookup22_def Let_def)
    ultimately show ?thesis using l l22 t' by auto
  qed
qed

lemma matches_op:
  assumes m: "matches y u" and e: "op_exists op u"
    and r: "run_op op y = (y', rep)" and r22: "run_op22 op u = (u', rep')"
  shows "matches y' u' \<and> shown rep = shown rep'"
proof (cases op)
  case (OpGetattr i)
  obtain y1 r1 st where t: "getattr_st i (yfs_acquire i y) = (y1, r1, st)" by (metis prod_cases3)
  obtain r1' st' where t22: "getattr22 i u = (r1', st')" by force
  have "matches (yfs_acquire i y) u" "content (u_srv u) i \<noteq> None" using m e OpGetattr by simp_all
  note t' = matches_getattr [OF this t t22]
  then show ?thesis using OpGetattr r r22 t t22 by (auto simp: fuse_getattr_def fuse_getattr22_def)
next
  case (OpLookup p n)
  then show ?thesis using matches_lookup [OF m] e r r22 by simp
next
  case (OpCreate p n i)
  obtain y1 x where c: "createhelper p n i y = (y1, x)" by force
  obtain u1 x' where c22: "createhelper22 p n i u = (u1, x')" by force
  note c' = matches_create [OF m c c22]
  have "shown rep = shown rep'" using OpCreate r r22 c c22 c'(2)
    by (auto simp: fuse_create_def fuse_create22_def same_entry_def split: sum.splits yfs_status.splits)
  moreover have "y' = y1" "u' = u1" using OpCreate r r22 c c22
    by (auto simp: fuse_create_def fuse_create22_def split: sum.splits yfs_status.splits)
  ultimately show ?thesis using c'(1) by simp
next
  case (OpMknod p n i)
  obtain y1 x where c: "createhelper p n i y = (y1, x)" by force
  obtain u1 x' where c22: "createhelper22 p n i u = (u1, x')" by force
  note c' = matches_create [OF m c c22]
  have "shown rep = shown rep'" using OpMknod r r22 c c22 c'(2)
    by (auto simp: fuse_mknod_def fuse_mknod22_def same_entry_def split: sum.splits yfs_status.splits)
  moreover have "y' = y1" "u' = u1" using OpMknod r r22 c c22
    by (auto simp: fuse_mknod_def fuse_mknod22_def split: sum.splits yfs_status.splits)
  ultimately show ?thesis using c'(1) by simp
next
  case (OpReaddir i)
  obtain y1 r1 s1 where g: "get_fileDir_content i [] (yfs_acquire i y) = (y1, r1, s1)" by (metis prod_cases3)
  obtain u1 r1' s1' where g22: "get_fileDir_content22 i [] u = (u1, r1', s1')" by (metis prod_cases3)
  have m0: "matches (yfs_acquire i y) u" using m by simp
  note g' = matches_get [OF m0 g g22]
  show ?thesis using OpReaddir r r22 g g22 g'(1,2) m
    by (auto simp: fuse_readdir_def fuse_readdir22_def Let_def split: if_splits)
next
  case (OpOpen i)
  then show ?thesis using m r r22 by (auto simp: fuse_open_def fuse_open22_def)
qed


definition ex_yfs22 :: yfs22 where
  "ex_yfs22 = \<lparr>u_srv = fst (extent_put 1 1 (render [(''b'', 0x80000001)])
     (fst (extent_put 1 0x80000001 ''hello'' Map.empty))), u_now = 7\<rparr>"

lemma ex_matches: "matches \<lparr>y_cs = (Map.empty, u_srv ex_yfs22), y_now = 3, y_trace = []\<rparr> ex_yfs22"
proof -
  have "sizes_ok (u_srv ex_yfs22)"
    unfolding ex_yfs22_def yfs22.select_convs
    by (intro sizes_ok_server(1)) (simp add: sizes_ok_def)
  then show ?thesis by (simp add: matches_def yfs_ok_def cache_ok_def sized_def seen_def view_def fun_eq_iff)
qed


text \<open>
  Where they differ: a file or directory that does not exist, as the root until something is created in
  it.  The caching client answers the first getattr as if
  it did, the second with ENOENT; the earlier client answers ENOENT at once.
\<close>

theorem getattr_of_missing_file:
  assumes "y_cs y = (cache, srv)" and "cache i = None" and "srv i = None"
  shows "\<exists>st y'. fuse_getattr i y = (y', RAttr st) \<and> (\<exists>y''. fuse_getattr i y' = (y'', RErr ENOENT)) \<and>
    fuse_getattr22 i \<lparr>u_srv = srv, u_now = now\<rparr> = (\<lparr>u_srv = srv, u_now = now\<rparr>, RErr ENOENT)"
  using assms
  by (simp add: fuse_getattr_def fuse_getattr22_def getattr_st_def yfs_getattr_def client_getattr_def
      fileGetter_def extent_get_def extent_getattr_def getattr22_def getfile22_def getdir22_def yfs_acquire_def
      yfs_release_def note_act_def)

theorem getattr_of_missing_file_witness:
  "\<exists>st y'. fuse_getattr 0x80000001 \<lparr>y_cs = (Map.empty, Map.empty), y_now = 3, y_trace = []\<rparr> = (y', RAttr st) \<and>
    (\<exists>y''. fuse_getattr 0x80000001 y' = (y'', RErr ENOENT)) \<and>
    fuse_getattr22 0x80000001 \<lparr>u_srv = Map.empty, u_now = 4\<rparr> = (\<lparr>u_srv = Map.empty, u_now = 4\<rparr>, RErr ENOENT)"
  by (rule getattr_of_missing_file) simp_all

end
