(* ===== verification/FsSteps.thy ===== *)
theory FsSteps
  imports Uncached
begin

text \<open>
  The handlers of \<open>fuse.cc\<close> as sequences of calls: what a handler does between two calls of the lock and
  extent clients is a step of its own, so that handlers of different mounts can be interleaved
  (theory \<open>DistFs\<close>).  Run in one go, the sequences are the handlers of theory \<open>Yfs\<close>.
\<close>

section \<open>Requests\<close>

text \<open>The operations \<open>main\<close> registers with the FUSE library; \<open>statfs\<close> has a constant reply and is left out.\<close>

datatype fs_request =
    ReqGetattr inum
  | ReqSetattr inum "nat option"
  | ReqRead inum nat nat
  | ReqWrite inum string nat nat
  | ReqCreate inum string u64
  | ReqMknod inum string u64
  | ReqLookup inum string
  | ReqMkdir inum string u64
  | ReqUnlink inum string
  | ReqReaddir inum
  | ReqOpen inum

text \<open>One mount serves a request; a handler that throws ends the process.\<close>

fun serve_req :: "fs_request \<Rightarrow> yfs \<Rightarrow> yfs \<times> reply res" where
  "serve_req (ReqGetattr i) y = map_prod id Inr (fuse_getattr i y)"
| "serve_req (ReqSetattr i to_size) y = map_prod id Inr (fuse_setattr i to_size y)"
| "serve_req (ReqRead i sz off) y = (case fuse_read i sz off y of Inl e \<Rightarrow> (y, Inl e) | Inr (y, r) \<Rightarrow> (y, Inr r))"
| "serve_req (ReqWrite i buf sz off) y = map_prod id Inr (fuse_write i buf sz off y)"
| "serve_req (ReqCreate p n r) y = map_prod id Inr (fuse_create p n r y)"
| "serve_req (ReqMknod p n r) y = map_prod id Inr (fuse_mknod p n r y)"
| "serve_req (ReqLookup p n) y = map_prod id Inr (fuse_lookup p n y)"
| "serve_req (ReqMkdir p n r) y = map_prod id Inr (fuse_mkdir p n r y)"
| "serve_req (ReqUnlink p n) y = map_prod id Inr (fuse_unlink p n y)"
| "serve_req (ReqReaddir i) y = map_prod id Inr (fuse_readdir i y)"
| "serve_req (ReqOpen i) y = (y, Inr (fuse_open i))"

section \<open>Handlers step by step\<close>

text \<open>What a handler does next and how it goes on with the answer.\<close>

datatype fs_prog =
    Ret "reply res"
  | Lock inum fs_prog
  | Unlock inum fs_prog
  | Fetch inum "string \<Rightarrow> fs_prog"
  | Store inum string fs_prog
  | Attrs inum "yfs_status \<Rightarrow> stat \<Rightarrow> fs_prog"
  | Erase inum fs_prog

definition getattr_prog :: "inum \<Rightarrow> fs_prog" where
  "getattr_prog i =
     Lock i (Attrs i (\<lambda>ret st. Unlock i (Ret (Inr (if ret \<noteq> YOK then RErr ENOENT else RAttr st)))))"

definition resized :: "string \<Rightarrow> nat \<Rightarrow> string" where
  "resized fileContent st_size =
     (let sizeDiff = (word_of_nat (length fileContent) - word_of_nat st_size :: u64)
      in if sizeDiff > 0 then take st_size fileContent
         else fileContent @ replicate (unat (- sizeDiff)) nul)"

definition setattr_prog :: "inum \<Rightarrow> nat option \<Rightarrow> fs_prog" where
  "setattr_prog i to_size =
     (case to_size of
        None \<Rightarrow> Ret (Inr (RErr ENOSYS))
      | Some st_size \<Rightarrow>
          (if isfile i
           then Lock i (Fetch i (\<lambda>s. Store i (resized s st_size)
                  (Attrs i (\<lambda>_ st. Unlock i (Ret (Inr (RAttr st)))))))
           else Ret (Inr (RErr ENOSYS))))"

definition read_prog :: "inum \<Rightarrow> nat \<Rightarrow> nat \<Rightarrow> fs_prog" where
  "read_prog i sz off =
     (if isfile i
      then Lock i (Fetch i (\<lambda>s. Unlock i (Ret (rbind (substr s off sz) (\<lambda>t. Inr (RBuf t))))))
      else Ret (Inr (RErr ENOSYS)))"

definition write_prog :: "inum \<Rightarrow> string \<Rightarrow> nat \<Rightarrow> nat \<Rightarrow> fs_prog" where
  "write_prog i buf sz off =
     (if isfile i
      then Lock i (Fetch i (\<lambda>s. Store i (write_content s off sz (write_bytes buf sz))
             (Unlock i (Ret (Inr (RWrite sz))))))
      else Ret (Inr (RErr ENOSYS)))"

text \<open>\<open>create\<close> and \<open>mknod\<close>, which differ in the function that sends the reply only.\<close>

definition create_prog :: "inum \<Rightarrow> string \<Rightarrow> u64 \<Rightarrow> fs_prog" where
  "create_prog parent name r =
     (if isdir parent then
        Lock parent (Fetch parent (\<lambda>dirCon.
          if str_find (name @ ''='') dirCon \<noteq> None then Unlock parent (Ret (Inr (RErr EEXIST)))
          else
            (let fileNum = get_new_inum True r
             in Lock fileNum (Store fileNum [] (Store parent (dir_append dirCon name fileNum)
                  (Attrs fileNum (\<lambda>_ st. Unlock fileNum (Unlock parent (Ret (Inr (REntry fileNum st)))))))))))
      else Ret (Inr (RErr ENOENT)))"

definition lookup_prog :: "inum \<Rightarrow> string \<Rightarrow> fs_prog" where
  "lookup_prog parent name =
     Lock parent (Fetch parent (\<lambda>dirCon.
       case str_find (name @ ''='') dirCon of
         None \<Rightarrow> Unlock parent (Ret (Inr (RErr ENOENT)))
       | Some pos \<Rightarrow>
           (let i = entry_inum (drop pos dirCon)
            in Lock i (Attrs i (\<lambda>ret st. Unlock i (Unlock parent
                 (Ret (Inr (if ret = YOK then REntry i st else RErr ENOENT)))))))))"

definition mkdir_prog :: "inum \<Rightarrow> string \<Rightarrow> u64 \<Rightarrow> fs_prog" where
  "mkdir_prog parent name r =
     (if isdir parent then
        (let newNo = get_new_inum False r
         in Lock parent (Lock newNo (Fetch parent (\<lambda>dirContent. Store newNo []
              (Store parent (dir_append dirContent name newNo)
                (Attrs newNo (\<lambda>_ st. Unlock newNo (Unlock parent (Ret (Inr (REntry newNo st)))))))))))
      else Ret (Inr (RErr ENOSYS)))"

definition unlink_prog :: "inum \<Rightarrow> string \<Rightarrow> fs_prog" where
  "unlink_prog parent name =
     (if isdir parent then
        Lock parent (Fetch parent (\<lambda>dirCon.
          case str_find (name @ ''='') dirCon of
            None \<Rightarrow> Unlock parent (Ret (Inr (RErr ENOENT)))
          | Some pos \<Rightarrow>
              (let i = entry_inum (drop pos dirCon)
               in Store parent (dir_unlink dirCon pos) (Lock i (Erase i (Unlock i (Unlock parent
                    (Ret (Inr (RErr E_OK))))))))))
      else Ret (Inr (RErr ENOENT)))"

definition readdir_prog :: "inum \<Rightarrow> fs_prog" where
  "readdir_prog i =
     (if isdir i
      then Lock i (Fetch i (\<lambda>s. Unlock i (Ret (Inr (RDir (map parse_entry (split_semi s)))))))
      else Ret (Inr (RErr ENOTDIR)))"

fun prog_of :: "fs_request \<Rightarrow> fs_prog" where
  "prog_of (ReqGetattr i) = getattr_prog i"
| "prog_of (ReqSetattr i to_size) = setattr_prog i to_size"
| "prog_of (ReqRead i sz off) = read_prog i sz off"
| "prog_of (ReqWrite i buf sz off) = write_prog i buf sz off"
| "prog_of (ReqCreate p n r) = create_prog p n r"
| "prog_of (ReqMknod p n r) = create_prog p n r"
| "prog_of (ReqLookup p n) = lookup_prog p n"
| "prog_of (ReqMkdir p n r) = mkdir_prog p n r"
| "prog_of (ReqUnlink p n) = unlink_prog p n"
| "prog_of (ReqReaddir i) = readdir_prog i"
| "prog_of (ReqOpen i) = Ret (Inr (fuse_open i))"

lemmas prog_defs = getattr_prog_def setattr_prog_def read_prog_def write_prog_def create_prog_def
  lookup_prog_def mkdir_prog_def unlink_prog_def readdir_prog_def

text \<open>A step that uses an extent, on the state of the mount.\<close>

fun prog_act :: "fs_prog \<Rightarrow> yfs \<Rightarrow> (inum \<times> yfs \<times> fs_prog) option" where
  "prog_act (Fetch i k) y = (let (y, _, s) = get_fileDir_content i [] y in Some (i, y, k s))"
| "prog_act (Store i t p) y = (let (y, _) = yfs_put i t y in Some (i, y, p))"
| "prog_act (Attrs i k) y = (let (y, ret, st) = getattr_st i y in Some (i, y, k ret st))"
| "prog_act (Erase i p) y = (let (y, _) = yfs_remove i y in Some (i, y, p))"
| "prog_act p y = None"

text \<open>Running a handler in one go.\<close>

primrec run_prog :: "fs_prog \<Rightarrow> yfs \<Rightarrow> yfs \<times> reply res" where
  "run_prog (Ret r) = (\<lambda>y. (y, r))"
| "run_prog (Lock i p) = (\<lambda>y. run_prog p (yfs_acquire i y))"
| "run_prog (Unlock i p) = (\<lambda>y. run_prog p (yfs_release i y))"
| "run_prog (Fetch i k) = (\<lambda>y. let (y, _, s) = get_fileDir_content i [] y in run_prog (k s) y)"
| "run_prog (Store i t p) = (\<lambda>y. let (y, _) = yfs_put i t y in run_prog p y)"
| "run_prog (Attrs i k) = (\<lambda>y. let (y, ret, st) = getattr_st i y in run_prog (k ret st) y)"
| "run_prog (Erase i p) = (\<lambda>y. let (y, _) = yfs_remove i y in run_prog p y)"

text \<open>The steps of a handler, run in one go, are the handler.\<close>

lemma run_read_prog:
  "run_prog (read_prog i sz off) y = (y', r) \<Longrightarrow>
    (case r of Inr x \<Rightarrow> fuse_read i sz off y = Inr (y', x) | Inl e \<Rightarrow> fuse_read i sz off y = Inl e)"
  by (cases r) (auto simp: read_prog_def fuse_read_def Let_def rbind_def split: prod.splits if_splits sum.splits)

lemma run_create_prog:
  "run_prog (create_prog p n r) y = map_prod id Inr (fuse_create p n r y)"
  "run_prog (create_prog p n r) y = map_prod id Inr (fuse_mknod p n r y)"
  by (auto simp: create_prog_def fuse_create_def fuse_mknod_def createhelper_def Let_def split: prod.splits)

lemma run_prog_of:
  assumes "\<forall>i sz off. rq \<noteq> ReqRead i sz off"
  shows "run_prog (prog_of rq) y = serve_req rq y"
proof (cases rq)
  case (ReqSetattr i to_size)
  then show ?thesis
    by (cases to_size) (simp_all add: setattr_prog_def fuse_setattr_def resized_def Let_def split: prod.split)
next
  case (ReqCreate p n r)
  then show ?thesis using run_create_prog(1) by simp
next
  case (ReqMknod p n r)
  then show ?thesis using run_create_prog(2) by simp
next
  case (ReqLookup p n)
  then show ?thesis by (simp add: lookup_prog_def fuse_lookup_def Let_def split: prod.split option.split)
next
  case (ReqUnlink p n)
  then show ?thesis by (simp add: unlink_prog_def fuse_unlink_def Let_def split: prod.split option.split)
qed (use assms in \<open>simp_all add: prog_defs fuse_getattr_def fuse_write_def fuse_mkdir_def fuse_readdir_def Let_def
  split: prod.split\<close>)

section \<open>What a handler may reply\<close>

text \<open>
  The specification: a handler as a transaction on the contents of files and directories.  The attributes of an
  extent that exists are its own up to the times; those of a missing one are not determined.
\<close>

definition text_at :: "(inum \<rightharpoonup> string) \<Rightarrow> inum \<Rightarrow> string" where
  "text_at S i = (case S i of Some s \<Rightarrow> s | None \<Rightarrow> [])"

definition attrs_ok :: "string option \<Rightarrow> inum \<Rightarrow> yfs_status \<Rightarrow> stat \<Rightarrow> bool" where
  "attrs_ok v i ret st \<longleftrightarrow> st_ino st = i \<and> st_isfile st = isfile i \<and> st_nlink st = (if isfile i then 1 else 2) \<and>
     (case v of Some s \<Rightarrow> ret = YOK \<and> a_size (st_attr st) = (if isfile i then size_u32 s else 0) | None \<Rightarrow> True)"

primrec may :: "fs_prog \<Rightarrow> (inum \<rightharpoonup> string) \<Rightarrow> (inum \<rightharpoonup> string) \<Rightarrow> reply res \<Rightarrow> bool" where
  "may (Ret r0) = (\<lambda>S S' r. S' = S \<and> r = r0)"
| "may (Lock i p) = may p"
| "may (Unlock i p) = may p"
| "may (Fetch i k) = (\<lambda>S S' r. may (k (text_at S i)) S S' r)"
| "may (Store i t p) = (\<lambda>S S' r. may p (S(i \<mapsto> t)) S' r)"
| "may (Attrs i k) = (\<lambda>S S' r. \<exists>ret st. attrs_ok (S i) i ret st \<and> may (k ret st) S S' r)"
| "may (Erase i p) = (\<lambda>S S' r. may p (S(i := None)) S' r)"

text \<open>Requests whose reply the contents determine: those that do not ask for attributes of a missing file.\<close>

fun asks_existing :: "fs_request \<Rightarrow> (inum \<rightharpoonup> string) \<Rightarrow> bool" where
  "asks_existing (ReqGetattr i) S = (S i \<noteq> None)"
| "asks_existing (ReqLookup p n) S =
     (case str_find (n @ ''='') (text_at S p) of
        None \<Rightarrow> True
      | Some pos \<Rightarrow> S (entry_inum (drop pos (text_at S p))) \<noteq> None)"
| "asks_existing _ S = True"

fun without_times :: "reply \<Rightarrow> reply" where
  "without_times (RAttr st) = RAttr (untimed st)"
| "without_times (REntry i st) = REntry i (untimed st)"
| "without_times r = r"

definition same_reply :: "reply res \<Rightarrow> reply res \<Rightarrow> bool" where
  "same_reply r r' \<longleftrightarrow> map_sum id without_times r = map_sum id without_times r'"

lemma same_reply_simps [simp]:
  "same_reply r r" "same_reply (Inr (RAttr st)) (Inr (RAttr st')) = (untimed st = untimed st')"
  "same_reply (Inr (REntry i st)) (Inr (REntry i st')) = (untimed st = untimed st')"
  by (simp_all add: same_reply_def)

lemma attrs_ok_determined:
  assumes "attrs_ok (Some v) i ret st" and "attrs_ok (Some v) i ret' st'"
  shows "ret = YOK" "ret' = YOK" "untimed st = untimed st'"
  using assms by (auto simp: attrs_ok_def untimed_def intro: stat.equality)

lemma attrs_ok_some: "attrs_ok (Some v) i ret st \<Longrightarrow> ret = YOK"
  by (simp add: attrs_ok_def)

lemma may_determined:
  assumes "may (prog_of rq) S S1 r1" and "may (prog_of rq) S S2 r2"
  shows "S1 = S2 \<and> (asks_existing rq S \<longrightarrow> same_reply r1 r2)"
proof (cases rq)
  case (ReqGetattr i)
  then show ?thesis using assms
    by (cases "S i") (auto simp: getattr_prog_def dest: attrs_ok_some intro: attrs_ok_determined(3))
next
  case (ReqLookup p n)
  show ?thesis
  proof (cases "str_find (n @ ''='') (text_at S p)")
    case None
    then show ?thesis using assms ReqLookup by (simp add: lookup_prog_def)
  next
    case (Some pos)
    let ?i = "entry_inum (drop pos (text_at S p))"
    show ?thesis using assms ReqLookup Some
      by (cases "S ?i") (auto simp: lookup_prog_def Let_def dest: attrs_ok_some intro: attrs_ok_determined(3))
  qed
next
  case (ReqUnlink p n)
  then show ?thesis using assms
    by (cases "str_find (n @ ''='') (text_at S p)") (auto simp: unlink_prog_def Let_def split: if_splits)
next
  case (ReqSetattr i to_size)
  then show ?thesis using assms
    by (cases to_size) (auto simp: setattr_prog_def intro: attrs_ok_determined(3) split: if_splits)
qed (use assms in \<open>auto simp: prog_defs Let_def intro: attrs_ok_determined(3) split: if_splits\<close>)

section \<open>A step does what the transaction says\<close>

text \<open>A mount whose cache is coherent and knows the right sizes.\<close>

definition sound :: "yfs \<Rightarrow> bool" where
  "sound y \<longleftrightarrow> yfs_ok y \<and> sized (y_cs y)"

lemma sound_lock [simp]: "sound (yfs_acquire i y) = sound y" "sound (yfs_release i y) = sound y"
  "sound (y\<lparr>y_now := t\<rparr>) = sound y"
  by (simp_all add: sound_def) (simp_all add: yfs_acquire_def yfs_release_def note_act_def yfs_ok_def)

lemma seen_now [simp]: "seen (y\<lparr>y_now := t\<rparr>) = seen y"
  by (simp add: seen_def)

lemma text_of_at: "text_of y = text_at (seen y)"
  by (simp add: fun_eq_iff text_of_def text_at_def)

lemma act_get:
  "sound y \<Longrightarrow> get_fileDir_content i [] y = (y', r, s) \<Longrightarrow> sound y' \<and> seen y' = seen y \<and> s = text_at (seen y) i"
  using get_content [of y i] get_sized [of y i] by (auto simp: sound_def text_of_at)

lemma act_put: "sound y \<Longrightarrow> yfs_put i t y = (y', r) \<Longrightarrow> sound y' \<and> seen y' = (seen y)(i \<mapsto> t)"
  using put_content [of y i t] put_sized [of y i t] by (auto simp: sound_def)

lemma act_remove: "sound y \<Longrightarrow> yfs_remove i y = (y', r) \<Longrightarrow> sound y' \<and> seen y' = (seen y)(i := None)"
proof -
  assume s: "sound y" and r: "yfs_remove i y = (y', r)"
  obtain cache srv where cs: "y_cs y = (cache, srv)" by force
  have "y_cs y' = (cache(i \<mapsto> \<lparr>fd_attr = Attr 0 0 0 0, fd_content = [], fd_isDirty = True, fd_removed = True,
      fd_exist = False\<rparr>), srv)"
    using r cs by (auto simp: yfs_remove_def client_remove_def note_act_def Let_def split: if_splits)
  then have "sized (y_cs y')" using s cs by (auto simp: sound_def fd_view_def intro: sized_upd)
  then show ?thesis using remove_content [OF _ r] s by (simp add: sound_def)
qed

lemma act_getattr:
  "sound y \<Longrightarrow> getattr_st i y = (y', ret, st) \<Longrightarrow> sound y' \<and> seen y' = seen y \<and> attrs_ok (seen y i) i ret st"
proof -
  assume s: "sound y" and g: "getattr_st i y = (y', ret, st)"
  have k: "yfs_ok y" "sized (y_cs y)" using s by (simp_all add: sound_def)
  show ?thesis using getattr_content [OF k(1) g] getattr_sized [OF k(2) g]
    by (auto simp: sound_def attrs_ok_def split: option.split)
qed

text \<open>The step leaves all other extents alone, in the cache and on the server.\<close>

lemma prog_act_frame:
  assumes "prog_act p y = Some (i, y', p')"
  shows "changes_only i (y_cs y) (y_cs y')"
  using assms
proof (cases p)
  case (Fetch j k)
  then show ?thesis using assms fileGetter_frame [of i "y_cs y"]
    by (auto simp: get_fileDir_content_def client_get_def note_act_def split_def Let_def)
next
  case (Attrs j k)
  then show ?thesis using assms fileGetter_frame [of i "y_cs y"]
    by (auto simp: getattr_st_def yfs_getattr_def client_getattr_def note_act_def split_def Let_def)
qed (auto simp: yfs_put_def yfs_remove_def client_put_def client_remove_def note_act_def changes_only_def split_def Let_def)

lemma prog_act_may:
  assumes "sound y" and "prog_act p y = Some (i, y', p')"
  shows "sound y' \<and> (\<exists>v. seen y' = (seen y)(i := v)) \<and>
    (\<forall>X S r. X i = seen y i \<longrightarrow> may p' (X(i := seen y' i)) S r \<longrightarrow> may p X S r)"
proof (cases p)
  case (Fetch j k)
  then obtain r s where "get_fileDir_content i [] y = (y', r, s)" "p' = k s" "j = i"
    using assms(2) by (auto split: prod.splits)
  then show ?thesis using act_get [OF assms(1)] Fetch
    by (auto simp: text_at_def fun_upd_idem intro!: exI [of _ "seen y i"])
next
  case (Store j t q)
  then obtain r where "yfs_put i t y = (y', r)" "p' = q" "j = i" using assms(2) by (auto split: prod.splits)
  then show ?thesis using act_put [OF assms(1)] Store by auto
next
  case (Attrs j k)
  then obtain ret st where g: "getattr_st i y = (y', ret, st)" "p' = k ret st" "j = i"
    using assms(2) by (auto split: prod.splits)
  then show ?thesis using act_getattr [OF assms(1) g(1)] Attrs
    by (auto simp: fun_upd_idem intro!: exI [of _ "seen y i"])
next
  case (Erase j q)
  then obtain r where "yfs_remove i y = (y', r)" "p' = q" "j = i" using assms(2) by (auto split: prod.splits)
  then show ?thesis using act_remove [OF assms(1)] Erase by auto
qed (use assms in simp_all)

text \<open>So one mount alone does what the transaction says.\<close>

lemma run_prog_may:
  assumes "sound y" and "run_prog p y = (y', r)"
  shows "sound y' \<and> may p (seen y) (seen y') r"
  using assms
proof (induction p arbitrary: y)
  case (Fetch i k)
  obtain y1 r1 s where "get_fileDir_content i [] y = (y1, r1, s)" by (metis prod_cases3)
  then show ?case using act_get [OF Fetch.prems(1)] Fetch by fastforce
next
  case (Store i t p)
  obtain y1 r1 where "yfs_put i t y = (y1, r1)" by force
  then show ?case using act_put [OF Store.prems(1)] Store by fastforce
next
  case (Attrs i k)
  obtain y1 ret st where "getattr_st i y = (y1, ret, st)" by (metis prod_cases3)
  then show ?case using act_getattr [OF Attrs.prems(1)] Attrs by fastforce
next
  case (Erase i p)
  obtain y1 r1 where "yfs_remove i y = (y1, r1)" by force
  then show ?case using act_remove [OF Erase.prems(1)] Erase by fastforce
next
  case (Lock i p)
  then show ?case using Lock.IH [of "yfs_acquire i y"] by simp
next
  case (Unlock i p)
  then show ?case using Unlock.IH [of "yfs_release i y"] by simp
qed simp

lemma serve_req_may:
  assumes "sound y" and "serve_req rq y = (y', r)"
  shows "sound y' \<and> may (prog_of rq) (seen y) (seen y') r"
proof (cases "\<exists>i sz off. rq = ReqRead i sz off")
  case False
  then show ?thesis using run_prog_may [OF assms(1)] run_prog_of [of rq y] assms(2) by metis
next
  case True
  then obtain i sz off where rq: "rq = ReqRead i sz off" by blast
  obtain y1 r1 where p: "run_prog (read_prog i sz off) y = (y1, r1)" by force
  note may1 = run_prog_may [OF assms(1) p]
  show ?thesis
  proof (cases r1)
    case (Inr x)
    then have "y' = y1" "r = r1" using run_read_prog [OF p] assms(2) rq by simp_all
    then show ?thesis using may1 rq by simp
  next
    case (Inl e)
    then have "y' = y" "r = r1" using run_read_prog [OF p] assms(2) rq by simp_all
    moreover have "seen y1 = seen y" using may1 by (auto simp: read_prog_def split: if_splits)
    ultimately show ?thesis using may1 assms(1) rq by simp
  qed
qed

section \<open>Two phases\<close>

text \<open>What is left of a handler when it only unlocks and replies.\<close>

fun closing :: "fs_prog \<Rightarrow> (inum list \<times> reply res) option" where
  "closing (Ret r) = Some ([], r)"
| "closing (Unlock i p) = map_option (\<lambda>(is, r). (i # is, r)) (closing p)"
| "closing p = None"

text \<open>
  Every handler uses only extents it has locked, gives every lock back once, and after the first
  unlock neither locks nor uses anything.
\<close>

primrec two_phase :: "fs_prog \<Rightarrow> inum set \<Rightarrow> bool" where
  "two_phase (Ret r) = (\<lambda>H. H = {})"
| "two_phase (Lock i p) = (\<lambda>H. i \<notin> H \<longrightarrow> two_phase p (insert i H))"
| "two_phase (Unlock i p) = (\<lambda>H. \<exists>is r. closing (Unlock i p) = Some (is, r) \<and> distinct is \<and> set is = H)"
| "two_phase (Fetch i k) = (\<lambda>H. i \<in> H \<and> (\<forall>s. two_phase (k s) H))"
| "two_phase (Store i t p) = (\<lambda>H. i \<in> H \<and> two_phase p H)"
| "two_phase (Attrs i k) = (\<lambda>H. i \<in> H \<and> (\<forall>ret st. two_phase (k ret st) H))"
| "two_phase (Erase i p) = (\<lambda>H. i \<in> H \<and> two_phase p H)"

lemma handlers_two_phase: "two_phase (prog_of rq) {}"
  by (cases rq) (auto simp: prog_defs Let_def split: option.split)

lemma closing_two_phase: "two_phase p H \<Longrightarrow> closing p = Some (is, r) \<Longrightarrow> distinct is \<and> set is = H"
  by (cases p) auto

lemma closing_may: "closing p = Some (is, r) \<Longrightarrow> may p S S r"
  by (induction p arbitrary: "is" rule: closing.induct) auto

lemma act_two_phase: "two_phase p H \<Longrightarrow> prog_act p y = Some (i, y', p') \<Longrightarrow> i \<in> H \<and> two_phase p' H"
  by (cases p) (auto split: prod.splits)

end
