(* ===== verification/DistFs.thy ===== *)
theory DistFs
  imports FsSteps LockSystem
begin

text \<open>
  The file system as a whole: any number of mounts, each with its caching lock client, its caching
  extent client and its handlers, over one lock server and one extent server.  The handlers of different
  mounts interleave at every call of the two clients, while revokes, retries, flushes and releases
  happen at any time.  The theorem says that the mounts together behave like one mount that
  serves the requests one after the other.
\<close>

section \<open>Mounts, lock service and extent server\<close>

text \<open>
  A mount serves one request at a time (\<open>fuse_session_loop\<close>).  From its first unlock on its reply
  is settled and only the locks still to be given back are left.  A handler that throws ends the process.
\<close>

datatype mount_phase =
    Ready
  | Busy fs_request fs_prog
  | Closing fs_request "inum list" "reply res"
  | Dead

text \<open>
  \<open>ds_rel\<close> is the release a releaser thread sends after the flush it has made; \<open>ds_log\<close> lists the
  requests in the order in which their replies were settled, for the specification.
\<close>

record dfs =
  ds_lk :: lk_sys
  ds_srv :: extents
  ds_cache :: "int \<Rightarrow> fileCache"
  ds_rel :: "int \<Rightarrow> (lockid \<times> u32) option"
  ds_run :: "int \<Rightarrow> mount_phase"
  ds_log :: "(int \<times> fs_request \<times> reply res) list"

definition mount :: "dfs \<Rightarrow> int \<Rightarrow> u32 \<Rightarrow> yfs" where
  "mount d c now = \<lparr>y_cs = (ds_cache d c, ds_srv d), y_now = now, y_trace = []\<rparr>"

definition put_mount :: "int \<Rightarrow> yfs \<Rightarrow> dfs \<Rightarrow> dfs" where
  "put_mount c y d = d\<lparr>ds_cache := (ds_cache d)(c := fst (y_cs y)), ds_srv := snd (y_cs y)\<rparr>"

definition sends_release :: "lk_sys \<Rightarrow> lk_sys \<Rightarrow> bool" where
  "sends_release s t \<longleftrightarrow> (\<exists>c l n. ss_call t c l = RelSent n \<and> ss_call s c l \<noteq> RelSent n)"

text \<open>
  The lock client was given the file system as its release user, so for an entry of its snapshot of the
  revoke map, with number \<open>n\<close>, the releaser calls \<open>dorelease\<close>, which flushes the extent, and then
  sends the release.  A step of the lock service that grants a lock or
  gives one back is the step of the handler whose turn it is.
\<close>

inductive dfs_step :: "dfs \<Rightarrow> dfs \<Rightarrow> bool" where
  service: "lk_step (ds_lk d) s \<Longrightarrow> ss_hold s = ss_hold (ds_lk d) \<Longrightarrow> \<not> sends_release (ds_lk d) s \<Longrightarrow>
    dfs_step d (d\<lparr>ds_lk := s\<rparr>)"
| do_release: "ds_rel d c = None \<Longrightarrow> ss_call (ds_lk d) c l = NoCall \<Longrightarrow>
    releaser_check True l n (ss_clt (ds_lk d) c) = Inr [DoRelease l, SendRelease l m] \<Longrightarrow>
    dfs_step d ((put_mount c (yfs_dorelease l (mount d c now)) d)\<lparr>ds_rel := (ds_rel d)(c := Some (l, m))\<rparr>)"
| send_release: "ds_rel d c = Some (l, m) \<Longrightarrow>
    dfs_step d (d\<lparr>ds_lk := (ds_lk d)\<lparr>ss_call := upd2 (ss_call (ds_lk d)) c l (RelSent m)\<rparr>,
      ds_rel := (ds_rel d)(c := None)\<rparr>)"
| ask: "ds_run d c = Ready \<Longrightarrow>
    dfs_step d (d\<lparr>ds_run := (ds_run d)(c := Busy rq (prog_of rq))\<rparr>)"
| lock: "ds_run d c = Busy rq (Lock i p) \<Longrightarrow> lk_step (ds_lk d) s \<Longrightarrow>
    ss_hold s = upd2 (ss_hold (ds_lk d)) c i (ss_hold (ds_lk d) c i + 1) \<Longrightarrow>
    dfs_step d (d\<lparr>ds_lk := s, ds_run := (ds_run d)(c := Busy rq p)\<rparr>)"
| use_extent: "ds_run d c = Busy rq p \<Longrightarrow> prog_act p (mount d c now) = Some (i, y, p') \<Longrightarrow>
    dfs_step d ((put_mount c y d)\<lparr>ds_run := (ds_run d)(c := Busy rq p')\<rparr>)"
| settle: "ds_run d c = Busy rq p \<Longrightarrow> closing p = Some (is, r) \<Longrightarrow>
    dfs_step d (d\<lparr>ds_run := (ds_run d)(c := Closing rq is r), ds_log := ds_log d @ [(c, rq, r)]\<rparr>)"
| unlock: "ds_run d c = Closing rq (i # is) r \<Longrightarrow> lk_step (ds_lk d) s \<Longrightarrow>
    ss_hold (ds_lk d) c i = Suc h \<Longrightarrow> ss_hold s = upd2 (ss_hold (ds_lk d)) c i h \<Longrightarrow>
    dfs_step d (d\<lparr>ds_lk := s, ds_run := (ds_run d)(c := Closing rq is r)\<rparr>)"
| answer: "ds_run d c = Closing rq [] r \<Longrightarrow>
    dfs_step d (d\<lparr>ds_run := (ds_run d)(c := if isl r then Dead else Ready)\<rparr>)"

definition dfs_init :: "extents \<Rightarrow> dfs" where
  "dfs_init srv = \<lparr>ds_lk = lk_init, ds_srv = srv, ds_cache = \<lambda>_. Map.empty, ds_rel = \<lambda>_. None,
     ds_run = \<lambda>_. Ready, ds_log = []\<rparr>"

inductive dfs_reach :: "extents \<Rightarrow> dfs \<Rightarrow> bool" for srv where
  init: "dfs_reach srv (dfs_init srv)"
| step: "dfs_reach srv d \<Longrightarrow> dfs_step d d' \<Longrightarrow> dfs_reach srv d'"

section \<open>One mount serving the same requests\<close>

definition fresh_mount :: "extents \<Rightarrow> yfs" where
  "fresh_mount srv = \<lparr>y_cs = (Map.empty, srv), y_now = 0, y_trace = []\<rparr>"

text \<open>
  The requests of a log, served by one mount at the given times: the result is its final state when
  every reply is the one in the log up to the times in attributes, and \<open>None\<close> otherwise.  A request for
  the attributes of a missing file is not compared: its reply depends on whether the miss is cached.
\<close>

fun one_mount :: "(int \<times> fs_request \<times> reply res) list \<Rightarrow> u32 list \<Rightarrow> yfs \<Rightarrow> yfs option" where
  "one_mount [] ts y = Some y"
| "one_mount ((c, rq, r) # l) (t # ts) y =
     (case serve_req rq (y\<lparr>y_now := t\<rparr>) of
        (y', r') \<Rightarrow> if asks_existing rq (seen y) \<longrightarrow> same_reply r r' then one_mount l ts y' else None)"
| "one_mount (e # l) [] y = None"

definition last_entry :: "(int \<times> fs_request \<times> reply res) list \<Rightarrow> int \<Rightarrow> fs_request \<Rightarrow> reply res \<Rightarrow> bool" where
  "last_entry l c rq r \<longleftrightarrow> (\<exists>pre post. l = pre @ (c, rq, r) # post \<and> (\<forall>e \<in> set post. fst e \<noteq> c))"

fun is_busy :: "mount_phase \<Rightarrow> bool" where
  "is_busy (Busy rq p) = True"
| "is_busy ph = False"

text \<open>The same log as a sequence of transactions.\<close>

fun log_may :: "(inum \<rightharpoonup> string) \<Rightarrow> (int \<times> fs_request \<times> reply res) list \<Rightarrow> (inum \<rightharpoonup> string) \<Rightarrow> bool" where
  "log_may S0 [] S \<longleftrightarrow> S = S0"
| "log_may S0 ((c, rq, r) # l) S \<longleftrightarrow> (\<exists>S1. may (prog_of rq) S0 S1 r \<and> log_may S1 l S)"

lemma log_may_append:
  "log_may S0 l S \<Longrightarrow> may (prog_of rq) S S' r \<Longrightarrow> log_may S0 (l @ [(c, rq, r)]) S'"
  by (induction S0 l S rule: log_may.induct) auto

lemma last_entry_append:
  "last_entry (l @ [(c, rq, r)]) c rq r"
  "c' \<noteq> c \<Longrightarrow> last_entry l c rq r \<Longrightarrow> last_entry (l @ [(c', e)]) c rq r"
  unfolding last_entry_def by (fastforce, fastforce)

lemma log_may_one_mount:
  assumes "log_may (seen y) l S" and "sound y" and "length ts = length l"
  shows "\<exists>y'. one_mount l ts y = Some y' \<and> seen y' = S"
  using assms
proof (induction l arbitrary: ts y)
  case Nil
  then show ?case by simp
next
  case (Cons e l)
  obtain c rq r where e: "e = (c, rq, r)" by (metis prod_cases3)
  obtain t ts' where ts: "ts = t # ts'" using Cons.prems(3) by (cases ts) auto
  obtain y1 r1 where s: "serve_req rq (y\<lparr>y_now := t\<rparr>) = (y1, r1)" by force
  have y1: "sound y1" "may (prog_of rq) (seen y) (seen y1) r1"
    using serve_req_may [OF _ s] Cons.prems(2) by simp_all
  obtain S1 where S1: "may (prog_of rq) (seen y) S1 r" "log_may S1 l S" using Cons.prems(1) e by auto
  note det = may_determined [OF S1(1) y1(2)]
  then obtain y' where "one_mount l ts' y1 = Some y'" "seen y' = S"
    using Cons.IH [of y1 ts'] S1(2) y1(1) Cons.prems(3) ts by auto
  then show ?case using e ts s det by simp
qed

section \<open>What the lock service guarantees\<close>

text \<open>A client keeps a lock's data from the grant until the flush.\<close>

definition keeps :: "lk_sys \<Rightarrow> (int \<Rightarrow> (lockid \<times> u32) option) \<Rightarrow> int \<Rightarrow> lockid \<Rightarrow> bool" where
  "keeps s rel c l \<longleftrightarrow> st_of (ss_clt s c) l \<in> {L_FREE, L_LOCKED} \<or>
     (st_of (ss_clt s c) l = L_RELEASING \<and> ss_call s c l = NoCall \<and> (\<forall>m. rel c \<noteq> Some (l, m)))"

definition locks_inv :: "dfs \<Rightarrow> bool" where
  "locks_inv d \<longleftrightarrow> lk_inv (ds_lk d) \<and>
     (\<forall>c l m. ds_rel d c = Some (l, m) \<longrightarrow> st_of (ss_clt (ds_lk d) c) l = L_RELEASING \<and>
        ss_call (ds_lk d) c l = NoCall \<and> seq_of (ss_clt (ds_lk d) c) l = m) \<and>
     (\<forall>c l. ds_cache d c l \<noteq> None \<longrightarrow> keeps (ds_lk d) (ds_rel d) c l)"

lemma keeps_owner:
  assumes "lk_inv s" and "keeps s rel c l"
  shows "lock_owner (ss_srv s) l = Some (c, seq_of (ss_clt s c) l)"
  using cell_at [OF assms(1), of c l] assms(2) by (auto simp: keeps_def cell_ok_def)

lemma keeps_exclusive:
  assumes "locks_inv d" and "keeps (ds_lk d) (ds_rel d) c l" and "e \<noteq> c"
  shows "ds_cache d e l = None"
proof (rule ccontr)
  assume "ds_cache d e l \<noteq> None"
  then have "keeps (ds_lk d) (ds_rel d) e l" "lk_inv (ds_lk d)" using assms(1) by (auto simp: locks_inv_def)
  then show False using keeps_owner [OF _ assms(2)] keeps_owner [of "ds_lk d" "ds_rel d" e l] assms(3) by auto
qed

lemma held_keeps: "lk_inv s \<Longrightarrow> ss_hold s c l \<noteq> 0 \<Longrightarrow> keeps s rel c l"
  using cell_at [of s c l] by (auto simp: cell_ok_def keeps_def split: if_splits)

text \<open>
  A step of the lock service changes one lock of one client: a lock that is free or held stays so or starts to
  be released, and one that is being released stays so until the release is sent.
\<close>

definition cell_step :: "lock_state \<Rightarrow> u32 \<Rightarrow> call_phase \<Rightarrow> lock_state \<Rightarrow> u32 \<Rightarrow> call_phase \<Rightarrow> bool" where
  "cell_step st q p st' q' p' \<longleftrightarrow>
     (st \<in> {L_FREE, L_LOCKED} \<longrightarrow> p' = NoCall \<and> st' \<in> {L_FREE, L_LOCKED, L_RELEASING}) \<and>
     (st = L_RELEASING \<and> p = NoCall \<longrightarrow> st' = L_RELEASING \<and> q' = q \<and> (p' = NoCall \<or> (\<exists>m. p' = RelSent m)))"

lemma cell_step_refl: "phase_ok st q p \<Longrightarrow> cell_step st q p st q p"
  by (cases st) (auto simp: cell_step_def)

lemma lk_step_cell:
  assumes "lk_step s t" and inv: "lk_inv s"
  shows "cell_step (st_of (ss_clt s c) l) (seq_of (ss_clt s c) l) (ss_call s c l)
    (st_of (ss_clt t c) l) (seq_of (ss_clt t c) l) (ss_call t c l)"
proof -
  have ph: "phase_ok (st_of (ss_clt s c) l) (seq_of (ss_clt s c) l) (ss_call s c l)" for c l
    using cell_at [OF inv, of c l] by (simp add: cell_ok_def)
  show ?thesis
    using assms(1)
  proof cases
    case (turn seen l' c' k tn)
    show ?thesis using turn(2)
      by (cases rule: turn_cases) (use turn(1) ph [of c l] in \<open>auto simp: phase_of_def cell_step_def\<close>)
  next
    case (release c' l' h k)
    obtain st where "st = L_FREE \<or> st = L_RELEASING"
      "li_of k = (li_of (ss_clt s c'))(l' := (li_of (ss_clt s c') l')\<lparr>li_status := st\<rparr>)"
      using client_release_status [OF release(3)] by blast
    moreover have "st_of (ss_clt s c') l' = L_LOCKED" "ss_call s c' l' = NoCall"
      using cell_at [OF inv, of c' l'] release(2) by (auto simp: cell_ok_def split: if_splits)
    ultimately show ?thesis using release(1) ph [of c l] by (auto simp: cell_step_def)
  next
    case (revoke l' n c' k)
    then show ?thesis using client_revoke_status [OF revoke(2)] ph [of c l]
      by (auto simp: cell_step_def split: if_splits)
  next
    case (reply c' l' st k tn)
    have "st_of (ss_clt s c') l' = L_ACQUIRING"
      using ph [of c' l'] reply(2) by (cases "st_of (ss_clt s c') l'") auto
    moreover have "cc_lockMap (ss_clt s c') l' \<noteq> None" using entry_of calculation by fastforce
    then have "li_of k x = li_of (ss_clt s c') x" if "x \<noteq> l'" for x
      using reply(3) li_of_set_status [of "ss_clt s c'" l'] that
      by (auto simp: acquire_reply_def split: option.splits if_splits)
    ultimately show ?thesis using reply(1) ph [of c l] by (auto simp: cell_step_def)
  next
    case (released c' l')
    have "st_of (ss_clt s c') l' = L_RELEASING"
      using ph [of c' l'] released(2) by (cases "st_of (ss_clt s c') l'") auto
    then have "li_of (releaser_done l' (ss_clt s c')) x = li_of (ss_clt s c') x" if "x \<noteq> l'" for x
      using li_of_done [of "ss_clt s c'" l'] entry_of that by fastforce
    then show ?thesis using released(1,2) ph [of c l] by (auto simp: cell_step_def)
  next
    case (serve_acquire c' l' n v st)
    then show ?thesis using ph [of c l] ph [of c' l']
      by (cases "st_of (ss_clt s c') l'") (auto simp: cell_step_def)
  next
    case (serve_release c' l' n v)
    then show ?thesis using ph [of c l] ph [of c' l']
      by (cases "st_of (ss_clt s c') l'") (auto simp: cell_step_def)
  next
    case (releaser c' l' n lu calls m)
    have "st_of (ss_clt s c') l' = L_RELEASING"
      using releaser(4,5) by (auto simp: releaser_check_def li_of_Some split: option.splits if_splits)
    then show ?thesis using releaser(1) ph [of c l] by (auto simp: cell_step_def)
  qed (use cell_step_refl [OF ph [of c l]] in \<open>auto simp: client_retry_def\<close>)
qed

text \<open>Granting a lock or giving it back sends no release.\<close>

lemma hold_sends_no_release:
  assumes "lk_step s t" and "ss_hold t \<noteq> ss_hold s"
  shows "\<not> sends_release s t"
  using assms by (cases rule: lk_step.cases)
    (auto simp: sends_release_def phase_of_def upd2_same held_of_def split: turn.splits if_splits)

lemma keeps_step:
  assumes "lk_step s t" and "lk_inv s" and "\<not> sends_release s t"
    and rel: "\<And>m. rel c = Some (l, m) \<Longrightarrow> st_of (ss_clt s c) l = L_RELEASING"
    and "keeps s rel c l"
  shows "keeps t rel c l"
proof -
  have "ss_call t c l \<noteq> RelSent m" if "ss_call s c l = NoCall" for m
    using assms(3) that by (auto simp: sends_release_def)
  then show ?thesis using lk_step_cell [OF assms(1,2), of c l] assms(5) rel
    by (auto simp: keeps_def cell_step_def)
qed

lemma locks_inv_lk:
  assumes inv: "locks_inv d" and st: "lk_step (ds_lk d) s" and nr: "\<not> sends_release (ds_lk d) s"
    and "ds_lk d' = s" "ds_rel d' = ds_rel d" "ds_cache d' = ds_cache d"
  shows "locks_inv d'"
proof -
  have i: "lk_inv (ds_lk d)" "\<And>c l m. ds_rel d c = Some (l, m) \<Longrightarrow> st_of (ss_clt (ds_lk d) c) l = L_RELEASING \<and>
      ss_call (ds_lk d) c l = NoCall \<and> seq_of (ss_clt (ds_lk d) c) l = m"
    "\<And>c l. ds_cache d c l \<noteq> None \<Longrightarrow> keeps (ds_lk d) (ds_rel d) c l"
    using inv by (auto simp: locks_inv_def)
  have "keeps s (ds_rel d) c l" if "ds_cache d c l \<noteq> None" for c l
    using keeps_step [OF st i(1) nr, of "ds_rel d" c l] i(2,3) that by blast
  moreover have "st_of (ss_clt s c) l = L_RELEASING \<and> ss_call s c l = NoCall \<and> seq_of (ss_clt s c) l = m"
    if r: "ds_rel d c = Some (l, m)" for c l m
    using lk_step_cell [OF st i(1), of c l] i(2) [OF r] nr by (auto simp: cell_step_def sends_release_def)
  ultimately show ?thesis using lk_inv_step [OF st i(1)] assms(4-6) by (auto simp: locks_inv_def)
qed

section \<open>The contents the mounts agree on\<close>

text \<open>\<open>R\<close> is the content of every extent, wherever its last version is.\<close>

definition as_ext :: "dfs \<Rightarrow> (inum \<rightharpoonup> string) \<Rightarrow> ext_sys" where
  "as_ext d R = \<lparr>es_srv = ds_srv d, es_cache = ds_cache d, es_store = R\<rparr>"

definition data_inv :: "dfs \<Rightarrow> (inum \<rightharpoonup> string) \<Rightarrow> bool" where
  "data_inv d R \<longleftrightarrow> ext_inv (as_ext d R) \<and> (\<forall>c. sized (ds_cache d c, ds_srv d))"

lemma data_inv_same:
  "data_inv d R \<Longrightarrow> ds_cache d' = ds_cache d \<Longrightarrow> ds_srv d' = ds_srv d \<Longrightarrow> data_inv d' R"
  by (simp add: data_inv_def as_ext_def)

lemma mount_sound: "data_inv d R \<Longrightarrow> sound (mount d c now)"
  by (simp add: data_inv_def ext_inv_def as_ext_def sound_def yfs_ok_def mount_def)

lemma mount_seen: "data_inv d R \<Longrightarrow> \<forall>e. e \<noteq> c \<longrightarrow> ds_cache d e i = None \<Longrightarrow> seen (mount d c now) i = R i"
  by (simp add: data_inv_def ext_inv_def as_ext_def exclusive_def seen_def mount_def)

lemma data_inv_act:
  assumes inv: "data_inv d R" and ex: "\<forall>e. e \<noteq> c \<longrightarrow> ds_cache d e i = None"
    and y: "sound y" and ch: "changes_only i (ds_cache d c, ds_srv d) (y_cs y)"
  shows "data_inv (put_mount c y d) (R(i := seen y i))"
proof -
  obtain k v where kv: "y_cs y = (k, v)" by force
  have "exclusive (as_ext d R) c i" using ex by (simp add: exclusive_def as_ext_def)
  then have "ext_inv ((as_ext d R)\<lparr>es_cache := (es_cache (as_ext d R))(c := k), es_srv := v, es_store := R(i := seen y i)\<rparr>)"
    using inv ch y kv
    by (intro ext_inv_step [where eid = i]) (auto simp: data_inv_def as_ext_def sound_def yfs_ok_def seen_def)
  then have "ext_inv (as_ext (put_mount c y d) (R(i := seen y i)))"
    using kv by (simp add: as_ext_def put_mount_def)
  moreover have "sized (ds_cache (put_mount c y d) e, ds_srv (put_mount c y d))" for e
    using inv y kv by (auto simp: data_inv_def sound_def put_mount_def sized_def)
  ultimately show ?thesis by (simp add: data_inv_def)
qed

lemma flush_sized: "sized cs \<Longrightarrow> sized (fst (client_flush now eid cs))"
proof -
  assume s: "sized cs"
  obtain cache srv where cs: "cs = (cache, srv)" by force
  have "sizes_ok (fst (extent_put now eid t srv))" "sizes_ok (fst (extent_remove eid srv))" for t
    using s cs extent_server_correct [of srv] by (auto simp: sized_def)
  then show ?thesis using s unfolding cs
    by (auto simp: client_flush_def sized_def split_def Let_def split: option.splits if_splits)
qed

lemma dorelease_sound:
  assumes "sound y"
  shows "sound (yfs_dorelease i y) \<and> seen (yfs_dorelease i y) = seen y \<and>
    changes_only i (y_cs y) (y_cs (yfs_dorelease i y)) \<and> fst (y_cs (yfs_dorelease i y)) = (fst (y_cs y))(i := None)"
proof -
  have ok: "cache_ok (y_cs y)" "sized (y_cs y)" using assms by (simp_all add: sound_def yfs_ok_def)
  have "view (fst (client_flush (y_now y) i (y_cs y))) = view (y_cs y)"
    using cache_views [of "fst (y_cs y)" "snd (y_cs y)"] ok(1) by (metis prod.collapse)
  then show ?thesis
    using flush_cache_ok [OF ok(1)] flush_sized [OF ok(2)] flush_frame [where eid = i and cs = "y_cs y" and now = "y_now y"]
    by (simp add: yfs_dorelease_def sound_def yfs_ok_def seen_def)
qed

section \<open>What the handlers have done so far\<close>

text \<open>
  \<open>S\<close> is the content after the settled requests.  A handler under way has changed only extents it holds,
  and however the others change the rest before it is settled, its steps so far and those to come make up
  its transaction.
\<close>

definition holding :: "dfs \<Rightarrow> int \<Rightarrow> inum set" where
  "holding d c = {i. ss_hold (ds_lk d) c i \<noteq> 0}"

fun phase_inv :: "(int \<times> fs_request \<times> reply res) list \<Rightarrow> (inum \<rightharpoonup> string) \<Rightarrow> (inum \<rightharpoonup> string) \<Rightarrow>
    int \<Rightarrow> inum set \<Rightarrow> mount_phase \<Rightarrow> bool" where
  "phase_inv L R S c H (Busy rq p) \<longleftrightarrow> two_phase p H \<and>
     (\<forall>X S' r. (\<forall>i \<in> H. X i = S i) \<longrightarrow> may p (override_on X R H) S' r \<longrightarrow> may (prog_of rq) X S' r)"
| "phase_inv L R S c H (Closing rq is r) \<longleftrightarrow> distinct is \<and> set is = H \<and> last_entry L c rq r"
| "phase_inv L R S c H ph \<longleftrightarrow> H = {}"

lemma override_on_cong: "(\<And>i. i \<in> H \<Longrightarrow> R' i = R i) \<Longrightarrow> override_on X R' H = override_on X R H"
  by (auto simp: override_on_def fun_eq_iff)

lemma phase_inv_frame:
  assumes "phase_inv L R S c H ph" and "\<And>i. i \<in> H \<Longrightarrow> R' i = R i"
    and "\<And>i. is_busy ph \<Longrightarrow> i \<in> H \<Longrightarrow> S' i = S i" and "\<And>rq r. last_entry L c rq r \<Longrightarrow> last_entry L' c rq r"
  shows "phase_inv L' R' S' c H ph"
proof -
  have o: "override_on X R' H = override_on X R H" for X using override_on_cong assms(2) by blast
  show ?thesis using assms(1,3,4) by (cases ph) (auto simp: o)
qed

definition runs_inv :: "(inum \<rightharpoonup> string) \<Rightarrow> dfs \<Rightarrow> (inum \<rightharpoonup> string) \<Rightarrow> (inum \<rightharpoonup> string) \<Rightarrow> bool" where
  "runs_inv S0 d R S \<longleftrightarrow> log_may S0 (ds_log d) S \<and>
     (\<forall>i. (\<forall>c. is_busy (ds_run d c) \<longrightarrow> i \<notin> holding d c) \<longrightarrow> R i = S i) \<and>
     (\<forall>c. phase_inv (ds_log d) R S c (holding d c) (ds_run d c))"

definition dfs_inv :: "(inum \<rightharpoonup> string) \<Rightarrow> dfs \<Rightarrow> (inum \<rightharpoonup> string) \<Rightarrow> (inum \<rightharpoonup> string) \<Rightarrow> bool" where
  "dfs_inv S0 d R S \<longleftrightarrow> locks_inv d \<and> data_inv d R \<and> runs_inv S0 d R S"

lemma holding_disjoint: "locks_inv d \<Longrightarrow> i \<in> holding d c \<Longrightarrow> e \<noteq> c \<Longrightarrow> i \<notin> holding d e"
  using lk_inv_exclusive [of "ds_lk d" c i] by (auto simp: locks_inv_def holding_def)

lemma runs_inv_same:
  assumes "runs_inv S0 d R S" and "ss_hold (ds_lk d') = ss_hold (ds_lk d)" and "ds_run d' = ds_run d"
    and "ds_log d' = ds_log d"
  shows "runs_inv S0 d' R S"
proof -
  have "holding d' = holding d" using assms(2) by (simp add: holding_def fun_eq_iff)
  then show ?thesis using assms by (simp add: runs_inv_def)
qed

text \<open>A mount moves on; the others keep what they hold.\<close>

lemma runs_inv_move:
  assumes inv: "runs_inv S0 d R S" and run: "ds_run d' = (ds_run d)(c := ph)"
    and h: "\<And>e. e \<noteq> c \<Longrightarrow> holding d' e = holding d e" and log: "log_may S0 (ds_log d') S'"
    and R: "\<And>e i. e \<noteq> c \<Longrightarrow> i \<in> holding d e \<Longrightarrow> R' i = R i"
    and S: "\<And>e i. e \<noteq> c \<Longrightarrow> i \<in> holding d e \<Longrightarrow> S' i = S i"
    and L: "\<And>e rq r. e \<noteq> c \<Longrightarrow> last_entry (ds_log d) e rq r \<Longrightarrow> last_entry (ds_log d') e rq r"
    and c: "phase_inv (ds_log d') R' S' c (holding d' c) ph"
    and free: "\<And>i. \<forall>e. e \<noteq> c \<longrightarrow> is_busy (ds_run d e) \<longrightarrow> i \<notin> holding d e \<Longrightarrow> is_busy ph \<longrightarrow> i \<notin> holding d' c \<Longrightarrow> R' i = S' i"
  shows "runs_inv S0 d' R' S'"
proof -
  have "phase_inv (ds_log d') R' S' e (holding d' e) (ds_run d' e)" for e
  proof (cases "e = c")
    case False
    have "phase_inv (ds_log d) R S e (holding d e) (ds_run d e)" using inv by (simp add: runs_inv_def)
    then have "phase_inv (ds_log d') R' S' e (holding d e) (ds_run d e)"
      by (rule phase_inv_frame) (use R S L False in blast)+
    then show ?thesis using False h run by simp
  qed (use c run in simp)
  moreover have "R' i = S' i" if "\<forall>e. is_busy (ds_run d' e) \<longrightarrow> i \<notin> holding d' e" for i
    using free [of i] that run h by (metis fun_upd_other fun_upd_same)
  ultimately show ?thesis using log by (simp add: runs_inv_def)
qed

section \<open>Every step keeps the invariant\<close>

text \<open>A handler uses an extent: it holds the lock, so no other mount has the extent in its cache.\<close>

lemma dfs_inv_use:
  assumes inv: "dfs_inv S0 d R S" and run: "ds_run d c = Busy rq p"
    and act: "prog_act p (mount d c now) = Some (i, y, p')"
  shows "dfs_inv S0 ((put_mount c y d)\<lparr>ds_run := (ds_run d)(c := Busy rq p')\<rparr>) (R(i := seen y i)) S"
    (is "dfs_inv S0 ?d ?R S")
proof -
  note I = inv [unfolded dfs_inv_def]
  have ph: "phase_inv (ds_log d) R S c (holding d c) (Busy rq p)" using I run by (metis runs_inv_def)
  then have two: "i \<in> holding d c" "two_phase p' (holding d c)" using act_two_phase [OF _ act] by auto
  have keep: "keeps (ds_lk d) (ds_rel d) c i"
    using I two(1) held_keeps by (auto simp: holding_def locks_inv_def)
  have ex: "\<forall>e. e \<noteq> c \<longrightarrow> ds_cache d e i = None" using keeps_exclusive [OF _ keep] I by blast
  have seen: "seen (mount d c now) i = R i" using mount_seen [OF _ ex] I by blast
  have step: "sound y" "\<And>X S r. X i = R i \<Longrightarrow> may p' (X(i := seen y i)) S r \<Longrightarrow> may p X S r"
    using prog_act_may [OF mount_sound act] I seen by auto
  have frame: "changes_only i (ds_cache d c, ds_srv d) (y_cs y)"
    using prog_act_frame [OF act] by (simp add: mount_def)
  then have "\<And>l. l \<noteq> i \<Longrightarrow> fst (y_cs y) l = ds_cache d c l" by (simp add: changes_only_def)
  then have locks: "locks_inv ?d" using I keep by (auto simp: locks_inv_def put_mount_def) metis
  have data: "data_inv ?d ?R"
    by (rule data_inv_same [OF data_inv_act [OF _ ex step(1) frame]]) (use I in auto)
  have held: "holding ?d = holding d" by (simp add: holding_def put_mount_def fun_eq_iff)
  have out: "j \<noteq> i" if "j \<in> holding d e" "e \<noteq> c" for e j
    using holding_disjoint [of d i c] two(1) that I by blast
  have may: "may (prog_of rq) X S' r"
    if X: "\<forall>j \<in> holding d c. X j = S j" and m: "may p' (override_on X ?R (holding d c)) S' r" for X S' r
  proof -
    have "override_on X ?R (holding d c) = (override_on X R (holding d c))(i := seen y i)"
      using two(1) by (auto simp: override_on_def fun_eq_iff)
    moreover have "override_on X R (holding d c) i = R i" using two(1) by simp
    ultimately have "may p (override_on X R (holding d c)) S' r" using step(2) m by metis
    then show ?thesis using ph X by simp
  qed
  have "runs_inv S0 ?d ?R S"
  proof (rule runs_inv_move [where d = d and R = R and S = S and c = c and ph = "Busy rq p'"])
    show "phase_inv (ds_log ?d) ?R S c (holding ?d c) (Busy rq p')"
      using two(2) may held by simp
    show "?R j = S j" if "\<forall>e. e \<noteq> c \<longrightarrow> is_busy (ds_run d e) \<longrightarrow> j \<notin> holding d e"
      "is_busy (Busy rq p') \<longrightarrow> j \<notin> holding ?d c" for j
    proof -
      have "j \<notin> holding d c" using that(2) held by simp
      then have "R j = S j" "j \<noteq> i" using that(1) I two(1) by (auto simp: runs_inv_def)
      then show ?thesis by simp
    qed
  qed (use I held out in \<open>auto simp: runs_inv_def put_mount_def\<close>)
  then show ?thesis using locks data by (simp add: dfs_inv_def)
qed

text \<open>The releaser flushes an extent: nobody holds its lock, and the content stays what it was.\<close>

lemma dfs_inv_do_release:
  assumes inv: "dfs_inv S0 d R S" and rel: "ds_rel d c = None" and call: "ss_call (ds_lk d) c l = NoCall"
    and chk: "releaser_check True l n (ss_clt (ds_lk d) c) = Inr [DoRelease l, SendRelease l m]"
  shows "dfs_inv S0 ((put_mount c (yfs_dorelease l (mount d c now)) d)\<lparr>ds_rel := (ds_rel d)(c := Some (l, m))\<rparr>) R S"
    (is "dfs_inv S0 ?d R S")
proof -
  note I = inv [unfolded dfs_inv_def]
  let ?y = "yfs_dorelease l (mount d c now)"
  have st: "st_of (ss_clt (ds_lk d) c) l = L_RELEASING" "seq_of (ss_clt (ds_lk d) c) l = m"
    using chk by (auto simp: releaser_check_def li_of_Some split: option.splits if_splits)
  then have keep: "keeps (ds_lk d) (ds_rel d) c l" using rel call by (simp add: keeps_def)
  have ex: "\<forall>e. e \<noteq> c \<longrightarrow> ds_cache d e l = None" using keeps_exclusive [OF _ keep] I by blast
  have y: "sound ?y" "seen ?y = seen (mount d c now)" "changes_only l (ds_cache d c, ds_srv d) (y_cs ?y)"
    "fst (y_cs ?y) = (ds_cache d c)(l := None)"
    using dorelease_sound [OF mount_sound, where i = l] I by (auto simp: mount_def)
  have "data_inv (put_mount c ?y d) (R(l := seen ?y l))" using data_inv_act [OF _ ex y(1,3)] I by blast
  moreover have "seen (mount d c now) l = R l" using mount_seen [OF _ ex] I by blast
  ultimately have "data_inv (put_mount c ?y d) R" using y(2) by (simp add: fun_upd_idem)
  then have data: "data_inv ?d R" by (rule data_inv_same) (simp_all add: put_mount_def)
  have "keeps (ds_lk d) ((ds_rel d)(c := Some (l, m))) e x" if "keeps (ds_lk d) (ds_rel d) e x" "(e, x) \<noteq> (c, l)" for e x
    using that by (auto simp: keeps_def)
  then have "locks_inv ?d" using I st call y(4) by (auto simp: locks_inv_def put_mount_def)
  moreover have "runs_inv S0 ?d R S"
    by (rule runs_inv_same [of S0 d]) (use I in \<open>simp_all add: put_mount_def\<close>)
  ultimately show ?thesis using data by (simp add: dfs_inv_def)
qed

lemma dfs_inv_send_release:
  assumes inv: "dfs_inv S0 d R S" and rel: "ds_rel d c = Some (l, m)"
  shows "dfs_inv S0 (d\<lparr>ds_lk := (ds_lk d)\<lparr>ss_call := upd2 (ss_call (ds_lk d)) c l (RelSent m)\<rparr>,
      ds_rel := (ds_rel d)(c := None)\<rparr>) R S" (is "dfs_inv S0 ?d R S")
proof -
  note I = inv [unfolded dfs_inv_def]
  let ?s = "ds_lk d"
  have lk: "lk_inv ?s" and st: "st_of (ss_clt ?s c) l = L_RELEASING" "ss_call ?s c l = NoCall"
    "seq_of (ss_clt ?s c) l = m"
    using I rel by (auto simp: locks_inv_def)
  have "lk_inv (?s\<lparr>ss_clt := (ss_clt ?s)(c := ss_clt ?s c), ss_call := upd2 (ss_call ?s) c l (RelSent m),
      ss_hold := upd2 (ss_hold ?s) c l (ss_hold ?s c l)\<rparr>)"
    using cell_at [OF lk, of c l] st by (intro lk_inv_client [OF lk]) (auto simp: cell_ok_def)
  then have lk': "lk_inv (?s\<lparr>ss_call := upd2 (ss_call ?s) c l (RelSent m)\<rparr>)" by (simp add: upd2_same)
  have "\<not> keeps ?s (ds_rel d) c l" using st rel by (simp add: keeps_def)
  then have "ds_cache d c l = None" using I by (metis locks_inv_def)
  then have "keeps (ds_lk ?d) (ds_rel ?d) e x" if "ds_cache d e x \<noteq> None" for e x
  proof -
    have "keeps ?s (ds_rel d) e x" using I that by (metis locks_inv_def)
    moreover have "(e, x) \<noteq> (c, l)" using that \<open>ds_cache d c l = None\<close> by auto
    ultimately show ?thesis by (auto simp: keeps_def)
  qed
  moreover have "st_of (ss_clt ?s e) x = L_RELEASING \<and> ss_call (ds_lk ?d) e x = NoCall \<and> seq_of (ss_clt ?s e) x = n"
    if "ds_rel ?d e = Some (x, n)" for e x n
    using that I by (auto simp: locks_inv_def split: if_splits)
  ultimately have "locks_inv ?d" using lk' by (simp add: locks_inv_def)
  moreover have "data_inv ?d R" using I by (auto intro: data_inv_same)
  moreover have "runs_inv S0 ?d R S" by (rule runs_inv_same [of S0 d]) (use I in simp_all)
  ultimately show ?thesis by (simp add: dfs_inv_def)
qed

text \<open>A step of the lock service alone, and a mount that takes a request or replies.\<close>

lemma dfs_inv_service:
  assumes inv: "dfs_inv S0 d R S" and "lk_step (ds_lk d) s" "ss_hold s = ss_hold (ds_lk d)" "\<not> sends_release (ds_lk d) s"
  shows "dfs_inv S0 (d\<lparr>ds_lk := s\<rparr>) R S"
proof -
  have "locks_inv (d\<lparr>ds_lk := s\<rparr>)" using inv locks_inv_lk [OF _ assms(2,4)] by (simp add: dfs_inv_def)
  moreover have "data_inv (d\<lparr>ds_lk := s\<rparr>) R" by (rule data_inv_same [of d]) (use inv in \<open>simp_all add: dfs_inv_def\<close>)
  moreover have "runs_inv S0 (d\<lparr>ds_lk := s\<rparr>) R S"
    by (rule runs_inv_same [of S0 d]) (use inv assms(3) in \<open>simp_all add: dfs_inv_def\<close>)
  ultimately show ?thesis by (simp add: dfs_inv_def)
qed

text \<open>A mount moves on without changing any content.\<close>

lemma runs_inv_move_same:
  assumes inv: "runs_inv S0 d R S" and "ds_run d' = (ds_run d)(c := ph)" and "ds_log d' = ds_log d"
    and "\<And>e. e \<noteq> c \<Longrightarrow> holding d' e = holding d e" and "phase_inv (ds_log d) R S c (holding d' c) ph"
    and "\<And>i. \<forall>e. e \<noteq> c \<longrightarrow> is_busy (ds_run d e) \<longrightarrow> i \<notin> holding d e \<Longrightarrow> is_busy ph \<longrightarrow> i \<notin> holding d' c \<Longrightarrow> R i = S i"
  shows "runs_inv S0 d' R S"
proof (rule runs_inv_move [OF inv assms(2)])
  show "log_may S0 (ds_log d') S" using inv assms(3) by (simp add: runs_inv_def)
  show "phase_inv (ds_log d') R S c (holding d' c) ph" using assms(3,5) by simp
qed (use assms(3,4,6) in simp_all)

lemma dfs_inv_run:
  assumes inv: "dfs_inv S0 d R S"
    and runs: "runs_inv S0 (d\<lparr>ds_run := f, ds_log := L\<rparr>) R S'"
  shows "dfs_inv S0 (d\<lparr>ds_run := f, ds_log := L\<rparr>) R S'"
  using inv runs by (simp add: dfs_inv_def locks_inv_def data_inv_def as_ext_def)

lemma dfs_inv_idle:
  assumes inv: "dfs_inv S0 d R S" and "\<not> is_busy (ds_run d c)"
    and c: "phase_inv (ds_log d) R S c (holding d c) ph" and H: "is_busy ph \<longrightarrow> holding d c = {}"
  shows "dfs_inv S0 (d\<lparr>ds_run := (ds_run d)(c := ph)\<rparr>) R S" (is "dfs_inv S0 ?d R S")
proof -
  note I = inv [unfolded dfs_inv_def]
  have h: "holding ?d = holding d" by (simp add: holding_def fun_eq_iff)
  have free: "R j = S j" if "\<forall>e. e \<noteq> c \<longrightarrow> is_busy (ds_run d e) \<longrightarrow> j \<notin> holding d e" for j
    using that I assms(2) by (metis runs_inv_def)
  have "runs_inv S0 ?d R S"
    by (rule runs_inv_move_same [where d = d and c = c and ph = ph]) (use I c h free in simp_all)
  then show ?thesis using dfs_inv_run [OF inv, where f = "(ds_run d)(c := ph)" and L = "ds_log d" and S' = S] by simp
qed

text \<open>A handler is granted a lock: nobody else is under way with that extent, so its content is settled.\<close>

lemma dfs_inv_lock:
  assumes inv: "dfs_inv S0 d R S" and run: "ds_run d c = Busy rq (Lock i p)" and lk: "lk_step (ds_lk d) s"
    and h: "ss_hold s = upd2 (ss_hold (ds_lk d)) c i (ss_hold (ds_lk d) c i + 1)"
  shows "dfs_inv S0 (d\<lparr>ds_lk := s, ds_run := (ds_run d)(c := Busy rq p)\<rparr>) R S" (is "dfs_inv S0 ?d R S")
proof -
  note I = inv [unfolded dfs_inv_def]
  have "ss_hold s c i \<noteq> ss_hold (ds_lk d) c i" using h by simp
  then have locks: "locks_inv ?d" using hold_sends_no_release [OF lk] locks_inv_lk [OF _ lk] I by force
  then have "lk_inv s" by (simp add: locks_inv_def)
  then have x: "ss_hold s c i = 1" "\<And>e. e \<noteq> c \<Longrightarrow> ss_hold s e i = 0"
    using lk_inv_exclusive [of s c i] h by auto
  then have new: "i \<notin> holding d c" "\<And>e. e \<noteq> c \<Longrightarrow> i \<notin> holding d e" using h by (auto simp: holding_def)
  have held: "holding ?d c = insert i (holding d c)" "\<And>e. e \<noteq> c \<Longrightarrow> holding ?d e = holding d e"
    using h by (auto simp: holding_def)
  have "i \<notin> holding d e" for e using new by (cases "e = c") simp_all
  then have Ri: "R i = S i" using I by (simp add: runs_inv_def)
  have ph: "phase_inv (ds_log d) R S c (holding d c) (Busy rq (Lock i p))" using I run by (metis runs_inv_def)
  have may: "may (prog_of rq) X S' r"
    if X: "\<forall>j \<in> insert i (holding d c). X j = S j" and m: "may p (override_on X R (insert i (holding d c))) S' r" for X S' r
  proof -
    have "override_on X R (insert i (holding d c)) = override_on X R (holding d c)"
      using X Ri by (auto simp: override_on_def fun_eq_iff)
    then show ?thesis using m X ph by simp
  qed
  have free: "R j = S j" if "\<forall>e. e \<noteq> c \<longrightarrow> is_busy (ds_run d e) \<longrightarrow> j \<notin> holding d e" "j \<notin> insert i (holding d c)" for j
    using that I by (metis insert_iff runs_inv_def)
  have c: "phase_inv (ds_log d) R S c (holding ?d c) (Busy rq p)" using ph may held(1) new(1) by simp
  have "runs_inv S0 ?d R S"
    by (rule runs_inv_move_same [where d = d and c = c and ph = "Busy rq p"]) (use I held c free in simp_all)
  then show ?thesis using locks I by (auto simp: dfs_inv_def intro: data_inv_same)
qed

text \<open>A handler's reply is settled: what it did becomes the content for all.\<close>

lemma dfs_inv_settle:
  assumes inv: "dfs_inv S0 d R S" and run: "ds_run d c = Busy rq p" and cl: "closing p = Some (is, r)"
  shows "dfs_inv S0 (d\<lparr>ds_run := (ds_run d)(c := Closing rq is r), ds_log := ds_log d @ [(c, rq, r)]\<rparr>) R
    (override_on S R (holding d c))" (is "dfs_inv S0 ?d R ?S")
proof -
  note I = inv [unfolded dfs_inv_def]
  have ph: "phase_inv (ds_log d) R S c (holding d c) (Busy rq p)" using I run by (metis runs_inv_def)
  then have "may (prog_of rq) S ?S r" using closing_may [OF cl, of ?S] by simp
  then have log: "log_may S0 (ds_log ?d) ?S" using I log_may_append [of S0 "ds_log d" S rq ?S r c] by (simp add: runs_inv_def)
  have held: "holding ?d = holding d" by (simp add: holding_def fun_eq_iff)
  have other: "?S j = S j" if "e \<noteq> c" "j \<in> holding d e" for e j
    using holding_disjoint [of d j e c] that I by auto
  have free: "R j = ?S j" if "\<forall>e. e \<noteq> c \<longrightarrow> is_busy (ds_run d e) \<longrightarrow> j \<notin> holding d e" for j
  proof (cases "j \<in> holding d c")
    case False
    then have "R j = S j" using that I by (metis runs_inv_def)
    then show ?thesis using False by simp
  qed simp
  have c: "distinct is \<and> set is = holding d c" using closing_two_phase [OF _ cl] ph by auto
  have "runs_inv S0 ?d R ?S"
    by (rule runs_inv_move [where d = d and c = c and ph = "Closing rq is r" and R = R and S = S])
      (use I log held other free c last_entry_append in simp_all)
  then show ?thesis using dfs_inv_run [OF inv] by blast
qed

lemma dfs_inv_unlock:
  assumes inv: "dfs_inv S0 d R S" and run: "ds_run d c = Closing rq (i # is) r" and lk: "lk_step (ds_lk d) s"
    and h: "ss_hold (ds_lk d) c i = Suc h" "ss_hold s = upd2 (ss_hold (ds_lk d)) c i h"
  shows "dfs_inv S0 (d\<lparr>ds_lk := s, ds_run := (ds_run d)(c := Closing rq is r)\<rparr>) R S" (is "dfs_inv S0 ?d R S")
proof -
  note I = inv [unfolded dfs_inv_def]
  have "ss_hold s c i \<noteq> ss_hold (ds_lk d) c i" using h by simp
  then have locks: "locks_inv ?d" using hold_sends_no_release [OF lk] locks_inv_lk [OF _ lk] I by force
  have "ss_hold (ds_lk d) c i = 1"
    using lk_inv_exclusive [of "ds_lk d" c i] h(1) I by (auto simp: locks_inv_def)
  then have held: "holding ?d c = holding d c - {i}" "\<And>e. e \<noteq> c \<Longrightarrow> holding ?d e = holding d e"
    using h by (auto simp: holding_def)
  have ph: "phase_inv (ds_log d) R S c (holding d c) (Closing rq (i # is) r)" using I run by (metis runs_inv_def)
  then have c: "phase_inv (ds_log d) R S c (holding ?d c) (Closing rq is r)" using held(1) by auto
  have free: "R j = S j" if "\<forall>e. e \<noteq> c \<longrightarrow> is_busy (ds_run d e) \<longrightarrow> j \<notin> holding d e" for j
    using that I run by (metis is_busy.simps(3) runs_inv_def)
  have "runs_inv S0 ?d R S"
    by (rule runs_inv_move_same [where d = d and c = c and ph = "Closing rq is r"]) (use I c held free in simp_all)
  then show ?thesis using locks I by (auto simp: dfs_inv_def intro: data_inv_same)
qed

lemma dfs_inv_step: "dfs_step d d' \<Longrightarrow> dfs_inv S0 d R S \<Longrightarrow> \<exists>R' S'. dfs_inv S0 d' R' S'"
proof (induction rule: dfs_step.induct)
  case (ask d c rq)
  then have "holding d c = {}" by (metis dfs_inv_def phase_inv.simps(3) runs_inv_def)
  then have "phase_inv (ds_log d) R S c (holding d c) (Busy rq (prog_of rq))" using handlers_two_phase by simp
  from dfs_inv_idle [OF ask.prems _ this] show ?case using ask.hyps \<open>holding d c = {}\<close> by auto
next
  case (answer d c rq r)
  then have "holding d c = {}" by (metis dfs_inv_def list.set(1) phase_inv.simps(2) runs_inv_def)
  then have "phase_inv (ds_log d) R S c (holding d c) (if isl r then Dead else Ready)" by simp
  moreover have "\<not> is_busy (ds_run d c)" "is_busy (if isl r then Dead else Ready) \<longrightarrow> holding d c = {}"
    using answer.hyps by simp_all
  ultimately show ?case using dfs_inv_idle [OF answer.prems] by blast
qed (blast intro: dfs_inv_service dfs_inv_do_release dfs_inv_send_release dfs_inv_lock dfs_inv_use
    dfs_inv_settle dfs_inv_unlock)+

lemma dfs_inv_init: "sizes_ok srv \<Longrightarrow> dfs_inv (content srv) (dfs_init srv) (content srv) (content srv)"
  using ext_reach_inv [OF ext_reach.init [of srv]] lk_inv_init
  by (auto simp: dfs_inv_def dfs_init_def locks_inv_def data_inv_def as_ext_def runs_inv_def holding_def sized_def lk_init_def)

lemma dfs_reach_inv: "dfs_reach srv d \<Longrightarrow> sizes_ok srv \<Longrightarrow> \<exists>R S. dfs_inv (content srv) d R S"
  by (induction rule: dfs_reach.induct) (blast intro: dfs_inv_init, blast dest: dfs_inv_step)

section \<open>Many mounts are one\<close>


section \<open>A handler that waits for itself\<close>

text \<open>A mount whose handler asks for a lock it holds already never replies again.\<close>

definition stuck :: "dfs \<Rightarrow> int \<Rightarrow> bool" where
  "stuck d c \<longleftrightarrow> (\<exists>rq i p. ds_run d c = Busy rq (Lock i p) \<and> ss_hold (ds_lk d) c i \<noteq> 0)"

lemma stuck_stays:
  assumes "dfs_step d d'" and inv: "dfs_inv S0 d R S" and st: "stuck d c"
  shows "stuck d' c \<and> ds_run d' c = ds_run d c"
proof -
  obtain rq i p where run: "ds_run d c = Busy rq (Lock i p)" and h: "ss_hold (ds_lk d) c i \<noteq> 0"
    using st by (auto simp: stuck_def)
  have "ds_run d' c = ds_run d c \<and> ss_hold (ds_lk d') c i = ss_hold (ds_lk d) c i"
    using assms(1)
  proof cases
    case (lock c' rq' i' p' s)
    have "lk_inv s" using inv lk_inv_step [OF lock(3)] by (simp add: dfs_inv_def locks_inv_def)
    then have "ss_hold s c' i' = 1" using lk_inv_exclusive [of s c' i'] lock(4) by simp
    then have "ss_hold (ds_lk d) c' i' = 0" using lock(4) by simp
    then have "c' \<noteq> c" using run h lock(2) by auto
    then show ?thesis using lock(1,4) by simp
  next
    case (unlock c' rq' i' js r s h')
    then have "c' \<noteq> c" using run by auto
    then show ?thesis using unlock(1,5) by simp
  qed (use run in \<open>auto simp: put_mount_def\<close>)
  then show ?thesis using run h by (auto simp: stuck_def)
qed

lemma stuck_for_good:
  assumes "dfs_step\<^sup>*\<^sup>* d d'" and "dfs_inv S0 d R S" and "stuck d c"
  shows "ds_run d' c = ds_run d c"
proof -
  have "(\<exists>R S. dfs_inv S0 d' R S) \<and> stuck d' c \<and> ds_run d' c = ds_run d c"
    using assms(1)
  proof (induction rule: rtranclp_induct)
    case (step d1 d2)
    then show ?case using stuck_stays [of d1 d2 S0] dfs_inv_step by metis
  qed (use assms(2,3) in blast)
  then show ?thesis by blast
qed

section \<open>Examples\<close>

definition ex_dfs :: "lk_sys \<Rightarrow> mount_phase \<Rightarrow> dfs" where
  "ex_dfs s ph = \<lparr>ds_lk = s, ds_srv = Map.empty, ds_cache = \<lambda>_. Map.empty, ds_rel = \<lambda>_. None,
     ds_run = (\<lambda>_. Ready)(2 := Busy (ReqOpen 7) (prog_of (ReqOpen 7)), 1 := ph), ds_log = []\<rparr>"

lemma dfs_reach_to: "dfs_reach srv d \<Longrightarrow> dfs_step d d'' \<Longrightarrow> d'' = d' \<Longrightarrow> dfs_reach srv d'"
  using dfs_reach.step by blast

text \<open>Mount 1 is granted the first lock of a request, while mount 2 has taken another request.\<close>

lemma ex_dfs_locked:
  assumes p: "prog_of rq = Lock l p"
  shows "dfs_reach Map.empty (ex_dfs (ex_held 1 l) (Busy rq p))"
proof -
  let ?R = "dfs_reach Map.empty"
  let ?s0 = "ex_lk 1 l (lock_server_cache_new 0) lock_client_cache_new NoCall 0"
  let ?s3 = "ex_lk 1 l (ex_server 1 l) (ex_pinging l) (AcqDone LOK) 0"
  have quiet: "\<not> sends_release (ex_lk 1 l v k ph h) (ex_lk 1 l v' k' ph' h')" if "\<forall>n. ph' \<noteq> RelSent n" for v k ph h v' k' ph' h'
    using that by (auto simp: sends_release_def ex_lk_def)
  have hold: "ss_hold (ex_lk 1 l v k ph h) = upd2 (\<lambda>_ _. 0) 1 l h" for v k ph h by (simp add: ex_lk_def)
  have serve: "?R (ex_dfs t ph)" if "?R (ex_dfs s ph)" "lk_step s t" "ss_hold t = ss_hold s" "\<not> sends_release s t" for s t ph
    by (rule dfs_reach_to [OF that(1) dfs_step.service [where s = t]]) (use that(2-4) in \<open>simp_all add: ex_dfs_def\<close>)
  have "?R (ex_dfs ?s0 Ready)"
    by (rule dfs_reach_to [OF dfs_reach.init dfs_step.ask [where c = 2 and rq = "ReqOpen 7"]])
      (simp_all add: dfs_init_def ex_dfs_def ex_start [of 1 l] fun_eq_iff)
  then have "?R (ex_dfs ?s0 (Busy rq (Lock l p)))"
    by (rule dfs_reach_to [OF _ dfs_step.ask [where c = 1 and rq = rq]]) (simp_all add: ex_dfs_def p)
  then have "?R (ex_dfs ?s3 (Busy rq (Lock l p)))"
    by (intro serve [OF serve [OF serve [OF _ ex_steps(1)] ex_steps(2)] ex_steps(3)]) (simp_all add: hold quiet)
  then show "?R (ex_dfs (ex_held 1 l) (Busy rq p))"
    by (rule dfs_reach_to [OF _ dfs_step.lock [where c = 1 and rq = rq and i = l and p = p and s = "ex_held 1 l"]])
      (use ex_steps(4) [of 1 l] in \<open>simp_all add: ex_dfs_def\<close>, auto simp: ex_lk_def fun_eq_iff)
qed

text \<open>The random number for a new directory may be the number of its parent: then \<open>mkdir\<close> asks for the
  lock it holds, and the mount hangs, whatever the other mounts do.\<close>

theorem mkdir_hangs:
  "\<exists>d p. dfs_reach Map.empty d \<and> get_new_inum False 5 = 5 \<and>
    ds_run d 1 = Busy (ReqMkdir 5 ''x'' 5) (Lock 5 p) \<and>
    (\<forall>d'. dfs_step\<^sup>*\<^sup>* d d' \<longrightarrow> ds_run d' 1 = Busy (ReqMkdir 5 ''x'' 5) (Lock 5 p))"
proof -
  have n: "get_new_inum False 5 = 5" by (simp add: get_new_inum_def)
  then obtain p where p: "prog_of (ReqMkdir 5 ''x'' 5) = Lock 5 (Lock 5 p)"
    by (simp add: mkdir_prog_def isdir_def isfile_def)
  let ?d = "ex_dfs (ex_held 1 5) (Busy (ReqMkdir 5 ''x'' 5) (Lock 5 p))"
  have r: "dfs_reach Map.empty ?d" by (rule ex_dfs_locked [OF p])
  moreover have "sizes_ok Map.empty" by (simp add: sizes_ok_def)
  ultimately obtain R S where "dfs_inv (content Map.empty) ?d R S" using dfs_reach_inv by blast
  moreover have run: "ds_run ?d 1 = Busy (ReqMkdir 5 ''x'' 5) (Lock 5 p)" by (simp add: ex_dfs_def)
  then have "stuck ?d 1" by (simp add: stuck_def) (simp add: ex_dfs_def ex_lk_def)
  ultimately show ?thesis using stuck_for_good [of ?d _ _ R S 1] r run n by metis
qed

text \<open>Mount 1 writes a file: the write is settled and still only in its cache.\<close>

definition ex_i :: inum where "ex_i = 0x80000001"

definition ex_write :: fs_request where "ex_write = ReqWrite ex_i ''x'' 1 0"

lemma ex_dfs_settled:
  "\<exists>d. dfs_reach Map.empty d \<and> is_busy (ds_run d 2) \<and> ds_run d 1 = Closing ex_write [ex_i] (Inr (RWrite 1)) \<and>
    ds_log d = [(1, ex_write, Inr (RWrite 1))] \<and> ds_lk d = ex_held 1 ex_i \<and>
    (\<forall>e. e \<noteq> 1 \<longrightarrow> ds_cache d e ex_i = None) \<and> ds_srv d = Map.empty \<and> seen (mount d 1 9) ex_i = Some ''x''"
proof -
  let ?R = "dfs_reach Map.empty" and ?q = "Unlock ex_i (Ret (Inr (RWrite 1)))"
  define k where "k s = Store ex_i (write_content s 0 1 (write_bytes ''x'' 1)) ?q" for s
  have p: "prog_of ex_write = Lock ex_i (Fetch ex_i k)"
    by (simp add: ex_write_def write_prog_def k_def [abs_def] ex_i_def isfile_def)
  let ?d = "ex_dfs (ex_held 1 ex_i) (Busy ex_write (Fetch ex_i k))"
  obtain y1 where a1: "prog_act (Fetch ex_i k) (mount ?d 1 5) = Some (ex_i, y1, k [])"
    and y1: "y_cs y1 = ([ex_i \<mapsto> \<lparr>fd_attr = Attr 0 0 0 0, fd_content = [], fd_isDirty = False, fd_removed = False,
      fd_exist = False\<rparr>], Map.empty)"
    by (simp add: mount_def ex_dfs_def get_fileDir_content_def client_get_def fileGetter_def extent_get_def
        extent_getattr_def note_act_def)
  define d1 where "d1 = (put_mount 1 y1 ?d)\<lparr>ds_run := (ds_run ?d)(1 := Busy ex_write (k []))\<rparr>"
  have r1: "?R d1" unfolding d1_def
    by (rule dfs_reach.step [OF ex_dfs_locked [OF p] dfs_step.use_extent [OF _ a1]]) (simp add: ex_dfs_def)
  have wr: "write_content [] 0 1 (write_bytes ''x'' 1) = ''x''"
    by (simp add: write_content_def write_bytes_def nul_def)
  obtain y2 where a2: "prog_act (k []) (mount d1 1 5) = Some (ex_i, y2, ?q)"
    and y2: "fst (y_cs y2) ex_i = Some \<lparr>fd_attr = Attr 5 5 5 (size_u32 ''x''), fd_content = ''x'', fd_isDirty = True,
      fd_removed = False, fd_exist = True\<rparr>" "snd (y_cs y2) = Map.empty"
    by (simp add: k_def wr mount_def d1_def put_mount_def y1 yfs_put_def client_put_def note_act_def del: One_nat_def)
  define d2 where "d2 = (put_mount 1 y2 d1)\<lparr>ds_run := (ds_run d1)(1 := Busy ex_write ?q)\<rparr>"
  have r2: "?R d2" unfolding d2_def
    by (rule dfs_reach.step [OF r1 dfs_step.use_extent [OF _ a2]]) (simp add: d1_def)
  define d where "d = d2\<lparr>ds_run := (ds_run d2)(1 := Closing ex_write [ex_i] (Inr (RWrite 1))),
    ds_log := ds_log d2 @ [(1, ex_write, Inr (RWrite 1))]\<rparr>"
  have "?R d" unfolding d_def
    by (rule dfs_reach.step [OF r2 dfs_step.settle [where p = ?q]]) (simp_all add: d2_def)
  moreover have "seen (mount d 1 9) ex_i = Some ''x''"
    using y2 by (simp add: seen_def mount_def view_pair d_def d2_def put_mount_def fd_view_def)
  ultimately show ?thesis
    by (intro exI [of _ d]) (simp add: d_def d2_def d1_def put_mount_def ex_dfs_def y2(2))
qed


end
