(* ===== verification/Spec2Isabelle.thy ===== *)
theory Spec2Isabelle
  imports Prelude Timespec Marshal Protocols ThreadPool Connection Pollmgr RpcServer RpcClient RpcChannel Listener RpcCall RpcLossy RpcConcurrent
    RpcTest RpcThreads RpcTestMain NodeService
    Sockaddr Handle TextIO Paxos PaxosSafety Config ConfigViews PaxosRun Rsm RsmClient
    LockServer LockServerCache LockServerThreads LockClientCache LockSystem LockTester
    Extent ExtentService Yfs FileSystem FsTyped Uncached FsSteps DistFs
begin

text \<open>
  Verification of a distributed file system in C++: a replicated set of lock servers, an extent
  server and clients that mount the file system through FUSE.  The modelled program is the one the
  Makefile builds from the top directory and from \<open>rpc/\<close>, with \<open>LAB\<close> 7 and without
  \<open>RPC_CHECKSUMMING\<close>.

  \<^bold>\<open>The parts and how they interact.\<close>

  The RPC library.  \<open>Marshal\<close>: the write and read buffers and operators of \<open>rpc/marshall.h\<close> and
  \<open>rpc/rpc.cc\<close>; \<open>Protocols\<close>: the status codes and wire structs of the protocol headers;
  \<open>ThreadPool\<close>: the queue of \<open>rpc/fifo.h\<close> and the pool of \<open>rpc/thr_pool.cc\<close>; \<open>Connection\<close>: framing,
  callbacks and reference counts of \<open>rpc/connection.cc\<close>; \<open>Pollmgr\<close>: the poll loop and its two
  backends (\<open>rpc/pollmgr.cc\<close>); \<open>Timespec\<close>: time arithmetic; \<open>RpcServer\<close>: \<open>rpcs\<close> with its
  at-most-once window; \<open>RpcClient\<close>: \<open>rpcc\<close> with its call table and retransmission; \<open>RpcChannel\<close>:
  the client's connections (\<open>connect_to_dst\<close>, \<open>get_refconn\<close>, \<open>~rpcc\<close>); \<open>Listener\<close>: the listening
  socket and accept thread of a server; \<open>Sockaddr\<close>: addresses and \<open>make_sockaddr\<close>; \<open>RpcCall\<close>: client and
  server composed over a connection, \<open>RpcLossy\<close>: over connections that fail and are replaced,
  \<open>RpcConcurrent\<close>: with calls that overlap; \<open>RpcTest\<close>, \<open>RpcThreads\<close> and \<open>RpcTestMain\<close>: the test program
  \<open>rpc/rpctest.cc\<close> run over them: its tests, its threads under a scheduler, and its \<open>main\<close>.

  The replicated state machine.  \<open>Handle\<close>: the table of RPC clients (\<open>handle.cc\<close>); \<open>TextIO\<close>:
  the stream extractions the log and the views use; \<open>Paxos\<close>: acceptor, proposer and log
  (\<open>paxos.cc\<close>, \<open>log.cc\<close>); \<open>PaxosSafety\<close>: one instance of Paxos among many nodes; \<open>Config\<close>:
  views and heartbeats (\<open>config.cc\<close>); \<open>ConfigViews\<close>: a node over time, joining, and the views of
  an instance; \<open>PaxosRun\<close>: runs of the proposer over a network, and several instances; \<open>Rsm\<close>: the
  choice of primaries and joining (\<open>rsm.cc\<close>); \<open>RsmClient\<close>: the client side (\<open>rsm_client.cc\<close>);
  \<open>NodeService\<close>: the lock server program \<open>lock_smain.cc\<close>, a node with all procedures it registers,
  and the programs \<open>rsm_tester.cc\<close> and \<open>lock_demo.cc\<close> that call it.
  The acceptor makes the upcall \<open>paxos_commit\<close> into the configuration module, and that
  \<open>commit_change\<close> into the state machine; calls down go the other way (\<open>joinreq\<close>, \<open>add\<close>, \<open>run\<close>).

  Locks and files.  \<open>LockServer\<close>: the plain lock server; \<open>LockServerCache\<close> and
  \<open>LockClientCache\<close>: the caching one and its client; \<open>LockServerThreads\<close>: the rounds of the server's
  two threads; \<open>LockSystem\<close>: server and clients composed;
  \<open>LockTester\<close>: the program \<open>lock_tester.cc\<close> as threads over it;
  \<open>Extent\<close>: extent server and write-back client; \<open>ExtentService\<close>: the program \<open>extent_smain.cc\<close> and the
  stubs that call it over RPC; \<open>Yfs\<close>: \<open>yfs_client.cc\<close> and the handlers of
  \<open>fuse.cc\<close>; \<open>FileSystem\<close> and \<open>FsTyped\<close>: the theorems about them; \<open>Uncached\<close>: the file system of
  \<open>lab22/\<close>, without cache and locks, as the reference for the caching one; \<open>FsSteps\<close>: the
  handlers of \<open>fuse.cc\<close> as sequences of calls; \<open>DistFs\<close>: any number of mounts with their lock and extent
  clients over one lock server and one extent server.  A file handler takes the lock of the
  i-number, works on the cached extent, and the lock client flushes it when the lock goes back.

  \<^bold>\<open>Conventions.\<close>

  A class is a record, an operation a function from the old state to the new one, and a failed
  assertion, an uncaught exception, a null dereference, an access outside allocated memory or an
  \<open>exit\<close> is an \<open>Inl\<close> of the type \<open>abort\<close>.  A method that waits or that releases its mutex to
  make a call is split there into steps (\<open>send_enter\<close> and \<open>send_leave\<close>, \<open>call1_begin\<close> and
  \<open>call1_end\<close>, \<open>joinreq_begin\<close> and \<open>joinreq_end\<close>, \<open>block_remove_begin\<close> and
  \<open>block_remove_end\<close>); concurrency is the interleaving of such steps in a step relation.  Results of
  system calls, clocks, random numbers, RPC replies and uninitialised variables are arguments.
  Machine integers are words where they can wrap.  A map read with the subscript operator creates
  its entry, and the models do so too.

  \<^bold>\<open>What the lemmas show.\<close>

  \<open>Marshal\<close>: every operator pair is a codec (locale \<open>codec\<close>, interpreted for each type and
  struct); round trips and bounds.  \<open>ThreadPool\<close>: locale \<open>bounded_queue\<close>, order of jobs and
  shutdown by a measure.  \<open>Connection\<close>: the link invariant, so that PDUs arrive as sent.
  \<open>Pollmgr\<close>: locale \<open>aio_mgr\<close>, an invariant of the select backend, and the removal handshake.
  \<open>RpcServer\<close> and \<open>RpcClient\<close>: at most once, and safe acknowledgements; a call with the default
  timeout ends within nine turns of its loop, which is the fuel used there.  \<open>RpcCall\<close>: calls of
  many clients are local method calls, and what a restarted server answers; \<open>RpcLossy\<close>: retransmission
  and the reply window together run every call once; \<open>RpcConcurrent\<close>: an invariant of all
  interleavings, so that every caller gets its own reply.  \<open>RpcTest\<close>: the single tests pass; \<open>RpcThreads\<close>: the
  threads pass under every schedule, and a count of the steps left shows that fair ones end;
  \<open>RpcTestMain\<close>: the whole program passes.  \<open>RpcChannel\<close>: reference counts are exact in every interleaving; \<open>Listener\<close>: what accepting and
  shutting down do to the connections.  \<open>LockTester\<close>: no check of its tests fails, in any interleaving.  \<open>Handle\<close>: reference
  counts equal the handles out.  \<open>Paxos\<close>: the log read back is the state that wrote it;
  \<open>PaxosSafety\<close>: agreement and validity of one instance by an invariant over promises and votes.
  \<open>Config\<close> and \<open>ConfigViews\<close>: views as text, the cached view is the logged one, joiners get the
  donor's views, views change by one node.  \<open>PaxosRun\<close>: a run that reaches a majority decides;
  and agreement of views fails when nodes work on two instances at once.  \<open>Rsm\<close>: nodes that learn
  the same views have the same primary.  \<open>NodeService\<close>: requests of other nodes over RPC are handler
  calls; what the tester does; the demo cannot work with this server.  \<open>LockSystem\<close>: mutual exclusion and freedom from aborts.
  \<open>LockServerThreads\<close>: no waiting client is forgotten.
  \<open>Extent\<close>: the cache refines the store; coherence under locks.  \<open>ExtentService\<close>: remote calls have the
  results of local ones.  \<open>FileSystem\<close>: each handler against an abstract directory or byte list.
  \<open>FsTyped\<close>: directories stay lists of entries, an invariant of all handlers together.  \<open>Uncached\<close>: with
  and without the cache the replies are the same.  \<open>FsSteps\<close>: the sequences run in one go are the handlers,
  they lock in two phases, and each is a transaction on the contents; \<open>DistFs\<close>: an invariant of all
  interleavings of handlers, lock service and flushes, so that the mounts together serve their requests as one
  mount would, one after the other; and a handler that asks for a lock its mount holds hangs.

  Bounds and fuel.  Proposal numbers are assumed not to reach \<open>2^32 - 1\<close>, views not to
  reach it where a next view is computed.  A turn of the heartbeat thread works on the members it
  starts with.  \<open>invoke\<close> of the state machine client runs over the list of turns it is given; its
  theorem says for every list whether it has returned.  Decide requests in \<open>PaxosRun\<close> may arrive
  at any later time; prepare and accept requests are answered at once there, and at any time in
  \<open>PaxosSafety\<close>.  The primary theorem is about nodes that miss no view; \<open>missed_view_aborts\<close> says what
  happens to others.

  \<^bold>\<open>Not modelled.\<close>

  The file system tests \<open>test-lab-4-b.c\<close> and \<open>test-lab-4-c.c\<close>, which go through the kernel; debug
  output, scoped locks and thread creation; mounting through the FUSE library; memory reclamation except where it can go wrong.  The system calls of
  the socket set-up and the resolver are arguments.  The replication routines of \<open>rsm.cc\<close> are stubs
  in this code and modelled as stubs.  The destructor of the caching lock client waits for a thread
  that never ends.  The directories \<open>lab22/\<close> and \<open>rr/\<close> hold earlier copies of the same files, which
  the program does not use; of them only the uncached file system of \<open>lab22/\<close> is modelled.
\<close>

end
